(* ===== verification/Prelude.thy ===== *)
theory Prelude
  imports Main "HOL-Library.Word" "HOL-Library.Monad_Syntax"
begin

text \<open>
  Shared vocabulary of the development: the widths of the C types on arm64
  (\<^verbatim>\<open>include/arch.h\<close>, the typedef block), the reading of a natural number as a 64-bit
  address, and the generic lemmas on words and lists the component theories use.

  Conventions used by every theory:
  \<^item> a pointer is a 64-bit word and \<open>NULL\<close> is \<open>0\<close>;
  \<^item> a function of the source that changes state takes the state and returns the new one;
  \<^item> an \<open>option\<close> result is \<open>None\<close> exactly where the C code does not come back to its
    caller with a defined result: it loops for ever (the \<^verbatim>\<open>assert\<close> macro of
    \<^verbatim>\<open>include/stddef.h\<close> spins in \<^verbatim>\<open>wfi\<close> when its argument is false), or it runs into
    undefined behaviour (a null or out-of-range access, a signed overflow, an oversized
    shift). Error codes such as \<open>-1\<close> and \<open>NULL\<close> are ordinary results.
\<close>

unbundle bit_operations_syntax

section \<open>Machine types\<close>

type_synonym u8 = "8 word"
type_synonym u32 = "32 word"
type_synonym u64 = "64 word"

abbreviation NULL :: u64 where
  "NULL \<equiv> 0"

abbreviation int_max :: nat where
  "int_max \<equiv> 2147483647"

section \<open>Natural numbers as addresses\<close>

text \<open>
  Address arithmetic of the proofs happens on \<open>nat\<close>: \<open>wd n\<close> is the address \<open>n\<close>. The
  rules of \<open>wd_simps\<close> move sums inside, so that a pointer expression becomes a single
  \<open>wd\<close> whose argument linear arithmetic can treat.
\<close>

definition wd :: "nat \<Rightarrow> u64" where
  "wd n = of_nat n"

named_theorems wd_simps \<open>pointer sums as sums of natural numbers\<close>

lemma wd_unat [simp]: "wd (unat a) = a"
  by (simp add: wd_def)

lemma wd_0 [simp]: "wd 0 = 0"
  by (simp add: wd_def)

lemma wd_eq_numeral: "wd (numeral k) = numeral k"
  by (simp add: wd_def)

lemma unat_wd: "n < 2 ^ 64 \<Longrightarrow> unat (wd n) = n"
  by (simp add: wd_def unat_of_nat take_bit_nat_eq_self)

lemma wd_add [wd_simps]: "wd a + wd b = wd (a + b)"
  by (simp add: wd_def)

lemma wd_add_numeral [wd_simps]: "wd a + numeral k = wd (a + numeral k)"
  by (simp add: wd_def)

lemma wd_numeral_add [wd_simps]: "numeral k + wd a = wd (a + numeral k)"
  by (simp add: wd_def)

lemma wd_add_one [wd_simps]: "wd a + 1 = wd (Suc a)"
  by (simp add: wd_def)

lemma wd_add_of_nat [wd_simps]: "wd a + of_nat i = wd (a + i)"
  by (simp add: wd_def)

lemma wd_diff: "b \<le> a \<Longrightarrow> wd a - wd b = wd (a - b)"
  by (simp add: wd_def of_nat_diff)

lemma wd_diff_numeral: "numeral k \<le> a \<Longrightarrow> wd a - numeral k = wd (a - numeral k)"
  by (metis of_nat_numeral wd_def wd_diff)

lemma wd_eq_iff: "a < 2 ^ 64 \<Longrightarrow> b < 2 ^ 64 \<Longrightarrow> wd a = wd b \<longleftrightarrow> a = b"
  by (metis unat_wd)

lemma wd_eq_0_iff: "a < 2 ^ 64 \<Longrightarrow> wd a = 0 \<longleftrightarrow> a = 0"
  using wd_eq_iff [of a 0] by simp

lemma wd_less_iff: "a < 2 ^ 64 \<Longrightarrow> b < 2 ^ 64 \<Longrightarrow> wd a < wd b \<longleftrightarrow> a < b"
  by (simp add: word_less_nat_alt unat_wd)

lemma wd_le_iff: "a < 2 ^ 64 \<Longrightarrow> b < 2 ^ 64 \<Longrightarrow> wd a \<le> wd b \<longleftrightarrow> a \<le> b"
  by (simp add: word_le_nat_alt unat_wd)

lemmas wd_cmp = wd_eq_iff wd_eq_0_iff wd_less_iff wd_le_iff

lemma unat_lt_64 [simp]: "unat (a :: u64) < 18446744073709551616"
  using unsigned_less [of a, where 'a = nat] by simp

lemma unat_wd_diff:
  assumes "a < 2 ^ 64" "x < 2 ^ 64"
  shows "unat (wd x - wd a) = (if a \<le> x then x - a else 2 ^ 64 + x - a)"
proof (cases "a \<le> x")
  case True
  with assms show ?thesis by (simp add: wd_diff unat_wd)
next
  case False
  then have "wd x - wd a = wd (2 ^ 64 + x - a)"
    using assms by (simp add: wd_def of_nat_diff)
  with False assms show ?thesis by (simp add: unat_wd)
qed

section \<open>Lists\<close>

lemma option_bind_SomeE:
  assumes "Option.bind x f = Some y"
  obtains z where "x = Some z" "f z = Some y"
  using assms by (cases x) auto

end
