(* ===== verification/Memory.thy ===== *)
theory Memory
  imports Prelude
begin

text \<open>
  The byte-addressed memory the C code reads and writes through pointers: a total function
  from 64-bit addresses to bytes, with the little-endian loads and stores of the 32-bit and
  64-bit objects the sources use. The address space wraps at \<open>2 ^ 64\<close>, as pointer
  arithmetic on arm64 does. \<open>mem_eq_on lo hi\<close> is the frame relation of the proofs.
\<close>

unbundle bit_operations_syntax

type_synonym mem = "u64 \<Rightarrow> u8"

section \<open>Loads and stores\<close>

primrec store_bytes :: "mem \<Rightarrow> u64 \<Rightarrow> u8 list \<Rightarrow> mem" where
  "store_bytes m a [] = m"
| "store_bytes m a (b # bs) = store_bytes (m(a := b)) (a + 1) bs"

definition load_bytes :: "mem \<Rightarrow> u64 \<Rightarrow> nat \<Rightarrow> u8 list" where
  "load_bytes m a n = map (\<lambda>i. m (a + of_nat i)) [0..<n]"

definition le_bytes :: "nat \<Rightarrow> 'a::len word \<Rightarrow> u8 list" where
  "le_bytes n w = map (\<lambda>i. ucast (drop_bit (8 * i) w)) [0..<n]"

definition of_le :: "u8 list \<Rightarrow> 'a::len word" where
  "of_le bs = foldr (\<lambda>b acc. push_bit 8 acc OR ucast b) bs 0"

definition load32 :: "mem \<Rightarrow> u64 \<Rightarrow> u32" where
  "load32 m a = of_le (load_bytes m a 4)"

definition store32 :: "mem \<Rightarrow> u64 \<Rightarrow> u32 \<Rightarrow> mem" where
  "store32 m a v = store_bytes m a (le_bytes 4 v)"

definition load64 :: "mem \<Rightarrow> u64 \<Rightarrow> u64" where
  "load64 m a = of_le (load_bytes m a 8)"

definition store64 :: "mem \<Rightarrow> u64 \<Rightarrow> u64 \<Rightarrow> mem" where
  "store64 m a v = store_bytes m a (le_bytes 8 v)"

definition mem_eq_on :: "nat \<Rightarrow> nat \<Rightarrow> mem \<Rightarrow> mem \<Rightarrow> bool" where
  "mem_eq_on lo hi m m' \<longleftrightarrow> (\<forall>x. lo \<le> x \<and> x < hi \<longrightarrow> m (wd x) = m' (wd x))"

section \<open>Bytes of a word\<close>

lemma length_le_bytes [simp]: "length (le_bytes n w) = n"
  by (simp add: le_bytes_def)

lemma length_load_bytes [simp]: "length (load_bytes m a n) = n"
  by (simp add: load_bytes_def)

lemma bit_of_le:
  "bit (of_le bs :: 'a::len word) k \<longleftrightarrow>
    k < LENGTH('a) \<and> k div 8 < length bs \<and> bit (bs ! (k div 8)) (k mod 8)"
proof (induction bs arbitrary: k)
  case Nil
  then show ?case by (simp add: of_le_def)
next
  case (Cons b bs)
  have eq: "of_le (b # bs) = (push_bit 8 (of_le bs) OR ucast b :: 'a word)"
    by (simp add: of_le_def)
  show ?case
  proof (cases "k < 8")
    case True
    then show ?thesis by (auto simp: eq bit_simps)
  next
    case False
    then obtain j where j: "k = j + 8" by (metis le_add_diff_inverse2 not_less)
    have "(j + 8) div 8 = Suc (j div 8)" by simp
    then show ?thesis
      using Cons.IH [of j] j by (auto simp: eq bit_simps dest: bit_imp_le_length)
  qed
qed

lemma of_le_bytes:
  assumes "LENGTH('a::len) \<le> 8 * n"
  shows "of_le (le_bytes n w) = (w :: 'a word)"
proof (rule bit_word_eqI)
  fix k assume k: "k < LENGTH('a)"
  then have "k div 8 < n" using assms by auto
  then show "bit (of_le (le_bytes n w) :: 'a word) k = bit w k"
    using k by (simp add: bit_of_le le_bytes_def bit_simps)
qed

section \<open>What a store changes\<close>

lemma store_bytes_apply:
  "length bs \<le> 2 ^ 64 \<Longrightarrow>
   store_bytes m a bs x = (if unat (x - a) < length bs then bs ! unat (x - a) else m x)"
proof (induction bs arbitrary: m a)
  case Nil
  then show ?case by simp
next
  case (Cons b bs)
  show ?case
  proof (cases "x = a")
    case True
    have "unat (x - (a + 1)) = 2 ^ 64 - 1"
      using True by (simp add: unsigned_minus_1_eq_mask mask_eq_exp_minus_1)
    with Cons True show ?thesis by simp
  next
    case False
    then have nz: "x - a \<noteq> 0" by simp
    define k where "k = unat (x - (a + 1))"
    have "k = unat (x - a) - 1"
      unfolding k_def diff_diff_eq [symmetric] using nz by (rule unat_minus_one)
    moreover have "0 < unat (x - a)" using nz by (simp add: unat_gt_0)
    ultimately have k: "unat (x - a) = Suc k" by simp
    have "length bs \<le> 2 ^ 64" using Cons.prems by simp
    then have "store_bytes (m(a := b)) (a + 1) bs x =
        (if k < length bs then bs ! k else (m(a := b)) x)"
      unfolding k_def by (rule Cons.IH)
    with k False show ?thesis by simp
  qed
qed

lemma store_bytes_wd:
  assumes "a + length bs \<le> 2 ^ 64" "x < 2 ^ 64"
  shows "store_bytes m (wd a) bs (wd x) =
    (if a \<le> x \<and> x < a + length bs then bs ! (x - a) else m (wd x))"
proof (cases "bs = []")
  case False
  with assms have "a < 2 ^ 64" by (cases bs) auto
  with assms show ?thesis by (auto simp: store_bytes_apply unat_wd_diff)
qed auto

lemma load_bytes_store_bytes [simp]:
  "length bs \<le> 2 ^ 32 \<Longrightarrow> load_bytes (store_bytes m a bs) a (length bs) = bs"
  by (rule nth_equalityI)
    (auto simp: load_bytes_def store_bytes_apply unat_of_nat take_bit_nat_eq_self)

lemma load_store32 [simp]: "load32 (store32 m a v) a = v"
  using load_bytes_store_bytes [of "le_bytes 4 v" m a]
  by (simp add: load32_def store32_def of_le_bytes)

lemma load_store64 [simp]: "load64 (store64 m a v) a = v"
  using load_bytes_store_bytes [of "le_bytes 8 v" m a]
  by (simp add: load64_def store64_def of_le_bytes)

section \<open>Frames\<close>

lemma mem_eq_on_refl [simp]: "mem_eq_on lo hi m m"
  by (simp add: mem_eq_on_def)

lemma mem_eq_on_sym: "mem_eq_on lo hi m m' \<Longrightarrow> mem_eq_on lo hi m' m"
  by (simp add: mem_eq_on_def)

lemma mem_eq_on_trans [trans]:
  "mem_eq_on lo hi m m' \<Longrightarrow> mem_eq_on lo hi m' m'' \<Longrightarrow> mem_eq_on lo hi m m''"
  by (simp add: mem_eq_on_def)

lemma mem_eq_on_mono:
  "mem_eq_on lo hi m m' \<Longrightarrow> lo \<le> lo' \<Longrightarrow> hi' \<le> hi \<Longrightarrow> mem_eq_on lo' hi' m m'"
  by (simp add: mem_eq_on_def)

lemma load_bytes_cong:
  "mem_eq_on a (a + n) m m' \<Longrightarrow> load_bytes m (wd a) n = load_bytes m' (wd a) n"
  by (simp add: load_bytes_def mem_eq_on_def wd_simps)

lemma load32_cong: "mem_eq_on a (a + 4) m m' \<Longrightarrow> load32 m (wd a) = load32 m' (wd a)"
  by (simp add: load32_def load_bytes_cong)

lemma load64_cong: "mem_eq_on a (a + 8) m m' \<Longrightarrow> load64 m (wd a) = load64 m' (wd a)"
  by (simp add: load64_def load_bytes_cong)

lemma store_bytes_frame:
  "a + length bs \<le> 2 ^ 64 \<Longrightarrow> hi \<le> 2 ^ 64 \<Longrightarrow> hi \<le> a \<or> a + length bs \<le> lo \<Longrightarrow>
   mem_eq_on lo hi m (store_bytes m (wd a) bs)"
  unfolding mem_eq_on_def by (auto simp: store_bytes_wd)

lemma store32_frame:
  "a + 4 \<le> 2 ^ 64 \<Longrightarrow> hi \<le> 2 ^ 64 \<Longrightarrow> hi \<le> a \<or> a + 4 \<le> lo \<Longrightarrow>
   mem_eq_on lo hi m (store32 m (wd a) v)"
  unfolding store32_def by (rule store_bytes_frame) auto

lemma store64_frame:
  "a + 8 \<le> 2 ^ 64 \<Longrightarrow> hi \<le> 2 ^ 64 \<Longrightarrow> hi \<le> a \<or> a + 8 \<le> lo \<Longrightarrow>
   mem_eq_on lo hi m (store64 m (wd a) v)"
  unfolding store64_def by (rule store_bytes_frame) auto

lemma load32_store32_other:
  "a + 4 \<le> 2 ^ 64 \<Longrightarrow> b + 4 \<le> 2 ^ 64 \<Longrightarrow> a + 4 \<le> b \<or> b + 4 \<le> a \<Longrightarrow>
   load32 (store32 m (wd a) v) (wd b) = load32 m (wd b)"
  by (rule load32_cong, rule mem_eq_on_sym, rule store32_frame) auto

lemma load32_store64_other:
  "a + 8 \<le> 2 ^ 64 \<Longrightarrow> b + 4 \<le> 2 ^ 64 \<Longrightarrow> a + 8 \<le> b \<or> b + 4 \<le> a \<Longrightarrow>
   load32 (store64 m (wd a) v) (wd b) = load32 m (wd b)"
  by (rule load32_cong, rule mem_eq_on_sym, rule store64_frame) auto

lemma load64_store32_other:
  "a + 4 \<le> 2 ^ 64 \<Longrightarrow> b + 8 \<le> 2 ^ 64 \<Longrightarrow> a + 4 \<le> b \<or> b + 8 \<le> a \<Longrightarrow>
   load64 (store32 m (wd a) v) (wd b) = load64 m (wd b)"
  by (rule load64_cong, rule mem_eq_on_sym, rule store32_frame) auto

lemma load64_store64_other:
  "a + 8 \<le> 2 ^ 64 \<Longrightarrow> b + 8 \<le> 2 ^ 64 \<Longrightarrow> a + 8 \<le> b \<or> b + 8 \<le> a \<Longrightarrow>
   load64 (store64 m (wd a) v) (wd b) = load64 m (wd b)"
  by (rule load64_cong, rule mem_eq_on_sym, rule store64_frame) auto

lemmas load_store_other =
  load32_store32_other load32_store64_other load64_store32_other load64_store64_other

text \<open>Only the bytes from \<open>a\<close> up to \<open>e\<close> may differ.\<close>

definition frame_out :: "nat \<Rightarrow> nat \<Rightarrow> mem \<Rightarrow> mem \<Rightarrow> bool" where
  "frame_out a e m m' \<longleftrightarrow>
    (\<forall>lo hi. hi \<le> 2 ^ 64 \<longrightarrow> hi \<le> a \<or> e \<le> lo \<longrightarrow> mem_eq_on lo hi m m')"

lemma frame_outD:
  "frame_out a e m m' \<Longrightarrow> hi \<le> 2 ^ 64 \<Longrightarrow> hi \<le> a \<or> e \<le> lo \<Longrightarrow> mem_eq_on lo hi m m'"
  unfolding frame_out_def by blast

lemma frame_out_refl [simp]: "frame_out a e m m"
  by (simp add: frame_out_def)

lemma frame_out_trans:
  "frame_out a e m m' \<Longrightarrow> frame_out a e m' m'' \<Longrightarrow> frame_out a e m m''"
  unfolding frame_out_def using mem_eq_on_trans by blast

lemma frame_out_mono:
  "frame_out a e m m' \<Longrightarrow> a' \<le> a \<Longrightarrow> e \<le> e' \<Longrightarrow> frame_out a' e' m m'"
  unfolding frame_out_def by (meson le_trans)

lemma frame_outI:
  "(\<And>x. x < 2 ^ 64 \<Longrightarrow> x < a \<or> e \<le> x \<Longrightarrow> m' (wd x) = m (wd x)) \<Longrightarrow> frame_out a e m m'"
  unfolding frame_out_def mem_eq_on_def by (metis le_less_trans less_le_trans linorder_not_less order_less_le_trans)

lemma frame_out_store_bytes:
  "a \<le> x \<Longrightarrow> x + length bs \<le> e \<Longrightarrow> e \<le> 2 ^ 64 \<Longrightarrow> frame_out a e m (store_bytes m (wd x) bs)"
  unfolding frame_out_def by (intro allI impI store_bytes_frame) auto

lemma frame_out_store32:
  "a \<le> x \<Longrightarrow> x + 4 \<le> e \<Longrightarrow> e \<le> 2 ^ 64 \<Longrightarrow> frame_out a e m (store32 m (wd x) v)"
  unfolding frame_out_def by (intro allI impI store32_frame) auto

lemma frame_out_store64:
  "a \<le> x \<Longrightarrow> x + 8 \<le> e \<Longrightarrow> e \<le> 2 ^ 64 \<Longrightarrow> frame_out a e m (store64 m (wd x) v)"
  unfolding frame_out_def by (intro allI impI store64_frame) auto

end
