(* ===== verification/Cstring.thy ===== *)
theory Cstring
  imports Memory "HOL-Library.List_Lexorder"
begin

text \<open>
  \<^verbatim>\<open>include/string.h\<close>: the memory and string routines shared by kernel and user code, on
  the byte memory. \<^verbatim>\<open>char\<close> is unsigned on arm64, so characters are compared as bytes.
  Loops that count with a C \<^verbatim>\<open>int\<close> stop being defined when the count would pass
  \<^verbatim>\<open>INT_MAX\<close>; loops without a bound are partial functions. \<open>string_at m a xs\<close> says that a
  terminated string with the characters \<open>xs\<close> starts at \<open>a\<close>.
\<close>

section \<open>The routines\<close>

function memset_loop :: "mem \<Rightarrow> u64 \<Rightarrow> u8 \<Rightarrow> nat \<Rightarrow> nat \<Rightarrow> mem" where
  "memset_loop m p c i n =
    (if i < n then memset_loop (m(p + of_nat i := c)) p c (i + 1) n else m)"
  by pat_completeness auto
termination
  by (relation "measure (\<lambda>(m, p, c, i, n). n - i)") auto

definition memset :: "mem \<Rightarrow> u64 \<Rightarrow> u32 \<Rightarrow> u64 \<Rightarrow> mem" where
  "memset m s c n = memset_loop m s (ucast c) 0 (unat n)"

function memcpy_loop :: "mem \<Rightarrow> u64 \<Rightarrow> u64 \<Rightarrow> nat \<Rightarrow> nat \<Rightarrow> mem" where
  "memcpy_loop m d s i n =
    (if i < n then memcpy_loop (m(d + of_nat i := m (s + of_nat i))) d s (i + 1) n else m)"
  by pat_completeness auto
termination
  by (relation "measure (\<lambda>(m, d, s, i, n). n - i)") auto

definition memcpy :: "mem \<Rightarrow> u64 \<Rightarrow> u64 \<Rightarrow> u64 \<Rightarrow> mem" where
  "memcpy m dest src n = memcpy_loop m dest src 0 (unat n)"

function strchr_loop :: "mem \<Rightarrow> u64 \<Rightarrow> u32 \<Rightarrow> nat \<Rightarrow> u64 option" where
  "strchr_loop m s c i =
    (if m (s + of_nat i) \<noteq> 0 then
       (if ucast (m (s + of_nat i)) = c then Some (s + of_nat i)
        else if int_max \<le> i then None
        else strchr_loop m s c (i + 1))
     else Some NULL)"
  by pat_completeness auto
termination
  by (relation "measure (\<lambda>(m, s, c, i). int_max - i)") auto

definition strchr :: "mem \<Rightarrow> u64 \<Rightarrow> u32 \<Rightarrow> u64 option" where
  "strchr m s c = (if s = NULL then Some NULL else strchr_loop m s c 0)"

partial_function (option) strcmp :: "mem \<Rightarrow> u64 \<Rightarrow> u64 \<Rightarrow> int option" where
  "strcmp m s1 s2 =
    (if m s1 = 0 \<and> m s2 = 0 then Some 0
     else if m s1 = 0 \<and> m s2 \<noteq> 0 then Some (-1)
     else if m s1 \<noteq> 0 \<and> m s2 = 0 then Some 1
     else if m s1 = m s2 then strcmp m (s1 + 1) (s2 + 1)
     else if m s1 < m s2 then Some (-1)
     else Some 1)"

fun strncmp_loop :: "mem \<Rightarrow> u64 \<Rightarrow> u64 \<Rightarrow> nat \<Rightarrow> int" where
  "strncmp_loop m s1 s2 0 = 0"
| "strncmp_loop m s1 s2 (Suc n) =
    (if m s1 = 0 \<and> m s2 = 0 then 0
     else if m s1 = 0 \<and> m s2 \<noteq> 0 then -1
     else if m s1 \<noteq> 0 \<and> m s2 = 0 then 1
     else if m s1 = m s2 then strncmp_loop m (s1 + 1) (s2 + 1) n
     else if m s1 < m s2 then -1
     else 1)"

definition strncmp :: "mem \<Rightarrow> u64 \<Rightarrow> u64 \<Rightarrow> u64 \<Rightarrow> int" where
  "strncmp m s1 s2 n = strncmp_loop m s1 s2 (unat n)"

function strlen_loop :: "mem \<Rightarrow> u64 \<Rightarrow> nat \<Rightarrow> nat option" where
  "strlen_loop m s i =
    (if m (s + of_nat i) \<noteq> 0 then (if int_max \<le> i then None else strlen_loop m s (i + 1))
     else Some i)"
  by pat_completeness auto
termination
  by (relation "measure (\<lambda>(m, s, i). int_max - i)") auto

definition strlen :: "mem \<Rightarrow> u64 \<Rightarrow> u64 option" where
  "strlen m s = map_option of_nat (strlen_loop m s 0)"

partial_function (option) strcpy_loop :: "mem \<Rightarrow> u64 \<Rightarrow> u64 \<Rightarrow> u64 \<Rightarrow> mem option" where
  "strcpy_loop m dest src i =
    (if m (src + i) \<noteq> 0 then strcpy_loop (m(dest + i := m (src + i))) dest src (i + 1)
     else Some (m(dest + i := 0)))"

definition strcpy :: "mem \<Rightarrow> u64 \<Rightarrow> u64 \<Rightarrow> mem option" where
  "strcpy m dest src = strcpy_loop m dest src 0"

function strncpy_loop :: "mem \<Rightarrow> u64 \<Rightarrow> u64 \<Rightarrow> nat \<Rightarrow> nat \<Rightarrow> mem \<times> nat" where
  "strncpy_loop m dest src i n =
    (if i < n \<and> m (src + of_nat i) \<noteq> 0
     then strncpy_loop (m(dest + of_nat i := m (src + of_nat i))) dest src (i + 1) n
     else (m, i))"
  by pat_completeness auto
termination
  by (relation "measure (\<lambda>(m, dest, src, i, n). n - i)") auto

definition strncpy :: "mem \<Rightarrow> u64 \<Rightarrow> u64 \<Rightarrow> u64 \<Rightarrow> mem" where
  "strncpy m dest src n =
    (let (m, i) = strncpy_loop m dest src 0 (unat n) in memset_loop m dest 0 i (unat n))"

section \<open>Strings in memory\<close>

fun string_at :: "mem \<Rightarrow> u64 \<Rightarrow> u8 list \<Rightarrow> bool" where
  "string_at m a [] \<longleftrightarrow> m a = 0"
| "string_at m a (x # xs) \<longleftrightarrow> x \<noteq> 0 \<and> m a = x \<and> string_at m (a + 1) xs"

declare memset_loop.simps [simp del] memcpy_loop.simps [simp del] strchr_loop.simps [simp del]
  strlen_loop.simps [simp del] strncpy_loop.simps [simp del]

lemma memset_loop_eq:
  "n \<le> 2 ^ 64 \<Longrightarrow> memset_loop m p c i n =
    (\<lambda>a. if i \<le> unat (a - p) \<and> unat (a - p) < n then c else m a)"
proof (induction m p c i n rule: memset_loop.induct)
  case (1 m p c i n)
  show ?case
  proof (cases "i < n")
    case True
    have lt: "i < 2 ^ 64" using True 1 by simp
    have at: "a = p + of_nat i \<longleftrightarrow> unat (a - p) = i" for a
      using lt by (metis add.commute diff_add_cancel unat_wd wd_def wd_unat add_diff_cancel_left')
    have "memset_loop m p c i n = memset_loop (m(p + of_nat i := c)) p c (i + 1) n"
      using True by (simp add: memset_loop.simps [of m])
    also have "\<dots> = (\<lambda>a. if i + 1 \<le> unat (a - p) \<and> unat (a - p) < n then c
        else (m(p + of_nat i := c)) a)"
      using 1 True by (auto simp: fun_upd_def)
    also have "\<dots> = (\<lambda>a. if i \<le> unat (a - p) \<and> unat (a - p) < n then c else m a)"
      using True by (auto simp: fun_eq_iff at le_less_Suc_eq)
    finally show ?thesis .
  next
    case False
    then show ?thesis by (auto simp: memset_loop.simps [of m] fun_eq_iff)
  qed
qed

lemma memset_eq:
  "memset m s c n = (\<lambda>a. if unat (a - s) < unat n then ucast c else m a)"
  by (simp add: memset_def memset_loop_eq less_imp_le)

lemma strcmp_spec:
  "string_at m s1 xs \<Longrightarrow> string_at m s2 ys \<Longrightarrow>
   strcmp m s1 s2 = Some (if xs = ys then 0 else if xs < ys then -1 else 1)"
proof (induction xs arbitrary: s1 s2 ys)
  case Nil
  then show ?case by (cases ys) (simp_all add: strcmp.simps)
next
  case (Cons x xs)
  then show ?case by (cases ys) (auto simp: strcmp.simps [of m s1])
qed

lemma strncmp_loop_spec:
  "string_at m s1 xs \<Longrightarrow> string_at m s2 ys \<Longrightarrow>
   strncmp_loop m s1 s2 n =
     (if take n xs = take n ys then 0 else if take n xs < take n ys then -1 else 1)"
proof (induction n arbitrary: s1 s2 xs ys)
  case (Suc n)
  then show ?case by (cases xs; cases ys) auto
qed simp

lemma strlen_loop_spec:
  "string_at m (s + of_nat i) xs \<Longrightarrow> i + length xs \<le> int_max \<Longrightarrow>
   strlen_loop m s i = Some (i + length xs)"
proof (induction xs arbitrary: i)
  case Nil
  then show ?case by (simp add: strlen_loop.simps)
next
  case (Cons x xs)
  then show ?case
    using Cons.IH [of "Suc i"] by (simp add: strlen_loop.simps [of m s i] add_ac)
qed

lemma strchr_loop_spec:
  "string_at m (s + of_nat i) xs \<Longrightarrow> i + length xs \<le> int_max \<Longrightarrow>
   strchr_loop m s c i = Some
     (if c \<in> ucast ` set xs then s + of_nat (i + length (takeWhile (\<lambda>x. ucast x \<noteq> c) xs)) else NULL)"
proof (induction xs arbitrary: i)
  case Nil
  then show ?case by (simp add: strchr_loop.simps)
next
  case (Cons x xs)
  then show ?case
    using Cons.IH [of "Suc i"] by (auto simp: strchr_loop.simps [of m s c i] add_ac)
qed

end
