(* ===== verification/Arch.thy ===== *)
theory Arch
  imports Memory
begin

text \<open>
  The constants and address macros of \<^verbatim>\<open>include/hardware.h\<close>, \<^verbatim>\<open>include/mmu.h\<close>,
  \<^verbatim>\<open>include/memory.h\<close>, \<^verbatim>\<open>include/misc.h\<close> and \<^verbatim>\<open>include/stddef.h\<close> for the
  QEMU \<^verbatim>\<open>virt\<close> build (\<^verbatim>\<open>QEMU_VIRT\<close>, \<^verbatim>\<open>ARM64\<close>, no \<^verbatim>\<open>MMU_BY_BLOCK\<close>), the page
  order of a size, and the time conversion of \<^verbatim>\<open>kernel/misc.c\<close>.
\<close>

unbundle bit_operations_syntax

section \<open>Definitions\<close>

definition PAGE_SIZE :: u64 where
  "PAGE_SIZE = 4096"

definition VA_BITS :: nat where
  "VA_BITS = 39"

definition PAGE_OFFSET :: u64 where
  "PAGE_OFFSET = push_bit (VA_BITS - 1) 0xFFFFFFFFFFFFFFFF"

definition USER_DEVICE_MAP_START :: u64 where
  "USER_DEVICE_MAP_START = 0x100000000"

definition va :: "u64 \<Rightarrow> u64" where
  "va x = x + PAGE_OFFSET"

definition pa :: "u64 \<Rightarrow> u64" where
  "pa x = x - PAGE_OFFSET"

definition uva :: "u64 \<Rightarrow> u64" where
  "uva x = x + USER_DEVICE_MAP_START"

definition RAM_ADDR_START :: u64 where
  "RAM_ADDR_START = 0x40000000"

definition PAGE_POOL_SIZE :: u64 where
  "PAGE_POOL_SIZE = 256 * push_bit 20 1"

definition MEM_POOL_SIZE :: u64 where
  "MEM_POOL_SIZE = 512 * push_bit 20 1"

definition MEM_POOL_START :: u64 where
  "MEM_POOL_START = PAGE_OFFSET + RAM_ADDR_START + 256 * push_bit 20 1"

definition MEM_POOL_END :: u64 where
  "MEM_POOL_END = MEM_POOL_START + MEM_POOL_SIZE"

definition PAGE_POOL_START :: u64 where
  "PAGE_POOL_START = MEM_POOL_END"

definition PAGE_POOL_END :: u64 where
  "PAGE_POOL_END = PAGE_POOL_START + PAGE_POOL_SIZE"

definition is_pointer_aligned :: "u64 \<Rightarrow> u64 \<Rightarrow> bool" where
  "is_pointer_aligned p msk \<longleftrightarrow> p AND msk = p"

definition PAGE_ADDR :: "u64 \<Rightarrow> u64" where
  "PAGE_ADDR addr = addr AND NOT (PAGE_SIZE - 1)"

definition IN_PAGE_OFFSET :: "u64 \<Rightarrow> u64" where
  "IN_PAGE_OFFSET addr = addr AND (PAGE_SIZE - 1)"

definition UPPER_PAGE_ADDR :: "u64 \<Rightarrow> u64" where
  "UPPER_PAGE_ADDR addr = (addr + PAGE_SIZE - 1) AND NOT (PAGE_SIZE - 1)"

definition ALIGNED_TO_8BYTES :: "u64 \<Rightarrow> u64" where
  "ALIGNED_TO_8BYTES val = (val + 7) div 8 * 8"

function get_order_loop :: "nat \<Rightarrow> u64 \<Rightarrow> nat" where
  "get_order_loop i sz =
    (if i < 64 then (if sz \<le> push_bit i 1 * PAGE_SIZE then i else get_order_loop (i + 1) sz)
     else i)"
  by pat_completeness auto
termination
  by (relation "measure (\<lambda>(i, sz). 64 - i)") auto

definition get_order :: "u64 \<Rightarrow> nat" where
  "get_order sz = get_order_loop 0 sz"

text \<open>Page-table entry bits of \<^verbatim>\<open>include/hardware.h\<close>.\<close>

definition MT_DEVICE_NGNRNE :: u64 where "MT_DEVICE_NGNRNE = 0"

definition MT_NORMAL :: u64 where "MT_NORMAL = 4"

definition PTE_BLOCK_MEMTYPE :: "u64 \<Rightarrow> u64" where "PTE_BLOCK_MEMTYPE x = push_bit 2 x"

definition PTE_BLOCK_INNER_SHARE :: u64 where "PTE_BLOCK_INNER_SHARE = push_bit 8 3"

definition PTE_TYPE_TABLE :: u64 where "PTE_TYPE_TABLE = 3"

definition PTE_BLOCK_AF :: u64 where "PTE_BLOCK_AF = push_bit 10 1"

definition PTE_BLOCK_NG :: u64 where "PTE_BLOCK_NG = push_bit 11 1"

definition PTE_BLOCK_NON_SHARE :: u64 where "PTE_BLOCK_NON_SHARE = 0"

definition PTE_BLOCK_PXN :: u64 where "PTE_BLOCK_PXN = push_bit 53 1"

definition PTE_BLOCK_UXN :: u64 where "PTE_BLOCK_UXN = push_bit 54 1"

definition PTE_USER :: u64 where "PTE_USER = push_bit 6 1"

definition PTE_RDONLY :: u64 where "PTE_RDONLY = push_bit 7 1"

text \<open>The clock: \<^verbatim>\<open>get_timestamp\<close> splits the counter value it reads.\<close>

record timestamp =
  sec :: u64
  usec :: u64

definition CNTFRQ_EL0_VALUE :: u64 where
  "CNTFRQ_EL0_VALUE = 62500000"

definition get_timestamp :: "u64 \<Rightarrow> timestamp" where
  "get_timestamp timer_count =
    \<lparr>sec = timer_count div CNTFRQ_EL0_VALUE,
     usec = (timer_count mod CNTFRQ_EL0_VALUE) * 1000 * 1000 div CNTFRQ_EL0_VALUE\<rparr>"

section \<open>Address macros\<close>

lemma PAGE_OFFSET_val: "PAGE_OFFSET = 0xFFFFFFC000000000"
  by (simp add: PAGE_OFFSET_def VA_BITS_def push_bit_eq_mult)

lemma pool_layout:
  "MEM_POOL_START = 0xFFFFFFC050000000" "MEM_POOL_END = 0xFFFFFFC070000000"
  "PAGE_POOL_START = 0xFFFFFFC070000000" "PAGE_POOL_END = 0xFFFFFFC080000000"
  "MEM_POOL_SIZE = 0x20000000" "PAGE_POOL_SIZE = 0x10000000"
  by (simp_all add: MEM_POOL_START_def MEM_POOL_END_def PAGE_POOL_START_def PAGE_POOL_END_def
      MEM_POOL_SIZE_def PAGE_POOL_SIZE_def RAM_ADDR_START_def PAGE_OFFSET_val push_bit_eq_mult)

lemma pa_va [simp]: "pa (va x) = x"
  by (simp add: pa_def va_def)

lemma va_pa [simp]: "va (pa x) = x"
  by (simp add: pa_def va_def)

lemma page_mask: "PAGE_SIZE - 1 = mask 12"
  by (simp add: PAGE_SIZE_def mask_eq_exp_minus_1)

lemma and_not_mask_12: "(a :: u64) AND NOT (mask 12) = push_bit 12 (drop_bit 12 a)"
  by (rule bit_word_eqI) (auto simp: bit_simps)

lemma unat_and_not_mask_12: "unat ((a :: u64) AND NOT (mask 12)) = unat a div 4096 * 4096"
proof -
  have "unat a div 4096 * 4096 \<le> unat a" by (rule div_times_less_eq_dividend)
  also have "unat a < 2 ^ 64" by simp
  finally show ?thesis
    unfolding and_not_mask_12
    by (simp add: push_bit_eq_mult drop_bit_eq_div unat_word_ariths)
qed

lemma unat_PAGE_ADDR: "unat (PAGE_ADDR a) = unat a div 4096 * 4096"
  unfolding PAGE_ADDR_def page_mask by (rule unat_and_not_mask_12)

lemma unat_IN_PAGE_OFFSET: "unat (IN_PAGE_OFFSET a) = unat a mod 4096"
  unfolding IN_PAGE_OFFSET_def page_mask
  by (simp only: take_bit_eq_mask [symmetric] take_bit_eq_mod) (simp add: unat_word_ariths)

lemma unat_UPPER_PAGE_ADDR:
  assumes "unat a + 4095 < 2 ^ 64"
  shows "unat (UPPER_PAGE_ADDR a) = (unat a + 4095) div 4096 * 4096"
proof -
  have "a + PAGE_SIZE - 1 = wd (unat a + 4095)"
    using wd_diff_numeral [of "num.One" "unat a + 4096"]
    by (simp add: PAGE_SIZE_def wd_def)
  then show ?thesis
    unfolding UPPER_PAGE_ADDR_def page_mask using assms
    by (simp add: unat_and_not_mask_12 unat_wd)
qed

lemma aligned_page_iff:
  "is_pointer_aligned a (NOT (PAGE_SIZE - 1)) \<longleftrightarrow> 4096 dvd unat a"
proof -
  have "is_pointer_aligned a (NOT (PAGE_SIZE - 1)) \<longleftrightarrow> unat a div 4096 * 4096 = unat a"
    unfolding is_pointer_aligned_def page_mask
    by (metis unat_and_not_mask_12 word_unat_eq_iff)
  then show ?thesis by (metis dvd_div_mult_self dvd_triv_right)
qed

lemma unat_ALIGNED_TO_8BYTES:
  assumes "unat sz + 7 < 2 ^ 64"
  shows "unat (ALIGNED_TO_8BYTES sz) = (unat sz + 7) div 8 * 8"
proof -
  have "unat (sz + 7) = unat sz + 7"
    using assms by (simp add: unat_word_ariths)
  moreover have "(unat sz + 7) div 8 * 8 < 2 ^ 64"
    using assms by (auto intro: le_less_trans [OF div_times_less_eq_dividend])
  ultimately show ?thesis
    unfolding ALIGNED_TO_8BYTES_def by (simp add: unat_word_ariths)
qed

section \<open>The order of a size\<close>

declare get_order_loop.simps [simp del]

lemma unat_order_size:
  "i < 52 \<Longrightarrow> unat (push_bit i 1 * PAGE_SIZE) = 2 ^ i * 4096"
proof -
  assume i: "i < 52"
  then have "(2::nat) ^ i * 4096 \<le> 2 ^ 51 * 4096"
    by (intro mult_le_mono1 power_increasing) auto
  moreover have "unat ((2::u64) ^ i) = 2 ^ i"
    using i unat_wd [of "2 ^ i"] power_strict_increasing [of i 64 "2::nat"]
    by (simp add: wd_def)
  ultimately show ?thesis
    by (simp add: PAGE_SIZE_def push_bit_eq_mult unat_word_ariths)
qed

lemma get_order_loop_spec:
  assumes "i \<le> 51" "unat sz \<le> 2 ^ 63"
  shows "i \<le> get_order_loop i sz \<and> get_order_loop i sz \<le> 51 \<and>
    unat sz \<le> 2 ^ get_order_loop i sz * 4096 \<and>
    (\<forall>j. i \<le> j \<and> j < get_order_loop i sz \<longrightarrow> 2 ^ j * 4096 < unat sz)"
  using assms
proof (induction i sz rule: get_order_loop.induct)
  case (1 i sz)
  have cmp: "sz \<le> push_bit i 1 * PAGE_SIZE \<longleftrightarrow> unat sz \<le> 2 ^ i * 4096"
    using "1.prems" by (simp only: word_le_nat_alt unat_order_size)
  show ?case
  proof (cases "unat sz \<le> 2 ^ i * 4096")
    case True
    with cmp "1.prems" show ?thesis by (simp add: get_order_loop.simps [of i])
  next
    case False
    have "i \<noteq> 51" using False "1.prems" by auto
    with 1 False cmp have "Suc i \<le> get_order_loop (Suc i) sz \<and> get_order_loop (Suc i) sz \<le> 51 \<and>
      unat sz \<le> 2 ^ get_order_loop (Suc i) sz * 4096 \<and>
      (\<forall>j. Suc i \<le> j \<and> j < get_order_loop (Suc i) sz \<longrightarrow> 2 ^ j * 4096 < unat sz)"
      by simp
    moreover have "get_order_loop i sz = get_order_loop (Suc i) sz"
      using False cmp "1.prems" by (simp add: get_order_loop.simps [of i])
    ultimately show ?thesis
      using False by (metis Suc_leD Suc_leI le_neq_implies_less not_less)
  qed
qed

end
