(* ===== verification/Pages.thy ===== *)
theory Pages
  imports Cstring Arch
begin

text \<open>
  The page allocator of \<^verbatim>\<open>mm/memory.c\<close>: one byte per page in \<^verbatim>\<open>pages_usage\<close>, a first-fit
  search for a run of pages, and the release of a run. The table is a function from page
  numbers; reading or writing it outside \<open>MAX_NUM_PAGES\<close> is undefined, hence \<open>None\<close>, and so
  is a shift \<^verbatim>\<open>1 << order\<close> that leaves the range of \<^verbatim>\<open>int\<close>.
\<close>

section \<open>Definitions\<close>

type_synonym pages_usage = "nat \<Rightarrow> u8"

definition MAX_NUM_PAGES :: nat where
  "MAX_NUM_PAGES = unat PAGE_POOL_SIZE div unat PAGE_SIZE"

text \<open>The first loop of \<^verbatim>\<open>find_free_pages\<close>: the last page of the first run found.\<close>

function scan_free :: "pages_usage \<Rightarrow> nat \<Rightarrow> nat \<Rightarrow> nat \<Rightarrow> nat option" where
  "scan_free usage num free_count i =
    (if i < MAX_NUM_PAGES then
       (if usage i = 0 then
          (if free_count + 1 = num then Some i else scan_free usage num (free_count + 1) (i + 1))
        else scan_free usage num 0 (i + 1))
     else None)"
  by pat_completeness auto
termination
  by (relation "measure (\<lambda>(usage, num, fc, i). MAX_NUM_PAGES - i)") auto

declare scan_free.simps [simp del]

function mark_pages :: "pages_usage \<Rightarrow> nat \<Rightarrow> nat \<Rightarrow> pages_usage" where
  "mark_pages usage i last_page =
    (if i \<le> last_page then mark_pages (usage(i := 1)) (i + 1) last_page else usage)"
  by pat_completeness auto
termination
  by (relation "measure (\<lambda>(usage, i, l). l + 1 - i)") auto

declare mark_pages.simps [simp del]

text \<open>\<^verbatim>\<open>last_page - num + 1\<close> is computed modulo \<open>2 ^ 32\<close>, which is \<open>last_page + 1 - num\<close>.\<close>

definition find_free_pages :: "pages_usage \<Rightarrow> nat \<Rightarrow> int \<times> pages_usage" where
  "find_free_pages usage num =
    (if num = 0 then (-1, usage)
     else case scan_free usage num 0 0 of
       None \<Rightarrow> (-1, usage)
     | Some last_page \<Rightarrow>
         let first_page = last_page + 1 - num
         in (int first_page, mark_pages usage first_page last_page))"

definition get_free_pages :: "pages_usage \<Rightarrow> nat \<Rightarrow> (u64 \<times> pages_usage) option" where
  "get_free_pages usage order =
    (if 31 \<le> order then None
     else let (first_page, usage) = find_free_pages usage (2 ^ order)
       in if 0 \<le> first_page then Some (PAGE_POOL_START + PAGE_SIZE * of_int first_page, usage)
          else Some (NULL, usage))"

definition get_zeroed_pages ::
  "pages_usage \<Rightarrow> mem \<Rightarrow> nat \<Rightarrow> (u64 \<times> pages_usage \<times> mem) option" where
  "get_zeroed_pages usage m order = do {
     (pages, usage) \<leftarrow> get_free_pages usage order;
     if pages \<noteq> NULL then Some (pages, usage, memset m pages 0 (PAGE_SIZE * 2 ^ order))
     else Some (pages, usage, m) }"

function free_loop :: "pages_usage \<Rightarrow> nat \<Rightarrow> nat \<Rightarrow> nat \<Rightarrow> pages_usage option" where
  "free_loop usage first_page i num =
    (if i < num then
       (if MAX_NUM_PAGES \<le> first_page + i \<or> usage (first_page + i) \<noteq> 1 then None
        else free_loop (usage(first_page + i := 0)) first_page (i + 1) num)
     else Some usage)"
  by pat_completeness auto
termination
  by (relation "measure (\<lambda>(usage, f, i, num). num - i)") auto

declare free_loop.simps [simp del]

definition free_pages :: "pages_usage \<Rightarrow> u64 \<Rightarrow> nat \<Rightarrow> pages_usage option" where
  "free_pages usage addr order =
    (if 31 \<le> order then None
     else if addr < PAGE_POOL_START \<or> PAGE_POOL_END \<le> addr then Some usage
     else if addr AND (PAGE_SIZE - 1) \<noteq> 0 then Some usage
     else free_loop usage (unat ((addr - PAGE_POOL_START) div PAGE_SIZE)) 0 (2 ^ order))"

section \<open>Runs of pages\<close>

definition free_run :: "pages_usage \<Rightarrow> nat \<Rightarrow> nat \<Rightarrow> bool" where
  "free_run usage a n \<longleftrightarrow> (\<forall>i. a \<le> i \<and> i < a + n \<longrightarrow> usage i = 0)"

definition used_run :: "pages_usage \<Rightarrow> nat \<Rightarrow> nat \<Rightarrow> bool" where
  "used_run usage a n \<longleftrightarrow> (\<forall>i. a \<le> i \<and> i < a + n \<longrightarrow> usage i = 1)"

definition set_run :: "pages_usage \<Rightarrow> nat \<Rightarrow> nat \<Rightarrow> u8 \<Rightarrow> pages_usage" where
  "set_run usage a n v = (\<lambda>i. if a \<le> i \<and> i < a + n then v else usage i)"

definition page_addr :: "nat \<Rightarrow> u64" where
  "page_addr i = PAGE_POOL_START + PAGE_SIZE * of_nat i"

lemma MAX_NUM_PAGES_val: "MAX_NUM_PAGES = 65536"
  by (simp add: MAX_NUM_PAGES_def pool_layout PAGE_SIZE_def)

lemma mark_pages_eq: "i \<le> Suc l \<Longrightarrow> mark_pages usage i l = set_run usage i (Suc l - i) 1"
proof (induction usage i l rule: mark_pages.induct)
  case (1 usage i l)
  show ?case
  proof (cases "i \<le> l")
    case True
    then show ?thesis
      using 1 by (auto simp: mark_pages.simps [of usage] set_run_def fun_eq_iff fun_upd_def)
  next
    case False
    then show ?thesis by (auto simp: mark_pages.simps [of usage] set_run_def fun_eq_iff)
  qed
qed

lemma free_loop_eq:
  assumes "i \<le> num" "first + num \<le> MAX_NUM_PAGES"
  shows "free_loop usage first i num =
    (if used_run usage (first + i) (num - i) then Some (set_run usage (first + i) (num - i) 0) else None)"
  using assms
proof (induction usage first i num rule: free_loop.induct)
  case (1 usage first i num)
  show ?case
  proof (cases "i < num \<and> usage (first + i) = 1")
    case True
    then have "used_run (usage(first + i := 0)) (first + Suc i) (num - Suc i) \<longleftrightarrow>
        used_run usage (first + i) (num - i)"
      by (auto simp: used_run_def) (metis Suc_leI le_neq_implies_less)
    with 1 True show ?thesis
      by (auto simp: free_loop.simps [of usage] set_run_def fun_eq_iff fun_upd_def)
  next
    case False
    with 1 show ?thesis
      by (auto simp: free_loop.simps [of usage] used_run_def set_run_def)
  qed
qed

text \<open>The scan finds the lowest run that fits, or there is none.\<close>

definition no_run_below :: "pages_usage \<Rightarrow> nat \<Rightarrow> nat \<Rightarrow> bool" where
  "no_run_below usage num i \<longleftrightarrow> (\<forall>a. a + num \<le> i \<longrightarrow> \<not> free_run usage a num)"

lemma no_run_below_Suc:
  assumes "no_run_below usage num i" "k \<le> i" "usage k \<noteq> 0" "i < k + num"
  shows "no_run_below usage num (Suc i)"
  unfolding no_run_below_def
proof (intro allI impI notI)
  fix a assume a: "a + num \<le> Suc i" and run: "free_run usage a num"
  show False
  proof (cases "a + num \<le> i")
    case True
    with assms(1) run show False by (simp add: no_run_below_def)
  next
    case False
    then have "a \<le> k" "k < a + num" using a assms by auto
    then show False using run assms(3) by (auto simp: free_run_def)
  qed
qed

lemma scan_free_spec:
  assumes "fc < num" "fc \<le> i" "free_run usage (i - fc) fc" "fc = i \<or> usage (i - fc - 1) \<noteq> 0"
    "no_run_below usage num i" "i \<le> MAX_NUM_PAGES"
  shows "case scan_free usage num fc i of
      None \<Rightarrow> no_run_below usage num MAX_NUM_PAGES
    | Some l \<Rightarrow> l < MAX_NUM_PAGES \<and> num \<le> Suc l \<and> free_run usage (Suc l - num) num \<and>
        no_run_below usage num l"
  using assms
proof (induction usage num fc i rule: scan_free.induct)
  case (1 usage num fc i)
  note prems = "1.prems"
  show ?case
  proof (cases "i < MAX_NUM_PAGES")
    case False
    then show ?thesis using prems by (simp add: scan_free.simps [of usage])
  next
    case i: True
    show ?thesis
    proof (cases "usage i = 0")
      case u: True
      have run: "free_run usage (Suc i - Suc fc) (Suc fc)"
        using prems u by (auto simp: free_run_def less_Suc_eq)
      show ?thesis
      proof (cases "Suc fc = num")
        case True
        then show ?thesis using i u run prems by (auto simp: scan_free.simps [of usage])
      next
        case False
        have "no_run_below usage num (Suc i)"
        proof (cases "fc = i")
          case True
          then show ?thesis using prems False by (auto simp: no_run_below_def)
        next
          case nz: False
          show ?thesis
            by (rule no_run_below_Suc [of _ _ _ "i - fc - 1"]) (use prems False nz in auto)
        qed
        then have "case scan_free usage num (fc + 1) (i + 1) of
            None \<Rightarrow> no_run_below usage num MAX_NUM_PAGES
          | Some l \<Rightarrow> l < MAX_NUM_PAGES \<and> num \<le> Suc l \<and> free_run usage (Suc l - num) num \<and>
              no_run_below usage num l"
          using 1(1) i u False prems run by auto
        then show ?thesis using i u False by (simp add: scan_free.simps [of usage _ fc])
      qed
    next
      case u: False
      have "no_run_below usage num (Suc i)"
        by (rule no_run_below_Suc [of _ _ _ i]) (use prems u in auto)
      then have "case scan_free usage num 0 (i + 1) of
          None \<Rightarrow> no_run_below usage num MAX_NUM_PAGES
        | Some l \<Rightarrow> l < MAX_NUM_PAGES \<and> num \<le> Suc l \<and> free_run usage (Suc l - num) num \<and>
            no_run_below usage num l"
        using 1(2) i u prems by (auto simp: free_run_def)
      then show ?thesis using i u by (simp add: scan_free.simps [of usage _ fc])
    qed
  qed
qed

section \<open>Addresses of pages\<close>

lemma unat_page_addr:
  assumes "a \<le> MAX_NUM_PAGES"
  shows "unat (page_addr a) = unat PAGE_POOL_START + 4096 * a"
proof -
  have "page_addr a = wd (unat PAGE_POOL_START + 4096 * a)"
    by (simp add: page_addr_def PAGE_SIZE_def wd_def)
  moreover have "unat PAGE_POOL_START + 4096 * a < 2 ^ 64"
    using assms by (simp add: MAX_NUM_PAGES_val pool_layout)
  ultimately show ?thesis by (simp only: unat_wd)
qed

lemma page_addr_facts:
  assumes "a < MAX_NUM_PAGES"
  shows "\<not> page_addr a < PAGE_POOL_START" "\<not> PAGE_POOL_END \<le> page_addr a" "page_addr a \<noteq> NULL"
    "page_addr a AND (PAGE_SIZE - 1) = 0" "unat ((page_addr a - PAGE_POOL_START) div PAGE_SIZE) = a"
proof -
  have u: "unat (page_addr a) = unat PAGE_POOL_START + 4096 * a"
    using assms by (intro unat_page_addr) simp
  then show "\<not> page_addr a < PAGE_POOL_START" "\<not> PAGE_POOL_END \<le> page_addr a" "page_addr a \<noteq> NULL"
    using assms by (auto simp: word_less_nat_alt word_le_nat_alt pool_layout MAX_NUM_PAGES_val)
  have "unat (page_addr a AND (PAGE_SIZE - 1)) = 0"
    using unat_IN_PAGE_OFFSET [of "page_addr a"] u
    by (simp add: IN_PAGE_OFFSET_def pool_layout mod_add_eq)
  then show "page_addr a AND (PAGE_SIZE - 1) = 0" by (metis unat_eq_zero)
  have "page_addr a - PAGE_POOL_START = wd (4096 * a)"
    by (simp add: page_addr_def PAGE_SIZE_def wd_def)
  then show "unat ((page_addr a - PAGE_POOL_START) div PAGE_SIZE) = a"
    using assms by (simp add: unat_div PAGE_SIZE_def unat_wd MAX_NUM_PAGES_val)
qed

lemma page_addr_eq_iff:
  "a \<le> MAX_NUM_PAGES \<Longrightarrow> b \<le> MAX_NUM_PAGES \<Longrightarrow> page_addr a = page_addr b \<longleftrightarrow> a = b"
  by (metis add_left_cancel mult_left_cancel unat_page_addr zero_neq_numeral)

section \<open>Allocation and release\<close>

lemma find_free_pages_spec:
  assumes "0 < num"
  obtains (found) a where "find_free_pages usage num = (int a, set_run usage a num 1)"
    "a + num \<le> MAX_NUM_PAGES" "free_run usage a num"
    "\<forall>b. b + num \<le> MAX_NUM_PAGES \<and> free_run usage b num \<longrightarrow> a \<le> b"
  | (full) "find_free_pages usage num = (-1, usage)"
    "\<forall>b. b + num \<le> MAX_NUM_PAGES \<longrightarrow> \<not> free_run usage b num"
proof -
  have sp: "case scan_free usage num 0 0 of
      None \<Rightarrow> no_run_below usage num MAX_NUM_PAGES
    | Some l \<Rightarrow> l < MAX_NUM_PAGES \<and> num \<le> Suc l \<and> free_run usage (Suc l - num) num \<and>
        no_run_below usage num l"
    using assms by (intro scan_free_spec) (auto simp: free_run_def no_run_below_def)
  show thesis
  proof (cases "scan_free usage num 0 0")
    case None
    then show thesis
      using full assms sp by (simp add: find_free_pages_def no_run_below_def)
  next
    case (Some l)
    then have l: "l < MAX_NUM_PAGES" "num \<le> Suc l" "free_run usage (Suc l - num) num"
      "no_run_below usage num l"
      using sp by auto
    have "find_free_pages usage num = (int (Suc l - num), set_run usage (Suc l - num) num 1)"
      using assms Some l(2) mark_pages_eq [of "Suc l - num" l usage]
      by (simp add: find_free_pages_def Let_def)
    moreover have "Suc l - num \<le> b" if "b + num \<le> MAX_NUM_PAGES" "free_run usage b num" for b
    proof -
      have "\<not> b + num \<le> l" using l(4) that(2) by (auto simp: no_run_below_def)
      then show ?thesis by simp
    qed
    ultimately show thesis using l by (intro found [of "Suc l - num"]) simp_all
  qed
qed

lemma get_free_pages_spec:
  assumes "order < 31"
  obtains (found) a where "get_free_pages usage order = Some (page_addr a, set_run usage a (2 ^ order) 1)"
    "a + 2 ^ order \<le> MAX_NUM_PAGES" "free_run usage a (2 ^ order)" "a < MAX_NUM_PAGES"
    "\<forall>b. b + 2 ^ order \<le> MAX_NUM_PAGES \<and> free_run usage b (2 ^ order) \<longrightarrow> a \<le> b"
  | (full) "get_free_pages usage order = Some (NULL, usage)"
    "\<forall>b. b + 2 ^ order \<le> MAX_NUM_PAGES \<longrightarrow> \<not> free_run usage b (2 ^ order)"
proof -
  have "0 < (2 :: nat) ^ order" by simp
  then show thesis
  proof (cases rule: find_free_pages_spec [of "2 ^ order" usage])
    case (found a)
    then have "a < MAX_NUM_PAGES"
      using \<open>0 < (2 :: nat) ^ order\<close> by linarith
    with found assms that(1) show thesis
      by (simp add: get_free_pages_def page_addr_def)
  next
    case full
    with assms that(2) show thesis by (simp add: get_free_pages_def)
  qed
qed

lemma free_pages_run:
  assumes "order < 31" "a + 2 ^ order \<le> MAX_NUM_PAGES"
  shows "free_pages usage (page_addr a) order =
    (if used_run usage a (2 ^ order) then Some (set_run usage a (2 ^ order) 0) else None)"
proof -
  have a: "a < MAX_NUM_PAGES"
    using assms(2) zero_less_power [of "2::nat" order] by linarith
  show ?thesis
    using assms page_addr_facts [OF a] free_loop_eq [of 0 "2 ^ order" a usage]
    by (simp add: free_pages_def)
qed

lemma used_set_run [simp]: "used_run (set_run usage a n 1) a n"
  by (simp add: used_run_def set_run_def)

lemma set_run_undo: "free_run usage a n \<Longrightarrow> set_run (set_run usage a n 1) a n 0 = usage"
  by (auto simp: set_run_def free_run_def fun_eq_iff)

section \<open>Properties\<close>

text \<open>C11. \<^verbatim>\<open>get_free_pages\<close> is first fit: it marks the lowest run of \<open>2 ^ order\<close> free pages as
  used, changes no other entry and returns the address of the first page of the run, which is inside
  the page pool and page-aligned; it returns null, and changes nothing, exactly when there is no
  such run.\<close>

theorem get_free_pages_first_fit:
  assumes "order < 31"
  shows "\<exists>p usage'. get_free_pages usage order = Some (p, usage') \<and>
    (p = NULL \<longleftrightarrow> (\<forall>b. b + 2 ^ order \<le> MAX_NUM_PAGES \<longrightarrow> \<not> free_run usage b (2 ^ order))) \<and>
    (if p = NULL then usage' = usage
     else \<exists>a. p = page_addr a \<and> a + 2 ^ order \<le> MAX_NUM_PAGES \<and> free_run usage a (2 ^ order) \<and>
       usage' = set_run usage a (2 ^ order) 1 \<and> 4096 dvd unat p \<and>
       unat p + 4096 * 2 ^ order \<le> unat PAGE_POOL_END \<and>
       (\<forall>b. b + 2 ^ order \<le> MAX_NUM_PAGES \<and> free_run usage b (2 ^ order) \<longrightarrow> a \<le> b))"
  using assms
proof (cases rule: get_free_pages_spec [of order usage])
  case (found a)
  have u: "unat (page_addr a) = unat PAGE_POOL_START + 4096 * a"
    using found(4) by (intro unat_page_addr) simp
  then have "4096 dvd unat (page_addr a)" "unat (page_addr a) + 4096 * 2 ^ order \<le> unat PAGE_POOL_END"
    using found(2) by (auto simp: pool_layout MAX_NUM_PAGES_val intro!: dvd_add)
  with found page_addr_facts(3) [OF found(4)] show ?thesis
    by (intro exI [of _ "page_addr a"] exI [of _ "set_run usage a (2 ^ order) 1"]) auto
next
  case full
  then show ?thesis by auto
qed

theorem get_free_pages_first_fit_witness:
  "\<exists>p usage'. get_free_pages (\<lambda>i. if i = 3 then 1 else 0) 2 = Some (p, usage') \<and> p \<noteq> NULL"
proof -
  let ?u = "\<lambda>i :: nat. if i = 3 then 1 else 0 :: u8"
  have "(2 :: nat) < 31" by simp
  from get_free_pages_first_fit [OF this, of ?u]
  obtain p usage' where r: "get_free_pages ?u 2 = Some (p, usage')"
    "p = NULL \<longleftrightarrow> (\<forall>b. b + 2 ^ 2 \<le> MAX_NUM_PAGES \<longrightarrow> \<not> free_run ?u b (2 ^ 2))"
    by blast
  moreover have "free_run ?u 4 (2 ^ 2)" "4 + 2 ^ 2 \<le> MAX_NUM_PAGES"
    by (auto simp: free_run_def MAX_NUM_PAGES_val)
  ultimately show ?thesis by blast
qed

text \<open>C12. Pages given out by \<^verbatim>\<open>get_free_pages\<close> can be given back: \<^verbatim>\<open>free_pages\<close> with the same
  address and order restores the table exactly, and a second release of them does not come
  back (the assertion on the usage byte fails).\<close>

theorem free_pages_round_trip:
  assumes "get_free_pages usage order = Some (p, usage')" "p \<noteq> NULL"
  shows "free_pages usage' p order = Some usage \<and> free_pages usage p order = None"
proof -
  have "order < 31" using assms(1) by (auto simp: get_free_pages_def split: if_splits)
  then show ?thesis
  proof (cases rule: get_free_pages_spec [of order usage])
    case (found a)
    then have e: "p = page_addr a" "usage' = set_run usage a (2 ^ order) 1" using assms(1) by auto
    have "\<not> used_run usage a (2 ^ order)"
      using found(3) by (auto simp: used_run_def free_run_def intro!: exI [of _ a])
    then show ?thesis
      using free_pages_run [OF \<open>order < 31\<close> found(2)] set_run_undo [OF found(3)] by (simp add: e)
  qed (use assms in simp)
qed

theorem free_pages_round_trip_witness:
  "\<exists>p usage'. get_free_pages (\<lambda>_. 0) 3 = Some (p, usage') \<and> free_pages usage' p 3 = Some (\<lambda>_. 0)"
proof -
  have "(3 :: nat) < 31" by simp
  then show ?thesis
  proof (cases rule: get_free_pages_spec [of 3 "\<lambda>_. 0"])
    case (found a)
    then show ?thesis
      using free_pages_round_trip [OF found(1) page_addr_facts(3) [OF found(4)]] by blast
  next
    case full
    have "free_run (\<lambda>_. 0) 0 (2 ^ 3)" "0 + 2 ^ 3 \<le> MAX_NUM_PAGES"
      by (auto simp: free_run_def MAX_NUM_PAGES_val)
    with full(2) show ?thesis by blast
  qed
qed

text \<open>A run of pages in use is never handed out again before it is released: the pages a later
  \<^verbatim>\<open>get_free_pages\<close> returns lie entirely below or entirely above it, and it stays in use.\<close>

theorem get_free_pages_apart:
  assumes "used_run usage b n" "0 < n" "get_free_pages usage order = Some (p, usage')" "p \<noteq> NULL"
  shows "\<exists>a. p = page_addr a \<and> (a + 2 ^ order \<le> b \<or> b + n \<le> a) \<and> used_run usage' b n"
proof -
  have "order < 31" using assms(3) by (auto simp: get_free_pages_def split: if_splits)
  then show ?thesis
  proof (cases rule: get_free_pages_spec [of order usage])
    case (found a)
    then have e: "p = page_addr a" "usage' = set_run usage a (2 ^ order) 1" using assms(3) by auto
    have "a + 2 ^ order \<le> b \<or> b + n \<le> a"
    proof (rule ccontr)
      assume c: "\<not> ?thesis"
      then have "a \<le> max a b \<and> max a b < a + 2 ^ order" "b \<le> max a b \<and> max a b < b + n"
        using assms(2) by auto
      then have "usage (max a b) = 0" "usage (max a b) = 1"
        using found(3) assms(1) unfolding free_run_def used_run_def by blast+
      then show False by simp
    qed
    moreover have "used_run usage' b n"
      using assms(1) by (auto simp: e(2) used_run_def set_run_def)
    ultimately show ?thesis using e(1) by blast
  qed (use assms in simp)
qed

theorem get_free_pages_apart_witness:
  "\<exists>p usage' a. get_free_pages (\<lambda>i. if i = 3 then 1 else 0) 1 = Some (p, usage') \<and> p = page_addr a \<and>
    (a + 2 \<le> 3 \<or> 4 \<le> a)"
proof -
  let ?u = "\<lambda>i :: nat. if i = 3 then 1 else 0 :: u8"
  have u: "used_run ?u 3 1" "0 < (1 :: nat)" by (auto simp: used_run_def)
  have "(1 :: nat) < 31" by simp
  then show ?thesis
  proof (cases rule: get_free_pages_spec [of 1 ?u])
    case (found a)
    then show ?thesis
      using get_free_pages_apart [OF u found(1) page_addr_facts(3) [OF found(4)]] by auto
  next
    case full
    have "free_run ?u 0 (2 ^ 1)" "0 + 2 ^ 1 \<le> MAX_NUM_PAGES"
      by (auto simp: free_run_def MAX_NUM_PAGES_val)
    with full(2) show ?thesis by blast
  qed
qed

end
