(* ===== verification/Spinlock.thy ===== *)
theory Spinlock
  imports Arch
begin

text \<open>
  The interrupt mask operations of \<^verbatim>\<open>include/arch.h\<close> and the spin lock of
  \<^verbatim>\<open>kernel/spinlock.c\<close> (the C version, \<^verbatim>\<open>SPIN_LOCK_IN_C\<close>). Two views of the lock:
  \<^item> one CPU alone, where a lock that is already held makes \<open>spin_lock\<close> spin for ever
    (\<open>None\<close>). A pointer to a lock is an option, whose \<open>None\<close> is the null pointer;
  \<^item> several CPUs that interleave at the exclusive load and the exclusive store. The
    exclusive monitor of each CPU is part of the state: a successful exclusive store
    clears every monitor, and an exclusive store may fail at any time. The step relation
    gives mutual exclusion, and shows what the ignored result of the store in
    \<open>spin_unlock\<close> leads to.
\<close>

unbundle bit_operations_syntax

section \<open>Interrupt mask\<close>

text \<open>Bit 7 of DAIF masks interrupts; bits 6 to 9 are the ones that can be written.\<close>

definition DAIF_BITS :: u64 where
  "DAIF_BITS = 0x3C0"

definition disable_irq :: "u64 \<Rightarrow> u64" where
  "disable_irq daif = set_bit 7 daif"

definition enable_irq :: "u64 \<Rightarrow> u64" where
  "enable_irq daif = unset_bit 7 daif"

definition local_irq_save :: "u64 \<Rightarrow> u64 \<times> u64" where
  "local_irq_save daif = (daif, disable_irq daif)"

definition local_irq_restore :: "u64 \<Rightarrow> u64 \<Rightarrow> u64" where
  "local_irq_restore flags daif = (daif AND NOT DAIF_BITS) OR (flags AND DAIF_BITS)"

definition irqs_masked :: "u64 \<Rightarrow> bool" where
  "irqs_masked daif \<longleftrightarrow> bit daif 7"

definition daif_wf :: "u64 \<Rightarrow> bool" where
  "daif_wf daif \<longleftrightarrow> daif AND DAIF_BITS = daif"

section \<open>The lock on one CPU\<close>

record spinlock =
  data0 :: u64
  data1 :: u64

type_synonym spinlock_ptr = "spinlock option"

definition spin_lock_init :: "spinlock_ptr \<Rightarrow> spinlock_ptr" where
  "spin_lock_init lock = (case lock of None \<Rightarrow> None | Some l \<Rightarrow> Some \<lparr>data0 = 0, data1 = 0\<rparr>)"

definition spin_lock :: "spinlock_ptr \<Rightarrow> spinlock_ptr option" where
  "spin_lock lock =
    (case lock of None \<Rightarrow> Some None
     | Some l \<Rightarrow> if data0 l = 0 then Some (Some (l\<lparr>data0 := 1\<rparr>)) else None)"

definition spin_unlock :: "spinlock_ptr \<Rightarrow> spinlock_ptr option" where
  "spin_unlock lock =
    (case lock of None \<Rightarrow> Some None
     | Some l \<Rightarrow> Some (Some (if data0 l = 1 then l\<lparr>data0 := 0\<rparr> else l)))"

definition spin_lock_irqsave :: "u64 \<Rightarrow> spinlock_ptr \<Rightarrow> (u64 \<times> u64 \<times> spinlock_ptr) option" where
  "spin_lock_irqsave daif lock =
    (if lock = None then None
     else do {
       let (flags, daif) = local_irq_save daif;
       lock \<leftarrow> spin_lock lock;
       Some (flags, daif, lock) })"

definition spin_unlock_irqrestore ::
  "u64 \<Rightarrow> spinlock_ptr \<Rightarrow> u64 \<Rightarrow> (u64 \<times> spinlock_ptr) option" where
  "spin_unlock_irqrestore daif lock flags =
    (if lock = None then Some (daif, lock)
     else do {
       lock \<leftarrow> spin_unlock lock;
       Some (local_irq_restore flags daif, lock) })"

definition lock_free :: "spinlock_ptr \<Rightarrow> bool" where
  "lock_free lock \<longleftrightarrow> (\<exists>l. lock = Some l \<and> data0 l = 0)"

lemma local_irq_restore_save:
  assumes "daif_wf d"
  shows "local_irq_restore (fst (local_irq_save d)) (snd (local_irq_save d)) = d"
proof -
  have b: "bit d n \<Longrightarrow> bit DAIF_BITS n" for n
    using assms unfolding daif_wf_def by (metis bit_and_iff)
  have "bit DAIF_BITS 7" by (simp add: DAIF_BITS_def)
  then show ?thesis
    using b by (intro bit_word_eqI)
      (auto simp: local_irq_restore_def local_irq_save_def disable_irq_def bit_simps)
qed

lemma irqs_masked_save: "irqs_masked (snd (local_irq_save d))"
  by (simp add: irqs_masked_def local_irq_save_def disable_irq_def bit_simps)

lemma spin_lock_unlock:
  assumes "lock_free lock"
  obtains l where "spin_lock lock = Some l" "\<not> lock_free l" "spin_unlock l = Some lock"
    "spin_lock l = None"
  using assms by (force simp: lock_free_def spin_lock_def spin_unlock_def)

lemma spin_lock_irq_round_trip:
  assumes "lock_free lock" "daif_wf d"
  shows "\<exists>d' lock'. spin_lock_irqsave d lock = Some (d, d', lock') \<and> irqs_masked d' \<and>
    \<not> lock_free lock' \<and> spin_unlock_irqrestore d' lock' d = Some (d, lock)"
proof -
  obtain l where l: "spin_lock lock = Some l" "\<not> lock_free l" "spin_unlock l = Some lock"
    using spin_lock_unlock [OF assms(1)] .
  have nn: "lock \<noteq> None" "l \<noteq> None"
    using assms(1) l by (auto simp: lock_free_def spin_unlock_def split: option.splits)
  show ?thesis
    using l nn irqs_masked_save [of d] local_irq_restore_save [OF assms(2)]
    by (auto simp: spin_lock_irqsave_def spin_unlock_irqrestore_def local_irq_save_def)
qed

text \<open>
  The usual frame of a critical section: \<^verbatim>\<open>flags = spin_lock_irqsave(lock); ...;
  spin_unlock_irqrestore(lock, flags)\<close> around a body that does not touch the lock.
\<close>

definition locked_irqsave :: "u64 \<Rightarrow> spinlock \<Rightarrow> 'a option \<Rightarrow> ('a \<times> u64 \<times> spinlock) option" where
  "locked_irqsave daif lock body = do {
     (flags, daif, l) \<leftarrow> spin_lock_irqsave daif (Some lock);
     r \<leftarrow> body;
     (daif, l) \<leftarrow> spin_unlock_irqrestore daif l flags;
     Some (r, daif, the l) }"

lemma locked_irqsave_free:
  assumes "daif_wf daif" "data0 lock = 0"
  shows "locked_irqsave daif lock body = map_option (\<lambda>r. (r, daif, lock)) body"
proof -
  have "lock_free (Some lock)" using assms(2) by (simp add: lock_free_def)
  from spin_lock_irq_round_trip [OF this assms(1)] show ?thesis
    by (cases body) (auto simp: locked_irqsave_def)
qed

lemma locked_irqsave_busy: "data0 lock \<noteq> 0 \<Longrightarrow> locked_irqsave daif lock body = None"
  by (simp add: locked_irqsave_def spin_lock_irqsave_def local_irq_save_def spin_lock_def)

section \<open>The lock on several CPUs\<close>

text \<open>
  \<open>Out\<close>: the CPU does not use the lock; \<open>AtLdxr\<close> and \<open>AtStxr\<close>: the two exclusive accesses
  of \<^verbatim>\<open>spin_lock\<close>; \<open>Held\<close>: between \<^verbatim>\<open>spin_lock\<close> and \<^verbatim>\<open>spin_unlock\<close>; \<open>UnLdxr\<close> and
  \<open>UnStxr\<close>: the two exclusive accesses of \<^verbatim>\<open>spin_unlock\<close>.
\<close>

datatype lock_pc = Out | AtLdxr | AtStxr | Held | UnLdxr | UnStxr

record smp =
  word0 :: u64
  monitor :: "nat \<Rightarrow> bool"
  pc :: "nat \<Rightarrow> lock_pc"

definition smp_init :: smp where
  "smp_init = \<lparr>word0 = 0, monitor = (\<lambda>_. False), pc = (\<lambda>_. Out)\<rparr>"

abbreviation goto :: "nat \<Rightarrow> lock_pc \<Rightarrow> smp \<Rightarrow> smp" where
  "goto c l s \<equiv> s\<lparr>pc := (pc s)(c := l)\<rparr>"

text \<open>The exclusive load, the exclusive store that succeeds, and the one that fails.\<close>

definition ldxr_func :: "nat \<Rightarrow> smp \<Rightarrow> u64 \<times> smp" where
  "ldxr_func c s = (word0 s, s\<lparr>monitor := (monitor s)(c := True)\<rparr>)"

definition stxr_ok :: "u64 \<Rightarrow> smp \<Rightarrow> smp" where
  "stxr_ok v s = s\<lparr>word0 := v, monitor := (\<lambda>_. False)\<rparr>"

definition stxr_failed :: "nat \<Rightarrow> smp \<Rightarrow> smp" where
  "stxr_failed c s = s\<lparr>monitor := (monitor s)(c := False)\<rparr>"

inductive lock_step :: "smp \<Rightarrow> smp \<Rightarrow> bool" where
  call_lock: "pc s c = Out \<Longrightarrow> lock_step s (goto c AtLdxr s)"
| load_free: "pc s c = AtLdxr \<Longrightarrow> ldxr_func c s = (v, s') \<Longrightarrow> v = 0 \<Longrightarrow>
    lock_step s (goto c AtStxr s')"
| load_busy: "pc s c = AtLdxr \<Longrightarrow> ldxr_func c s = (v, s') \<Longrightarrow> v \<noteq> 0 \<Longrightarrow>
    lock_step s (goto c AtLdxr s')"
| store_ok: "pc s c = AtStxr \<Longrightarrow> monitor s c \<Longrightarrow> lock_step s (goto c Held (stxr_ok 1 s))"
| store_failed: "pc s c = AtStxr \<Longrightarrow> lock_step s (goto c AtLdxr (stxr_failed c s))"
| call_unlock: "pc s c = Held \<Longrightarrow> lock_step s (goto c UnLdxr s)"
| unload_held: "pc s c = UnLdxr \<Longrightarrow> ldxr_func c s = (v, s') \<Longrightarrow> v = 1 \<Longrightarrow>
    lock_step s (goto c UnStxr s')"
| unload_free: "pc s c = UnLdxr \<Longrightarrow> ldxr_func c s = (v, s') \<Longrightarrow> v \<noteq> 1 \<Longrightarrow>
    lock_step s (goto c Out s')"
| unstore_ok: "pc s c = UnStxr \<Longrightarrow> monitor s c \<Longrightarrow> lock_step s (goto c Out (stxr_ok 0 s))"
| unstore_failed: "pc s c = UnStxr \<Longrightarrow> lock_step s (goto c Out (stxr_failed c s))"

abbreviation lock_steps :: "smp \<Rightarrow> smp \<Rightarrow> bool" where
  "lock_steps \<equiv> lock_step\<^sup>*\<^sup>*"

definition holds :: "smp \<Rightarrow> nat \<Rightarrow> bool" where
  "holds s c \<longleftrightarrow> pc s c \<in> {Held, UnLdxr, UnStxr}"

definition lock_inv :: "smp \<Rightarrow> bool" where
  "lock_inv s \<longleftrightarrow>
    (\<forall>c d. holds s c \<and> holds s d \<longrightarrow> c = d) \<and>
    (\<forall>c. holds s c \<longrightarrow> word0 s = 1) \<and>
    (\<forall>c. pc s c = AtStxr \<and> monitor s c \<longrightarrow> word0 s = 0)"

lemmas lock_op_defs = ldxr_func_def stxr_ok_def stxr_failed_def

lemma lock_inv_init: "lock_inv smp_init"
  by (simp add: lock_inv_def holds_def smp_init_def)

lemma lock_inv_step:
  assumes "lock_step s s'" "lock_inv s"
  shows "lock_inv s'"
  using assms
  by cases (simp_all add: lock_op_defs, auto simp: lock_inv_def holds_def split: if_splits)

lemma lock_inv_steps: "lock_steps s s' \<Longrightarrow> lock_inv s \<Longrightarrow> lock_inv s'"
  by (induction rule: rtranclp_induct) (auto intro: lock_inv_step)

text \<open>A lock word left at \<open>1\<close> by a CPU that no longer holds the lock stays there.\<close>

definition abandoned :: "smp \<Rightarrow> bool" where
  "abandoned s \<longleftrightarrow> word0 s = 1 \<and> (\<forall>c. \<not> holds s c) \<and> (\<forall>c. pc s c = AtStxr \<longrightarrow> \<not> monitor s c)"

lemma abandoned_step:
  assumes "lock_step s s'" "abandoned s"
  shows "abandoned s'"
  using assms
  by cases (simp_all add: lock_op_defs, auto simp: abandoned_def holds_def split: if_splits)

lemma abandoned_steps: "lock_steps s s' \<Longrightarrow> abandoned s \<Longrightarrow> abandoned s'"
  by (induction rule: rtranclp_induct) (auto intro: abandoned_step)

text \<open>The run of one CPU through \<^verbatim>\<open>spin_lock\<close> without interference.\<close>

lemma lock_alone:
  assumes "word0 s = 0" "pc s c = Out"
  shows "\<exists>s'. lock_steps s s' \<and> pc s' = (pc s)(c := Held) \<and> word0 s' = 1"
proof -
  define s1 where "s1 = goto c AtLdxr s"
  define s2 where "s2 = goto c AtStxr (s1\<lparr>monitor := (monitor s1)(c := True)\<rparr>)"
  define s3 where "s3 = goto c Held (stxr_ok 1 s2)"
  have "lock_step s s1" unfolding s1_def using assms(2) by (rule call_lock)
  moreover have "lock_step s1 s2"
    unfolding s2_def
    by (rule load_free [where v = 0]) (use assms in \<open>simp_all add: ldxr_func_def s1_def\<close>)
  moreover have "lock_step s2 s3" unfolding s3_def by (rule store_ok) (simp_all add: s2_def)
  ultimately have "lock_steps s s3" by simp
  then show ?thesis
    by (intro exI [of _ s3]) (auto simp: stxr_ok_def fun_eq_iff s3_def s2_def s1_def)
qed

end
