(* ===== verification/Circular_Buffer.thy ===== *)
theory Circular_Buffer
  imports Spinlock
begin

text \<open>
  The ring buffer of \<^verbatim>\<open>lib/circular_buffer.c\<close>, which carries the kernel log and the console
  input, and its locked wrapper. Buffer bytes live in the byte memory; a pointer to the
  control structure is an option. The locale \<open>fifo\<close> is the bounded byte queue both
  implement; the client lemma proved in it says that what is read is, in order, what was
  accepted by the writes.
\<close>

section \<open>The ring buffer\<close>

record circular_buffer =
  cb_buffer :: u64
  cb_length :: u64
  cb_rp :: u64
  cb_wp :: u64

definition init_circular_buffer ::
  "circular_buffer option \<Rightarrow> u64 \<Rightarrow> u64 \<Rightarrow> circular_buffer option" where
  "init_circular_buffer p buffer len =
    (case p of None \<Rightarrow> None
     | Some c \<Rightarrow> if buffer = NULL then Some c
         else Some (c\<lparr>cb_buffer := buffer, cb_length := len, cb_rp := buffer, cb_wp := buffer\<rparr>))"

fun write_loop :: "mem \<Rightarrow> u64 \<Rightarrow> u64 \<Rightarrow> u64 \<Rightarrow> u64 \<Rightarrow> nat \<Rightarrow> mem \<times> u64" where
  "write_loop m cb_begin cb_end wp cur_data 0 = (m, wp)"
| "write_loop m cb_begin cb_end wp cur_data (Suc len) =
    (let m = m(wp := m cur_data); wp = wp + 1; cur_data = cur_data + 1;
         wp = (if wp = cb_end then cb_begin else wp)
     in write_loop m cb_begin cb_end wp cur_data len)"

text \<open>The fields of the structure are read before the null check, so a null structure is undefined.\<close>

definition write_circular_buffer ::
  "mem \<Rightarrow> circular_buffer option \<Rightarrow> u64 \<Rightarrow> u64 \<Rightarrow> (int \<times> mem \<times> circular_buffer option) option" where
  "write_circular_buffer m p data len =
    (case p of None \<Rightarrow> None
     | Some c \<Rightarrow>
        let cb_begin = cb_buffer c; cb_end = cb_buffer c + cb_length c; rp = cb_rp c; wp = cb_wp c
        in if data = NULL then Some (-1, m, p)
           else if (if rp \<le> wp then cb_length c - 1 - (wp - rp) < len else rp - 1 - wp < len)
           then Some (-1, m, p)
           else let (m, wp) = write_loop m cb_begin cb_end wp data (unat len)
             in Some (0, m, Some (c\<lparr>cb_wp := wp\<rparr>)))"

fun read_loop :: "mem \<Rightarrow> u64 \<Rightarrow> u64 \<Rightarrow> u64 \<Rightarrow> u64 \<Rightarrow> nat \<Rightarrow> mem \<times> u64" where
  "read_loop m cb_begin cb_end rp cur_data 0 = (m, rp)"
| "read_loop m cb_begin cb_end rp cur_data (Suc n) =
    (let m = m(cur_data := m rp); cur_data = cur_data + 1; rp = rp + 1;
         rp = (if rp = cb_end then cb_begin else rp)
     in read_loop m cb_begin cb_end rp cur_data n)"

definition read_circular_buffer ::
  "mem \<Rightarrow> circular_buffer option \<Rightarrow> u64 \<Rightarrow> u64 \<Rightarrow> (int \<times> mem \<times> circular_buffer option) option" where
  "read_circular_buffer m p data len =
    (case p of None \<Rightarrow> None
     | Some c \<Rightarrow>
        let cb_begin = cb_buffer c; cb_end = cb_buffer c + cb_length c; rp = cb_rp c; wp = cb_wp c
        in if data = NULL then Some (-1, m, p)
           else let store_len = (if rp \<le> wp then wp - rp else cb_length c - (rp - wp));
                    to_read_len = min len store_len
             in if int_max < unat to_read_len then None
                else let (m, rp) = read_loop m cb_begin cb_end rp data (unat to_read_len)
                  in Some (int (unat to_read_len), m, Some (c\<lparr>cb_rp := rp\<rparr>)))"

section \<open>The locked ring buffer\<close>

record concurrent_cbuf =
  cbuf :: circular_buffer
  cbuf_rlock :: spinlock
  cbuf_wlock :: spinlock
  write_overflow :: bool

definition init_concurrent_cbuf ::
  "concurrent_cbuf option \<Rightarrow> u64 \<Rightarrow> u64 \<Rightarrow> concurrent_cbuf option" where
  "init_concurrent_cbuf p buffer len =
    (case p of None \<Rightarrow> None
     | Some c \<Rightarrow> if buffer = NULL then Some c
         else Some (c\<lparr>cbuf_rlock := the (spin_lock_init (Some (cbuf_rlock c))),
                      cbuf_wlock := the (spin_lock_init (Some (cbuf_wlock c))),
                      cbuf := the (init_circular_buffer (Some (cbuf c)) buffer len),
                      write_overflow := False\<rparr>))"

text \<open>The interrupt mask of the CPU is the first argument and result of the locked operations.\<close>

definition read_concurrent_cbuf ::
  "u64 \<Rightarrow> mem \<Rightarrow> concurrent_cbuf option \<Rightarrow> u64 \<Rightarrow> u64 \<Rightarrow>
   (int \<times> u64 \<times> mem \<times> concurrent_cbuf option) option" where
  "read_concurrent_cbuf daif m cb p len =
    (case cb of None \<Rightarrow> Some (-1, daif, m, cb)
     | Some c \<Rightarrow>
        if p = NULL then Some (-1, daif, m, cb)
        else do {
          (flags, daif, lk) \<leftarrow> spin_lock_irqsave daif (Some (cbuf_rlock c));
          (ret, m, b) \<leftarrow> read_circular_buffer m (Some (cbuf c)) p len;
          (daif, lk) \<leftarrow> spin_unlock_irqrestore daif lk flags;
          Some (ret, daif, m, Some (c\<lparr>cbuf := the b, cbuf_rlock := the lk\<rparr>)) })"

definition write_concurrent_cbuf ::
  "u64 \<Rightarrow> mem \<Rightarrow> concurrent_cbuf option \<Rightarrow> u64 \<Rightarrow> u64 \<Rightarrow>
   (int \<times> u64 \<times> mem \<times> concurrent_cbuf option) option" where
  "write_concurrent_cbuf daif m cb p len =
    (case cb of None \<Rightarrow> Some (-1, daif, m, cb)
     | Some c \<Rightarrow>
        if p = NULL then Some (-1, daif, m, cb)
        else do {
          (flags, daif, lk) \<leftarrow> spin_lock_irqsave daif (Some (cbuf_wlock c));
          (ret, m, b) \<leftarrow> write_circular_buffer m (Some (cbuf c)) p len;
          let overflow = (if ret < 0 then True else write_overflow c);
          (daif, lk) \<leftarrow> spin_unlock_irqrestore daif lk flags;
          Some (ret, daif, m,
            Some (c\<lparr>cbuf := the b, write_overflow := overflow, cbuf_wlock := the lk\<rparr>)) })"

section \<open>Positions in the ring\<close>

lemma mod_add_inj:
  fixes i j r n :: nat
  assumes "i < n" "j < n" "(r + i) mod n = (r + j) mod n"
  shows "i = j"
proof -
  have "i = j" if "i \<le> j" "j < n" "(r + j) mod n = (r + i) mod n" for i j
  proof -
    have "n dvd (r + j) - (r + i)" using that(3) by (metis mod_eq_dvd_iff_nat that(1) add_le_cancel_left)
    then show ?thesis using that(1,2) by (auto dest: dvd_imp_le)
  qed
  from this [of i j] this [of j i] assms show ?thesis by linarith
qed

lemma ring_step:
  assumes "w < n" "0 < n" "b + n < 2 ^ 64"
  shows "(if wd (b + w) + 1 = wd (b + n) then wd b else wd (b + w) + 1) = wd (b + Suc w mod n)"
  using assms by (auto simp: wd_simps wd_eq_iff mod_Suc)

definition apart :: "nat \<Rightarrow> nat \<Rightarrow> nat \<Rightarrow> nat \<Rightarrow> bool" where
  "apart a n b k \<longleftrightarrow> a + n \<le> b \<or> b + k \<le> a"

lemma write_loop_spec:
  assumes "w < n" "k < n" "b + n < 2 ^ 64" "d + k \<le> 2 ^ 64" "apart b n d k"
  shows "\<exists>m'. write_loop m (wd b) (wd (b + n)) (wd (b + w)) (wd d) k = (m', wd (b + (w + k) mod n)) \<and>
    (\<forall>j < k. m' (wd (b + (w + j) mod n)) = m (wd (d + j))) \<and>
    (\<forall>x < 2 ^ 64. (\<forall>j < k. x \<noteq> b + (w + j) mod n) \<longrightarrow> m' (wd x) = m (wd x))"
  using assms
proof (induction k arbitrary: m w d)
  case 0
  then show ?case by simp
next
  case (Suc k)
  define m1 where "m1 = m(wd (b + w) := m (wd d))"
  have bw: "b + w < 2 ^ 64" using Suc.prems by simp
  have w1: "Suc w mod n < n" using Suc.prems by simp
  obtain m' where m': "write_loop m1 (wd b) (wd (b + n)) (wd (b + Suc w mod n)) (wd (Suc d)) k =
      (m', wd (b + (Suc w mod n + k) mod n))"
    "\<forall>j < k. m' (wd (b + (Suc w mod n + j) mod n)) = m1 (wd (Suc d + j))"
    "\<forall>x < 2 ^ 64. (\<forall>j < k. x \<noteq> b + (Suc w mod n + j) mod n) \<longrightarrow> m' (wd x) = m1 (wd x)"
    using Suc.IH [OF w1, of "Suc d" m1] Suc.prems by (auto simp: apart_def)
  have idx: "(Suc w mod n + j) mod n = (w + Suc j) mod n" for j
    by (simp add: mod_add_left_eq)
  have run: "write_loop m (wd b) (wd (b + n)) (wd (b + w)) (wd d) (Suc k) = (m', wd (b + (w + Suc k) mod n))"
    using ring_step [of w n b] Suc.prems m'(1) unfolding idx
    by (simp add: Let_def m1_def wd_add_one [of d])
  have first: "m' (wd (b + (w + 0) mod n)) = m (wd (d + 0))"
  proof -
    have "b + w \<noteq> b + (Suc w mod n + j) mod n" if "j < k" for j
      using mod_add_inj [of 0 n "Suc j" w] that Suc.prems(1,2) unfolding idx by auto
    then have "m' (wd (b + w)) = m1 (wd (b + w))" using m'(3) bw by blast
    then show ?thesis using Suc.prems(1) by (simp add: m1_def)
  qed
  have rest: "m' (wd (b + (w + Suc j) mod n)) = m (wd (d + Suc j))" if "j < k" for j
  proof -
    have "wd (Suc d + j) \<noteq> wd (b + w)"
      using that Suc.prems bw by (auto simp: wd_eq_iff apart_def)
    then show ?thesis using m'(2) that unfolding idx by (simp add: m1_def)
  qed
  have "m' (wd (b + (w + j) mod n)) = m (wd (d + j))" if "j < Suc k" for j
    using first rest [of "j - 1"] that by (cases j) auto
  moreover have "m' (wd x) = m (wd x)" if x: "x < 2 ^ 64" "\<forall>j < Suc k. x \<noteq> b + (w + j) mod n" for x
  proof -
    have "x \<noteq> b + w" using x(2) Suc.prems(1) by (metis add_0_right mod_less zero_less_Suc)
    moreover have "\<forall>j < k. x \<noteq> b + (Suc w mod n + j) mod n"
      unfolding idx using x(2) by (metis Suc_mono)
    ultimately show ?thesis using m'(3) x(1) bw by (simp add: m1_def wd_eq_iff)
  qed
  ultimately show ?case using run by blast
qed

lemma read_loop_spec:
  assumes "r < n" "k < n" "b + n < 2 ^ 64" "d + k \<le> 2 ^ 64" "apart b n d k"
  shows "\<exists>m'. read_loop m (wd b) (wd (b + n)) (wd (b + r)) (wd d) k = (m', wd (b + (r + k) mod n)) \<and>
    (\<forall>j < k. m' (wd (d + j)) = m (wd (b + (r + j) mod n))) \<and>
    (\<forall>x < 2 ^ 64. \<not> (d \<le> x \<and> x < d + k) \<longrightarrow> m' (wd x) = m (wd x))"
  using assms
proof (induction k arbitrary: m r d)
  case 0
  then show ?case by simp
next
  case (Suc k)
  define m1 where "m1 = m(wd d := m (wd (b + r)))"
  have d: "d < 2 ^ 64" using Suc.prems by simp
  have r1: "Suc r mod n < n" using Suc.prems by simp
  obtain m' where m': "read_loop m1 (wd b) (wd (b + n)) (wd (b + Suc r mod n)) (wd (Suc d)) k =
      (m', wd (b + (Suc r mod n + k) mod n))"
    "\<forall>j < k. m' (wd (Suc d + j)) = m1 (wd (b + (Suc r mod n + j) mod n))"
    "\<forall>x < 2 ^ 64. \<not> (Suc d \<le> x \<and> x < Suc d + k) \<longrightarrow> m' (wd x) = m1 (wd x)"
    using Suc.IH [OF r1, of "Suc d" m1] Suc.prems by (auto simp: apart_def)
  have idx: "(Suc r mod n + j) mod n = (r + Suc j) mod n" for j
    by (simp add: mod_add_left_eq)
  have run: "read_loop m (wd b) (wd (b + n)) (wd (b + r)) (wd d) (Suc k) = (m', wd (b + (r + Suc k) mod n))"
    using ring_step [of r n b] Suc.prems m'(1) unfolding idx
    by (simp add: Let_def m1_def wd_add_one [of d])
  have "m' (wd d) = m (wd (b + r))" using m'(3) d by (simp add: m1_def)
  moreover have "m' (wd (d + Suc j)) = m (wd (b + (r + Suc j) mod n))" if "j < k" for j
  proof -
    have "b + (r + Suc j) mod n < b + n" using Suc.prems(1) by simp
    then have "wd (b + (r + Suc j) mod n) \<noteq> wd d"
      using Suc.prems(3,5) d by (auto simp: wd_eq_iff apart_def)
    then show ?thesis using m'(2) that unfolding idx by (simp add: m1_def)
  qed
  ultimately have "m' (wd (d + j)) = m (wd (b + (r + j) mod n))" if "j < Suc k" for j
    using that Suc.prems(1) by (cases j) auto
  moreover have "m' (wd x) = m (wd x)" if "x < 2 ^ 64" "\<not> (d \<le> x \<and> x < d + Suc k)" for x
    using m'(3) that d by (auto simp: m1_def wd_eq_iff)
  ultimately show ?case using run by blast
qed

section \<open>The queue held by the ring\<close>

definition cb_wf :: "circular_buffer \<Rightarrow> bool" where
  "cb_wf c \<longleftrightarrow> 0 < unat (cb_length c) \<and> unat (cb_length c) \<le> int_max \<and>
    unat (cb_buffer c) + unat (cb_length c) < 2 ^ 64 \<and>
    unat (cb_buffer c) \<le> unat (cb_rp c) \<and> unat (cb_rp c) < unat (cb_buffer c) + unat (cb_length c) \<and>
    unat (cb_buffer c) \<le> unat (cb_wp c) \<and> unat (cb_wp c) < unat (cb_buffer c) + unat (cb_length c)"

definition cb_count :: "circular_buffer \<Rightarrow> nat" where
  "cb_count c =
    (if cb_rp c \<le> cb_wp c then unat (cb_wp c) - unat (cb_rp c)
     else unat (cb_length c) - (unat (cb_rp c) - unat (cb_wp c)))"

definition cb_pos :: "circular_buffer \<Rightarrow> nat \<Rightarrow> nat" where
  "cb_pos c i =
    unat (cb_buffer c) + (unat (cb_rp c) - unat (cb_buffer c) + i) mod unat (cb_length c)"

definition cb_content :: "mem \<Rightarrow> circular_buffer \<Rightarrow> u8 list" where
  "cb_content m c = map (\<lambda>i. m (wd (cb_pos c i))) [0..<cb_count c]"

text \<open>The ring written with natural numbers: base, length, read index and number of bytes.\<close>

lemma cb_wf_cases:
  assumes "cb_wf c"
  obtains b n r q where "0 < n" "n \<le> int_max" "b + n < 2 ^ 64" "r < n" "q < n"
    "cb_buffer c = wd b" "cb_length c = wd n" "cb_rp c = wd (b + r)"
    "cb_wp c = wd (b + (r + q) mod n)" "cb_count c = q" "\<And>i. cb_pos c i = b + (r + i) mod n"
proof -
  define b n r w where "b = unat (cb_buffer c)" and "n = unat (cb_length c)"
    and "r = unat (cb_rp c) - b" and "w = unat (cb_wp c) - b"
  have bn: "0 < n" "n \<le> int_max" "b + n < 2 ^ 64" "r < n" "w < n"
    "unat (cb_rp c) = b + r" "unat (cb_wp c) = b + w"
    using assms by (auto simp: cb_wf_def b_def n_def r_def w_def)
  have q: "cb_count c = (if r \<le> w then w - r else n - (r - w))"
    using bn by (simp add: cb_count_def word_le_nat_alt n_def)
  then have "(r + cb_count c) mod n = w" "cb_count c < n"
    unfolding q using bn(1,4,5) by (auto simp: mod_if)
  moreover have "cb_buffer c = wd b" "cb_length c = wd n" by (simp_all add: b_def n_def)
  moreover have "cb_rp c = wd (b + r)" "cb_wp c = wd (b + w)"
    using bn(6,7) by (metis wd_unat)+
  moreover have "cb_pos c i = b + (r + i) mod n" for i
    by (simp add: cb_pos_def b_def n_def r_def)
  ultimately show thesis
    using that [of n b r "cb_count c"] bn(1-4) by blast
qed

lemma cb_intro:
  assumes "0 < n" "n \<le> int_max" "b + n < 2 ^ 64" "r < n" "q < n"
    "cb_buffer c = wd b" "cb_length c = wd n" "cb_rp c = wd (b + r)" "cb_wp c = wd (b + (r + q) mod n)"
  shows "cb_wf c" "cb_count c = q" "cb_pos c i = b + (r + i) mod n"
proof -
  define w where "w = (r + q) mod n"
  have w: "w = (if r + q < n then r + q else r + q - n)" "w < n"
    using assms(1,4,5) by (auto simp: w_def mod_if)
  have u: "unat (wd b) = b" "unat (wd n) = n" "unat (wd (b + r)) = b + r" "unat (wd (b + w)) = b + w"
    using assms w(2) by (simp_all add: unat_wd)
  note f = assms(6-9) [folded w_def]
  show "cb_wf c" using assms(1-5) w(2) by (simp add: cb_wf_def f u)
  show "cb_count c = q"
    unfolding cb_count_def word_le_nat_alt f u using assms(4,5) w by (auto split: if_splits)
  show "cb_pos c i = b + (r + i) mod n" by (simp add: cb_pos_def f u)
qed

lemma cb_content_frame:
  assumes "cb_wf c" "mem_eq_on (unat (cb_buffer c)) (unat (cb_buffer c) + unat (cb_length c)) m m'"
  shows "cb_content m' c = cb_content m c"
proof -
  obtain b n r q where c: "0 < n" "b + n < 2 ^ 64" "cb_buffer c = wd b" "cb_length c = wd n"
    "\<And>i. cb_pos c i = b + (r + i) mod n"
    using cb_wf_cases [OF assms(1)] by metis
  have "unat (wd b) = b" "unat (wd n) = n" using c by (simp_all add: unat_wd)
  then show ?thesis
    using assms(2) c by (simp add: cb_content_def mem_eq_on_def)
qed

lemma space_check:
  assumes "0 < n" "b + n < 2 ^ 64" "r < n" "q < n" "k < 2 ^ 64"
  shows "(if wd (b + r) \<le> wd (b + (r + q) mod n)
      then wd n - 1 - (wd (b + (r + q) mod n) - wd (b + r)) < wd k
      else wd (b + r) - 1 - wd (b + (r + q) mod n) < wd k) \<longleftrightarrow> n \<le> q + k"
proof -
  define w where "w = (r + q) mod n"
  have w: "w = (if r + q < n then r + q else r + q - n)" "w < n"
    using assms(1,3,4) by (auto simp: w_def mod_if)
  have cmp: "wd (b + r) \<le> wd (b + w) \<longleftrightarrow> r \<le> w"
    using assms w(2) by (simp add: wd_le_iff)
  have 1: "wd n - 1 - (wd (b + w) - wd (b + r)) = wd (n - 1 - q)" if "r \<le> w"
  proof -
    have "w = r + q" using that w assms(3,4) by (auto split: if_splits)
    moreover have "wd n - 1 = wd (n - 1)" using assms(1) wd_diff [of 1 n] by (simp add: wd_def)
    moreover have "wd (b + (r + q)) - wd (b + r) = wd q" by (simp add: wd_diff)
    ultimately show ?thesis using assms(4) by (simp add: wd_diff)
  qed
  have 2: "wd (b + r) - 1 - wd (b + w) = wd (n - 1 - q)" if "\<not> r \<le> w"
  proof -
    have "w + n = r + q" using that w by (auto split: if_splits)
    moreover have "wd (b + r) - 1 = wd (b + r - 1)"
      using that wd_diff [of 1 "b + r"] by (simp add: wd_def)
    ultimately show ?thesis using that assms(4) wd_diff [of "b + w" "b + r - 1"]
      by (simp add: algebra_simps) (metis Suc_diff_Suc Suc_eq_plus1 add_diff_cancel_left diff_Suc_1 diff_add_inverse2 diff_diff_left group_cancel.add1 not_le)
  qed
  have "wd (n - 1 - q) < wd k \<longleftrightarrow> n \<le> q + k"
    using assms by (auto simp: wd_less_iff)
  with cmp 1 2 show ?thesis unfolding w_def [symmetric] by auto
qed

section \<open>Contract of the ring\<close>

lemma write_circular_buffer_full:
  assumes "cb_wf c" "d \<noteq> NULL" "unat (cb_length c) \<le> cb_count c + unat k"
  shows "write_circular_buffer m (Some c) d k = Some (-1, m, Some c)"
proof -
  obtain b n r q where c: "0 < n" "n \<le> int_max" "b + n < 2 ^ 64" "r < n" "q < n"
    "cb_buffer c = wd b" "cb_length c = wd n" "cb_rp c = wd (b + r)"
    "cb_wp c = wd (b + (r + q) mod n)" "cb_count c = q"
    using cb_wf_cases [OF assms(1)] by metis
  have "n \<le> q + unat k" using assms(3) c by (simp add: unat_wd)
  with space_check [OF c(1,3,4,5), of "unat k"] assms(2) show ?thesis
    by (simp add: write_circular_buffer_def c Let_def split: if_splits)
qed

lemma write_circular_buffer_ok:
  assumes "cb_wf c" "0 < d" "d + k < 2 ^ 64" "cb_count c + k < unat (cb_length c)"
    "apart (unat (cb_buffer c)) (unat (cb_length c)) d k"
  shows "\<exists>m' c'. write_circular_buffer m (Some c) (wd d) (wd k) = Some (0, m', Some c') \<and>
    cb_wf c' \<and> cb_buffer c' = cb_buffer c \<and> cb_length c' = cb_length c \<and>
    cb_content m' c' = cb_content m c @ load_bytes m (wd d) k \<and>
    frame_out (unat (cb_buffer c)) (unat (cb_buffer c) + unat (cb_length c)) m m'"
proof -
  obtain b n r q where c: "0 < n" "n \<le> int_max" "b + n < 2 ^ 64" "r < n" "q < n"
    "cb_buffer c = wd b" "cb_length c = wd n" "cb_rp c = wd (b + r)"
    "cb_wp c = wd (b + (r + q) mod n)" "cb_count c = q" "\<And>i. cb_pos c i = b + (r + i) mod n"
    using cb_wf_cases [OF assms(1)] by metis
  have u: "unat (wd b) = b" "unat (wd n) = n" "q + k < n"
    using c assms(4) by (auto simp: unat_wd)
  obtain m' where m': "write_loop m (wd b) (wd (b + n)) (wd (b + (r + q) mod n)) (wd d) k =
      (m', wd (b + ((r + q) mod n + k) mod n))"
    "\<forall>j < k. m' (wd (b + ((r + q) mod n + j) mod n)) = m (wd (d + j))"
    "\<forall>x < 2 ^ 64. (\<forall>j < k. x \<noteq> b + ((r + q) mod n + j) mod n) \<longrightarrow> m' (wd x) = m (wd x)"
    using write_loop_spec [of "(r + q) mod n" n k b d m] c u assms(3,5) by auto
  have idx: "((r + q) mod n + j) mod n = (r + (q + j)) mod n" for j
    by (simp add: mod_add_left_eq add.assoc)
  define c' where "c' = c\<lparr>cb_wp := wd (b + (r + (q + k)) mod n)\<rparr>"
  have d: "wd d \<noteq> NULL" "k < 2 ^ 64" "\<not> n \<le> q + k"
    using assms(2,3) u by (auto simp: wd_eq_0_iff)
  have run: "write_circular_buffer m (Some c) (wd d) (wd k) = Some (0, m', Some c')"
    using space_check [OF c(1,3,4,5) d(2)] d m'(1) unfolding idx
    by (simp add: write_circular_buffer_def c Let_def wd_add unat_wd c'_def split: if_splits)
  have c': "cb_wf c'" "cb_count c' = q + k" "\<And>i. cb_pos c' i = b + (r + i) mod n"
    by (rule cb_intro [of n b r "q + k"]; use c u in \<open>simp add: c'_def\<close>)+
  have old: "m' (wd (b + (r + i) mod n)) = m (wd (b + (r + i) mod n))" if "i < q" for i
  proof -
    have "b + (r + i) mod n \<noteq> b + (r + (q + j)) mod n" if "j < k" for j
      using mod_add_inj [of i n "q + j" r] that u(3) \<open>i < q\<close> by auto
    moreover have "b + (r + i) mod n < 2 ^ 64"
      using c(3) mod_less_divisor [OF c(1), of "r + i"] by linarith
    ultimately show ?thesis using m'(3) unfolding idx by blast
  qed
  have new: "m' (wd (b + (r + i) mod n)) = m (wd (d + i - q))" if "\<not> i < q" "i < q + k" for i
    using m'(2) [rule_format, of "i - q"] that unfolding idx by simp
  have "cb_content m' c' = cb_content m c @ load_bytes m (wd d) k"
    using old new
    by (intro nth_equalityI)
      (auto simp: cb_content_def c' c(10,11) load_bytes_def nth_append wd_simps)
  moreover have "frame_out b (b + n) m m'"
  proof (rule frame_outI)
    fix x :: nat assume x: "x < 2 ^ 64" "x < b \<or> b + n \<le> x"
    have "x \<noteq> b + ((r + q) mod n + j) mod n" for j
      using x(2) mod_less_divisor [OF c(1), of "(r + q) mod n + j"] by linarith
    then show "m' (wd x) = m (wd x)" using m'(3) x(1) by blast
  qed
  ultimately show ?thesis using run c'(1) c u by (auto simp: c'_def)
qed

lemma store_len:
  assumes "cb_wf c"
  shows "(if cb_rp c \<le> cb_wp c then cb_wp c - cb_rp c else cb_length c - (cb_rp c - cb_wp c)) =
    wd (cb_count c)"
proof (cases "cb_rp c \<le> cb_wp c")
  case True
  then show ?thesis
    using wd_diff [of "unat (cb_rp c)" "unat (cb_wp c)"] by (simp add: cb_count_def word_le_nat_alt)
next
  case False
  then have le: "unat (cb_wp c) \<le> unat (cb_rp c)" by (simp add: word_le_nat_alt)
  have "cb_rp c - cb_wp c = wd (unat (cb_rp c) - unat (cb_wp c))"
    using wd_diff [OF le] by simp
  moreover have "unat (cb_rp c) - unat (cb_wp c) \<le> unat (cb_length c)"
    using assms by (auto simp: cb_wf_def)
  ultimately show ?thesis
    using False wd_diff [of "unat (cb_rp c) - unat (cb_wp c)" "unat (cb_length c)"]
    by (simp add: cb_count_def)
qed

lemma read_circular_buffer_ok:
  assumes "cb_wf c" "0 < d" "d + k < 2 ^ 64" "apart (unat (cb_buffer c)) (unat (cb_length c)) d k"
    "j = min k (cb_count c)"
  shows "\<exists>m' c'. read_circular_buffer m (Some c) (wd d) (wd k) = Some (int j, m', Some c') \<and>
    cb_wf c' \<and> cb_buffer c' = cb_buffer c \<and> cb_length c' = cb_length c \<and>
    cb_content m' c' = drop j (cb_content m c) \<and> load_bytes m' (wd d) j = take j (cb_content m c) \<and>
    frame_out d (d + j) m m'"
proof -
  obtain b n r q where c: "0 < n" "n \<le> int_max" "b + n < 2 ^ 64" "r < n" "q < n"
    "cb_buffer c = wd b" "cb_length c = wd n" "cb_rp c = wd (b + r)"
    "cb_wp c = wd (b + (r + q) mod n)" "cb_count c = q" "\<And>i. cb_pos c i = b + (r + i) mod n"
    using cb_wf_cases [OF assms(1)] by metis
  have u: "unat (wd b) = b" "unat (wd n) = n" "unat (wd q) = q" "unat (wd k) = k"
    using c assms(3) by (auto simp: unat_wd)
  have j: "j \<le> q" "j \<le> k" "j < n" using assms(5) c by auto
  obtain m' where m': "read_loop m (wd b) (wd (b + n)) (wd (b + r)) (wd d) j =
      (m', wd (b + (r + j) mod n))"
    "\<forall>i < j. m' (wd (d + i)) = m (wd (b + (r + i) mod n))"
    "\<forall>x < 2 ^ 64. \<not> (d \<le> x \<and> x < d + j) \<longrightarrow> m' (wd x) = m (wd x)"
    using read_loop_spec [of r n j b d m] c u j assms(3,4) by (auto simp: apart_def)
  define c' where "c' = c\<lparr>cb_rp := wd (b + (r + j) mod n)\<rparr>"
  have store: "(if cb_rp c \<le> cb_wp c then cb_wp c - cb_rp c else cb_length c - (cb_rp c - cb_wp c)) = wd q"
    using store_len [OF assms(1)] by (simp add: c(10))
  have d: "wd d \<noteq> NULL" using assms(2,3) by (simp add: wd_eq_0_iff)
  have mn: "min (wd k) (wd q) = wd j"
    using assms(5) u by (simp add: c(10) min_def wd_le_iff word_le_nat_alt)
  have run: "read_circular_buffer m (Some c) (wd d) (wd k) = Some (int j, m', Some c')"
    unfolding read_circular_buffer_def Let_def option.case store mn
    using d m'(1) j c by (simp add: wd_add unat_wd c'_def)
  have idx: "((r + j) mod n + i) mod n = (r + (j + i)) mod n" for i
    by (simp add: mod_add_left_eq add.assoc)
  have c': "cb_wf c'" "cb_count c' = q - j" "\<And>i. cb_pos c' i = b + (r + (j + i)) mod n"
    unfolding idx [symmetric]
    by (rule cb_intro [of n b "(r + j) mod n" "q - j"];
        use c j idx [of "q - j"] in \<open>simp add: c'_def\<close>)+
  have keep: "m' (wd (b + x mod n)) = m (wd (b + x mod n))" for x
  proof -
    have "x mod n < n" using c(1) by simp
    moreover have "b + n \<le> d \<or> d + k \<le> b" using assms(4) c(6,7) u by (simp add: apart_def)
    ultimately have "\<not> (d \<le> b + x mod n \<and> b + x mod n < d + j)" "b + x mod n < 2 ^ 64"
      using j(2) c(3) by linarith+
    then show ?thesis using m'(3) by blast
  qed
  have "cb_content m' c' = drop j (cb_content m c)"
    by (intro nth_equalityI) (auto simp: cb_content_def c' c(10,11) keep)
  moreover have "load_bytes m' (wd d) j = take j (cb_content m c)"
    using m'(2) j by (intro nth_equalityI) (auto simp: cb_content_def c(10,11) load_bytes_def wd_simps)
  moreover have "frame_out d (d + j) m m'"
    using m'(3) by (intro frame_outI) auto
  ultimately show ?thesis using run c'(1) by (auto simp: c'_def)
qed

section \<open>The bounded byte queue\<close>

text \<open>
  A client stages bytes at a fixed address \<open>d\<close> and calls the queue: \<open>fifo_run\<close> collects the
  bytes the writes accepted, the bytes the reads delivered, and the final state.
\<close>

datatype fifo_op = Put "u8 list" | Get nat

fun fifo_run ::
  "(mem \<Rightarrow> 'c \<Rightarrow> u64 \<Rightarrow> u64 \<Rightarrow> (int \<times> mem \<times> 'c) option) \<Rightarrow>
   (mem \<Rightarrow> 'c \<Rightarrow> u64 \<Rightarrow> u64 \<Rightarrow> (int \<times> mem \<times> 'c) option) \<Rightarrow>
   u64 \<Rightarrow> mem \<Rightarrow> 'c \<Rightarrow> fifo_op list \<Rightarrow> (u8 list \<times> u8 list \<times> mem \<times> 'c) option" where
  "fifo_run wr rd d m c [] = Some ([], [], m, c)"
| "fifo_run wr rd d m c (Put xs # ops) = do {
     (ret, m, c) \<leftarrow> wr (store_bytes m d xs) c d (wd (length xs));
     (acc, got, m, c) \<leftarrow> fifo_run wr rd d m c ops;
     Some ((if ret = 0 then xs else []) @ acc, got, m, c) }"
| "fifo_run wr rd d m c (Get k # ops) = do {
     (ret, m, c) \<leftarrow> rd m c d (wd k);
     let out = load_bytes m d (nat ret);
     (acc, got, m, c) \<leftarrow> fifo_run wr rd d m c ops;
     Some (acc, out @ got, m, c) }"

definition op_len :: "fifo_op \<Rightarrow> nat" where
  "op_len oper = (case oper of Put xs \<Rightarrow> length xs | Get k \<Rightarrow> k)"

locale fifo =
  fixes wr :: "mem \<Rightarrow> 'c \<Rightarrow> u64 \<Rightarrow> u64 \<Rightarrow> (int \<times> mem \<times> 'c) option"
    and rd :: "mem \<Rightarrow> 'c \<Rightarrow> u64 \<Rightarrow> u64 \<Rightarrow> (int \<times> mem \<times> 'c) option"
    and content :: "mem \<Rightarrow> 'c \<Rightarrow> u8 list"
    and base :: "'c \<Rightarrow> nat"
    and room :: "'c \<Rightarrow> nat"
    and ok :: "'c \<Rightarrow> bool"
  assumes write_law: "ok c \<Longrightarrow> 0 < d \<Longrightarrow> d + k < 2 ^ 64 \<Longrightarrow> apart (base c) (room c) d k \<Longrightarrow>
      \<exists>m' c'. wr m c (wd d) (wd k) =
          Some (if length (content m c) + k < room c then 0 else -1, m', c') \<and>
        ok c' \<and> base c' = base c \<and> room c' = room c \<and>
        content m' c' = content m c @
          (if length (content m c) + k < room c then load_bytes m (wd d) k else []) \<and>
        frame_out (base c) (base c + room c) m m'"
    and read_law: "ok c \<Longrightarrow> 0 < d \<Longrightarrow> d + k < 2 ^ 64 \<Longrightarrow> apart (base c) (room c) d k \<Longrightarrow>
      j = min k (length (content m c)) \<Longrightarrow>
      \<exists>m' c'. rd m c (wd d) (wd k) = Some (int j, m', c') \<and>
        ok c' \<and> base c' = base c \<and> room c' = room c \<and>
        content m' c' = drop j (content m c) \<and> load_bytes m' (wd d) j = take j (content m c) \<and>
        frame_out d (d + j) m m'"
    and content_frame: "ok c \<Longrightarrow> mem_eq_on (base c) (base c + room c) m m' \<Longrightarrow>
      content m' c = content m c"
    and in_memory: "ok c \<Longrightarrow> base c + room c < 2 ^ 64"
begin

lemma fifo_order:
  assumes "ok c" "0 < d" "d + n < 2 ^ 64" "n \<le> int_max" "apart (base c) (room c) d n"
    "\<forall>oper \<in> set ops. op_len oper \<le> n"
  shows "\<exists>acc got m' c'. fifo_run wr rd (wd d) m c ops = Some (acc, got, m', c') \<and> ok c' \<and>
    got @ content m' c' = content m c @ acc"
  using assms
proof (induction ops arbitrary: m c)
  case Nil
  then show ?case by simp
next
  case (Cons oper ops)
  have ap: "k \<le> n \<Longrightarrow> apart (base c) (room c) d k" for k using Cons.prems(5) by (auto simp: apart_def)
  show ?case
  proof (cases oper)
    case (Put xs)
    let ?k = "length xs" and ?m = "store_bytes m (wd d) xs"
    have k: "?k \<le> n" using Cons.prems(6) Put by (simp add: op_len_def)
    have "mem_eq_on (base c) (base c + room c) m ?m"
      using Cons.prems ap [OF k] in_memory [OF Cons.prems(1)] k
      by (intro store_bytes_frame) (auto simp: apart_def)
    then have cm: "content ?m c = content m c" using Cons.prems(1) by (intro content_frame)
    have ld: "load_bytes ?m (wd d) ?k = xs" using k Cons.prems(4) by simp
    obtain m1 c1 where r: "wr ?m c (wd d) (wd ?k) =
        Some (if length (content m c) + ?k < room c then 0 else -1, m1, c1)"
      "ok c1" "base c1 = base c" "room c1 = room c"
      "content m1 c1 = content m c @ (if length (content m c) + ?k < room c then xs else [])"
      using write_law [OF Cons.prems(1,2) _ ap [OF k], of ?m] Cons.prems(3) k unfolding cm ld by auto
    obtain acc got m' c' where s: "fifo_run wr rd (wd d) m1 c1 ops = Some (acc, got, m', c')" "ok c'"
      "got @ content m' c' = content m1 c1 @ acc"
      using Cons.IH [OF r(2), of m1] Cons.prems r(3,4) by auto
    then show ?thesis using r(1,5) by (auto simp: Put)
  next
    case (Get k)
    have k: "k \<le> n" using Cons.prems(6) Get by (simp add: op_len_def)
    let ?j = "min k (length (content m c))"
    obtain m1 c1 where r: "rd m c (wd d) (wd k) = Some (int ?j, m1, c1)"
      "ok c1" "base c1 = base c" "room c1 = room c" "content m1 c1 = drop ?j (content m c)"
      "load_bytes m1 (wd d) ?j = take ?j (content m c)"
      using read_law [OF Cons.prems(1,2) _ ap [OF k] refl, of m] Cons.prems(3) k by auto
    obtain acc got m' c' where s: "fifo_run wr rd (wd d) m1 c1 ops = Some (acc, got, m', c')" "ok c'"
      "got @ content m' c' = content m1 c1 @ acc"
      using Cons.IH [OF r(2), of m1] Cons.prems r(3,4) by auto
    have "fifo_run wr rd (wd d) m c (oper # ops) = Some (acc, load_bytes m1 (wd d) ?j @ got, m', c')"
      unfolding Get using r(1) s(1) by simp
    moreover have "(load_bytes m1 (wd d) ?j @ got) @ content m' c' = content m c @ acc"
      unfolding append_assoc s(3) r(5,6) by (simp add: append_assoc [symmetric])
    ultimately show ?thesis using s(2) by blast
  qed
qed

end

section \<open>Both buffers are bounded byte queues\<close>

definition cb_write :: "mem \<Rightarrow> circular_buffer \<Rightarrow> u64 \<Rightarrow> u64 \<Rightarrow> (int \<times> mem \<times> circular_buffer) option" where
  "cb_write m c d k = do { (r, m, c) \<leftarrow> write_circular_buffer m (Some c) d k; Some (r, m, the c) }"

definition cb_read :: "mem \<Rightarrow> circular_buffer \<Rightarrow> u64 \<Rightarrow> u64 \<Rightarrow> (int \<times> mem \<times> circular_buffer) option" where
  "cb_read m c d k = do { (r, m, c) \<leftarrow> read_circular_buffer m (Some c) d k; Some (r, m, the c) }"

abbreviation cb_base :: "circular_buffer \<Rightarrow> nat" where
  "cb_base c \<equiv> unat (cb_buffer c)"

abbreviation cb_room :: "circular_buffer \<Rightarrow> nat" where
  "cb_room c \<equiv> unat (cb_length c)"

lemma length_cb_content [simp]: "length (cb_content m c) = cb_count c"
  by (simp add: cb_content_def)

interpretation ring: fifo cb_write cb_read cb_content cb_base cb_room cb_wf
proof unfold_locales
  fix c :: circular_buffer and d k j :: nat and m m' :: mem
  assume wf: "cb_wf c"
  show "cb_base c + cb_room c < 2 ^ 64" using wf by (simp add: cb_wf_def)
  show "cb_content m' c = cb_content m c" if "mem_eq_on (cb_base c) (cb_base c + cb_room c) m m'"
    using wf that by (rule cb_content_frame)
  assume d: "0 < d" "d + k < 2 ^ 64" and ap: "apart (cb_base c) (cb_room c) d k"
  have k: "wd d \<noteq> NULL" "unat (wd k) = k" using d by (auto simp: wd_eq_0_iff unat_wd)
  show "\<exists>m' c'. cb_write m c (wd d) (wd k) =
        Some (if length (cb_content m c) + k < cb_room c then 0 else -1, m', c') \<and>
      cb_wf c' \<and> cb_base c' = cb_base c \<and> cb_room c' = cb_room c \<and>
      cb_content m' c' = cb_content m c @
        (if length (cb_content m c) + k < cb_room c then load_bytes m (wd d) k else []) \<and>
      frame_out (cb_base c) (cb_base c + cb_room c) m m'"
  proof (cases "cb_count c + k < cb_room c")
    case True
    from write_circular_buffer_ok [OF wf d True ap, of m] True show ?thesis
      by (auto simp: cb_write_def)
  next
    case False
    then show ?thesis
      using write_circular_buffer_full [OF wf k(1), of "wd k" m] k(2) wf by (simp add: cb_write_def)
  qed
  assume "j = min k (length (cb_content m c))"
  then have "j = min k (cb_count c)" by simp
  from read_circular_buffer_ok [OF wf d ap this, of m]
  show "\<exists>m' c'. cb_read m c (wd d) (wd k) = Some (int j, m', c') \<and>
      cb_wf c' \<and> cb_base c' = cb_base c \<and> cb_room c' = cb_room c \<and>
      cb_content m' c' = drop j (cb_content m c) \<and> load_bytes m' (wd d) j = take j (cb_content m c) \<and>
      frame_out d (d + j) m m'"
    by (auto simp: cb_read_def)
qed

text \<open>The locked buffer together with the interrupt mask of the CPU that uses it.\<close>

type_synonym cpu_cbuf = "u64 \<times> concurrent_cbuf"

definition cc_write :: "mem \<Rightarrow> cpu_cbuf \<Rightarrow> u64 \<Rightarrow> u64 \<Rightarrow> (int \<times> mem \<times> cpu_cbuf) option" where
  "cc_write m c d k = do {
     (r, daif, m, cb) \<leftarrow> write_concurrent_cbuf (fst c) m (Some (snd c)) d k;
     Some (r, m, daif, the cb) }"

definition cc_read :: "mem \<Rightarrow> cpu_cbuf \<Rightarrow> u64 \<Rightarrow> u64 \<Rightarrow> (int \<times> mem \<times> cpu_cbuf) option" where
  "cc_read m c d k = do {
     (r, daif, m, cb) \<leftarrow> read_concurrent_cbuf (fst c) m (Some (snd c)) d k;
     Some (r, m, daif, the cb) }"

definition cc_wf :: "cpu_cbuf \<Rightarrow> bool" where
  "cc_wf c \<longleftrightarrow> daif_wf (fst c) \<and> cb_wf (cbuf (snd c)) \<and>
    data0 (cbuf_rlock (snd c)) = 0 \<and> data0 (cbuf_wlock (snd c)) = 0"

lemma lock_pair:
  assumes "daif_wf d" "data0 l = 0"
  obtains d' l' where "spin_lock_irqsave d (Some l) = Some (d, d', l')" "irqs_masked d'"
    "spin_unlock_irqrestore d' l' d = Some (d, Some l)"
  using spin_lock_irq_round_trip [of "Some l" d] assms by (auto simp: lock_free_def)

lemma write_concurrent_eq:
  assumes "daif_wf daif" "data0 (cbuf_wlock c) = 0" "d \<noteq> NULL"
    "write_circular_buffer m (Some (cbuf c)) d k = Some (r, m', Some b)"
  shows "write_concurrent_cbuf daif m (Some c) d k =
    Some (r, daif, m', Some (c\<lparr>cbuf := b, write_overflow := (r < 0 \<or> write_overflow c)\<rparr>))"
proof -
  obtain d' l' where "spin_lock_irqsave daif (Some (cbuf_wlock c)) = Some (daif, d', l')"
    "spin_unlock_irqrestore d' l' daif = Some (daif, Some (cbuf_wlock c))"
    using lock_pair [OF assms(1,2)] by metis
  with assms(3,4) show ?thesis by (simp add: write_concurrent_cbuf_def)
qed

lemma read_concurrent_eq:
  assumes "daif_wf daif" "data0 (cbuf_rlock c) = 0" "d \<noteq> NULL"
    "read_circular_buffer m (Some (cbuf c)) d k = Some (r, m', Some b)"
  shows "read_concurrent_cbuf daif m (Some c) d k = Some (r, daif, m', Some (c\<lparr>cbuf := b\<rparr>))"
proof -
  obtain d' l' where "spin_lock_irqsave daif (Some (cbuf_rlock c)) = Some (daif, d', l')"
    "spin_unlock_irqrestore d' l' daif = Some (daif, Some (cbuf_rlock c))"
    using lock_pair [OF assms(1,2)] by metis
  with assms(3,4) show ?thesis by (simp add: read_concurrent_cbuf_def)
qed

interpretation locked: fifo cc_write cc_read "\<lambda>m c. cb_content m (cbuf (snd c))"
  "\<lambda>c. cb_base (cbuf (snd c))" "\<lambda>c. cb_room (cbuf (snd c))" cc_wf
proof unfold_locales
  fix c :: cpu_cbuf and d k j :: nat and m m' :: mem
  let ?b = "cbuf (snd c)"
  assume wf: "cc_wf c"
  then have b: "cb_wf ?b" by (simp add: cc_wf_def)
  show "cb_base ?b + cb_room ?b < 2 ^ 64" using b by (rule ring.in_memory)
  show "cb_content m' ?b = cb_content m ?b" if "mem_eq_on (cb_base ?b) (cb_base ?b + cb_room ?b) m m'"
    using b that by (rule ring.content_frame)
  assume d: "0 < d" "d + k < 2 ^ 64" and ap: "apart (cb_base ?b) (cb_room ?b) d k"
  have k: "wd d \<noteq> NULL" "unat (wd k) = k" using d by (auto simp: wd_eq_0_iff unat_wd)
  let ?r = "if cb_count ?b + k < cb_room ?b then 0 else -1 :: int"
  obtain m1 b1 where w: "write_circular_buffer m (Some ?b) (wd d) (wd k) = Some (?r, m1, Some b1)"
    "cb_wf b1" "cb_base b1 = cb_base ?b" "cb_room b1 = cb_room ?b"
    "cb_content m1 b1 = cb_content m ?b @ (if cb_count ?b + k < cb_room ?b then load_bytes m (wd d) k else [])"
    "frame_out (cb_base ?b) (cb_base ?b + cb_room ?b) m m1"
  proof (cases "cb_count ?b + k < cb_room ?b")
    case True
    from write_circular_buffer_ok [OF b d True ap, of m] True that show thesis by auto
  next
    case False
    with that [of m ?b] write_circular_buffer_full [OF b k(1), of "wd k" m] k(2) b show thesis by simp
  qed
  show "\<exists>m' c'. cc_write m c (wd d) (wd k) =
        Some (if length (cb_content m ?b) + k < cb_room ?b then 0 else -1, m', c') \<and>
      cc_wf c' \<and> cb_base (cbuf (snd c')) = cb_base ?b \<and> cb_room (cbuf (snd c')) = cb_room ?b \<and>
      cb_content m' (cbuf (snd c')) = cb_content m ?b @
        (if length (cb_content m ?b) + k < cb_room ?b then load_bytes m (wd d) k else []) \<and>
      frame_out (cb_base ?b) (cb_base ?b + cb_room ?b) m m'"
    using write_concurrent_eq [OF _ _ k(1) w(1), of "fst c"] wf w
    by (auto simp: cc_write_def cc_wf_def)
  assume j: "j = min k (length (cb_content m ?b))"
  then have "j = min k (cb_count ?b)" by simp
  from read_circular_buffer_ok [OF b d ap this, of m] obtain m2 b2 where
    r: "read_circular_buffer m (Some ?b) (wd d) (wd k) = Some (int j, m2, Some b2)" "cb_wf b2"
    "cb_base b2 = cb_base ?b" "cb_room b2 = cb_room ?b" "cb_content m2 b2 = drop j (cb_content m ?b)"
    "load_bytes m2 (wd d) j = take j (cb_content m ?b)" "frame_out d (d + j) m m2"
    by auto
  show "\<exists>m' c'. cc_read m c (wd d) (wd k) = Some (int j, m', c') \<and>
      cc_wf c' \<and> cb_base (cbuf (snd c')) = cb_base ?b \<and> cb_room (cbuf (snd c')) = cb_room ?b \<and>
      cb_content m' (cbuf (snd c')) = drop j (cb_content m ?b) \<and>
      load_bytes m' (wd d) j = take j (cb_content m ?b) \<and> frame_out d (d + j) m m'"
    using read_concurrent_eq [OF _ _ k(1) r(1), of "fst c"] wf r by (auto simp: cc_read_def cc_wf_def)
qed

lemma init_concurrent_cbuf_wf:
  assumes "0 < b" "0 < n" "n \<le> int_max" "b + n < 2 ^ 64" "daif_wf daif"
  shows "\<exists>c'. init_concurrent_cbuf (Some c) (wd b) (wd n) = Some c' \<and> cc_wf (daif, c') \<and>
    cb_content m (cbuf c') = [] \<and> cb_base (cbuf c') = b \<and> cb_room (cbuf c') = n"
proof -
  have "wd b \<noteq> NULL" using assms by (simp add: wd_eq_0_iff)
  let ?c = "(cbuf c)\<lparr>cb_buffer := wd b, cb_length := wd n, cb_rp := wd b, cb_wp := wd b\<rparr>"
  have "cb_wf ?c" "cb_count ?c = 0"
    by (rule cb_intro [of n b 0 0]; use assms in simp)+
  with \<open>wd b \<noteq> NULL\<close> assms show ?thesis
    by (simp add: init_concurrent_cbuf_def init_circular_buffer_def spin_lock_init_def cc_wf_def
        cb_content_def unat_wd)
qed

text \<open>
  The unlocked routines read the fields before the null check, so the check never takes effect;
  the locked wrappers do return -1.
\<close>

lemma circular_buffer_null:
  "write_circular_buffer m None d k = None \<and> read_circular_buffer m None d k = None \<and>
   write_concurrent_cbuf daif m None d k = Some (-1, daif, m, None) \<and>
   read_concurrent_cbuf daif m None d k = Some (-1, daif, m, None)"
  by (simp add: write_circular_buffer_def read_circular_buffer_def write_concurrent_cbuf_def
      read_concurrent_cbuf_def)

section \<open>Properties\<close>

text \<open>\<^verbatim>\<open>write_circular_buffer\<close> is all or nothing: on a well-formed ring it appends the bytes at
  \<^verbatim>\<open>data\<close> to the queue and returns 0 when they fit in the length minus one, and otherwise
  returns -1 and changes nothing; memory outside the buffer stays as it is.\<close>

theorem write_circular_buffer_spec:
  assumes "cb_wf c" "0 < d" "d + k < 2 ^ 64" "apart (cb_base c) (cb_room c) d k"
  shows "\<exists>m' c'. write_circular_buffer m (Some c) (wd d) (wd k) =
      (if length (cb_content m c) + k < cb_room c then Some (0, m', Some c') else Some (-1, m, Some c)) \<and>
    (length (cb_content m c) + k < cb_room c \<longrightarrow>
       cb_wf c' \<and> cb_content m' c' = cb_content m c @ load_bytes m (wd d) k \<and>
       frame_out (cb_base c) (cb_base c + cb_room c) m m')"
proof (cases "cb_count c + k < cb_room c")
  case True
  from write_circular_buffer_ok [OF assms(1-3) True assms(4), of m] True show ?thesis by auto
next
  case False
  have "wd d \<noteq> NULL" "unat (wd k) = k" using assms(2,3) by (auto simp: wd_eq_0_iff unat_wd)
  with False write_circular_buffer_full [OF assms(1), of "wd d" "wd k" m] show ?thesis by simp
qed

theorem write_circular_buffer_spec_witness:
  "\<exists>m' c'. write_circular_buffer (\<lambda>a. ucast a)
      (Some \<lparr>cb_buffer = 4096, cb_length = 16, cb_rp = 4106, cb_wp = 4106\<rparr>) 8192 9 = Some (0, m', Some c') \<and>
    cb_content m' c' = [0, 1, 2, 3, 4, 5, 6, 7, 8]"
proof -
  let ?c = "\<lparr>cb_buffer = 4096, cb_length = 16, cb_rp = 4106, cb_wp = 4106\<rparr>"
  have "cb_wf ?c" "apart (cb_base ?c) (cb_room ?c) 8192 9" "cb_count ?c = 0"
    by (simp_all add: cb_wf_def apart_def cb_count_def)
  moreover from this have "cb_content (\<lambda>a. ucast a) ?c = []" by (simp add: cb_content_def)
  moreover have "load_bytes (\<lambda>a. ucast a) 8192 9 = [0, 1, 2, 3, 4, 5, 6, 7, 8]"
    by (simp add: load_bytes_def upt_rec)
  ultimately show ?thesis
    using write_circular_buffer_spec [of ?c 8192 9 "\<lambda>a. ucast a"] by (auto simp: wd_eq_numeral)
qed

text \<open>\<^verbatim>\<open>read_circular_buffer\<close> delivers the oldest bytes: it returns the smaller of the length
  asked for and the number of bytes held, copies that many from the front of the queue to
  \<^verbatim>\<open>data\<close>, removes them, and changes no other memory.\<close>

theorem read_circular_buffer_spec:
  assumes "cb_wf c" "0 < d" "d + k < 2 ^ 64" "apart (cb_base c) (cb_room c) d k"
  shows "\<exists>j m' c'. j = min k (length (cb_content m c)) \<and>
    read_circular_buffer m (Some c) (wd d) (wd k) = Some (int j, m', Some c') \<and> cb_wf c' \<and>
    cb_content m' c' = drop j (cb_content m c) \<and> load_bytes m' (wd d) j = take j (cb_content m c) \<and>
    frame_out d (d + j) m m'"
  using read_circular_buffer_ok [OF assms refl, of m] by auto

theorem read_circular_buffer_spec_witness:
  "\<exists>m' c'. read_circular_buffer (\<lambda>a. ucast a)
      (Some \<lparr>cb_buffer = 4096, cb_length = 16, cb_rp = 4110, cb_wp = 4099\<rparr>) 8192 100 = Some (5, m', Some c') \<and>
    load_bytes m' 8192 5 = [14, 15, 0, 1, 2] \<and> cb_content m' c' = []"
proof -
  let ?c = "\<lparr>cb_buffer = 4096, cb_length = 16, cb_rp = 4110, cb_wp = 4099\<rparr>"
  have "cb_wf ?c" "apart (cb_base ?c) (cb_room ?c) 8192 100" "cb_count ?c = 5"
    by (simp_all add: cb_wf_def apart_def cb_count_def)
  then obtain m' c' where
    r: "read_circular_buffer (\<lambda>a. ucast a) (Some ?c) (wd 8192) (wd 100) = Some (5, m', Some c')"
    "load_bytes m' (wd 8192) 5 = take 5 (cb_content (\<lambda>a. ucast a) ?c)"
    "cb_content m' c' = drop 5 (cb_content (\<lambda>a. ucast a) ?c)"
    using read_circular_buffer_spec [of ?c 8192 100 "\<lambda>a. ucast a"] by auto
  moreover have "cb_content (\<lambda>a. ucast a) ?c = [14, 15, 0, 1, 2]"
    by (simp add: cb_content_def cb_count_def cb_pos_def upt_rec wd_eq_numeral)
  ultimately show ?thesis by (auto simp: wd_eq_numeral)
qed



end
