(* ===== verification/Klist.thy ===== *)
theory Klist
  imports Prelude
begin

text \<open>
  The intrusive doubly linked list of \<^verbatim>\<open>include/list.h\<close>. The links of all list heads are
  two functions from addresses to addresses; an entry is named by the address of its
  \<^verbatim>\<open>list_head\<close> member (\<^verbatim>\<open>container_of\<close> is a constant offset from it). \<open>is_list h hd xs\<close>
  says that the circular list with head \<open>hd\<close> holds exactly the entries \<open>xs\<close>, in order.
\<close>

section \<open>Definitions\<close>

record list_links =
  lnext :: "u64 \<Rightarrow> u64"
  lprev :: "u64 \<Rightarrow> u64"

definition set_next :: "u64 \<Rightarrow> u64 \<Rightarrow> list_links \<Rightarrow> list_links" where
  "set_next p v h = h\<lparr>lnext := (lnext h)(p := v)\<rparr>"

definition set_prev :: "u64 \<Rightarrow> u64 \<Rightarrow> list_links \<Rightarrow> list_links" where
  "set_prev p v h = h\<lparr>lprev := (lprev h)(p := v)\<rparr>"

definition INIT_LIST_HEAD :: "u64 \<Rightarrow> list_links \<Rightarrow> list_links" where
  "INIT_LIST_HEAD l h = set_prev l l (set_next l l h)"

definition list_empty :: "u64 \<Rightarrow> list_links \<Rightarrow> bool" where
  "list_empty head h \<longleftrightarrow> lnext h head = head"

definition list_add_between :: "u64 \<Rightarrow> u64 \<Rightarrow> u64 \<Rightarrow> list_links \<Rightarrow> list_links" where
  "list_add_between new prev nxt h =
    (let h = set_prev nxt new h; h = set_next new nxt h; h = set_prev new prev h
     in set_next prev new h)"

definition list_add :: "u64 \<Rightarrow> u64 \<Rightarrow> list_links \<Rightarrow> list_links" where
  "list_add new head h = list_add_between new head (lnext h head) h"

definition list_add_tail :: "u64 \<Rightarrow> u64 \<Rightarrow> list_links \<Rightarrow> list_links" where
  "list_add_tail new head h = list_add_between new (lprev h head) head h"

definition list_del_between :: "u64 \<Rightarrow> u64 \<Rightarrow> list_links \<Rightarrow> list_links" where
  "list_del_between prev nxt h = (let h = set_prev nxt prev h in set_next prev nxt h)"

definition LIST_POISON1 :: u64 where
  "LIST_POISON1 = 0x00100100"

definition LIST_POISON2 :: u64 where
  "LIST_POISON2 = 0x00200200"

definition list_del :: "u64 \<Rightarrow> list_links \<Rightarrow> list_links" where
  "list_del entry h =
    (let h = list_del_between (lprev h entry) (lnext h entry) h;
         h = set_next entry LIST_POISON1 h
     in set_prev entry LIST_POISON2 h)"

text \<open>
  The iteration macros as folds over the entries. \<^verbatim>\<open>list_for_each_entry\<close> follows the links of
  the state the body leaves; \<^verbatim>\<open>list_for_each_entry_safe\<close> fetches the successor first.
\<close>

partial_function (option) list_for_each_entry ::
  "('s \<Rightarrow> list_links) \<Rightarrow> (u64 \<Rightarrow> 's \<Rightarrow> 's option) \<Rightarrow> u64 \<Rightarrow> u64 \<Rightarrow> 's \<Rightarrow> 's option" where
  "list_for_each_entry links body head pos s =
    (if pos = head then Some s
     else do { s \<leftarrow> body pos s; list_for_each_entry links body head (lnext (links s) pos) s })"

partial_function (option) list_for_each_entry_safe ::
  "('s \<Rightarrow> list_links) \<Rightarrow> (u64 \<Rightarrow> 's \<Rightarrow> 's option) \<Rightarrow> u64 \<Rightarrow> u64 \<Rightarrow> u64 \<Rightarrow> 's \<Rightarrow> 's option" where
  "list_for_each_entry_safe links body head pos n s =
    (if pos = head then Some s
     else do {
       s \<leftarrow> body pos s;
       list_for_each_entry_safe links body head n (lnext (links s) n) s })"

section \<open>Linked segments\<close>

text \<open>\<open>seg h a xs\<close>: the entries of \<open>a # xs\<close> are linked to each other, forwards and backwards.\<close>

fun seg :: "list_links \<Rightarrow> u64 \<Rightarrow> u64 list \<Rightarrow> bool" where
  "seg h a [] \<longleftrightarrow> True"
| "seg h a (x # xs) \<longleftrightarrow> lnext h a = x \<and> lprev h x = a \<and> seg h x xs"

definition is_list :: "list_links \<Rightarrow> u64 \<Rightarrow> u64 list \<Rightarrow> bool" where
  "is_list h head xs \<longleftrightarrow> seg h head (xs @ [head]) \<and> distinct (head # xs)"

lemma links_set [simp]:
  "lnext (set_next p v h) q = (if q = p then v else lnext h q)"
  "lnext (set_prev p v h) q = lnext h q"
  "lprev (set_prev p v h) q = (if q = p then v else lprev h q)"
  "lprev (set_next p v h) q = lprev h q"
  by (simp_all add: set_next_def set_prev_def)

lemma seg_append: "seg h a (xs @ ys) \<longleftrightarrow> seg h a xs \<and> seg h (last (a # xs)) ys"
  by (induction xs arbitrary: a) auto

lemma seg_set_next: "p \<notin> set (butlast (a # xs)) \<Longrightarrow> seg (set_next p v h) a xs \<longleftrightarrow> seg h a xs"
  by (induction xs arbitrary: a) auto

lemma seg_set_prev: "p \<notin> set xs \<Longrightarrow> seg (set_prev p v h) a xs \<longleftrightarrow> seg h a xs"
  by (induction xs arbitrary: a) auto

lemma last_not_butlast: "distinct xs \<Longrightarrow> xs \<noteq> [] \<Longrightarrow> last xs \<notin> set (butlast xs)"
  by (metis append_butlast_last_id distinct_butlast not_distinct_conv_prefix)

section \<open>The operations on lists\<close>

lemma INIT_LIST_HEAD_list: "is_list (INIT_LIST_HEAD l h) l []"
  by (simp add: is_list_def INIT_LIST_HEAD_def)

lemma list_empty_iff: "is_list h head xs \<Longrightarrow> list_empty head h \<longleftrightarrow> xs = []"
  by (cases xs) (auto simp: is_list_def list_empty_def)

lemma insert_between:
  assumes l: "is_list h head (xs @ ys)" and new: "new \<notin> set (head # xs @ ys)"
    and p: "p = last (head # xs)" and n: "n = hd (ys @ [head])"
  shows "is_list (list_add_between new p n h) head (xs @ new # ys)"
proof -
  let ?h = "set_next p new (set_prev new p (set_next new n (set_prev n new h)))"
  obtain t where t: "ys @ [head] = n # t" using n by (cases "ys @ [head]") auto
  have d: "distinct (head # xs @ ys)" using l by (simp add: is_list_def)
  have sg: "seg h head xs" "lnext h p = n" "lprev h n = p" "seg h n t"
    using l t p by (auto simp: is_list_def seg_append [of _ _ xs])
  have pin: "p \<in> set (head # xs)" using p last_in_set [of "head # xs"] by simp
  have nin: "n \<in> set (head # ys)" using t by (cases ys) auto
  have bt: "set (butlast (n # t)) = set ys" "distinct (n # t)"
    unfolding t [symmetric] using d by auto
  have "seg ?h head xs"
  proof -
    have "p \<notin> set (butlast (head # xs))"
      unfolding p using d by (intro last_not_butlast) auto
    moreover have "new \<notin> set (butlast (head # xs))" using new in_set_butlastD by fastforce
    moreover have "n \<notin> set xs" "new \<notin> set xs" using nin d new by auto
    ultimately show ?thesis using sg(1) by (simp only: seg_set_next seg_set_prev not_False_eq_True)
  qed
  moreover have "seg ?h n t"
  proof -
    have "p \<notin> set (butlast (n # t))" unfolding bt(1) using pin d by auto
    moreover have "new \<notin> set (butlast (n # t))" unfolding bt(1) using new by auto
    moreover have "new \<notin> set (n # t)" unfolding t [symmetric] using new by auto
    ultimately show ?thesis
      using sg(4) bt(2) by (simp only: seg_set_next seg_set_prev distinct.simps list.set insert_iff de_Morgan_disj not_False_eq_True)
  qed
  moreover have "p \<noteq> new" "n \<noteq> new" using pin nin new by auto
  ultimately have "seg ?h head (xs @ new # n # t)" by (simp add: seg_append p)
  then show ?thesis
    using new d by (auto simp: is_list_def list_add_between_def Let_def t)
qed

lemma list_add_list:
  assumes "is_list h head xs" "new \<notin> set (head # xs)"
  shows "is_list (list_add new head h) head (new # xs)"
proof -
  have "lnext h head = hd (xs @ [head])" using assms(1) by (cases xs) (auto simp: is_list_def)
  then show ?thesis
    using insert_between [of h head "[]" xs new head] assms by (simp add: list_add_def)
qed

lemma list_add_tail_list:
  assumes "is_list h head xs" "new \<notin> set (head # xs)"
  shows "is_list (list_add_tail new head h) head (xs @ [new])"
proof -
  have "lprev h head = last (head # xs)" using assms(1) by (simp add: is_list_def seg_append)
  then show ?thesis
    using insert_between [of h head xs "[]" new "last (head # xs)" head] assms
    by (simp add: list_add_tail_def)
qed

lemma list_del_list:
  assumes l: "is_list h head (xs @ e # ys)"
  shows "is_list (list_del e h) head (xs @ ys)"
proof -
  define p where "p = last (head # xs)"
  obtain n t where t: "ys @ [head] = n # t" by (cases "ys @ [head]") auto
  have d: "distinct (head # xs @ e # ys)" using l by (simp add: is_list_def)
  have sg: "seg h head xs" "lnext h p = e" "lprev h e = p" "lnext h e = n" "lprev h n = e" "seg h n t"
    using l t by (auto simp: is_list_def seg_append [of _ _ xs] p_def)
  let ?h = "set_prev e LIST_POISON2 (set_next e LIST_POISON1 (set_next p n (set_prev n p h)))"
  have run: "list_del e h = ?h" using sg by (simp add: list_del_def list_del_between_def Let_def)
  have pin: "p \<in> set (head # xs)" using last_in_set [of "head # xs"] by (simp add: p_def)
  have nin: "n \<in> set (head # ys)" using t by (cases ys) auto
  have st: "set (n # t) = insert head (set ys)" unfolding t [symmetric] by simp
  have bt: "set (butlast (n # t)) = set ys" "distinct (n # t)"
    unfolding t [symmetric] using d by auto
  have "e \<notin> set (n # t)" unfolding st using d by auto
  have "seg ?h head xs"
  proof -
    have "p \<notin> set (butlast (head # xs))"
      unfolding p_def using d by (intro last_not_butlast) auto
    moreover have "e \<notin> set (butlast (head # xs))" using d in_set_butlastD by fastforce
    moreover have "n \<notin> set xs" "e \<notin> set xs" using nin d by auto
    ultimately show ?thesis using sg(1) by (simp only: seg_set_next seg_set_prev not_False_eq_True)
  qed
  moreover have "seg ?h n t"
  proof -
    have "p \<notin> set (butlast (n # t))" "e \<notin> set (butlast (n # t))" unfolding bt(1) using pin d by auto
    with \<open>e \<notin> set (n # t)\<close> show ?thesis
      using sg(6) bt(2) by (simp only: seg_set_next seg_set_prev distinct.simps list.set insert_iff de_Morgan_disj not_False_eq_True)
  qed
  moreover have "p \<noteq> e" "n \<noteq> e" using pin nin d by auto
  ultimately have "seg ?h head (xs @ n # t)" by (simp add: seg_append p_def)
  then show ?thesis using d by (auto simp: is_list_def run t)
qed

section \<open>Frames\<close>

lemma seg_cong:
  "(\<And>p. p \<in> set (a # xs) \<Longrightarrow> lnext h' p = lnext h p \<and> lprev h' p = lprev h p) \<Longrightarrow>
   seg h' a xs \<longleftrightarrow> seg h a xs"
  by (induction xs arbitrary: a) auto

lemma is_list_cong:
  assumes "\<And>p. p \<in> set (head # xs) \<Longrightarrow> lnext h' p = lnext h p \<and> lprev h' p = lprev h p"
  shows "is_list h' head xs \<longleftrightarrow> is_list h head xs"
  unfolding is_list_def by (subst seg_cong [of head "xs @ [head]" h' h]) (use assms in auto)

lemma is_list_ends:
  assumes "is_list h head xs"
  shows "lnext h head \<in> set (head # xs)" "lprev h head \<in> set (head # xs)"
  using assms by (cases xs; auto simp: is_list_def seg_append)+

text \<open>Adding to one list leaves every list that shares no entry with it as it is.\<close>

lemma list_add_other:
  assumes "is_list h head xs" "is_list h head' ys" "set (head' # ys) \<inter> set (new # head # xs) = {}"
  shows "is_list (list_add new head h) head' ys" "is_list (list_add_tail new head h) head' ys"
proof -
  have n: "p \<in> set (head' # ys) \<Longrightarrow> p \<noteq> new \<and> p \<noteq> head \<and> p \<noteq> lnext h head \<and> p \<noteq> lprev h head" for p
    using is_list_ends [OF assms(1)] assms(3) by auto
  show "is_list (list_add new head h) head' ys" "is_list (list_add_tail new head h) head' ys"
    by (rule is_list_cong [THEN iffD2, OF _ assms(2)], drule n,
        simp add: list_add_def list_add_tail_def list_add_between_def)+
qed

section \<open>Iteration\<close>

fun fold_opt :: "('a \<Rightarrow> 's \<Rightarrow> 's option) \<Rightarrow> 'a list \<Rightarrow> 's \<Rightarrow> 's option" where
  "fold_opt f [] s = Some s"
| "fold_opt f (x # xs) s = do { s \<leftarrow> f x s; fold_opt f xs s }"

lemma is_list_next:
  "is_list h head (xs @ x # ys) \<Longrightarrow> lnext h x = hd (ys @ [head])"
  by (cases ys) (auto simp: is_list_def seg_append [of _ _ xs])

lemma is_list_first: "is_list h head xs \<Longrightarrow> lnext h head = hd (xs @ [head])"
  by (cases xs) (auto simp: is_list_def)

lemma list_for_each_entry_fold:
  assumes "\<And>x s s'. body x s = Some s' \<Longrightarrow> links s' = links s" "is_list (links s) head (ys @ xs)"
  shows "list_for_each_entry links body head (hd (xs @ [head])) s = fold_opt body xs s"
  using assms(2)
proof (induction xs arbitrary: ys s)
  case Nil
  then show ?case by (simp add: list_for_each_entry.simps)
next
  case (Cons x xs)
  have ne: "x \<noteq> head" using Cons.prems by (auto simp: is_list_def)
  show ?case
  proof (cases "body x s")
    case (Some s')
    have "links s' = links s" using assms(1) Some .
    then have "lnext (links s') x = hd (xs @ [head])" "is_list (links s') head ((ys @ [x]) @ xs)"
      using is_list_next Cons.prems by auto
    with Cons.IH [of s' "ys @ [x]"] Some ne show ?thesis
      by (simp add: list_for_each_entry.simps [of _ _ _ x])
  qed (simp add: list_for_each_entry.simps [of _ _ _ x] ne)
qed

text \<open>The safe iteration also works when the body takes its own entry out of the list.\<close>

lemma list_for_each_entry_safe_fold:
  assumes "\<And>x s s' ys zs. body x s = Some s' \<Longrightarrow> is_list (links s) head (ys @ x # zs) \<Longrightarrow>
      \<exists>ys'. is_list (links s') head (ys' @ zs)" "is_list (links s) head (ys @ xs)"
    "xs \<noteq> [] \<Longrightarrow> n = hd (tl xs @ [head])"
  shows "list_for_each_entry_safe links body head (hd (xs @ [head])) n s = fold_opt body xs s"
  using assms(2,3)
proof (induction xs arbitrary: ys s n)
  case Nil
  then show ?case by (simp add: list_for_each_entry_safe.simps)
next
  case (Cons x xs)
  have ne: "x \<noteq> head" using Cons.prems by (auto simp: is_list_def)
  show ?case
  proof (cases "body x s")
    case (Some s')
    obtain ys' where l: "is_list (links s') head (ys' @ xs)" using assms(1) Some Cons.prems by blast
    have "lnext (links s') (hd (xs @ [head])) = hd (tl xs @ [head])" if "xs \<noteq> []"
      using is_list_next [of "links s'" head ys' "hd xs" "tl xs"] l that by simp
    with Cons.IH [OF l, of "lnext (links s') (hd (xs @ [head]))"] Some ne Cons.prems(2) show ?thesis
      by (simp add: list_for_each_entry_safe.simps [of _ _ _ x])
  qed (simp add: list_for_each_entry_safe.simps [of _ _ _ x] ne)
qed

section \<open>Properties\<close>

text \<open>C13. The list operations refine sequences: on a circular list that holds \<open>xs\<close>,
  \<^verbatim>\<open>list_add\<close> puts a new entry in front, \<^verbatim>\<open>list_add_tail\<close> puts it at the end, \<^verbatim>\<open>list_del\<close>
  takes an entry out wherever it stands, and \<^verbatim>\<open>list_empty\<close> decides emptiness.\<close>

theorem list_ops_refine:
  assumes "is_list h head xs"
  shows "(list_empty head h \<longleftrightarrow> xs = []) \<and>
    (\<forall>new. new \<notin> set (head # xs) \<longrightarrow> is_list (list_add new head h) head (new # xs) \<and>
       is_list (list_add_tail new head h) head (xs @ [new])) \<and>
    (\<forall>e \<in> set xs. is_list (list_del e h) head (remove1 e xs))"
proof -
  have "is_list (list_del e h) head (remove1 e xs)" if e: "e \<in> set xs" for e
  proof -
    obtain ys zs where "xs = ys @ e # zs" "e \<notin> set ys" using split_list_first [OF e] by blast
    then show ?thesis using list_del_list [of h head ys e zs] assms by (simp add: remove1_append)
  qed
  then show ?thesis
    using list_empty_iff [OF assms] list_add_list [OF assms] list_add_tail_list [OF assms] by blast
qed

theorem list_ops_refine_witness:
  "is_list (list_del 200 (list_add 100 8 (list_add_tail 200 8
     (INIT_LIST_HEAD 8 \<lparr>lnext = (\<lambda>_. 0), lprev = (\<lambda>_. 0)\<rparr>)))) 8 [100]"
proof -
  let ?h0 = "INIT_LIST_HEAD 8 \<lparr>lnext = (\<lambda>_. 0), lprev = (\<lambda>_. 0)\<rparr>"
  have 0: "is_list ?h0 8 []" by (rule INIT_LIST_HEAD_list)
  have 1: "is_list (list_add_tail 200 8 ?h0) 8 [200]"
    using list_ops_refine [OF 0] by simp
  have 2: "is_list (list_add 100 8 (list_add_tail 200 8 ?h0)) 8 [100, 200]"
    using list_ops_refine [OF 1] by simp
  show ?thesis using list_ops_refine [OF 2] by simp
qed

end
