(* ===== verification/Mem_Alloc.thy ===== *)
theory Mem_Alloc
  imports Arch
begin

text \<open>
  The boundary-tag allocator of \<^verbatim>\<open>mm/mm.c\<close>, the file that is compiled twice: into the
  kernel behind \<^verbatim>\<open>kmalloc\<close> and \<^verbatim>\<open>kfree\<close> (\<^verbatim>\<open>mm/memory.c\<close>) and into user programs
  behind \<^verbatim>\<open>malloc\<close> and \<^verbatim>\<open>free\<close> (\<^verbatim>\<open>usr/stdlib.c\<close>). Block headers and tails live in
  the byte memory; \<^verbatim>\<open>struct mem_pool\<close> is a record whose function pointers are HOL
  functions (\<open>sbrk_func\<close> works on a state of its own, the lock functions on the lock).
  The printing of \<^verbatim>\<open>PRINT\<close> is left out. This theory holds the model and the
  behaviour of the operations that do not depend on the list of blocks;
  \<^verbatim>\<open>Mem_Pool\<close> holds the invariant and the contract.
\<close>

section \<open>Headers and tails\<close>

definition MEM_BLK_MAGIC :: u32 where
  "MEM_BLK_MAGIC = 0xABCD1234"

definition sizeof_mem_blk :: u64 where
  "sizeof_mem_blk = 32"

definition sizeof_mem_blk_tail :: u64 where
  "sizeof_mem_blk_tail = 8"

definition magic_num :: "mem \<Rightarrow> u64 \<Rightarrow> u32" where
  "magic_num m p = load32 m p"

definition in_use :: "mem \<Rightarrow> u64 \<Rightarrow> u32" where
  "in_use m p = load32 m (p + 4)"

definition blk_len :: "mem \<Rightarrow> u64 \<Rightarrow> u64" where
  "blk_len m p = load64 m (p + 8)"

definition user_start :: "mem \<Rightarrow> u64 \<Rightarrow> u64" where
  "user_start m p = load64 m (p + 16)"

definition user_len :: "mem \<Rightarrow> u64 \<Rightarrow> u64" where
  "user_len m p = load64 m (p + 24)"

definition tail_header :: "mem \<Rightarrow> u64 \<Rightarrow> u64" where
  "tail_header m t = load64 m t"

record ('k, 'l) mem_pool =
  pool_start :: u64
  pool_end :: u64
  sbrk_func :: "u64 \<Rightarrow> 'k \<Rightarrow> (u64 \<times> 'k) option"
  total_length :: u64
  pool_lock :: 'l
  lock_init_func :: "('l \<Rightarrow> 'l) option"
  lock_func :: "('l \<Rightarrow> 'l option) option"
  unlock_func :: "('l \<Rightarrow> 'l option) option"

record ('k, 'l) heap =
  hmem :: mem
  hpool :: "('k, 'l) mem_pool"
  hbrk :: 'k

section \<open>Operations\<close>

definition get_tail :: "mem \<Rightarrow> u64 \<Rightarrow> u64" where
  "get_tail m p = p + blk_len m p - sizeof_mem_blk_tail"

text \<open>The clearing loop of \<^verbatim>\<open>init_free_blk\<close> counts with a C \<^verbatim>\<open>int\<close>.\<close>

function clear_loop :: "mem \<Rightarrow> u64 \<Rightarrow> nat \<Rightarrow> u64 \<Rightarrow> mem option" where
  "clear_loop m p i sz =
    (if i < unat sz then
       (if i = int_max then None else clear_loop (m(p + of_nat i := 0)) p (i + 1) sz)
     else Some m)"
  by pat_completeness auto
termination
  by (relation "measure (\<lambda>(m, p, i, sz). unat sz - i)") auto

definition init_free_blk :: "mem \<Rightarrow> u64 \<Rightarrow> u64 \<Rightarrow> mem option" where
  "init_free_blk m p sz = do {
     m \<leftarrow> clear_loop m p 0 sz;
     let m = store32 m p MEM_BLK_MAGIC;
     let m = store32 m (p + 4) 0;
     let m = store64 m (p + 8) sz;
     Some (store64 m (get_tail m p) p) }"

definition prev_mem_blk :: "mem \<Rightarrow> ('k, 'l) mem_pool \<Rightarrow> u64 \<Rightarrow> u64" where
  "prev_mem_blk m pool p =
    (let tail = p - sizeof_mem_blk_tail in
     if tail < pool_start pool then NULL else tail_header m tail)"

definition next_mem_blk :: "mem \<Rightarrow> ('k, 'l) mem_pool \<Rightarrow> u64 \<Rightarrow> u64" where
  "next_mem_blk m pool p =
    (let header = p + blk_len m p in
     if pool_end pool \<le> header then NULL else header)"

definition big_mem_blk :: "mem \<Rightarrow> u64 \<Rightarrow> u64 \<Rightarrow> bool" where
  "big_mem_blk m p sz \<longleftrightarrow> sz \<le> blk_len m p - sizeof_mem_blk - sizeof_mem_blk_tail"

definition is_blk_free :: "mem \<Rightarrow> u64 \<Rightarrow> bool" where
  "is_blk_free m p \<longleftrightarrow> in_use m p = 0"

partial_function (option) merge_prev_loop ::
  "mem \<Rightarrow> ('k, 'l) mem_pool \<Rightarrow> u64 \<Rightarrow> u64 \<Rightarrow> u64 option" where
  "merge_prev_loop m pool p most_prev =
    (if p = NULL then Some most_prev
     else if is_blk_free m p then merge_prev_loop m pool (prev_mem_blk m pool p) p
     else Some most_prev)"

partial_function (option) merge_next_loop ::
  "mem \<Rightarrow> ('k, 'l) mem_pool \<Rightarrow> u64 \<Rightarrow> u64 \<Rightarrow> u64 option" where
  "merge_next_loop m pool p most_next =
    (if p = NULL then Some most_next
     else if is_blk_free m p then merge_next_loop m pool (next_mem_blk m pool p) p
     else Some most_next)"

definition merge_free_blk :: "mem \<Rightarrow> ('k, 'l) mem_pool \<Rightarrow> u64 \<Rightarrow> mem option" where
  "merge_free_blk m pool free = do {
     most_prev \<leftarrow> merge_prev_loop m pool free free;
     most_next \<leftarrow> merge_next_loop m pool free free;
     init_free_blk m most_prev (most_next + blk_len m most_next - most_prev) }"

definition enlarge_mem_pool :: "('k, 'l) heap \<Rightarrow> (int \<times> ('k, 'l) heap) option" where
  "enlarge_mem_pool h = do {
     let p = hpool h;
     let increment = pool_end p - pool_start p;
     (ret, k) \<leftarrow> sbrk_func p increment (hbrk h);
     let h = h\<lparr>hbrk := k\<rparr>;
     if ret = -1 then Some (-1, h)
     else do {
       let p = p\<lparr>pool_end := pool_end p + increment\<rparr>;
       m \<leftarrow> init_free_blk (hmem h) ret increment;
       m \<leftarrow> merge_free_blk m p ret;
       Some (0, h\<lparr>hmem := m, hpool := p\<rparr>) } }"

partial_function (option) find_loop ::
  "mem \<Rightarrow> ('k, 'l) mem_pool \<Rightarrow> u64 \<Rightarrow> u64 \<Rightarrow> u64 option" where
  "find_loop m pool p sz =
    (if p = NULL then Some NULL
     else if in_use m p = 0 \<and> big_mem_blk m p sz then Some p
     else find_loop m pool (next_mem_blk m pool p) sz)"

partial_function (option) find_a_free_blk ::
  "('k, 'l) heap \<Rightarrow> u64 \<Rightarrow> (u64 \<times> ('k, 'l) heap) option" where
  "find_a_free_blk h sz = do {
     p \<leftarrow> find_loop (hmem h) (hpool h) (pool_start (hpool h)) sz;
     if p \<noteq> NULL then Some (p, h)
     else do {
       r \<leftarrow> enlarge_mem_pool h;
       if fst r = 0 then find_a_free_blk (snd r) sz else Some (NULL, snd r) } }"

definition should_split :: "mem \<Rightarrow> u64 \<Rightarrow> u64 \<Rightarrow> bool" where
  "should_split m p sz \<longleftrightarrow>
    sizeof_mem_blk + sz + sizeof_mem_blk_tail + sizeof_mem_blk + sizeof_mem_blk_tail
      < blk_len m p"

definition split_mem_blk :: "mem \<Rightarrow> ('k, 'l) mem_pool \<Rightarrow> u64 \<Rightarrow> u64 \<Rightarrow> mem option" where
  "split_mem_blk m pool p sz = do {
     let old_blk_len = blk_len m p;
     let new_blk_len = sizeof_mem_blk + sz + sizeof_mem_blk_tail;
     m \<leftarrow> init_free_blk m p new_blk_len;
     let next = next_mem_blk m pool p;
     init_free_blk m next (old_blk_len - new_blk_len) }"

definition mark_mem_blk :: "mem \<Rightarrow> ('k, 'l) mem_pool \<Rightarrow> u64 \<Rightarrow> u64 \<Rightarrow> mem option" where
  "mark_mem_blk m pool p sz = do {
     m \<leftarrow> (if should_split m p sz then split_mem_blk m pool p sz else Some m);
     let m = store32 m (p + 4) 1;
     let m = store64 m (p + 16) (p + sizeof_mem_blk);
     Some (store64 m (p + 24) sz) }"

definition get_mem_blk :: "('k, 'l) heap \<Rightarrow> u64 \<Rightarrow> (u64 \<times> ('k, 'l) heap) option" where
  "get_mem_blk h sz = do {
     (p, h) \<leftarrow> find_a_free_blk h sz;
     if p \<noteq> NULL then do {
       m \<leftarrow> mark_mem_blk (hmem h) (hpool h) p sz;
       Some (p, h\<lparr>hmem := m\<rparr>) }
     else Some (NULL, h) }"

definition is_mem_blk_aligned :: bool where
  "is_mem_blk_aligned \<longleftrightarrow> ALIGNED_TO_8BYTES sizeof_mem_blk = sizeof_mem_blk"

definition init_mm ::
  "('k, 'l) heap \<Rightarrow> (u64 \<Rightarrow> 'k \<Rightarrow> (u64 \<times> 'k) option) \<Rightarrow> 'l \<Rightarrow> ('l \<Rightarrow> 'l) option \<Rightarrow>
   ('l \<Rightarrow> 'l option) option \<Rightarrow> ('l \<Rightarrow> 'l option) option \<Rightarrow> ('k, 'l) heap option" where
  "init_mm h sbrkf lock lock_init lockf unlockf =
    (if \<not> is_mem_blk_aligned then Some h
     else do {
       let p = (hpool h)\<lparr>sbrk_func := sbrkf, total_length := 0\<rparr>;
       let initial_blk_len = sizeof_mem_blk + sizeof_mem_blk_tail;
       (start, k) \<leftarrow> sbrk_func p initial_blk_len (hbrk h);
       let h = h\<lparr>hpool := p, hbrk := k\<rparr>;
       if start = -1 then Some h
       else do {
         let p = p\<lparr>pool_start := start, pool_end := start + initial_blk_len\<rparr>;
         m \<leftarrow> init_free_blk (hmem h) start initial_blk_len;
         let p = p\<lparr>pool_lock := lock, lock_init_func := lock_init, lock_func := lockf,
                   unlock_func := unlockf\<rparr>;
         let p = (case lock_init_func p of None \<Rightarrow> p
                  | Some f \<Rightarrow> p\<lparr>pool_lock := f (pool_lock p)\<rparr>);
         Some (h\<lparr>hmem := m, hpool := p\<rparr>) } })"

definition mem_blk_magic_ok :: "mem \<Rightarrow> u64 \<Rightarrow> bool" where
  "mem_blk_magic_ok m p \<longleftrightarrow> magic_num m p = MEM_BLK_MAGIC"

definition mem_blk_ok :: "mem \<Rightarrow> u64 \<Rightarrow> bool" where
  "mem_blk_ok m p \<longleftrightarrow>
    (if \<not> mem_blk_magic_ok m p then False
     else if in_use m p \<noteq> 1 then False
     else True)"

definition free_mem_blk :: "mem \<Rightarrow> ('k, 'l) mem_pool \<Rightarrow> u64 \<Rightarrow> mem option" where
  "free_mem_blk m pool p = do {
     let m = store32 m (p + 4) 0;
     merge_free_blk m pool p }"

text \<open>The calls through the lock pointers of the pool, taken only when they are not null.\<close>

definition take_pool_lock :: "('k, 'l) mem_pool \<Rightarrow> ('k, 'l) mem_pool option" where
  "take_pool_lock p =
    (case lock_func p of None \<Rightarrow> Some p
     | Some f \<Rightarrow> do { l \<leftarrow> f (pool_lock p); Some (p\<lparr>pool_lock := l\<rparr>) })"

definition drop_pool_lock :: "('k, 'l) mem_pool \<Rightarrow> ('k, 'l) mem_pool option" where
  "drop_pool_lock p =
    (case unlock_func p of None \<Rightarrow> Some p
     | Some f \<Rightarrow> do { l \<leftarrow> f (pool_lock p); Some (p\<lparr>pool_lock := l\<rparr>) })"

definition alloc_mem :: "('k, 'l) heap \<Rightarrow> u64 \<Rightarrow> (u64 \<times> ('k, 'l) heap) option" where
  "alloc_mem h sz =
    (if sz = 0 then Some (NULL, h)
     else do {
       let aligned_user_len = ALIGNED_TO_8BYTES sz;
       pool \<leftarrow> take_pool_lock (hpool h);
       (p, h) \<leftarrow> get_mem_blk (h\<lparr>hpool := pool\<rparr>) aligned_user_len;
       if p \<noteq> NULL then do {
         let m = store64 (hmem h) (p + 24) sz;
         let pool = (hpool h)\<lparr>total_length := total_length (hpool h) + sz\<rparr>;
         pool \<leftarrow> drop_pool_lock pool;
         Some (user_start m p, h\<lparr>hmem := m, hpool := pool\<rparr>) }
       else do {
         pool \<leftarrow> drop_pool_lock (hpool h);
         Some (NULL, h\<lparr>hpool := pool\<rparr>) } })"

definition free_mem :: "('k, 'l) heap \<Rightarrow> u64 \<Rightarrow> ('k, 'l) heap option" where
  "free_mem h ustart =
    (if ustart = NULL then Some h
     else do {
       let mem_blk = ustart - sizeof_mem_blk;
       pool \<leftarrow> take_pool_lock (hpool h);
       if mem_blk_ok (hmem h) mem_blk then do {
         let pool = pool\<lparr>total_length := total_length pool - user_len (hmem h) mem_blk\<rparr>;
         m \<leftarrow> free_mem_blk (hmem h) pool mem_blk;
         pool \<leftarrow> drop_pool_lock pool;
         Some (h\<lparr>hmem := m, hpool := pool\<rparr>) }
       else do {
         pool \<leftarrow> drop_pool_lock pool;
         Some (h\<lparr>hpool := pool\<rparr>) } })"

partial_function (option) total_loop ::
  "mem \<Rightarrow> ('k, 'l) mem_pool \<Rightarrow> u64 \<Rightarrow> u64 \<Rightarrow> u64 option" where
  "total_loop m pool p tlen =
    (if p = NULL then Some tlen
     else total_loop m pool (next_mem_blk m pool p)
            (if \<not> is_blk_free m p then tlen + user_len m p else tlen))"

definition get_pool_malloc_total_length :: "('k, 'l) heap \<Rightarrow> u64 option" where
  "get_pool_malloc_total_length h = do {
     tlen \<leftarrow> total_loop (hmem h) (hpool h) (pool_start (hpool h)) 0;
     Some (if total_length (hpool h) \<noteq> tlen then -1 else total_length (hpool h)) }"

end
