(* ===== verification/Mem_Pool.thy ===== *)
theory Mem_Pool
  imports Mem_Alloc
begin

text \<open>
  The contract of the allocator of \<^verbatim>\<open>mm/mm.c\<close>. A pool is abstracted to the list of its
  blocks (\<open>ablk\<close>: length, and the user length when the block is in use); \<open>pool_inv\<close>
  says that the memory between \<open>pool_start\<close> and \<open>pool_end\<close> is exactly that list, that no
  two neighbours are free, that free memory is zero and that the byte count is right.
\<close>

section \<open>The list of blocks\<close>

record ablk =
  blen :: nat
  bused :: "nat option"

abbreviation bfree :: "ablk \<Rightarrow> bool" where
  "bfree b \<equiv> bused b = None"

definition blens :: "ablk list \<Rightarrow> nat" where
  "blens bs = sum_list (map blen bs)"

definition mem_zero_on :: "nat \<Rightarrow> nat \<Rightarrow> mem \<Rightarrow> bool" where
  "mem_zero_on lo hi m \<longleftrightarrow> (\<forall>x. lo \<le> x \<and> x < hi \<longrightarrow> m (wd x) = 0)"

definition blk_at :: "mem \<Rightarrow> nat \<Rightarrow> ablk \<Rightarrow> bool" where
  "blk_at m a b \<longleftrightarrow>
    40 \<le> blen b \<and> 8 dvd blen b \<and>
    magic_num m (wd a) = MEM_BLK_MAGIC \<and> blk_len m (wd a) = wd (blen b) \<and>
    tail_header m (wd (a + blen b - 8)) = wd a \<and>
    (case bused b of
       None \<Rightarrow> in_use m (wd a) = 0
     | Some u \<Rightarrow> in_use m (wd a) = 1 \<and> user_start m (wd a) = wd (a + 32) \<and>
         user_len m (wd a) = wd u \<and> u + 40 \<le> blen b)"

fun chain :: "mem \<Rightarrow> nat \<Rightarrow> ablk list \<Rightarrow> bool" where
  "chain m a [] \<longleftrightarrow> True"
| "chain m a (b # bs) \<longleftrightarrow> blk_at m a b \<and> chain m (a + blen b) bs"

text \<open>Free blocks hold zeros between header and tail.\<close>

fun free_zero :: "mem \<Rightarrow> nat \<Rightarrow> ablk list \<Rightarrow> bool" where
  "free_zero m a [] \<longleftrightarrow> True"
| "free_zero m a (b # bs) \<longleftrightarrow>
    (bfree b \<longrightarrow> mem_zero_on (a + 32) (a + blen b - 8) m) \<and> free_zero m (a + blen b) bs"

lemma blens_simps [simp]:
  "blens [] = 0" "blens (b # bs) = blen b + blens bs" "blens (xs @ ys) = blens xs + blens ys"
  by (simp_all add: blens_def)

lemma chain_append:
  "chain m a (xs @ ys) \<longleftrightarrow> chain m a xs \<and> chain m (a + blens xs) ys"
  by (induction xs arbitrary: a) (auto simp: add.assoc)

lemma free_zero_append:
  "free_zero m a (xs @ ys) \<longleftrightarrow> free_zero m a xs \<and> free_zero m (a + blens xs) ys"
  by (induction xs arbitrary: a) (auto simp: add.assoc)

lemma free_zero_cong:
  "mem_eq_on a (a + blens bs) m m' \<Longrightarrow> free_zero m a bs \<Longrightarrow> free_zero m' a bs"
proof (induction bs arbitrary: a)
  case (Cons b bs)
  have "mem_eq_on (a + blen b) (a + blen b + blens bs) m m'"
    using Cons.prems(1) by (auto simp: mem_eq_on_def)
  then show ?case using Cons by (auto simp: mem_zero_on_def mem_eq_on_def)
qed simp

lemma mem_zero_on_cong: "mem_eq_on lo hi m m' \<Longrightarrow> mem_zero_on lo hi m \<Longrightarrow> mem_zero_on lo hi m'"
  by (simp add: mem_zero_on_def mem_eq_on_def)

lemmas header_defs = magic_num_def in_use_def blk_len_def user_start_def user_len_def
  tail_header_def

lemma header_cong:
  assumes "mem_eq_on a (a + 32) m m'"
  shows "magic_num m (wd a) = magic_num m' (wd a)" "in_use m (wd a) = in_use m' (wd a)"
    "blk_len m (wd a) = blk_len m' (wd a)" "user_start m (wd a) = user_start m' (wd a)"
    "user_len m (wd a) = user_len m' (wd a)"
  unfolding header_defs wd_simps
  by (rule load32_cong load64_cong, rule mem_eq_on_mono [OF assms]; simp)+

lemma blk_at_cong:
  assumes "mem_eq_on a (a + blen b) m m'" "blk_at m a b"
  shows "blk_at m' a b"
proof -
  have len: "40 \<le> blen b" using assms(2) by (simp add: blk_at_def)
  have hd: "mem_eq_on a (a + 32) m m'"
    and tl: "mem_eq_on (a + blen b - 8) (a + blen b - 8 + 8) m m'"
    using len by (auto intro: mem_eq_on_mono [OF assms(1)])
  show ?thesis
    using assms(2) load64_cong [OF tl]
    unfolding blk_at_def header_cong [OF hd] tail_header_def
    by (auto split: option.splits)
qed

lemma chain_cong:
  "mem_eq_on a (a + blens bs) m m' \<Longrightarrow> chain m a bs \<Longrightarrow> chain m' a bs"
proof (induction bs arbitrary: a)
  case (Cons b bs)
  have "mem_eq_on a (a + blen b) m m'" "mem_eq_on (a + blen b) (a + blen b + blens bs) m m'"
    using Cons.prems(1) by (auto intro: mem_eq_on_mono simp: mem_eq_on_def)
  with Cons show ?case using blk_at_cong by auto
qed simp

lemma chain_len: "chain m a bs \<Longrightarrow> b \<in> set bs \<Longrightarrow> 40 \<le> blen b \<and> 8 dvd blen b"
  by (induction bs arbitrary: a) (auto simp: blk_at_def)

lemma blens_dvd: "chain m a bs \<Longrightarrow> 8 dvd blens bs"
  by (induction bs arbitrary: a) (auto simp: blk_at_def)

section \<open>Making a free block\<close>

declare clear_loop.simps [simp del]

lemma clear_loop_eq:
  "unat sz \<le> int_max \<Longrightarrow>
   clear_loop m p i sz =
     Some (\<lambda>a. if i \<le> unat (a - p) \<and> unat (a - p) < unat sz then 0 else m a)"
proof (induction m p i sz rule: clear_loop.induct)
  case (1 m p i sz)
  show ?case
  proof (cases "i < unat sz")
    case True
    have lt: "i < 2 ^ 64" using less_trans [OF True unat_lt_64] by simp
    have at: "a = p + of_nat i \<longleftrightarrow> unat (a - p) = i" for a
      using lt by (metis add.commute diff_add_cancel unat_wd wd_def wd_unat add_diff_cancel_left')
    have "clear_loop m p i sz = clear_loop (m(p + of_nat i := 0)) p (i + 1) sz"
      using True 1 by (simp add: clear_loop.simps [of m])
    also have "\<dots> = Some (\<lambda>a. if i + 1 \<le> unat (a - p) \<and> unat (a - p) < unat sz then 0
        else (m(p + of_nat i := 0)) a)"
      using 1 True by (auto simp: fun_upd_def)
    also have "\<dots> = Some (\<lambda>a. if i \<le> unat (a - p) \<and> unat (a - p) < unat sz then 0 else m a)"
      using True by (auto simp: fun_eq_iff at le_less_Suc_eq)
    finally show ?thesis .
  next
    case False
    then show ?thesis by (auto simp: clear_loop.simps [of m] fun_eq_iff)
  qed
qed

definition free_blk :: "nat \<Rightarrow> ablk" where
  "free_blk n = \<lparr>blen = n, bused = None\<rparr>"

lemma clear_loop_wd:
  assumes "n \<le> int_max" "a + n < 2 ^ 64"
  obtains m' where "clear_loop m (wd a) 0 (wd n) = Some m'"
    "mem_zero_on a (a + n) m'" "frame_out a (a + n) m m'"
proof -
  let ?m = "\<lambda>x. if unat (x - wd a) < n then 0 else m x"
  have n: "unat (wd n) = n" using assms by (simp add: unat_wd)
  have at: "x < 2 ^ 64 \<Longrightarrow> ?m (wd x) = (if a \<le> x \<and> x < a + n then 0 else m (wd x))" for x
    using assms by (auto simp: unat_wd_diff)
  have "mem_zero_on a (a + n) ?m"
    unfolding mem_zero_on_def using at assms by auto
  moreover have "frame_out a (a + n) m ?m"
    unfolding frame_out_def mem_eq_on_def using at by auto
  moreover have "clear_loop m (wd a) 0 (wd n) = Some ?m"
    using assms n by (simp add: clear_loop_eq)
  ultimately show ?thesis using that by blast
qed

lemma init_free_blk_spec:
  assumes n: "40 \<le> n" "8 dvd n" "n \<le> int_max" and a: "a + n < 2 ^ 64"
  obtains m' where "init_free_blk m (wd a) (wd n) = Some m'"
    "blk_at m' a (free_blk n)" "mem_zero_on (a + 32) (a + n - 8) m'" "frame_out a (a + n) m m'"
proof -
  obtain m0 where m0: "clear_loop m (wd a) 0 (wd n) = Some m0"
    "mem_zero_on a (a + n) m0" "frame_out a (a + n) m m0"
    using clear_loop_wd [OF n(3) a] .
  define m1 where "m1 = store32 m0 (wd a) MEM_BLK_MAGIC"
  define m2 where "m2 = store32 m1 (wd (a + 4)) 0"
  define m3 where "m3 = store64 m2 (wd (a + 8)) (wd n)"
  define m4 where "m4 = store64 m3 (wd (a + n - 8)) (wd a)"
  have tail: "get_tail m3 (wd a) = wd (a + n - 8)"
    using n a unfolding get_tail_def blk_len_def sizeof_mem_blk_tail_def m3_def
    by (simp add: wd_simps wd_diff_numeral)
  have run: "init_free_blk m (wd a) (wd n) = Some m4"
    unfolding init_free_blk_def m0(1) m4_def
    by (simp add: m3_def [symmetric] m2_def [symmetric] m1_def [symmetric] tail wd_simps)
  have fr3: "frame_out a (a + 32) m0 m3"
    unfolding m3_def m2_def m1_def using n a
    by (auto intro!: frame_out_store32 [THEN frame_out_trans [rotated]]
        frame_out_store64 [THEN frame_out_trans [rotated]])
  have fr4: "frame_out (a + n - 8) (a + n) m3 m4"
    unfolding m4_def using n a by (intro frame_out_store64) auto
  have fr: "frame_out a (a + n) m0 m4"
    by (rule frame_out_trans [OF frame_out_mono [OF fr3] frame_out_mono [OF fr4]]) (use n in auto)
  have "mem_eq_on (a + 32) (a + n - 8) m0 m3" "mem_eq_on (a + 32) (a + n - 8) m3 m4"
    using a by (auto intro!: frame_outD [OF fr3] frame_outD [OF fr4])
  then have "mem_eq_on (a + 32) (a + n - 8) m0 m4"
    by (rule mem_eq_on_trans)
  then have zero: "mem_zero_on (a + 32) (a + n - 8) m4"
    using m0(2) n by (elim mem_zero_on_cong) (auto simp: mem_zero_on_def)
  have "magic_num m4 (wd a) = MEM_BLK_MAGIC" "in_use m4 (wd a) = 0"
    "blk_len m4 (wd a) = wd n" "tail_header m4 (wd (a + n - 8)) = wd a"
    unfolding header_defs m4_def m3_def m2_def m1_def using n a
    by (simp_all add: wd_simps load_store_other)
  with n have "blk_at m4 a (free_blk n)"
    by (simp add: blk_at_def free_blk_def)
  moreover have "frame_out a (a + n) m m4"
    using m0(3) fr by (rule frame_out_trans)
  ultimately show ?thesis using run zero that by blast
qed

section \<open>Walking the pool\<close>

text \<open>
  \<open>blocks_in m pool xs\<close>: the pool's memory is the list \<open>xs\<close>; the bounds keep every
  address computation of the walks below from wrapping.
\<close>

definition blocks_in :: "mem \<Rightarrow> ('k, 'l) mem_pool \<Rightarrow> ablk list \<Rightarrow> bool" where
  "blocks_in m pool bs \<longleftrightarrow>
    8 \<le> unat (pool_start pool) \<and> unat (pool_start pool) + blens bs = unat (pool_end pool) \<and>
    chain m (unat (pool_start pool)) bs"

lemma blocks_in_bound:
  "blocks_in m pool bs \<Longrightarrow> unat (pool_start pool) + blens bs < 2 ^ 64"
  using unat_lt_64 [of "pool_end pool"] by (simp add: blocks_in_def)

lemma blocks_in_at:
  assumes "blocks_in m pool (xs @ b # ys)"
  shows "blk_at m (unat (pool_start pool) + blens xs) b"
  using assms by (simp add: blocks_in_def chain_append)

lemma prev_mem_blk_first:
  assumes "blocks_in m pool bs"
  shows "prev_mem_blk m pool (pool_start pool) = NULL"
proof -
  have s: "8 \<le> unat (pool_start pool)" using assms by (simp add: blocks_in_def)
  then have "unat (pool_start pool - 8) < unat (pool_start pool)"
    by (subst unat_sub) (auto simp: word_le_nat_alt)
  then show ?thesis
    by (simp add: prev_mem_blk_def sizeof_mem_blk_tail_def word_less_nat_alt)
qed

lemma prev_mem_blk_step:
  assumes "blocks_in m pool (xs @ b # ys)" and s: "s = unat (pool_start pool)"
  shows "prev_mem_blk m pool (wd (s + blens xs + blen b)) = wd (s + blens xs)"
proof -
  have at: "blk_at m (s + blens xs) b" using blocks_in_at [OF assms(1)] s by simp
  then have len: "40 \<le> blen b" by (simp add: blk_at_def)
  have bnd: "s + blens xs + blen b < 2 ^ 64"
    using blocks_in_bound [OF assms(1)] s by simp
  have tail: "wd (s + blens xs + blen b) - sizeof_mem_blk_tail = wd (s + blens xs + blen b - 8)"
    using len by (simp add: sizeof_mem_blk_tail_def wd_diff_numeral)
  have "\<not> wd (s + blens xs + blen b - 8) < wd s"
    using len bnd by (subst wd_less_iff) auto
  moreover have "wd s = pool_start pool" by (simp add: s)
  ultimately have "prev_mem_blk m pool (wd (s + blens xs + blen b)) =
      tail_header m (wd (s + blens xs + blen b - 8))"
    unfolding prev_mem_blk_def Let_def tail by simp
  with at show ?thesis by (simp add: blk_at_def)
qed

lemma next_mem_blk_step:
  assumes "blocks_in m pool (xs @ b # ys)" and s: "s = unat (pool_start pool)"
  shows "next_mem_blk m pool (wd (s + blens xs)) =
    (if ys = [] then NULL else wd (s + blens xs + blen b))"
proof -
  have at: "blk_at m (s + blens xs) b" using blocks_in_at [OF assms(1)] s by simp
  have e: "pool_end pool = wd (s + blens xs + blen b + blens ys)"
  proof -
    have "unat (pool_end pool) = s + blens xs + blen b + blens ys"
      using assms by (simp add: blocks_in_def)
    then show ?thesis by (metis wd_unat)
  qed
  have bnd: "s + blens xs + blen b + blens ys < 2 ^ 64"
    using blocks_in_bound [OF assms(1)] s by simp
  have "chain m (s + blens xs + blen b) ys"
    using assms by (simp add: blocks_in_def chain_append)
  then have "blens ys = 0 \<longleftrightarrow> ys = []"
    by (cases ys) (auto simp: blk_at_def)
  then have "pool_end pool \<le> wd (s + blens xs + blen b) \<longleftrightarrow> ys = []"
    unfolding e using bnd by (subst wd_le_iff) auto
  then show ?thesis
    using at by (simp add: next_mem_blk_def blk_at_def wd_simps Let_def)
qed

lemma is_blk_free_at: "blk_at m a b \<Longrightarrow> is_blk_free m (wd a) \<longleftrightarrow> bfree b"
  by (auto simp: blk_at_def is_blk_free_def split: option.splits)

lemma blk_addr_nonnull:
  assumes "blocks_in m pool bs" "n \<le> blens bs"
  shows "wd (unat (pool_start pool) + n) \<noteq> NULL"
  using blocks_in_bound [OF assms(1)] assms
  by (subst wd_eq_0_iff) (auto simp: blocks_in_def simp del: unat_lt_64)

lemma merge_prev_loop_spec:
  assumes "blocks_in m pool (ys @ fs @ b # zs)" "list_all bfree (fs @ [b])"
    "ys = [] \<or> \<not> bfree (last ys)" "s = unat (pool_start pool)"
  shows "merge_prev_loop m pool (wd (s + blens ys + blens fs)) mp = Some (wd (s + blens ys))"
  using assms
proof (induction fs arbitrary: b zs mp rule: rev_induct)
  case Nil
  have here: "merge_prev_loop m pool (wd (s + blens ys)) mp =
      merge_prev_loop m pool (prev_mem_blk m pool (wd (s + blens ys))) (wd (s + blens ys))"
    using Nil blk_addr_nonnull [of m pool "ys @ b # zs" "blens ys"] blocks_in_at [of m pool ys b zs]
    by (subst merge_prev_loop.simps) (auto simp: is_blk_free_at)
  show ?case
  proof (cases ys rule: rev_cases)
    case Nil' : Nil
    then show ?thesis
      using here Nil prev_mem_blk_first [of m pool] by (simp add: merge_prev_loop.simps)
  next
    case (snoc ys' y)
    have "prev_mem_blk m pool (wd (s + blens ys)) = wd (s + blens ys')"
      using prev_mem_blk_step [of m pool ys' y "b # zs" s] Nil snoc by (simp add: add.assoc)
    moreover have "\<not> is_blk_free m (wd (s + blens ys'))"
      using blocks_in_at [of m pool ys' y "b # zs"] Nil snoc by (simp add: is_blk_free_at)
    ultimately show ?thesis
      using here by (simp add: merge_prev_loop.simps)
  qed
next
  case (snoc f fs)
  have blk: "blocks_in m pool ((ys @ fs) @ f # b # zs)" using snoc.prems by simp
  have here: "merge_prev_loop m pool (wd (s + blens ys + blens (fs @ [f]))) mp =
      merge_prev_loop m pool (prev_mem_blk m pool (wd (s + blens ys + blens (fs @ [f]))))
        (wd (s + blens ys + blens (fs @ [f])))"
    using snoc.prems blk_addr_nonnull [of m pool "ys @ fs @ [f] @ b # zs" "blens ys + blens (fs @ [f])"]
      blocks_in_at [of m pool "ys @ fs @ [f]" b zs]
    by (subst merge_prev_loop.simps) (auto simp: is_blk_free_at add.assoc)
  have "prev_mem_blk m pool (wd (s + blens ys + blens (fs @ [f]))) = wd (s + blens ys + blens fs)"
    using prev_mem_blk_step [OF blk] snoc.prems(4) by (simp add: add.assoc)
  with here show ?case
    using snoc.IH [of f "b # zs"] snoc.prems by simp
qed

lemma merge_next_loop_spec:
  assumes "blocks_in m pool (xs @ b # fs @ zs)" "list_all bfree (b # fs)"
    "zs = [] \<or> \<not> bfree (hd zs)" "s = unat (pool_start pool)"
  shows "merge_next_loop m pool (wd (s + blens xs)) mn =
    Some (wd (s + blens xs + blens (butlast (b # fs))))"
  using assms
proof (induction fs arbitrary: b xs mn)
  case Nil
  have here: "merge_next_loop m pool (wd (s + blens xs)) mn =
      merge_next_loop m pool (next_mem_blk m pool (wd (s + blens xs))) (wd (s + blens xs))"
    using Nil blk_addr_nonnull [of m pool "xs @ b # zs" "blens xs"] blocks_in_at [of m pool xs b zs]
    by (subst merge_next_loop.simps) (auto simp: is_blk_free_at)
  show ?case
  proof (cases zs)
    case Nil' : Nil
    then show ?thesis
      using here Nil next_mem_blk_step [of m pool xs b "[]" s] by (simp add: merge_next_loop.simps)
  next
    case (Cons z zs')
    have "next_mem_blk m pool (wd (s + blens xs)) = wd (s + blens xs + blen b)"
      using next_mem_blk_step [of m pool xs b "z # zs'" s] Nil Cons by simp
    moreover have "\<not> is_blk_free m (wd (s + blens xs + blen b))"
      using blocks_in_at [of m pool "xs @ [b]" z zs'] Nil Cons by (simp add: is_blk_free_at add.assoc)
    ultimately show ?thesis
      using here by (simp add: merge_next_loop.simps)
  qed
next
  case (Cons f fs)
  have here: "merge_next_loop m pool (wd (s + blens xs)) mn =
      merge_next_loop m pool (next_mem_blk m pool (wd (s + blens xs))) (wd (s + blens xs))"
    using Cons.prems blk_addr_nonnull [of m pool "xs @ b # (f # fs) @ zs" "blens xs"]
      blocks_in_at [of m pool xs b "f # fs @ zs"]
    by (subst merge_next_loop.simps) (auto simp: is_blk_free_at)
  have "next_mem_blk m pool (wd (s + blens xs)) = wd (s + blens (xs @ [b]))"
    using next_mem_blk_step [of m pool xs b "f # fs @ zs" s] Cons.prems by (simp add: add.assoc)
  with here show ?case
    using Cons.IH [of "xs @ [b]" f] Cons.prems by (simp add: add.assoc)
qed

end
