(* ===== verification/Mem_Blocks.thy ===== *)
theory Mem_Blocks
  imports Mem_Pool
begin

text \<open>
  What the operations of \<^verbatim>\<open>mm/mm.c\<close> that work on one pool do to the list of its blocks:
  merging, searching, splitting and marking, each against an operation on lists.
\<close>

section \<open>Abstract operations on block lists\<close>

definition coalesce :: "ablk list \<Rightarrow> ablk \<Rightarrow> ablk list \<Rightarrow> ablk list" where
  "coalesce xs b zs =
    rev (dropWhile bfree (rev xs)) @
    free_blk (blens (takeWhile bfree (rev xs)) + blen b + blens (takeWhile bfree zs)) #
    dropWhile bfree zs"

definition coalesced :: "ablk list \<Rightarrow> bool" where
  "coalesced bs \<longleftrightarrow> successively (\<lambda>x y. \<not> (bfree x \<and> bfree y)) bs"

definition fits :: "nat \<Rightarrow> ablk \<Rightarrow> bool" where
  "fits n b \<longleftrightarrow> bfree b \<and> n + 40 \<le> blen b"

definition carve :: "nat \<Rightarrow> nat \<Rightarrow> ablk \<Rightarrow> ablk list" where
  "carve n u b =
    (if n + 80 < blen b then [\<lparr>blen = n + 40, bused = Some u\<rparr>, free_blk (blen b - (n + 40))]
     else [\<lparr>blen = blen b, bused = Some u\<rparr>])"

text \<open>A block in use is at most 87 bytes longer than the area in it.\<close>

definition tight :: "ablk \<Rightarrow> bool" where
  "tight b \<longleftrightarrow> (case bused b of None \<Rightarrow> True | Some u \<Rightarrow> blen b \<le> u + 87)"

definition used_bytes :: "ablk list \<Rightarrow> nat" where
  "used_bytes bs = sum_list (map (\<lambda>b. case bused b of None \<Rightarrow> 0 | Some u \<Rightarrow> u) bs)"

text \<open>The live allocations: address of the user area and requested length.\<close>

fun live :: "nat \<Rightarrow> ablk list \<Rightarrow> (nat \<times> nat) list" where
  "live a [] = []"
| "live a (b # bs) =
    (case bused b of None \<Rightarrow> [] | Some u \<Rightarrow> [(a + 32, u)]) @ live (a + blen b) bs"

definition live_kept :: "(nat \<times> nat) set \<Rightarrow> mem \<Rightarrow> mem \<Rightarrow> bool" where
  "live_kept L m m' \<longleftrightarrow> (\<forall>(p, u) \<in> L. mem_eq_on p (p + u) m m')"

lemma free_blk_simps [simp]: "blen (free_blk n) = n" "bused (free_blk n) = None"
  by (simp_all add: free_blk_def)

lemma live_append: "live a (xs @ ys) = live a xs @ live (a + blens xs) ys"
  by (induction xs arbitrary: a) (auto simp: add.assoc)

lemma live_free: "list_all bfree fs \<Longrightarrow> live a fs = []"
  by (induction fs arbitrary: a) auto

lemma live_bounds:
  "chain m a bs \<Longrightarrow> (p, u) \<in> set (live a bs) \<Longrightarrow> a + 32 \<le> p \<and> p + u + 8 \<le> a + blens bs"
proof (induction bs arbitrary: a)
  case (Cons b bs)
  then show ?case
    by (cases "bused b") (auto simp: blk_at_def dest!: Cons.IH)
qed simp

lemma blens_rev [simp]: "blens (rev bs) = blens bs"
  by (simp add: blens_def rev_map [symmetric])

lemma used_bytes_simps [simp]:
  "used_bytes [] = 0"
  "used_bytes (b # bs) = (case bused b of None \<Rightarrow> 0 | Some u \<Rightarrow> u) + used_bytes bs"
  "used_bytes (xs @ ys) = used_bytes xs + used_bytes ys"
  by (simp_all add: used_bytes_def)

lemma used_bytes_free: "list_all bfree fs \<Longrightarrow> used_bytes fs = 0"
  by (induction fs) auto

lemma used_bytes_le: "chain m a bs \<Longrightarrow> used_bytes bs \<le> blens bs"
  by (induction bs arbitrary: a) (force simp: blk_at_def split: option.splits)+

text \<open>Splitting a list at the maximal free run before, and after, a block.\<close>

lemma free_run_before:
  obtains ys fs where "xs = ys @ fs" "list_all bfree fs" "ys = [] \<or> \<not> bfree (last ys)"
    "ys = rev (dropWhile bfree (rev xs))" "blens fs = blens (takeWhile bfree (rev xs))"
proof -
  let ?fs = "rev (takeWhile bfree (rev xs))" and ?ys = "rev (dropWhile bfree (rev xs))"
  have "xs = ?ys @ ?fs"
    by (metis rev_append rev_rev_ident takeWhile_dropWhile_id)
  moreover have "?ys = [] \<or> \<not> bfree (last ?ys)"
    using hd_dropWhile [of bfree "rev xs"] by (metis last_rev rev_is_Nil_conv)
  moreover have "list_all bfree ?fs"
    by (auto simp: list_all_iff dest: set_takeWhileD)
  ultimately show ?thesis using that by simp
qed

lemma free_run_after:
  obtains fs ys where "zs = fs @ ys" "list_all bfree fs" "ys = [] \<or> \<not> bfree (hd ys)"
    "ys = dropWhile bfree zs" "fs = takeWhile bfree zs"
proof -
  have "dropWhile bfree zs = [] \<or> \<not> bfree (hd (dropWhile bfree zs))"
    using hd_dropWhile [of bfree zs] by blast
  then show ?thesis
    using that [of "takeWhile bfree zs" "dropWhile bfree zs"]
    by (auto simp: list_all_iff dest: set_takeWhileD)
qed

lemma coalesce_not_Nil [simp]: "coalesce xs b zs \<noteq> []"
  by (simp add: coalesce_def)

lemma blens_coalesce: "blens (coalesce xs b zs) = blens xs + blen b + blens zs"
proof -
  obtain ys fs where "xs = ys @ fs" "ys = rev (dropWhile bfree (rev xs))"
    "blens fs = blens (takeWhile bfree (rev xs))"
    by (rule free_run_before)
  then have "blens xs = blens (dropWhile bfree (rev xs)) + blens (takeWhile bfree (rev xs))"
    by (metis blens_rev blens_simps(3))
  moreover have "blens zs = blens (takeWhile bfree zs) + blens (dropWhile bfree zs)"
    by (metis blens_simps(3) takeWhile_dropWhile_id)
  ultimately show ?thesis unfolding coalesce_def by simp
qed

lemma used_bytes_coalesce: "used_bytes (coalesce xs b zs) = used_bytes xs + used_bytes zs"
proof -
  obtain ys fs where x: "xs = ys @ fs" "list_all bfree fs" "ys = rev (dropWhile bfree (rev xs))"
    by (rule free_run_before)
  obtain gs ws where z: "zs = gs @ ws" "list_all bfree gs" "ws = dropWhile bfree zs"
    by (rule free_run_after)
  show ?thesis
    unfolding coalesce_def x(3) [symmetric] z(3) [symmetric]
    by (simp add: x(1,2) z(1,2) used_bytes_free)
qed

lemma live_coalesce:
  "live a (coalesce xs b zs) = live a xs @ live (a + blens xs + blen b) zs"
proof -
  obtain ys fs where x: "xs = ys @ fs" "list_all bfree fs" "ys = rev (dropWhile bfree (rev xs))"
    "blens fs = blens (takeWhile bfree (rev xs))"
    by (rule free_run_before)
  obtain gs ws where z: "zs = gs @ ws" "list_all bfree gs" "ws = dropWhile bfree zs"
    "gs = takeWhile bfree zs"
    by (rule free_run_after)
  show ?thesis
    unfolding coalesce_def x(3,4) [symmetric] z(3,4) [symmetric]
    by (simp add: x(1,2) z(1,2) live_append live_free add.assoc)
qed

lemma tight_free: "list_all bfree fs \<Longrightarrow> list_all tight fs"
  by (auto simp: list_all_iff tight_def)

lemma tight_coalesce:
  assumes "list_all tight xs" "list_all tight zs"
  shows "list_all tight (coalesce xs b zs)"
proof -
  obtain ys fs where x: "xs = ys @ fs" "list_all bfree fs" "ys = rev (dropWhile bfree (rev xs))"
    by (rule free_run_before)
  obtain gs ws where z: "zs = gs @ ws" "list_all bfree gs" "ws = dropWhile bfree zs"
    by (rule free_run_after)
  show ?thesis
    unfolding coalesce_def x(3) [symmetric] z(3) [symmetric] using assms
    by (simp add: x(1,2) z(1,2) tight_def [of "free_blk _"])
qed

lemma coalesced_append:
  "coalesced (xs @ ys) \<longleftrightarrow>
    coalesced xs \<and> coalesced ys \<and> (xs \<noteq> [] \<and> ys \<noteq> [] \<longrightarrow> \<not> (bfree (last xs) \<and> bfree (hd ys)))"
  by (auto simp: coalesced_def successively_append_iff)

lemma coalesced_Cons:
  "coalesced (x # ys) \<longleftrightarrow> coalesced ys \<and> (ys \<noteq> [] \<longrightarrow> \<not> (bfree x \<and> bfree (hd ys)))"
  by (cases ys) (auto simp: coalesced_def)

lemma coalesced_Nil [simp]: "coalesced []"
  by (simp add: coalesced_def)

lemma coalesced_coalesce:
  assumes "coalesced xs" "coalesced zs"
  shows "coalesced (coalesce xs b zs)"
proof -
  obtain ys fs where x: "xs = ys @ fs" "ys = [] \<or> \<not> bfree (last ys)"
    "ys = rev (dropWhile bfree (rev xs))"
    by (rule free_run_before)
  obtain gs ws where z: "zs = gs @ ws" "ws = [] \<or> \<not> bfree (hd ws)" "ws = dropWhile bfree zs"
    by (rule free_run_after)
  have "coalesced ys" "coalesced ws"
    using assms x(1) z(1) by (auto simp: coalesced_append)
  then show ?thesis
    unfolding coalesce_def x(3) [symmetric] z(3) [symmetric]
    using x(2) z(2) by (auto simp: coalesced_append coalesced_Cons)
qed

section \<open>Merging\<close>

lemma live_kept_frame:
  assumes "frame_out a e m m'" "chain m b bs" "b + blens bs < 2 ^ 64" "b + blens bs \<le> a \<or> e \<le> b"
  shows "live_kept (set (live b bs)) m m'"
  unfolding live_kept_def
proof clarify
  fix p u assume "(p, u) \<in> set (live b bs)"
  with assms(2) have "b + 32 \<le> p" "p + u + 8 \<le> b + blens bs"
    using live_bounds by blast+
  with assms show "mem_eq_on p (p + u) m m'"
    by (intro frame_outD [OF assms(1)]) auto
qed

lemma merge_free_blk_spec:
  assumes blk: "blocks_in m pool (xs @ b # zs)" and b: "bfree b"
    and small: "blens (xs @ b # zs) \<le> int_max" and s: "s = unat (pool_start pool)"
  obtains m' where "merge_free_blk m pool (wd (s + blens xs)) = Some m'"
    "blocks_in m' pool (coalesce xs b zs)"
    "live_kept (set (live s (coalesce xs b zs))) m m'"
    "free_zero m s xs \<Longrightarrow> free_zero m (s + blens xs + blen b) zs \<Longrightarrow>
     free_zero m' s (coalesce xs b zs)"
proof -
  obtain ys fs where x: "xs = ys @ fs" "list_all bfree fs" "ys = [] \<or> \<not> bfree (last ys)"
    "ys = rev (dropWhile bfree (rev xs))" "blens fs = blens (takeWhile bfree (rev xs))"
    by (rule free_run_before)
  obtain gs ws where z: "zs = gs @ ws" "list_all bfree gs" "ws = [] \<or> \<not> bfree (hd ws)"
    "ws = dropWhile bfree zs" "gs = takeWhile bfree zs"
    by (rule free_run_after)
  define A where "A = s + blens ys"
  define n where "n = blens fs + blen b + blens gs"
  define L where "L = s + blens xs + blens (butlast (b # gs))"
  have bnd: "s + blens xs + blen b + blens zs < 2 ^ 64"
    using blocks_in_bound [OF blk] s by simp
  have ch: "chain m s ys" "chain m A (fs @ b # gs)" "chain m (A + n) ws"
    using blk s by (simp_all add: blocks_in_def chain_append x(1) z(1) A_def n_def add.assoc)
  have at_last: "blk_at m L (last (b # gs))"
  proof -
    have "xs @ b # zs = (xs @ butlast (b # gs)) @ last (b # gs) # ws"
      using append_butlast_last_id [of "b # gs"] by (simp add: z(1) del: butlast.simps last.simps)
    with blk have "blocks_in m pool ((xs @ butlast (b # gs)) @ last (b # gs) # ws)"
      by simp
    from blocks_in_at [OF this] show ?thesis by (simp add: L_def s add.assoc)
  qed
  have "blens (b # gs) = blens (butlast (b # gs)) + blen (last (b # gs))"
    by (metis append_butlast_last_id blens_simps add.right_neutral list.distinct(1))
  then have L: "L + blen (last (b # gs)) = A + n"
    by (simp add: L_def A_def n_def x(1))
  have prev: "merge_prev_loop m pool (wd (s + blens xs)) (wd (s + blens xs)) = Some (wd A)"
    using merge_prev_loop_spec [of m pool ys fs b zs s] blk b x(1-3) s
    by (simp add: A_def add.assoc)
  have nxt: "merge_next_loop m pool (wd (s + blens xs)) (wd (s + blens xs)) = Some (wd L)"
    using merge_next_loop_spec [of m pool xs b gs ws s] blk b z(1-3) s
    by (simp add: L_def)
  have "blk_len m (wd L) = wd (blen (last (b # gs)))"
    using at_last by (simp add: blk_at_def)
  then have len: "wd L + blk_len m (wd L) - wd A = wd n"
    using L by (simp add: wd_simps wd_diff)
  have n: "40 \<le> n" "8 dvd n" "n \<le> int_max" "A + n < 2 ^ 64"
    using ch(2) blens_dvd [OF ch(2)] small bnd
    by (auto simp: chain_append blk_at_def n_def x(1) z(1) A_def add.assoc)
  obtain m' where m': "init_free_blk m (wd A) (wd n) = Some m'" "blk_at m' A (free_blk n)"
    "mem_zero_on (A + 32) (A + n - 8) m'" "frame_out A (A + n) m m'"
    using init_free_blk_spec [OF n] .
  have run: "merge_free_blk m pool (wd (s + blens xs)) = Some m'"
    by (simp add: merge_free_blk_def prev nxt len m'(1))
  have co: "coalesce xs b zs = ys @ free_blk n # ws"
    by (simp add: coalesce_def n_def x(4,5) z(4,5))
  have bw: "A + n + blens ws < 2 ^ 64"
    using bnd by (simp add: A_def n_def x(1) z(1))
  have fy: "mem_eq_on s (s + blens ys) m m'" and fw: "mem_eq_on (A + n) (A + n + blens ws) m m'"
    using bw by (auto intro!: frame_outD [OF m'(4)] simp: A_def)
  have "chain m' s ys" "chain m' (A + n) ws"
    using ch fy fw chain_cong by blast+
  then have "blocks_in m' pool (coalesce xs b zs)"
    using blk m'(2) s blens_coalesce [of xs b zs]
    by (simp add: blocks_in_def chain_append co A_def)
  moreover have "live_kept (set (live s (coalesce xs b zs))) m m'"
    using live_kept_frame [OF m'(4) ch(1)] live_kept_frame [OF m'(4) ch(3)] bw
    by (auto simp: co live_append A_def live_kept_def add.assoc)
  moreover have "free_zero m' s (coalesce xs b zs)"
    if "free_zero m s xs" "free_zero m (s + blens xs + blen b) zs"
  proof -
    have "free_zero m s ys" "free_zero m (A + n) ws"
      using that by (simp_all add: x(1) z(1) free_zero_append A_def n_def add.assoc)
    then have "free_zero m' s ys" "free_zero m' (A + n) ws"
      using fy fw free_zero_cong by blast+
    then show ?thesis using m'(3) by (simp add: co free_zero_append A_def)
  qed
  ultimately show ?thesis using run that by blast
qed

section \<open>Searching and marking\<close>

lemma big_mem_blk_at:
  assumes "blk_at m a b" "blen b < 2 ^ 64" "n < 2 ^ 64"
  shows "big_mem_blk m (wd a) (wd n) \<longleftrightarrow> n + 40 \<le> blen b"
proof -
  have len: "40 \<le> blen b" "blk_len m (wd a) = wd (blen b)"
    using assms(1) by (simp_all add: blk_at_def)
  have "wd (blen b) - 32 - 8 = wd (blen b - 40)"
    using len(1) by (simp add: wd_diff_numeral)
  then show ?thesis
    using assms(2,3) len
    by (simp add: big_mem_blk_def sizeof_mem_blk_def sizeof_mem_blk_tail_def wd_le_iff)
      arith
qed

lemma blk_fits_at:
  assumes "blk_at m a b" "blen b < 2 ^ 64" "n < 2 ^ 64"
  shows "in_use m (wd a) = 0 \<and> big_mem_blk m (wd a) (wd n) \<longleftrightarrow> fits n b"
  using is_blk_free_at [OF assms(1)] big_mem_blk_at [OF assms]
  by (simp add: fits_def is_blk_free_def)

lemma find_loop_step:
  assumes "blocks_in m pool (xs @ b # ys)" "n < 2 ^ 64" and s: "s = unat (pool_start pool)"
  shows "find_loop m pool (wd (s + blens xs)) (wd n) =
    (if fits n b then Some (wd (s + blens xs))
     else if ys = [] then Some NULL
     else find_loop m pool (wd (s + blens (xs @ [b]))) (wd n))"
proof -
  have at: "blk_at m (s + blens xs) b" using blocks_in_at [OF assms(1)] s by simp
  have "blen b < 2 ^ 64" using blocks_in_bound [OF assms(1)] by simp
  from blk_fits_at [OF at this assms(2)] show ?thesis
    using blk_addr_nonnull [OF assms(1), of "blens xs"] next_mem_blk_step [OF assms(1) s] s
    by (subst find_loop.simps) (auto simp: find_loop.simps [of _ _ NULL] add.assoc)
qed

lemma find_loop_found:
  assumes "blocks_in m pool (xs @ ys @ b # zs)" "n < 2 ^ 64" "s = unat (pool_start pool)"
    "\<forall>y \<in> set ys. \<not> fits n y" "fits n b"
  shows "find_loop m pool (wd (s + blens xs)) (wd n) = Some (wd (s + blens xs + blens ys))"
  using assms
proof (induction ys arbitrary: xs)
  case Nil
  then show ?case using find_loop_step [of m pool xs b zs n s] by simp
next
  case (Cons y ys)
  then show ?case
    using find_loop_step [of m pool xs y "ys @ b # zs" n s] Cons.IH [of "xs @ [y]"]
    by (simp add: add.assoc)
qed

lemma find_loop_none:
  assumes "blocks_in m pool (xs @ ys)" "ys \<noteq> []" "n < 2 ^ 64" "s = unat (pool_start pool)"
    "\<forall>y \<in> set ys. \<not> fits n y"
  shows "find_loop m pool (wd (s + blens xs)) (wd n) = Some NULL"
  using assms
proof (induction ys arbitrary: xs)
  case (Cons y ys)
  then show ?case
    using find_loop_step [of m pool xs y ys n s] Cons.IH [of "xs @ [y]"] by auto
qed simp

lemma mark_stores:
  assumes at: "blk_at m a (free_blk l)" and zero: "mem_zero_on (a + 32) (a + l - 8) m"
    and n: "n + 40 \<le> l" and bnd: "a + l < 2 ^ 64"
    and m': "m' = store64 (store64 (store32 m (wd (a + 4)) 1) (wd (a + 16)) (wd (a + 32)))
      (wd (a + 24)) (wd n)"
  shows "blk_at m' a \<lparr>blen = l, bused = Some n\<rparr>" "mem_zero_on (a + 32) (a + 32 + n) m'"
    "frame_out a (a + l) m m'"
proof -
  have fr: "frame_out a (a + 32) m m'"
    unfolding m' using bnd n
    by (auto intro!: frame_out_store32 [THEN frame_out_trans [rotated]]
        frame_out_store64 [THEN frame_out_trans [rotated]])
  then show "frame_out a (a + l) m m'"
    by (rule frame_out_mono) (use n in auto)
  have "mem_eq_on (a + 32) (a + l - 8) m m'" "mem_eq_on (a + l - 8) (a + l - 8 + 8) m m'"
    using bnd n by (auto intro!: frame_outD [OF fr])
  then show "mem_zero_on (a + 32) (a + 32 + n) m'"
    using n zero by (auto simp: mem_zero_on_def mem_eq_on_def)
  have "tail_header m' (wd (a + l - 8)) = wd a"
    using at load64_cong [OF \<open>mem_eq_on (a + l - 8) (a + l - 8 + 8) m m'\<close>]
    by (simp add: blk_at_def tail_header_def)
  moreover have "magic_num m' (wd a) = magic_num m (wd a)" "blk_len m' (wd a) = blk_len m (wd a)"
    "in_use m' (wd a) = 1" "user_start m' (wd a) = wd (a + 32)" "user_len m' (wd a) = wd n"
    unfolding header_defs m' using bnd n by (simp_all add: wd_simps load_store_other)
  ultimately show "blk_at m' a \<lparr>blen = l, bused = Some n\<rparr>"
    using at n by (simp add: blk_at_def)
qed

lemma split_mem_blk_spec:
  assumes at: "blk_at m a b" and n: "n + 80 < blen b" "8 dvd n" and small: "blen b \<le> int_max"
    and bnd: "a + blen b \<le> unat (pool_end pool)"
  obtains m' where "split_mem_blk m pool (wd a) (wd n) = Some m'"
    "chain m' a [free_blk (n + 40), free_blk (blen b - (n + 40))]"
    "free_zero m' a [free_blk (n + 40), free_blk (blen b - (n + 40))]"
    "frame_out a (a + blen b) m m'"
proof -
  define r where "r = blen b - (n + 40)"
  have b: "blk_len m (wd a) = wd (blen b)" "8 dvd blen b"
    using at by (simp_all add: blk_at_def)
  have e: "a + blen b < 2 ^ 64"
    using le_less_trans [OF bnd unat_lt_64] by simp
  have r: "40 \<le> r" "8 dvd r" "r \<le> int_max" "a + n + 40 + r = a + blen b"
    using n b(2) small unfolding r_def by (auto intro!: dvd_diff_nat)
  have n40: "40 \<le> n + 40" "8 dvd n + 40" "n + 40 \<le> int_max" "a + (n + 40) < 2 ^ 64"
    using n small e by auto
  obtain m1 where m1: "init_free_blk m (wd a) (wd (n + 40)) = Some m1"
    "blk_at m1 a (free_blk (n + 40))" "mem_zero_on (a + 32) (a + (n + 40) - 8) m1"
    "frame_out a (a + (n + 40)) m m1"
    using init_free_blk_spec [OF n40] .
  have "a + n + 40 + r < 2 ^ 64" using r e by simp
  then obtain m2 where m2: "init_free_blk m1 (wd (a + n + 40)) (wd r) = Some m2"
    "blk_at m2 (a + n + 40) (free_blk r)" "mem_zero_on (a + n + 40 + 32) (a + n + 40 + r - 8) m2"
    "frame_out (a + n + 40) (a + n + 40 + r) m1 m2"
    using init_free_blk_spec [OF r(1-3)] by metis
  have "\<not> unat (pool_end pool) \<le> a + (n + 40)" using n bnd by simp
  then have "\<not> pool_end pool \<le> wd (a + (n + 40))"
    using n40(4) by (simp add: word_le_nat_alt unat_wd)
  then have nxt: "next_mem_blk m1 pool (wd a) = wd (a + n + 40)"
    using m1(2) by (simp add: next_mem_blk_def blk_at_def wd_simps add.assoc)
  have len: "wd (blen b) - wd (n + 40) = wd r"
    using n by (simp add: r_def wd_diff)
  have "split_mem_blk m pool (wd a) (wd n) = Some m2"
    unfolding split_mem_blk_def Let_def
    by (simp add: sizeof_mem_blk_def sizeof_mem_blk_tail_def wd_simps add.assoc m1(1) nxt b(1) len
        m2(1) [unfolded add.assoc])
  moreover have eq: "mem_eq_on a (a + (n + 40)) m1 m2"
    using n40(4) by (auto intro!: frame_outD [OF m2(4)])
  then have "blk_at m2 a (free_blk (n + 40))"
    using m1(2) by (auto intro: blk_at_cong)
  moreover have "mem_zero_on (a + 32) (a + (n + 40) - 8) m2"
    using m1(3) eq by (auto simp: mem_zero_on_def mem_eq_on_def)
  moreover have "frame_out a (a + blen b) m m2"
    by (rule frame_out_trans [OF frame_out_mono [OF m1(4)] frame_out_mono [OF m2(4)]])
      (use r n in auto)
  ultimately show ?thesis
    using m2(2,3) that unfolding r_def by (simp add: add.assoc)
qed

lemma should_split_at:
  assumes "blk_at m a b" "n + 40 \<le> blen b" "blen b \<le> int_max"
  shows "should_split m (wd a) (wd n) \<longleftrightarrow> n + 80 < blen b"
proof -
  have "blk_len m (wd a) = wd (blen b)" using assms(1) by (simp add: blk_at_def)
  then show ?thesis
    using assms(2,3)
    by (simp add: should_split_def sizeof_mem_blk_def sizeof_mem_blk_tail_def wd_simps wd_less_iff)
      arith
qed

lemma mark_mem_blk_at:
  assumes at: "blk_at m a b" and zero: "free_zero m a [b]"
    and b: "fits n b" "8 dvd n" "blen b \<le> int_max"
    and bnd: "a + blen b \<le> unat (pool_end pool)"
  obtains m' where "mark_mem_blk m pool (wd a) (wd n) = Some m'" "chain m' a (carve n n b)"
    "free_zero m' a (carve n n b)"
    "mem_zero_on (a + 32) (a + 32 + n) m'" "frame_out a (a + blen b) m m'"
proof -
  have n: "n + 40 \<le> blen b" and fb: "b = free_blk (blen b)"
    using b(1) by (auto simp: fits_def free_blk_def)
  have e: "a + blen b < 2 ^ 64"
    using le_less_trans [OF bnd unat_lt_64] by simp
  let ?upd = "\<lambda>m. store64 (store64 (store32 m (wd (a + 4)) 1) (wd (a + 16)) (wd (a + 32)))
      (wd (a + 24)) (wd n)"
  have run: "mark_mem_blk m pool (wd a) (wd n) = map_option ?upd
      (if n + 80 < blen b then split_mem_blk m pool (wd a) (wd n) else Some m)"
    using should_split_at [OF at n b(3)]
    by (cases "split_mem_blk m pool (wd a) (wd n)")
      (auto simp: mark_mem_blk_def sizeof_mem_blk_def wd_simps)
  show ?thesis
  proof (cases "n + 80 < blen b")
    case True
    obtain m1 where m1: "split_mem_blk m pool (wd a) (wd n) = Some m1"
      "chain m1 a [free_blk (n + 40), free_blk (blen b - (n + 40))]"
      "free_zero m1 a [free_blk (n + 40), free_blk (blen b - (n + 40))]"
      "frame_out a (a + blen b) m m1"
      using split_mem_blk_spec [OF at True b(2,3) bnd] .
    have e1: "a + (n + 40) < 2 ^ 64" using e n by simp
    have m1': "blk_at m1 a (free_blk (n + 40))" "mem_zero_on (a + 32) (a + (n + 40) - 8) m1"
      "chain m1 (a + (n + 40)) [free_blk (blen b - (n + 40))]"
      "free_zero m1 (a + (n + 40)) [free_blk (blen b - (n + 40))]"
      using m1(2,3) by simp_all
    note mk = mark_stores [OF m1'(1,2) order.refl e1 refl]
    have eq: "mem_eq_on (a + (n + 40)) (a + (n + 40) + blens [free_blk (blen b - (n + 40))])
        m1 (?upd m1)"
      using e n by (auto intro!: frame_outD [OF mk(3)])
    have "chain (?upd m1) a (carve n n b)" "free_zero (?upd m1) a (carve n n b)"
      using True mk(1) chain_cong [OF eq m1'(3)] free_zero_cong [OF eq m1'(4)]
      by (simp_all add: carve_def)
    moreover have "frame_out a (a + blen b) m (?upd m1)"
      by (rule frame_out_trans [OF m1(4) frame_out_mono [OF mk(3)]]) (use n in auto)
    ultimately show ?thesis using that run True m1(1) mk(2) by simp
  next
    case False
    have z: "mem_zero_on (a + 32) (a + blen b - 8) m"
      using zero b(1) by (simp add: fits_def)
    have fat: "blk_at m a (free_blk (blen b))" using at fb by simp
    note mk = mark_stores [OF fat z n e refl]
    show ?thesis using that run False mk by (simp add: carve_def)
  qed
qed

section \<open>Carving a block out of a free one\<close>

lemma carve_facts:
  assumes "fits n b"
  shows "blens (carve n u b) = blen b" "used_bytes (carve n u b) = u"
    "live a (carve n u b) = [(a + 32, u)]" "carve n u b \<noteq> []"
  using assms by (auto simp: carve_def fits_def)

lemma tight_carve: "fits n b \<Longrightarrow> n \<le> u + 7 \<Longrightarrow> list_all tight (carve n u b)"
  by (auto simp: carve_def tight_def)

lemma coalesced_carve:
  assumes "coalesced (xs @ b # zs)" "bfree b"
  shows "coalesced (xs @ carve n u b @ zs)"
  using assms by (auto simp: coalesced_append coalesced_Cons carve_def)

lemma set_user_len:
  assumes "blk_at m a \<lparr>blen = l, bused = Some n\<rparr>" "u \<le> n" "a + l < 2 ^ 64"
  shows "blk_at (store64 m (wd (a + 24)) (wd u)) a \<lparr>blen = l, bused = Some u\<rparr>"
  using assms unfolding blk_at_def header_defs
  by (auto simp: wd_simps load_store_other)

lemma carve_set_user_len:
  assumes "chain m a (carve n n b)" "free_zero m a (carve n n b)" "fits n b" "u \<le> n"
    "a + blen b < 2 ^ 64" and m': "m' = store64 m (wd (a + 24)) (wd u)"
  shows "chain m' a (carve n u b)" "free_zero m' a (carve n u b)"
proof -
  have fr: "frame_out a (a + 32) m m'"
    unfolding m' using assms(3,5) by (intro frame_out_store64) (auto simp: fits_def)
  obtain c where c: "carve n u b = \<lparr>blen = c, bused = Some u\<rparr> # tl (carve n n b)"
    "carve n n b = \<lparr>blen = c, bused = Some n\<rparr> # tl (carve n n b)" "40 \<le> c"
    by (rule that [of "if n + 80 < blen b then n + 40 else blen b"])
      (use assms(3) in \<open>auto simp: carve_def fits_def\<close>)
  have "c + blens (tl (carve n n b)) = blen b"
    using carve_facts(1) [OF assms(3), of n] c(2) by (metis ablk.select_convs(1) blens_simps(2))
  then have "mem_eq_on (a + c) (a + c + blens (tl (carve n n b))) m m'" "a + c < 2 ^ 64"
    using assms(5) c(3) by (auto intro!: frame_outD [OF fr])
  moreover have "blk_at m a \<lparr>blen = c, bused = Some n\<rparr>" "chain m (a + c) (tl (carve n n b))"
    "free_zero m (a + c) (tl (carve n n b))"
    using assms(1,2) c(2) by (metis ablk.select_convs(1) chain.simps(2) free_zero.simps(2))+
  ultimately have "chain m' a (\<lparr>blen = c, bused = Some u\<rparr> # tl (carve n n b))"
    "free_zero m' a (\<lparr>blen = c, bused = Some u\<rparr> # tl (carve n n b))"
    using set_user_len [of m a c n u] assms(4) chain_cong free_zero_cong m' by auto
  then show "chain m' a (carve n u b)" "free_zero m' a (carve n u b)"
    by (simp_all only: c(1))
qed

lemma blocks_replace:
  assumes blk: "blocks_in m pool (xs @ b # zs)" and s: "s = unat (pool_start pool)"
    and fz: "free_zero m s (xs @ b # zs)" and fr: "frame_out (s + blens xs) (s + blens xs + blen b) m m'"
    and cs: "chain m' (s + blens xs) cs" "free_zero m' (s + blens xs) cs" "blens cs = blen b"
  shows "blocks_in m' pool (xs @ cs @ zs)" "free_zero m' s (xs @ cs @ zs)"
    "live_kept (set (live s xs) \<union> set (live (s + blens xs + blen b) zs)) m m'"
proof -
  have bnd: "s + blens xs + blen b + blens zs < 2 ^ 64"
    using blocks_in_bound [OF blk] s by simp
  have ch: "chain m s xs" "chain m (s + blens xs + blen b) zs"
    using blk s by (auto simp: blocks_in_def chain_append)
  have eq: "mem_eq_on s (s + blens xs) m m'"
    "mem_eq_on (s + blens xs + blen b) (s + blens xs + blen b + blens zs) m m'"
    using bnd by (auto intro!: frame_outD [OF fr])
  show "blocks_in m' pool (xs @ cs @ zs)"
    using blk chain_cong [OF eq(1) ch(1)] chain_cong [OF eq(2) ch(2)] cs s
    by (auto simp: blocks_in_def chain_append)
  show "free_zero m' s (xs @ cs @ zs)"
    using fz free_zero_cong [OF eq(1)] free_zero_cong [OF eq(2)] cs
    by (auto simp: free_zero_append)
  show "live_kept (set (live s xs) \<union> set (live (s + blens xs + blen b) zs)) m m'"
    using live_kept_frame [OF fr ch(1)] live_kept_frame [OF fr ch(2)] bnd
    by (auto simp: live_kept_def)
qed

end
