(* ===== verification/Mem_Contract.thy ===== *)
theory Mem_Contract
  imports Mem_Blocks
begin

text \<open>
  The contract of the allocator of \<^verbatim>\<open>mm/mm.c\<close>. The locale \<open>sbrk_provider\<close> is what the
  allocator needs of the function behind \<^verbatim>\<open>pool->sbrk_func\<close>: a break that only moves up,
  contiguously, and below a limit. The laws the allocator gives to its callers in return
  are proved once inside the locale, for any such function and for any lock.
\<close>

section \<open>The invariant of a pool\<close>

definition pool_inv :: "('k, 'l) heap \<Rightarrow> ablk list \<Rightarrow> bool" where
  "pool_inv h bs \<longleftrightarrow>
    blocks_in (hmem h) (hpool h) bs \<and> bs \<noteq> [] \<and> 8 dvd unat (pool_start (hpool h)) \<and>
    blens bs \<le> int_max \<and> coalesced bs \<and>
    free_zero (hmem h) (unat (pool_start (hpool h))) bs \<and>
    total_length (hpool h) = wd (used_bytes bs) \<and> list_all tight bs"

text \<open>The lock can be taken and given back, or the pool has none.\<close>

definition lock_ready :: "('k, 'l) mem_pool \<Rightarrow> bool" where
  "lock_ready p \<longleftrightarrow>
    (lock_func p = None \<and> unlock_func p = None) \<or>
    (\<exists>f g l. lock_func p = Some f \<and> unlock_func p = Some g \<and>
       f (pool_lock p) = Some l \<and> g l = Some (pool_lock p))"

definition heap_ok ::
  "(u64 \<Rightarrow> 'k \<Rightarrow> (u64 \<times> 'k) option) \<Rightarrow> ('k \<Rightarrow> nat) \<Rightarrow> ('k \<Rightarrow> bool) \<Rightarrow> nat \<Rightarrow>
   ('k, 'l) heap \<Rightarrow> ablk list \<Rightarrow> bool" where
  "heap_ok sbrk brk_of brk_ok brk_limit h bs \<longleftrightarrow>
    pool_inv h bs \<and> sbrk_func (hpool h) = sbrk \<and> brk_ok (hbrk h) \<and>
    brk_of (hbrk h) = unat (pool_end (hpool h)) \<and>
    brk_limit \<le> unat (pool_start (hpool h)) + int_max"

abbreviation live_of :: "('k, 'l) heap \<Rightarrow> ablk list \<Rightarrow> (nat \<times> nat) set" where
  "live_of h bs \<equiv> set (live (unat (pool_start (hpool h))) bs)"

lemma live_disjoint:
  "chain m a bs \<Longrightarrow> (p, u) \<in> set (live a bs) \<Longrightarrow> (q, v) \<in> set (live a bs) \<Longrightarrow>
   p \<noteq> q \<Longrightarrow> p + u + 40 \<le> q \<or> q + v + 40 \<le> p"
proof (induction bs arbitrary: a)
  case (Cons b bs)
  have below: "bused b = Some w \<Longrightarrow> a + 32 + w + 8 \<le> a + blen b" for w
    using Cons.prems(1) by (auto simp: blk_at_def)
  have above: "(r, w) \<in> set (live (a + blen b) bs) \<Longrightarrow> a + blen b + 32 \<le> r" for r w
    using Cons.prems(1) live_bounds by auto
  show ?case
  proof (cases "bused b")
    case None
    with Cons show ?thesis by auto
  next
    case (Some w)
    then show ?thesis
      using Cons below [OF Some] above [of p u] above [of q v] by auto
  qed
qed simp

lemma live_distinct:
  "chain m a bs \<Longrightarrow> distinct (map fst (live a bs))"
proof (induction bs arbitrary: a)
  case (Cons b bs)
  then have "\<forall>(r, w) \<in> set (live (a + blen b) bs). a + blen b + 32 \<le> r"
    using live_bounds by auto
  with Cons show ?case
    by (force simp: blk_at_def split: option.splits)
qed simp

lemma live_split:
  assumes "(p, u) \<in> set (live a bs)"
  obtains xs b zs where "bs = xs @ b # zs" "p = a + blens xs + 32" "bused b = Some u"
  using assms
proof (induction bs arbitrary: a thesis)
  case (Cons b bs)
  show ?case
  proof (cases "(p, u) \<in> set (live (a + blen b) bs)")
    case True
    then obtain xs c zs where "bs = xs @ c # zs" "p = a + blen b + blens xs + 32" "bused c = Some u"
      using Cons.IH by blast
    then show ?thesis using Cons.prems(1) [of "b # xs" c zs] by simp
  next
    case False
    then have "bused b = Some u" "p = a + 32"
      using Cons.prems(2) by (auto split: option.splits)
    then show ?thesis using Cons.prems(1) [of "[]" b bs] by simp
  qed
qed simp

lemma take_pool_lock_ready:
  fixes p :: "('k, 'l) mem_pool"
  assumes "lock_ready p"
  obtains l where "take_pool_lock p = Some (p\<lparr>pool_lock := l\<rparr>)"
    "\<And>q :: ('k, 'l) mem_pool. lock_func q = lock_func p \<Longrightarrow> unlock_func q = unlock_func p \<Longrightarrow> pool_lock q = l \<Longrightarrow>
      drop_pool_lock q = Some (q\<lparr>pool_lock := pool_lock p\<rparr>)"
proof (cases "lock_func p")
  case None
  then have "unlock_func p = None" using assms by (simp add: lock_ready_def)
  with None that [of "pool_lock p"] show ?thesis
    by (simp add: take_pool_lock_def drop_pool_lock_def)
next
  case (Some f)
  then obtain g l where "unlock_func p = Some g" "f (pool_lock p) = Some l" "g l = Some (pool_lock p)"
    using assms by (auto simp: lock_ready_def)
  with Some that [of l] show ?thesis
    by (simp add: take_pool_lock_def drop_pool_lock_def)
qed

section \<open>The contract\<close>

text \<open>
  \<open>grown\<close>: what a search that may enlarge the pool changes. The live allocations and their
  bytes stay, and of the pool record only the end moves.
\<close>

definition grown :: "('k, 'l) heap \<Rightarrow> ablk list \<Rightarrow> ('k, 'l) heap \<Rightarrow> ablk list \<Rightarrow> bool" where
  "grown h bs h' bs' \<longleftrightarrow>
    hpool h' = (hpool h)\<lparr>pool_end := pool_end (hpool h')\<rparr> \<and>
    live (unat (pool_start (hpool h))) bs' = live (unat (pool_start (hpool h))) bs \<and>
    used_bytes bs' = used_bytes bs \<and>
    live_kept (live_of h bs) (hmem h) (hmem h')"

lemma live_kept_refl [simp]: "live_kept L m m"
  by (auto simp: live_kept_def)

lemma live_kept_trans:
  "live_kept L m m' \<Longrightarrow> live_kept L m' m'' \<Longrightarrow> live_kept L m m''"
  unfolding live_kept_def using mem_eq_on_trans by blast

lemma live_kept_mono: "live_kept L m m' \<Longrightarrow> L' \<subseteq> L \<Longrightarrow> live_kept L' m m'"
  by (auto simp: live_kept_def)

lemma grown_start: "grown h bs h' bs' \<Longrightarrow> pool_start (hpool h') = pool_start (hpool h)"
  unfolding grown_def by (metis mem_pool.select_convs(1) mem_pool.surjective mem_pool.update_convs(2))

lemma grown_trans: "grown h bs h' bs' \<Longrightarrow> grown h' bs' h'' bs'' \<Longrightarrow> grown h bs h'' bs''"
  using grown_start [of h bs h' bs'] unfolding grown_def
  by (auto intro: live_kept_trans) (metis mem_pool.surjective mem_pool.update_convs(2))

lemma heap_ok_cong:
  assumes "heap_ok sb bo bk bl h bs" "hmem h' = hmem h" "hbrk h' = hbrk h"
    "pool_start (hpool h') = pool_start (hpool h)" "pool_end (hpool h') = pool_end (hpool h)"
    "total_length (hpool h') = total_length (hpool h)" "sbrk_func (hpool h') = sbrk_func (hpool h)"
  shows "heap_ok sb bo bk bl h' bs"
  using assms by (simp add: heap_ok_def pool_inv_def blocks_in_def)

lemma grown_fields:
  assumes "grown h bs h' bs'"
  shows "pool_start (hpool h') = pool_start (hpool h)"
    "total_length (hpool h') = total_length (hpool h)" "sbrk_func (hpool h') = sbrk_func (hpool h)"
  using assms unfolding grown_def
  by (metis mem_pool.ext_inject mem_pool.surjective mem_pool.update_convs(2))+

text \<open>Writing the requested length into a carved block finishes the allocation.\<close>

lemma pool_inv_alloc:
  assumes inv: "pool_inv h (xs @ b # zs)" and s: "s = unat (pool_start (hpool h))"
    and a: "a = s + blens xs" and b: "fits n b" and u: "u \<le> n" "n \<le> u + 7"
    and m: "chain m a (carve n n b)" "free_zero m a (carve n n b)"
      "mem_zero_on (a + 32) (a + 32 + n) m" "frame_out a (a + blen b) (hmem h) m"
    and m': "m' = store64 m (wd (a + 24)) (wd u)"
    and h': "hmem h' = m'" "pool_start (hpool h') = pool_start (hpool h)"
      "pool_end (hpool h') = pool_end (hpool h)"
      "total_length (hpool h') = total_length (hpool h) + wd u"
  shows "pool_inv h' (xs @ carve n u b @ zs)"
    "live s (xs @ carve n u b @ zs) = live s xs @ (a + 32, u) # live (a + blen b) zs"
    "live_kept (set (live s (xs @ b # zs))) (hmem h) m'"
    "mem_zero_on (a + 32) (a + 32 + u) m'" "a + blen b < 2 ^ 64" "user_start m' (wd a) = wd (a + 32)"
proof -
  have blk: "blocks_in (hmem h) (hpool h) (xs @ b # zs)" "free_zero (hmem h) s (xs @ b # zs)"
    using inv s by (auto simp: pool_inv_def)
  show bnd: "a + blen b < 2 ^ 64"
    using blocks_in_bound [OF blk(1)] s a by simp
  have bl: "40 \<le> blen b" "bfree b" using b by (auto simp: fits_def)
  note c = carve_set_user_len [OF m(1,2) b u(1) bnd m']
  have fr: "frame_out a (a + blen b) (hmem h) m'"
    unfolding m' using frame_out_trans [OF m(4)] frame_out_store64 bnd bl by simp
  note r = blocks_replace [OF blk(1) s blk(2), of m' "carve n u b", folded a]
  have new: "blocks_in m' (hpool h) (xs @ carve n u b @ zs)" "free_zero m' s (xs @ carve n u b @ zs)"
    "live_kept (set (live s xs) \<union> set (live (a + blen b) zs)) (hmem h) m'"
    using r fr c carve_facts(1) [OF b] by auto
  show "pool_inv h' (xs @ carve n u b @ zs)"
    using inv new(1,2) h' s carve_facts [OF b] coalesced_carve bl(2) tight_carve [OF b u(2)]
    by (auto simp: pool_inv_def blocks_in_def wd_simps fits_def add_ac)
  show "live s (xs @ carve n u b @ zs) = live s xs @ (a + 32, u) # live (a + blen b) zs"
    using carve_facts [OF b] a by (simp add: live_append)
  show "live_kept (set (live s (xs @ b # zs))) (hmem h) m'"
    using new(3) bl a by (simp add: live_append)
  have "mem_eq_on (a + 32) (a + 32 + n) m m'"
    unfolding m' using bnd b by (intro store64_frame) (auto simp: fits_def)
  then show "mem_zero_on (a + 32) (a + 32 + u) m'"
    using m(3) u(1) by (auto simp: mem_zero_on_def mem_eq_on_def)
  show "user_start m' (wd a) = wd (a + 32)"
    using c(1) by (auto simp: carve_def blk_at_def split: if_splits)
qed

text \<open>Clearing the mark of a block and merging it frees the allocation.\<close>

lemma unmark_blk:
  assumes "blk_at m a b" "a + blen b < 2 ^ 64"
  shows "blk_at (store32 m (wd (a + 4)) 0) a (b\<lparr>bused := None\<rparr>)"
  using assms unfolding blk_at_def header_defs
  by (auto simp: wd_simps load_store_other)

lemma free_mem_blk_spec:
  assumes inv: "pool_inv h (xs @ b # zs)" and s: "s = unat (pool_start (hpool h))"
    and pool: "pool_start pool = pool_start (hpool h)" "pool_end pool = pool_end (hpool h)"
  obtains m' where "free_mem_blk (hmem h) pool (wd (s + blens xs)) = Some m'"
    "blocks_in m' pool (coalesce xs b zs)" "free_zero m' s (coalesce xs b zs)"
    "live_kept (set (live s (coalesce xs b zs))) (hmem h) m'"
proof -
  define a where "a = s + blens xs"
  define m1 where "m1 = store32 (hmem h) (wd (a + 4)) 0"
  let ?b = "b\<lparr>bused := None\<rparr>"
  have blk: "blocks_in (hmem h) pool (xs @ b # zs)" "free_zero (hmem h) s (xs @ b # zs)"
    "blens (xs @ b # zs) \<le> int_max"
    using inv s pool by (auto simp: pool_inv_def blocks_in_def)
  have bnd: "a + blen b + blens zs < 2 ^ 64"
    using blocks_in_bound [OF blk(1)] s pool by (simp add: a_def)
  have at: "blk_at (hmem h) a b" using blocks_in_at [OF blk(1)] s pool by (simp add: a_def)
  then have len: "40 \<le> blen b" by (simp add: blk_at_def)
  have fr: "frame_out a (a + blen b) (hmem h) m1"
    unfolding m1_def using len bnd by (intro frame_out_store32) auto
  have ch: "chain (hmem h) s xs" "chain (hmem h) (a + blen b) zs"
    using blk(1) s pool by (auto simp: blocks_in_def chain_append a_def)
  have eq: "mem_eq_on s (s + blens xs) (hmem h) m1"
    "mem_eq_on (a + blen b) (a + blen b + blens zs) (hmem h) m1"
    using bnd by (auto intro!: frame_outD [OF fr] simp: a_def)
  have b1: "blocks_in m1 pool (xs @ ?b # zs)"
    using blk(1) chain_cong [OF eq(1) ch(1)] chain_cong [OF eq(2) ch(2)]
      unmark_blk [OF at] bnd s pool
    by (auto simp: blocks_in_def chain_append a_def m1_def)
  have kept: "live_kept (set (live s xs) \<union> set (live (a + blen b) zs)) (hmem h) m1"
    using live_kept_frame [OF fr ch(1)] live_kept_frame [OF fr ch(2)] bnd
    by (auto simp: live_kept_def a_def)
  obtain m2 where m2: "merge_free_blk m1 pool (wd (s + blens xs)) = Some m2"
    "blocks_in m2 pool (coalesce xs ?b zs)" "live_kept (set (live s (coalesce xs ?b zs))) m1 m2"
    "free_zero m1 s xs \<Longrightarrow> free_zero m1 (s + blens xs + blen b) zs \<Longrightarrow>
     free_zero m2 s (coalesce xs ?b zs)"
    using merge_free_blk_spec [OF b1] blk(3) s pool by force
  have co: "coalesce xs ?b zs = coalesce xs b zs" by (simp add: coalesce_def)
  have "free_mem_blk (hmem h) pool (wd (s + blens xs)) = Some m2"
    using m2(1) by (simp add: free_mem_blk_def m1_def a_def wd_simps)
  moreover have "free_zero m2 s (coalesce xs b zs)"
    using m2(4) blk(2) free_zero_cong [OF eq(1)] free_zero_cong [OF eq(2)]
    by (simp add: co free_zero_append a_def)
  moreover have "live_kept (set (live s (coalesce xs b zs))) (hmem h) m2"
    using kept m2(3) unfolding co live_coalesce by (auto simp: a_def intro: live_kept_trans)
  ultimately show ?thesis using that m2(2) co by simp
qed

text \<open>A header that was merged away no longer passes \<^verbatim>\<open>mem_blk_ok\<close>.\<close>

lemma load32_zero: "mem_zero_on a (a + 4) m \<Longrightarrow> load32 m (wd a) = 0"
proof -
  assume "mem_zero_on a (a + 4) m"
  then have "load_bytes m (wd a) 4 = [0, 0, 0, 0]"
    by (simp add: load_bytes_def mem_zero_on_def wd_simps upt_rec)
  then show ?thesis by (simp add: load32_def of_le_def)
qed

lemma coalesce_not_ok:
  assumes blk: "blocks_in m pool (coalesce xs b zs)" "free_zero m s (coalesce xs b zs)"
    and s: "s = unat (pool_start pool)" and len: "40 \<le> blen b" "\<forall>x \<in> set xs. 40 \<le> blen x"
  shows "\<not> mem_blk_ok m (wd (s + blens xs))"
proof -
  obtain ys fs where x: "xs = ys @ fs" "ys = rev (dropWhile bfree (rev xs))"
    "blens fs = blens (takeWhile bfree (rev xs))"
    by (rule free_run_before)
  define n where "n = blens fs + blen b + blens (takeWhile bfree zs)"
  have co: "coalesce xs b zs = ys @ free_blk n # dropWhile bfree zs"
    unfolding coalesce_def n_def x(2,3) by simp
  have at: "blk_at m (s + blens ys) (free_blk n)"
    "mem_zero_on (s + blens ys + 32) (s + blens ys + n - 8) m"
    using blk s by (auto simp: co blocks_in_def chain_append free_zero_append)
  show ?thesis
  proof (cases fs)
    case Nil
    then show ?thesis using at(1) x(1) by (simp add: mem_blk_ok_def blk_at_def)
  next
    case (Cons f fs')
    then have "40 \<le> blens fs" using len(2) x(1) by (simp add: trans_le_add1)
    then have "mem_zero_on (s + blens xs) (s + blens xs + 4) m"
      using at(2) len(1) by (auto simp: mem_zero_on_def n_def x(1))
    then show ?thesis
      using load32_zero
      by (simp add: mem_blk_ok_def mem_blk_magic_ok_def magic_num_def MEM_BLK_MAGIC_def)
  qed
qed

text \<open>A pointer whose header is not that of a block in use is refused and changes nothing.\<close>

lemma free_mem_refused:
  fixes h :: "('k, 'l) heap"
  assumes "lock_ready (hpool h)" "p = NULL \<or> \<not> mem_blk_ok (hmem h) (p - 32)"
  shows "free_mem h p = Some h"
proof (cases "p = NULL")
  case False
  obtain l where l: "take_pool_lock (hpool h) = Some ((hpool h)\<lparr>pool_lock := l\<rparr>)"
    "\<And>q :: ('k, 'l) mem_pool. lock_func q = lock_func (hpool h) \<Longrightarrow> unlock_func q = unlock_func (hpool h) \<Longrightarrow>
      pool_lock q = l \<Longrightarrow> drop_pool_lock q = Some (q\<lparr>pool_lock := pool_lock (hpool h)\<rparr>)"
    using take_pool_lock_ready [OF assms(1)] by metis
  have "drop_pool_lock ((hpool h)\<lparr>pool_lock := l\<rparr>) = Some (hpool h)"
    by (subst l(2)) simp_all
  then show ?thesis using assms(2) False l(1) by (simp add: free_mem_def sizeof_mem_blk_def)
qed (simp add: free_mem_def)

text \<open>Stores into a live user area keep the pool intact.\<close>

lemma client_write_chain:
  assumes "chain m a bs" "(p, u) \<in> set (live a bs)" "frame_out p (p + u) m m'"
    "a + blens bs < 2 ^ 64"
  shows "chain m' a bs" "free_zero m a bs \<Longrightarrow> free_zero m' a bs"
proof -
  obtain xs b zs where d: "bs = xs @ b # zs" "p = a + blens xs + 32" "bused b = Some u"
    using live_split [OF assms(2)] .
  let ?a = "a + blens xs"
  have ch: "chain m a xs" "blk_at m ?a b" "chain m (?a + blen b) zs"
    using assms(1) d(1) by (auto simp: chain_append)
  have len: "u + 40 \<le> blen b" using ch(2) d(3) by (simp add: blk_at_def)
  have eq: "mem_eq_on a (a + blens xs) m m'" "mem_eq_on (?a + blen b) (?a + blen b + blens zs) m m'"
    "mem_eq_on ?a (?a + 32) m m'" "mem_eq_on (?a + blen b - 8) (?a + blen b - 8 + 8) m m'"
    using assms(4) len unfolding d by (auto intro!: frame_outD [OF assms(3) [unfolded d]])
  have "blk_at m' ?a b"
    using ch(2) d(3) load64_cong [OF eq(4)] unfolding blk_at_def header_cong [OF eq(3)] tail_header_def
    by simp
  then show "chain m' a bs"
    using chain_cong [OF eq(1) ch(1)] chain_cong [OF eq(2) ch(3)] by (simp add: d(1) chain_append)
  show "free_zero m a bs \<Longrightarrow> free_zero m' a bs"
    using free_zero_cong [OF eq(1)] free_zero_cong [OF eq(2)] d(3)
    by (simp add: d(1) free_zero_append)
qed

lemma total_loop_spec:
  assumes "blocks_in m pool (xs @ ys)" "ys \<noteq> []" "s = unat (pool_start pool)"
  shows "total_loop m pool (wd (s + blens xs)) t = Some (t + wd (used_bytes ys))"
  using assms
proof (induction ys arbitrary: xs t)
  case (Cons y ys)
  have blk: "blocks_in m pool (xs @ y # ys)" using Cons.prems by simp
  have at: "blk_at m (s + blens xs) y" using blocks_in_at [OF blk] Cons.prems(3) by simp
  have nn: "wd (s + blens xs) \<noteq> NULL"
    using blk_addr_nonnull [OF blk, of "blens xs"] Cons.prems(3) by simp
  let ?t = "if \<not> is_blk_free m (wd (s + blens xs)) then t + user_len m (wd (s + blens xs)) else t"
  have t: "?t = t + wd (case bused y of None \<Rightarrow> 0 | Some u \<Rightarrow> u)"
    using at is_blk_free_at [OF at] by (auto simp: blk_at_def)
  have "total_loop m pool (wd (s + blens xs)) t =
      total_loop m pool (if ys = [] then NULL else wd (s + blens (xs @ [y]))) ?t"
    using nn next_mem_blk_step [OF blk Cons.prems(3)]
    by (subst total_loop.simps) (simp add: add.assoc)
  also have "\<dots> = Some (?t + wd (used_bytes ys))"
    using Cons.IH [of "xs @ [y]" ?t] Cons.prems by (auto simp: total_loop.simps [of _ _ NULL])
  finally show ?case unfolding t by (simp add: wd_simps add.assoc)
qed simp

lemma total_length_spec:
  assumes "pool_inv h bs"
  shows "get_pool_malloc_total_length h = Some (wd (used_bytes bs))"
proof -
  have "total_loop (hmem h) (hpool h) (pool_start (hpool h)) 0 = Some (wd (used_bytes bs))"
    using total_loop_spec [of "hmem h" "hpool h" "[]" bs _ 0] assms by (simp add: pool_inv_def)
  then show ?thesis
    using assms by (simp add: get_pool_malloc_total_length_def pool_inv_def)
qed

text \<open>The break refused to grow the pool when it was last asked.\<close>

definition exhausted ::
  "(u64 \<Rightarrow> 'k \<Rightarrow> (u64 \<times> 'k) option) \<Rightarrow> ('k \<Rightarrow> nat) \<Rightarrow> ('k \<Rightarrow> bool) \<Rightarrow> ('k, 'l) heap \<Rightarrow> bool" where
  "exhausted sbrk brk_of brk_ok h \<longleftrightarrow>
    (\<exists>k. brk_ok k \<and> brk_of k = unat (pool_end (hpool h)) \<and>
       sbrk (pool_end (hpool h) - pool_start (hpool h)) k = Some (-1, hbrk h))"

locale sbrk_provider =
  fixes sbrk :: "u64 \<Rightarrow> 'k \<Rightarrow> (u64 \<times> 'k) option"
    and brk_of :: "'k \<Rightarrow> nat"
    and brk_ok :: "'k \<Rightarrow> bool"
    and brk_limit :: nat
  assumes sbrk_law: "brk_ok k \<Longrightarrow> 0 < n \<Longrightarrow> n \<le> int_max \<Longrightarrow>
      \<exists>k'. brk_ok k' \<and>
        (sbrk (wd n) k = Some (-1, k') \<and> brk_of k' = brk_of k \<or>
         sbrk (wd n) k = Some (wd (brk_of k), k') \<and> brk_of k' = brk_of k + n)"
    and brk_below: "brk_ok k \<Longrightarrow> brk_of k \<le> brk_limit"
    and limit_small: "brk_limit < 2 ^ 64 - 1"
begin

abbreviation ok :: "('k, 'l) heap \<Rightarrow> ablk list \<Rightarrow> bool" where
  "ok \<equiv> heap_ok sbrk brk_of brk_ok brk_limit"

lemma brk_not_minus_one:
  assumes "brk_ok k"
  shows "wd (brk_of k) \<noteq> -1"
proof -
  have "unat (wd (brk_of k)) < 2 ^ 64 - 1"
    using brk_below [OF assms] limit_small by (subst unat_wd) auto
  then show ?thesis by (auto simp: unsigned_minus_1_eq_mask mask_eq_exp_minus_1)
qed

lemma ok_brk: "ok h bs \<Longrightarrow> brk_of (hbrk h) \<le> brk_limit"
  using brk_below unfolding heap_ok_def by blast

lemma ok_facts:
  assumes "ok h bs" "s = unat (pool_start (hpool h))" "n = blens bs"
  shows "blocks_in (hmem h) (hpool h) bs" "8 dvd s" "n \<le> int_max" "free_zero (hmem h) s bs"
    "sbrk_func (hpool h) = sbrk" "brk_ok (hbrk h)" "brk_of (hbrk h) = s + n"
    "brk_limit \<le> s + int_max" "chain (hmem h) s bs" "8 \<le> s" "40 \<le> n" "8 dvd n"
    "pool_end (hpool h) = wd (s + n)" "pool_end (hpool h) - pool_start (hpool h) = wd n"
proof -
  show inv: "blocks_in (hmem h) (hpool h) bs" "8 dvd s" "n \<le> int_max" "free_zero (hmem h) s bs"
    "sbrk_func (hpool h) = sbrk" "brk_ok (hbrk h)" "brk_of (hbrk h) = s + n"
    "brk_limit \<le> s + int_max" "chain (hmem h) s bs" "8 \<le> s"
    using assms by (auto simp: heap_ok_def pool_inv_def blocks_in_def)
  have "bs \<noteq> []" using assms(1) by (simp add: heap_ok_def pool_inv_def)
  then show "40 \<le> n" "8 dvd n"
    using inv(9) blens_dvd [OF inv(9)] by (auto simp: assms(3) neq_Nil_conv blk_at_def)
  show e: "pool_end (hpool h) = wd (s + n)"
    using inv(1) assms(2,3) wd_unat [of "pool_end (hpool h)"] by (simp add: blocks_in_def)
  show "pool_end (hpool h) - pool_start (hpool h) = wd n"
    unfolding e using wd_diff [of s "s + n"] by (simp add: assms(2))
qed

text \<open>The fresh half of an enlarged pool merges with a free block at the old end.\<close>

lemma extend_blocks:
  assumes ok: "ok h bs" and s: "s = unat (pool_start (hpool h))" and n: "n = blens bs"
    and lim: "s + n + n \<le> brk_limit" and p': "p' = (hpool h)\<lparr>pool_end := wd (s + n + n)\<rparr>"
  obtains m1 m2 where "init_free_blk (hmem h) (wd (s + n)) (wd n) = Some m1"
    "merge_free_blk m1 p' (wd (s + n)) = Some m2"
    "blocks_in m2 p' (coalesce bs (free_blk n) [])" "free_zero m2 s (coalesce bs (free_blk n) [])"
    "live_kept (set (live s bs)) (hmem h) m2"
proof -
  note f = ok_facts [OF ok s n]
  have lim': "s + n + n < 2 ^ 64" using lim limit_small by simp
  have s': "s = unat (pool_start p')" by (simp add: p' s)
  obtain m1 where m1: "init_free_blk (hmem h) (wd (s + n)) (wd n) = Some m1"
    "blk_at m1 (s + n) (free_blk n)" "mem_zero_on (s + n + 32) (s + n + n - 8) m1"
    "frame_out (s + n) (s + n + n) (hmem h) m1"
    using init_free_blk_spec [OF f(11,12,3) lim'] .
  have eq: "mem_eq_on s (s + blens bs) (hmem h) m1"
    using lim' by (auto intro!: frame_outD [OF m1(4)] simp: n)
  have b1: "blocks_in m1 p' (bs @ [free_blk n])"
    using chain_cong [OF eq f(9)] m1(2) f(10) lim' s
    by (simp add: blocks_in_def chain_append p' n [symmetric] unat_wd)
  have small: "blens (bs @ [free_blk n]) \<le> int_max"
    using lim f(8) by (simp add: n)
  obtain m2 where m2: "merge_free_blk m1 p' (wd (s + blens bs)) = Some m2"
    "blocks_in m2 p' (coalesce bs (free_blk n) [])"
    "live_kept (set (live s (coalesce bs (free_blk n) []))) m1 m2"
    "free_zero m1 s bs \<Longrightarrow> free_zero m1 (s + blens bs + blen (free_blk n)) [] \<Longrightarrow>
     free_zero m2 s (coalesce bs (free_blk n) [])"
    using merge_free_blk_spec [OF b1 _ small s'] by auto
  have "live s (coalesce bs (free_blk n) []) = live s bs" by (simp add: live_coalesce)
  moreover have "live_kept (set (live s bs)) (hmem h) m1"
    using live_kept_frame [OF m1(4) f(9)] lim' by (simp add: n)
  ultimately have "live_kept (set (live s bs)) (hmem h) m2"
    using m2(3) live_kept_trans by auto
  then show thesis
    using that m1(1) m2(1,2) m2(4) free_zero_cong [OF eq f(4)] by (simp add: n)
qed

lemma enlarge_spec:
  assumes ok: "ok h bs"
  obtains (refused) h' where "enlarge_mem_pool h = Some (-1, h')" "ok h' bs" "grown h bs h' bs"
    "exhausted sbrk brk_of brk_ok h'"
  | (granted) h' bs' where "enlarge_mem_pool h = Some (0, h')" "ok h' bs'" "grown h bs h' bs'"
    "brk_of (hbrk h) < brk_of (hbrk h')"
proof -
  define s where "s = unat (pool_start (hpool h))"
  define n where "n = blens bs"
  note f = ok_facts [OF ok s_def n_def]
  obtain k' where k': "brk_ok k'"
    "sbrk (wd n) (hbrk h) = Some (-1, k') \<and> brk_of k' = s + n \<or>
     sbrk (wd n) (hbrk h) = Some (wd (s + n), k') \<and> brk_of k' = s + n + n"
    using sbrk_law [OF f(6), of n] f(3,11) by (auto simp: f(7))
  from k'(2) show thesis
  proof
    assume r: "sbrk (wd n) (hbrk h) = Some (-1, k') \<and> brk_of k' = s + n"
    then have "enlarge_mem_pool h = Some (-1, h\<lparr>hbrk := k'\<rparr>)"
      by (simp add: enlarge_mem_pool_def f(5,14))
    moreover have "ok (h\<lparr>hbrk := k'\<rparr>) bs"
      using ok r k'(1) f(7) by (auto simp: heap_ok_def pool_inv_def)
    moreover have "grown h bs (h\<lparr>hbrk := k'\<rparr>) bs" by (simp add: grown_def)
    moreover have "exhausted sbrk brk_of brk_ok (h\<lparr>hbrk := k'\<rparr>)"
      using r f(6) ok by (auto simp: exhausted_def f(14) heap_ok_def)
    ultimately show thesis by (rule refused)
  next
    assume r: "sbrk (wd n) (hbrk h) = Some (wd (s + n), k') \<and> brk_of k' = s + n + n"
    define p' where "p' = (hpool h)\<lparr>pool_end := wd (s + n + n)\<rparr>"
    have lim: "s + n + n \<le> brk_limit" "s + n + n < 2 ^ 64"
      using brk_below [OF k'(1)] r limit_small by auto
    obtain m1 m2 where m: "init_free_blk (hmem h) (wd (s + n)) (wd n) = Some m1"
      "merge_free_blk m1 p' (wd (s + n)) = Some m2"
      "blocks_in m2 p' (coalesce bs (free_blk n) [])" "free_zero m2 s (coalesce bs (free_blk n) [])"
      "live_kept (set (live s bs)) (hmem h) m2"
      using extend_blocks [OF ok s_def n_def lim(1) p'_def] .
    define h' where "h' = h\<lparr>hbrk := k', hmem := m2, hpool := p'\<rparr>"
    have "enlarge_mem_pool h = Some (0, h')"
      unfolding enlarge_mem_pool_def Let_def f(14)
      using r brk_not_minus_one [OF f(6)] m(1,2)
      by (simp add: f(5,7,13) wd_simps h'_def p'_def add.assoc)
    moreover have "ok h' (coalesce bs (free_blk n) [])"
      using ok m(3,4) r k'(1) lim f(8) coalesced_coalesce tight_coalesce [of bs "[]"]
      by (auto simp: heap_ok_def pool_inv_def h'_def blens_coalesce used_bytes_coalesce p'_def
          s_def unat_wd n_def [symmetric])
    moreover have "grown h bs h' (coalesce bs (free_blk n) [])"
      using m(5) by (simp add: grown_def h'_def p'_def s_def live_coalesce used_bytes_coalesce)
    moreover have "brk_of (hbrk h) < brk_of (hbrk h')"
      using r f(7,11) by (simp add: h'_def)
    ultimately show thesis by (rule granted)
  qed
qed

lemma find_a_free_blk_spec:
  assumes ok: "ok h bs" and n: "n < 2 ^ 64"
  shows "\<exists>p h' bs'. find_a_free_blk h (wd n) = Some (p, h') \<and> ok h' bs' \<and> grown h bs h' bs' \<and>
    (p = NULL \<and> (\<forall>b \<in> set bs'. \<not> fits n b) \<and> exhausted sbrk brk_of brk_ok h' \<or>
     (\<exists>xs b zs. bs' = xs @ b # zs \<and> fits n b \<and>
        p = wd (unat (pool_start (hpool h')) + blens xs) \<and> p \<noteq> NULL))"
  using ok
proof (induction "brk_limit - brk_of (hbrk h)" arbitrary: h bs rule: less_induct)
  case less
  let ?s = "unat (pool_start (hpool h))"
  have blk: "blocks_in (hmem h) (hpool h) bs" "bs \<noteq> []"
    using less.prems by (auto simp: heap_ok_def pool_inv_def)
  have refl: "grown h bs h bs" by (simp add: grown_def)
  show ?case
  proof (cases "\<exists>b \<in> set bs. fits n b")
    case True
    then obtain xs b zs where d: "bs = xs @ b # zs" "fits n b" "\<forall>y \<in> set xs. \<not> fits n y"
      using split_list_first_prop by metis
    have "find_loop (hmem h) (hpool h) (pool_start (hpool h)) (wd n) = Some (wd (?s + blens xs))"
      using find_loop_found [of "hmem h" "hpool h" "[]" xs b zs n ?s] blk(1) d n by simp
    moreover have "wd (?s + blens xs) \<noteq> NULL"
      using blk_addr_nonnull [OF blk(1), of "blens xs"] d by simp
    ultimately have "find_a_free_blk h (wd n) = Some (wd (?s + blens xs), h)"
      by (subst find_a_free_blk.simps) simp
    then show ?thesis using less.prems refl d \<open>wd (?s + blens xs) \<noteq> NULL\<close> by blast
  next
    case False
    have fl: "find_loop (hmem h) (hpool h) (pool_start (hpool h)) (wd n) = Some NULL"
      using find_loop_none [of "hmem h" "hpool h" "[]" bs n ?s] blk False n by simp
    show ?thesis
      using less.prems
    proof (cases rule: enlarge_spec)
      case (refused h')
      then have "find_a_free_blk h (wd n) = Some (NULL, h')"
        using fl by (subst find_a_free_blk.simps) simp
      then show ?thesis using refused False by blast
    next
      case (granted h' bs')
      have run: "find_a_free_blk h (wd n) = find_a_free_blk h' (wd n)"
        using fl granted by (subst find_a_free_blk.simps) simp
      have "brk_of (hbrk h') \<le> brk_limit"
        using granted(2) by (rule ok_brk)
      then have "brk_limit - brk_of (hbrk h') < brk_limit - brk_of (hbrk h)"
        using granted(4) by simp
      from less.hyps [OF this granted(2)] show ?thesis
        unfolding run using grown_trans [OF granted(3)] by blast
    qed
  qed
qed

lemma get_mem_blk_spec:
  assumes ok: "ok h bs" and n: "n < 2 ^ 64" "8 dvd n"
  shows "\<exists>p h' bs'. get_mem_blk h (wd n) = Some (p, h') \<and>
    (p = NULL \<and> ok h' bs' \<and> grown h bs h' bs' \<and> (\<forall>b \<in> set bs'. \<not> fits n b) \<and>
       exhausted sbrk brk_of brk_ok h' \<or>
     p \<noteq> NULL \<and> (\<exists>h1 m xs b zs. ok h1 (xs @ b # zs) \<and> grown h bs h1 (xs @ b # zs) \<and> fits n b \<and>
        h' = h1\<lparr>hmem := m\<rparr> \<and> p = wd (unat (pool_start (hpool h1)) + blens xs) \<and>
        chain m (unat p) (carve n n b) \<and> free_zero m (unat p) (carve n n b) \<and>
        mem_zero_on (unat p + 32) (unat p + 32 + n) m \<and>
        frame_out (unat p) (unat p + blen b) (hmem h1) m))"
proof -
  obtain p h1 bs1 where f: "find_a_free_blk h (wd n) = Some (p, h1)" "ok h1 bs1" "grown h bs h1 bs1"
    "p = NULL \<and> (\<forall>b \<in> set bs1. \<not> fits n b) \<and> exhausted sbrk brk_of brk_ok h1 \<or>
     (\<exists>xs b zs. bs1 = xs @ b # zs \<and> fits n b \<and>
        p = wd (unat (pool_start (hpool h1)) + blens xs) \<and> p \<noteq> NULL)"
    using find_a_free_blk_spec [OF ok n(1)] by blast
  show ?thesis
  proof (cases "p = NULL")
    case True
    with f show ?thesis by (auto simp: get_mem_blk_def)
  next
    case False
    then obtain xs b zs where d: "bs1 = xs @ b # zs" "fits n b"
      "p = wd (unat (pool_start (hpool h1)) + blens xs)"
      using f(4) by auto
    let ?a = "unat (pool_start (hpool h1)) + blens xs"
    have inv: "blocks_in (hmem h1) (hpool h1) (xs @ b # zs)" "blens bs1 \<le> int_max"
      "free_zero (hmem h1) (unat (pool_start (hpool h1))) bs1"
      using f(2) d by (auto simp: heap_ok_def pool_inv_def)
    have a: "unat p = ?a"
      unfolding d(3) using blocks_in_bound [OF inv(1)] by (intro unat_wd) simp
    have "?a + blen b \<le> unat (pool_end (hpool h1))" "blen b \<le> int_max"
      "free_zero (hmem h1) ?a [b]"
      using inv d by (auto simp: blocks_in_def free_zero_append)
    then obtain m where m: "mark_mem_blk (hmem h1) (hpool h1) (wd ?a) (wd n) = Some m"
      "chain m ?a (carve n n b)" "free_zero m ?a (carve n n b)"
      "mem_zero_on (?a + 32) (?a + 32 + n) m" "frame_out ?a (?a + blen b) (hmem h1) m"
      using mark_mem_blk_at [OF blocks_in_at [OF inv(1)] _ d(2) n(2)] by blast
    have "get_mem_blk h (wd n) = Some (p, h1\<lparr>hmem := m\<rparr>)"
      using False m(1) by (simp add: get_mem_blk_def f(1) d(3))
    then show ?thesis using False f(2,3) [unfolded d(1)] m(2-5) [folded a] d(2,3) by blast
  qed
qed

lemma alloc_mem_run:
  fixes h :: "('k, 'l) heap"
  assumes "lock_ready (hpool h)" "sz \<noteq> 0"
  obtains l where
    "\<And>p h1. get_mem_blk (h\<lparr>hpool := (hpool h)\<lparr>pool_lock := l\<rparr>\<rparr>) (ALIGNED_TO_8BYTES sz) = Some (p, h1) \<Longrightarrow>
      hpool h1 = (hpool h)\<lparr>pool_lock := l, pool_end := pool_end (hpool h1)\<rparr> \<Longrightarrow>
      alloc_mem h sz = Some (
        if p = NULL then (NULL, h1\<lparr>hpool := (hpool h)\<lparr>pool_end := pool_end (hpool h1)\<rparr>\<rparr>)
        else (user_start (store64 (hmem h1) (p + 24) sz) p,
          h1\<lparr>hmem := store64 (hmem h1) (p + 24) sz,
             hpool := (hpool h)\<lparr>pool_end := pool_end (hpool h1),
                                total_length := total_length (hpool h) + sz\<rparr>\<rparr>))"
proof -
  obtain l where l: "take_pool_lock (hpool h) = Some ((hpool h)\<lparr>pool_lock := l\<rparr>)"
    "\<And>q :: ('k, 'l) mem_pool. lock_func q = lock_func (hpool h) \<Longrightarrow> unlock_func q = unlock_func (hpool h) \<Longrightarrow>
      pool_lock q = l \<Longrightarrow> drop_pool_lock q = Some (q\<lparr>pool_lock := pool_lock (hpool h)\<rparr>)"
    using take_pool_lock_ready [OF assms(1)] by metis
  show ?thesis
  proof (rule that [of l])
    fix p h1
    assume g: "get_mem_blk (h\<lparr>hpool := (hpool h)\<lparr>pool_lock := l\<rparr>\<rparr>) (ALIGNED_TO_8BYTES sz) = Some (p, h1)"
      and pool: "hpool h1 = (hpool h)\<lparr>pool_lock := l, pool_end := pool_end (hpool h1)\<rparr>"
    define e where "e = pool_end (hpool h1)"
    have pool': "hpool h1 = (hpool h)\<lparr>pool_lock := l, pool_end := e\<rparr>"
      using pool e_def by simp
    have d1: "drop_pool_lock ((hpool h)\<lparr>pool_lock := l, pool_end := e\<rparr>) =
        Some ((hpool h)\<lparr>pool_end := e\<rparr>)"
      by (subst l(2)) simp_all
    have d2: "drop_pool_lock ((hpool h)\<lparr>pool_lock := l, pool_end := e, total_length := t\<rparr>) =
        Some ((hpool h)\<lparr>pool_end := e, total_length := t\<rparr>)" for t
      by (subst l(2)) simp_all
    show "alloc_mem h sz = Some (
        if p = NULL then (NULL, h1\<lparr>hpool := (hpool h)\<lparr>pool_end := pool_end (hpool h1)\<rparr>\<rparr>)
        else (user_start (store64 (hmem h1) (p + 24) sz) p,
          h1\<lparr>hmem := store64 (hmem h1) (p + 24) sz,
             hpool := (hpool h)\<lparr>pool_end := pool_end (hpool h1),
                                total_length := total_length (hpool h) + sz\<rparr>\<rparr>))"
      using assms(2) g l(1)
      by (simp add: alloc_mem_def pool' d1 d2 e_def [symmetric] Let_def)
  qed
qed

lemma alloc_mem_carved:
  assumes h2: "ok h2 (xs @ b # zs)" "grown h bs h2 (xs @ b # zs)" "fits n b" "unat sz \<le> n" "n \<le> unat sz + 7"
    "sz \<noteq> 0" "a = unat (pool_start (hpool h)) + blens xs"
    "chain m a (carve n n b)" "free_zero m a (carve n n b)" "mem_zero_on (a + 32) (a + 32 + n) m"
    "frame_out a (a + blen b) (hmem h2) m"
    and h': "h' = h2\<lparr>hmem := store64 m (wd (a + 24)) sz,
      hpool := (hpool h2)\<lparr>total_length := total_length (hpool h2) + sz\<rparr>\<rparr>"
  shows "\<exists>bs'. ok h' bs' \<and> live_kept (live_of h bs) (hmem h) (hmem h') \<and>
    live_of h' bs' = insert (a + 32, unat sz) (live_of h bs) \<and>
    a + 32 \<notin> fst ` live_of h bs \<and> 8 dvd a + 32 \<and> a + 32 < 2 ^ 64 \<and>
    mem_zero_on (a + 32) (a + 32 + unat sz) (hmem h') \<and> user_start (hmem h') (wd a) = wd (a + 32)"
proof -
  let ?u = "unat sz" and ?s = "unat (pool_start (hpool h2))" and ?bs = "xs @ carve n (unat sz) b @ zs"
  have s: "?s = unat (pool_start (hpool h))" using grown_start [OF h2(2)] by simp
  have inv: "pool_inv h2 (xs @ b # zs)" using h2(1) by (simp add: heap_ok_def)
  have a: "a = ?s + blens xs" using h2(7) s by simp
  have m': "hmem h' = store64 m (wd (a + 24)) (wd ?u)" by (simp add: h')
  note al = pool_inv_alloc [OF inv refl a h2(3,4,5,8-11) m' refl]
  have pi: "pool_inv h' ?bs" by (rule al(1)) (simp_all add: h')
  have "ok h' ?bs" using pi h2(1) by (auto simp: heap_ok_def h')
  moreover have ch: "chain (hmem h2) ?s xs" "chain (hmem h') ?s ?bs"
    using inv pi by (auto simp: pool_inv_def blocks_in_def chain_append h')
  moreover have lv: "live ?s ?bs = live ?s xs @ (a + 32, ?u) # live (a + blen b) zs"
    by (rule al(2)) (simp_all add: h')
  moreover have "live ?s bs = live ?s xs @ live (a + blen b) zs"
    using h2(2,3) s a by (simp add: grown_def live_append fits_def)
  then have old: "live_of h bs = set (live ?s xs) \<union> set (live (a + blen b) zs)"
    by (simp add: s)
  moreover have "live_of h' ?bs = insert (a + 32, ?u) (live_of h bs)"
    unfolding old using lv by (auto simp: h')
  moreover have "a + 32 \<notin> fst ` live_of h bs"
    using live_distinct [OF ch(2)] unfolding old lv by force
  moreover have "live_kept (live_of h bs) (hmem h) (hmem h')"
  proof -
    have "live_kept (set (live ?s (xs @ b # zs))) (hmem h2) (hmem h')"
      by (rule al(3)) (simp_all add: h')
    then show ?thesis using h2(2) s by (auto simp: grown_def intro: live_kept_trans)
  qed
  moreover have "8 dvd a + 32"
    using inv blens_dvd [OF ch(1)] a by (auto simp: pool_inv_def)
  moreover have "a + blen b < 2 ^ 64" by (rule al(5)) (simp_all add: h')
  then have "a + 32 < 2 ^ 64" using h2(3) by (simp add: fits_def)
  moreover have "mem_zero_on (a + 32) (a + 32 + ?u) (hmem h')" by (rule al(4)) (simp_all add: h')
  moreover have "user_start (hmem h') (wd a) = wd (a + 32)" by (rule al(6)) (simp_all add: h')
  ultimately show ?thesis by blast
qed

lemma alloc_mem_spec:
  fixes h :: "('k, 'l) heap"
  assumes ok: "ok h bs" and lock: "lock_ready (hpool h)" and fit: "unat sz + 7 < 2 ^ 64"
  shows "\<exists>p h' bs'. alloc_mem h sz = Some (p, h') \<and> ok h' bs' \<and> lock_ready (hpool h') \<and>
    pool_start (hpool h') = pool_start (hpool h) \<and>
    live_kept (live_of h bs) (hmem h) (hmem h') \<and>
    (if p = NULL then live_of h' bs' = live_of h bs \<and>
       (sz \<noteq> 0 \<longrightarrow> (\<forall>b \<in> set bs'. \<not> fits (unat (ALIGNED_TO_8BYTES sz)) b) \<and>
          exhausted sbrk brk_of brk_ok h')
     else live_of h' bs' = insert (unat p, unat sz) (live_of h bs) \<and>
       unat p \<notin> fst ` live_of h bs \<and> 8 dvd unat p \<and> 0 < unat sz \<and>
       mem_zero_on (unat p) (unat p + unat sz) (hmem h'))"
proof (cases "sz = 0")
  case True
  with ok lock show ?thesis by (auto simp: alloc_mem_def)
next
  case sz: False
  define n where "n = unat (ALIGNED_TO_8BYTES sz)"
  have n: "n < 2 ^ 64" "8 dvd n" "unat sz \<le> n" "n \<le> unat sz + 7"
    using unat_ALIGNED_TO_8BYTES [OF fit] unat_lt_64 [of "ALIGNED_TO_8BYTES sz"]
    by (auto simp: n_def)
  have al: "ALIGNED_TO_8BYTES sz = wd n" by (simp add: n_def)
  obtain l where run: "\<And>p h1. get_mem_blk (h\<lparr>hpool := (hpool h)\<lparr>pool_lock := l\<rparr>\<rparr>) (wd n) = Some (p, h1) \<Longrightarrow>
      hpool h1 = (hpool h)\<lparr>pool_lock := l, pool_end := pool_end (hpool h1)\<rparr> \<Longrightarrow>
      alloc_mem h sz = Some (
        if p = NULL then (NULL, h1\<lparr>hpool := (hpool h)\<lparr>pool_end := pool_end (hpool h1)\<rparr>\<rparr>)
        else (user_start (store64 (hmem h1) (p + 24) sz) p,
          h1\<lparr>hmem := store64 (hmem h1) (p + 24) sz,
             hpool := (hpool h)\<lparr>pool_end := pool_end (hpool h1),
                                total_length := total_length (hpool h) + sz\<rparr>\<rparr>))"
    using alloc_mem_run [OF lock sz] unfolding al by metis
  define h0 where "h0 = h\<lparr>hpool := (hpool h)\<lparr>pool_lock := l\<rparr>\<rparr>"
  have ok0: "ok h0 bs"
    using ok by (simp add: heap_ok_def pool_inv_def blocks_in_def h0_def)
  from get_mem_blk_spec [OF ok0 n(1,2)] obtain p h1 bs1 where g: "get_mem_blk h0 (wd n) = Some (p, h1)"
    "p = NULL \<and> ok h1 bs1 \<and> grown h0 bs h1 bs1 \<and> (\<forall>b \<in> set bs1. \<not> fits n b) \<and>
       exhausted sbrk brk_of brk_ok h1 \<or>
     p \<noteq> NULL \<and> (\<exists>h2 m xs b zs. ok h2 (xs @ b # zs) \<and> grown h0 bs h2 (xs @ b # zs) \<and> fits n b \<and>
        h1 = h2\<lparr>hmem := m\<rparr> \<and> p = wd (unat (pool_start (hpool h2)) + blens xs) \<and>
        chain m (unat p) (carve n n b) \<and> free_zero m (unat p) (carve n n b) \<and>
        mem_zero_on (unat p + 32) (unat p + 32 + n) m \<and>
        frame_out (unat p) (unat p + blen b) (hmem h2) m)"
    by blast
  from g(2) show ?thesis
  proof (elim disjE conjE exE)
    assume p: "p = NULL" and g': "ok h1 bs1" "grown h0 bs h1 bs1" "\<forall>b \<in> set bs1. \<not> fits n b"
      "exhausted sbrk brk_of brk_ok h1"
    have pool: "hpool h1 = (hpool h)\<lparr>pool_lock := l, pool_end := pool_end (hpool h1)\<rparr>"
      using g'(2) by (simp add: grown_def h0_def)
    let ?h = "h1\<lparr>hpool := (hpool h)\<lparr>pool_end := pool_end (hpool h1)\<rparr>\<rparr>"
    have "alloc_mem h sz = Some (NULL, ?h)"
      using run [OF g(1) [unfolded h0_def] pool] p by simp
    moreover have "ok ?h bs1"
      using grown_fields [OF g'(2)] by (intro heap_ok_cong [OF g'(1)]) (simp_all add: h0_def)
    moreover have "live_kept (live_of h bs) (hmem h) (hmem ?h)" "live_of ?h bs1 = live_of h bs"
      using g'(2) by (auto simp: grown_def h0_def)
    moreover have "exhausted sbrk brk_of brk_ok ?h"
      using g'(4) grown_fields(1) [OF g'(2)] by (simp add: exhausted_def h0_def)
    ultimately show ?thesis
      using lock g'(3) n_def by (auto simp: lock_ready_def)
  next
    fix h2 m xs b zs
    assume p: "p \<noteq> NULL" and h2: "ok h2 (xs @ b # zs)" "grown h0 bs h2 (xs @ b # zs)" "fits n b"
      "h1 = h2\<lparr>hmem := m\<rparr>" "p = wd (unat (pool_start (hpool h2)) + blens xs)"
      "chain m (unat p) (carve n n b)" "free_zero m (unat p) (carve n n b)"
      "mem_zero_on (unat p + 32) (unat p + 32 + n) m"
      "frame_out (unat p) (unat p + blen b) (hmem h2) m"
    note fl = grown_fields [OF h2(2), unfolded h0_def, simplified]
    have pool: "hpool h1 = (hpool h)\<lparr>pool_lock := l, pool_end := pool_end (hpool h1)\<rparr>"
      using h2(2,4) by (simp add: grown_def h0_def)
    define h3 where "h3 = h2\<lparr>hpool := (hpool h2)\<lparr>pool_lock := pool_lock (hpool h)\<rparr>\<rparr>"
    have "hpool h2 = (hpool h)\<lparr>pool_lock := l, pool_end := e\<rparr>" if "e = pool_end (hpool h1)" for e
      using pool h2(4) that by simp
    then have pool3: "hpool h3 = (hpool h)\<lparr>pool_end := pool_end (hpool h1)\<rparr>"
      by (simp add: h3_def)
    have "ok h3 (xs @ b # zs)"
      by (rule heap_ok_cong [OF h2(1)]) (simp_all add: h3_def)
    moreover have "hpool h3 = (hpool h)\<lparr>pool_end := pool_end (hpool h3)\<rparr>" "hmem h3 = hmem h2"
      using pool3 h2(4) by (simp_all add: h3_def)
    ultimately have h3: "ok h3 (xs @ b # zs)" "grown h bs h3 (xs @ b # zs)" "hmem h3 = hmem h2"
      using h2(2) by (simp_all add: grown_def h0_def)
    have a: "unat p = unat (pool_start (hpool h)) + blens xs"
      unfolding h2(5) fl(1) using h2(1) fl(1)
      by (intro unat_wd) (auto simp: heap_ok_def pool_inv_def dest!: blocks_in_bound)
    define h' where "h' = h3\<lparr>hmem := store64 m (wd (unat p + 24)) sz,
      hpool := (hpool h3)\<lparr>total_length := total_length (hpool h3) + sz\<rparr>\<rparr>"
    from alloc_mem_carved [OF h3(1,2) h2(3) n(3,4) sz a h2(6-8) _ h'_def]
    obtain bs' where c: "ok h' bs'" "live_kept (live_of h bs) (hmem h) (hmem h')"
      "live_of h' bs' = insert (unat p + 32, unat sz) (live_of h bs)"
      "unat p + 32 \<notin> fst ` live_of h bs" "8 dvd unat p + 32" "unat p + 32 < 2 ^ 64"
      "mem_zero_on (unat p + 32) (unat p + 32 + unat sz) (hmem h')"
      "user_start (hmem h') p = wd (unat p + 32)"
      using h2(9) h3(3) by auto
    have "alloc_mem h sz = Some (wd (unat p + 32), h')"
      using run [OF g(1) [unfolded h0_def] pool] p c(8) h2(4) pool3 wd_add_numeral [of "unat p"]
      by (simp add: h'_def h3_def)
    moreover have "wd (unat p + 32) \<noteq> NULL" "unat (wd (unat p + 32)) = unat p + 32"
      using c(6) by (auto simp: wd_eq_0_iff unat_wd)
    moreover have "lock_ready (hpool h')" "pool_start (hpool h') = pool_start (hpool h)"
      using lock pool3 by (simp_all add: lock_ready_def h'_def)
    ultimately show ?thesis
      using c sz by (intro exI [of _ "wd (unat p + 32)"] exI [of _ h'] exI [of _ bs'])
        (simp add: unat_gt_0)
  qed
qed

lemma free_mem_spec:
  fixes h :: "('k, 'l) heap"
  assumes ok: "ok h bs" and lock: "lock_ready (hpool h)" and pu: "(p, u) \<in> live_of h bs"
  shows "\<exists>h' bs'. free_mem h (wd p) = Some h' \<and> ok h' bs' \<and> lock_ready (hpool h') \<and>
    pool_start (hpool h') = pool_start (hpool h) \<and>
    live_of h' bs' = live_of h bs - {(p, u)} \<and> live_kept (live_of h' bs') (hmem h) (hmem h') \<and>
    \<not> mem_blk_ok (hmem h') (wd p - 32)"
proof -
  let ?s = "unat (pool_start (hpool h))"
  obtain xs b zs where d: "bs = xs @ b # zs" "p = ?s + blens xs + 32" "bused b = Some u"
    using live_split [OF pu] by metis
  have inv: "pool_inv h (xs @ b # zs)" using ok d by (simp add: heap_ok_def)
  have blk: "blocks_in (hmem h) (hpool h) (xs @ b # zs)" using inv by (simp add: pool_inv_def)
  have at: "blk_at (hmem h) (?s + blens xs) b" by (rule blocks_in_at [OF blk])
  have up: "wd p \<noteq> NULL" "wd p - 32 = wd (?s + blens xs)"
    using blocks_in_bound [OF blk] at d(2,3)
    by (auto simp: wd_eq_0_iff wd_diff_numeral blk_at_def)
  have hdr: "mem_blk_ok (hmem h) (wd (?s + blens xs))" "user_len (hmem h) (wd (?s + blens xs)) = wd u"
    using at d(3) by (auto simp: mem_blk_ok_def mem_blk_magic_ok_def blk_at_def)
  obtain l where l: "take_pool_lock (hpool h) = Some ((hpool h)\<lparr>pool_lock := l\<rparr>)"
    "\<And>q :: ('k, 'l) mem_pool. lock_func q = lock_func (hpool h) \<Longrightarrow> unlock_func q = unlock_func (hpool h) \<Longrightarrow>
      pool_lock q = l \<Longrightarrow> drop_pool_lock q = Some (q\<lparr>pool_lock := pool_lock (hpool h)\<rparr>)"
    using take_pool_lock_ready [OF lock] by metis
  let ?t = "total_length (hpool h) - wd u"
  let ?pool = "(hpool h)\<lparr>pool_lock := l, total_length := ?t\<rparr>"
  obtain m where m: "free_mem_blk (hmem h) ?pool (wd (?s + blens xs)) = Some m"
    "blocks_in m ?pool (coalesce xs b zs)" "free_zero m ?s (coalesce xs b zs)"
    "live_kept (set (live ?s (coalesce xs b zs))) (hmem h) m"
    by (rule free_mem_blk_spec [OF inv refl, of ?pool]) simp_all
  let ?h = "h\<lparr>hmem := m, hpool := (hpool h)\<lparr>total_length := ?t\<rparr>\<rparr>"
  have "drop_pool_lock ?pool = Some ((hpool h)\<lparr>total_length := ?t\<rparr>)"
    by (subst l(2)) simp_all
  then have run: "free_mem h (wd p) = Some ?h"
    using up hdr l(1) m(1) by (simp add: free_mem_def sizeof_mem_blk_def)
  have tl: "?t = wd (used_bytes xs + used_bytes zs)"
    using inv d(3) wd_diff [of u "used_bytes xs + (u + used_bytes zs)"]
    by (simp add: pool_inv_def add_ac)
  have "ok ?h (coalesce xs b zs)"
    using ok m(2,3) tl coalesced_coalesce tight_coalesce [of xs zs]
    by (auto simp: heap_ok_def pool_inv_def d(1) blocks_in_def blens_coalesce used_bytes_coalesce
        coalesced_append coalesced_Cons)
  moreover have "live_of ?h (coalesce xs b zs) = live_of h bs - {(p, u)}"
  proof -
    have lv: "live ?s bs = live ?s xs @ (p, u) # live (?s + blens xs + blen b) zs"
      using d by (simp add: live_append)
    have "distinct (map fst (live ?s bs))"
      using live_distinct blk by (auto simp: blocks_in_def d(1))
    then show ?thesis unfolding lv live_coalesce by (force simp: live_coalesce)
  qed
  moreover have "\<not> mem_blk_ok m (wd p - 32)"
    unfolding up(2) using coalesce_not_ok [OF m(2,3)] at blk chain_len
    by (force simp: blk_at_def blocks_in_def chain_append)
  ultimately show ?thesis using run m(4) lock
    by (intro exI [of _ ?h] exI [of _ "coalesce xs b zs"]) (simp add: lock_ready_def)
qed

lemma init_mm_spec:
  fixes h :: "('k, 'l) heap"
  assumes k: "brk_ok (hbrk h)" "8 \<le> brk_of (hbrk h)" "8 dvd brk_of (hbrk h)"
    "brk_limit \<le> brk_of (hbrk h) + int_max" and granted: "\<And>k'. sbrk 40 (hbrk h) \<noteq> Some (-1, k')"
  shows "\<exists>h'. init_mm h sbrk lk li lf uf = Some h' \<and> ok h' [free_blk 40] \<and>
    pool_start (hpool h') = wd (brk_of (hbrk h)) \<and> lock_func (hpool h') = lf \<and>
    unlock_func (hpool h') = uf \<and>
    pool_lock (hpool h') = (case li of None \<Rightarrow> lk | Some f \<Rightarrow> f lk)"
proof -
  define s where "s = brk_of (hbrk h)"
  obtain k' where k': "brk_ok k'" "sbrk 40 (hbrk h) = Some (wd s, k')" "brk_of k' = s + 40"
    using sbrk_law [OF k(1), of 40] granted by (auto simp: wd_eq_numeral s_def)
  have bnd: "s + 40 < 2 ^ 64 - 1" using brk_below [OF k'(1)] k'(3) limit_small by simp
  obtain m where m: "init_free_blk (hmem h) (wd s) (wd 40) = Some m" "blk_at m s (free_blk 40)"
    "mem_zero_on (s + 32) (s + 40 - 8) m"
    by (rule init_free_blk_spec [of 40 s "hmem h"]) (use bnd in auto)
  have al: "is_mem_blk_aligned"
    by (simp add: is_mem_blk_aligned_def ALIGNED_TO_8BYTES_def sizeof_mem_blk_def)
  have nm: "wd s \<noteq> -1" using brk_not_minus_one [OF k(1)] by (simp add: s_def)
  define p where "p = (hpool h)\<lparr>sbrk_func := sbrk, total_length := 0, pool_start := wd s,
    pool_end := wd (s + 40), pool_lock := (case li of None \<Rightarrow> lk | Some f \<Rightarrow> f lk),
    lock_init_func := li, lock_func := lf, unlock_func := uf\<rparr>"
  have "init_mm h sbrk lk li lf uf = Some (h\<lparr>hmem := m, hpool := p, hbrk := k'\<rparr>)"
    using al k'(2) nm m(1)
    by (simp add: init_mm_def sizeof_mem_blk_def sizeof_mem_blk_tail_def wd_eq_numeral wd_simps
        p_def split: option.splits)
  moreover have "ok (h\<lparr>hmem := m, hpool := p, hbrk := k'\<rparr>) [free_blk 40]"
    using m k' k bnd by (simp add: heap_ok_def pool_inv_def blocks_in_def tight_def p_def unat_wd s_def [symmetric]
        coalesced_def)
  ultimately show ?thesis by (simp add: p_def s_def)
qed

end

end
