(* ===== verification/Mem_Walk.thy ===== *)
theory Mem_Walk
  imports Mem_Contract
begin

text \<open>
  The blocks of a pool read back from memory. \<open>heap_blks\<close> walks the headers from
  \<^verbatim>\<open>pool_start\<close> to \<^verbatim>\<open>pool_end\<close>; on a pool that satisfies the invariant it is the list of
  blocks, so the allocations of a heap are a function of the heap. The locale
  \<open>allocator\<close> is the interface clients see: an allocation state, the set of areas handed
  out, and the laws of allocating, freeing and writing inside an area.
\<close>

section \<open>Reading the blocks\<close>

definition hdr_blk :: "mem \<Rightarrow> nat \<Rightarrow> ablk" where
  "hdr_blk m a = \<lparr>blen = unat (blk_len m (wd a)),
     bused = (if in_use m (wd a) = 0 then None else Some (unat (user_len m (wd a))))\<rparr>"

function walk_blks :: "mem \<Rightarrow> nat \<Rightarrow> nat \<Rightarrow> ablk list" where
  "walk_blks m a e =
    (if a < e \<and> 0 < blen (hdr_blk m a)
     then hdr_blk m a # walk_blks m (a + blen (hdr_blk m a)) e else [])"
  by pat_completeness auto
termination
  by (relation "measure (\<lambda>(m, a, e). e - a)") auto

declare walk_blks.simps [simp del]

definition heap_blks :: "('k, 'l) heap \<Rightarrow> ablk list" where
  "heap_blks h = walk_blks (hmem h) (unat (pool_start (hpool h))) (unat (pool_end (hpool h)))"

definition allocs :: "('k, 'l) heap \<Rightarrow> (nat \<times> nat) set" where
  "allocs h = live_of h (heap_blks h)"

lemma hdr_blk_at: "blk_at m a b \<Longrightarrow> a + blen b < 2 ^ 64 \<Longrightarrow> hdr_blk m a = b"
  by (cases b, cases "bused b") (auto simp: blk_at_def hdr_blk_def unat_wd)

lemma walk_chain: "chain m a bs \<Longrightarrow> a + blens bs < 2 ^ 64 \<Longrightarrow> walk_blks m a (a + blens bs) = bs"
proof (induction bs arbitrary: a)
  case Nil
  then show ?case by (simp add: walk_blks.simps)
next
  case (Cons b bs)
  then have "hdr_blk m a = b" "40 \<le> blen b"
    using hdr_blk_at [of m a b] by (auto simp: blk_at_def)
  with Cons.prems Cons.IH [of "a + blen b"] show ?case
    by (simp add: walk_blks.simps [of m a] add.assoc)
qed

lemma heap_blks_eq: "pool_inv h bs \<Longrightarrow> heap_blks h = bs"
  using walk_chain [of "hmem h" "unat (pool_start (hpool h))" bs]
  by (auto simp: pool_inv_def blocks_in_def heap_blks_def dest: blocks_in_bound)

lemma allocs_eq: "heap_ok sb bo bk bl h bs \<Longrightarrow> allocs h = live_of h bs"
  using heap_blks_eq [of h bs] by (simp add: allocs_def heap_ok_def)

section \<open>The interface of an allocator\<close>

text \<open>
  A client script: calls of the allocator and stores of single bytes. \<open>legal_op\<close> is the
  discipline of C: free what was handed out and is not freed yet, store inside an area.
\<close>

datatype heap_op = Malloc u64 | Mfree u64 | Poke u64 u8

definition legal_op :: "(nat \<times> nat) set \<Rightarrow> heap_op \<Rightarrow> bool" where
  "legal_op A oper =
    (case oper of
       Malloc n \<Rightarrow> unat n + 7 < 2 ^ 64
     | Mfree p \<Rightarrow> p = NULL \<or> unat p \<in> fst ` A
     | Poke a b \<Rightarrow> \<exists>(p, u) \<in> A. p \<le> unat a \<and> unat a < p + u)"

definition spares :: "nat \<Rightarrow> nat \<Rightarrow> heap_op \<Rightarrow> bool" where
  "spares p u oper =
    (case oper of
       Malloc n \<Rightarrow> True
     | Mfree q \<Rightarrow> unat q \<noteq> p
     | Poke a b \<Rightarrow> unat a < p \<or> p + u \<le> unat a)"

definition poke :: "('k, 'l) heap \<Rightarrow> u64 \<Rightarrow> u8 \<Rightarrow> ('k, 'l) heap" where
  "poke h a b = h\<lparr>hmem := (hmem h)(a := b)\<rparr>"

text \<open>A script run against an allocator, stopping at the first operation that is not legal.\<close>

fun run_ops ::
  "('s \<Rightarrow> u64 \<Rightarrow> (u64 \<times> 's) option) \<Rightarrow> ('s \<Rightarrow> u64 \<Rightarrow> 's option) \<Rightarrow> ('s \<Rightarrow> u64 \<Rightarrow> u8 \<Rightarrow> 's) \<Rightarrow>
   's \<Rightarrow> heap_op list \<Rightarrow> 's option" where
  "run_ops alloc free put s [] = Some s"
| "run_ops alloc free put s (Malloc n # ops) =
    do { r \<leftarrow> alloc s n; run_ops alloc free put (snd r) ops }"
| "run_ops alloc free put s (Mfree p # ops) =
    do { s \<leftarrow> free s p; run_ops alloc free put s ops }"
| "run_ops alloc free put s (Poke a b # ops) = run_ops alloc free put (put s a b) ops"

fun legal_ops ::
  "('s \<Rightarrow> u64 \<Rightarrow> (u64 \<times> 's) option) \<Rightarrow> ('s \<Rightarrow> u64 \<Rightarrow> 's option) \<Rightarrow> ('s \<Rightarrow> u64 \<Rightarrow> u8 \<Rightarrow> 's) \<Rightarrow>
   ('s \<Rightarrow> (nat \<times> nat) set) \<Rightarrow> 's \<Rightarrow> heap_op list \<Rightarrow> bool" where
  "legal_ops alloc free put areas s [] \<longleftrightarrow> True"
| "legal_ops alloc free put areas s (oper # ops) \<longleftrightarrow>
    legal_op (areas s) oper \<and>
    (case run_ops alloc free put s [oper] of None \<Rightarrow> True
     | Some s' \<Rightarrow> legal_ops alloc free put areas s' ops)"

locale allocator =
  fixes alloc :: "'s \<Rightarrow> u64 \<Rightarrow> (u64 \<times> 's) option"
    and free :: "'s \<Rightarrow> u64 \<Rightarrow> 's option"
    and put :: "'s \<Rightarrow> u64 \<Rightarrow> u8 \<Rightarrow> 's"
    and inv :: "'s \<Rightarrow> bool"
    and areas :: "'s \<Rightarrow> (nat \<times> nat) set"
    and mem_of :: "'s \<Rightarrow> mem"
  assumes alloc_law: "inv s \<Longrightarrow> unat n + 7 < 2 ^ 64 \<Longrightarrow>
      \<exists>p s'. alloc s n = Some (p, s') \<and> inv s' \<and> live_kept (areas s) (mem_of s) (mem_of s') \<and>
        (if p = NULL then areas s' = areas s
         else areas s' = insert (unat p, unat n) (areas s) \<and> unat p \<notin> fst ` areas s \<and>
           8 dvd unat p \<and> mem_zero_on (unat p) (unat p + unat n) (mem_of s'))"
    and free_null: "inv s \<Longrightarrow> free s NULL = Some s"
    and free_law: "inv s \<Longrightarrow> (p, u) \<in> areas s \<Longrightarrow>
      \<exists>s'. free s (wd p) = Some s' \<and> inv s' \<and> areas s' = areas s - {(p, u)} \<and>
        live_kept (areas s') (mem_of s) (mem_of s') \<and> free s' (wd p) = Some s'"
    and put_law: "inv s \<Longrightarrow> (p, u) \<in> areas s \<Longrightarrow> p \<le> x \<Longrightarrow> x < p + u \<Longrightarrow>
      inv (put s (wd x) b) \<and> areas (put s (wd x) b) = areas s \<and>
      mem_of (put s (wd x) b) = (mem_of s)(wd x := b)"
    and area_bound: "inv s \<Longrightarrow> (p, u) \<in> areas s \<Longrightarrow> p + u < 2 ^ 64"
    and areas_apart: "inv s \<Longrightarrow> (p, u) \<in> areas s \<Longrightarrow> (q, v) \<in> areas s \<Longrightarrow>
      (p, u) \<noteq> (q, v) \<Longrightarrow> p + u < q \<or> q + v < p"
begin

lemma step_ok:
  assumes "inv s" "legal_op (areas s) oper"
  shows "\<exists>s'. run_ops alloc free put s [oper] = Some s' \<and> inv s'"
proof (cases oper)
  case (Malloc n)
  then show ?thesis using alloc_law [OF assms(1), of n] assms(2) by (auto simp: legal_op_def)
next
  case (Mfree p)
  show ?thesis
  proof (cases "p = NULL")
    case True
    then show ?thesis using Mfree assms free_null by simp
  next
    case False
    then obtain u where "(unat p, u) \<in> areas s" using assms(2) Mfree by (auto simp: legal_op_def)
    from free_law [OF assms(1) this] show ?thesis using Mfree by auto
  qed
next
  case (Poke a b)
  then obtain p u where "(p, u) \<in> areas s" "p \<le> unat a" "unat a < p + u"
    using assms(2) by (auto simp: legal_op_def)
  from put_law [OF assms(1) this] show ?thesis using Poke by simp
qed

lemma step_spares:
  assumes "inv s" "legal_op (areas s) oper" "spares p u oper" "(p, u) \<in> areas s"
    "run_ops alloc free put s [oper] = Some s'"
  shows "(p, u) \<in> areas s' \<and> mem_eq_on p (p + u) (mem_of s) (mem_of s')"
proof (cases oper)
  case (Malloc n)
  then show ?thesis
    using alloc_law [OF assms(1), of n] assms by (auto simp: legal_op_def live_kept_def split: if_splits)
next
  case (Mfree q)
  show ?thesis
  proof (cases "q = NULL")
    case True
    then show ?thesis using Mfree assms free_null by auto
  next
    case False
    then obtain v where v: "(unat q, v) \<in> areas s" using assms(2) Mfree by (auto simp: legal_op_def)
    with free_law [OF assms(1) v] show ?thesis
      using Mfree assms(3-5) by (auto simp: live_kept_def spares_def)
  qed
next
  case (Poke a b)
  then obtain q v where "(q, v) \<in> areas s" "q \<le> unat a" "unat a < q + v"
    using assms(2) by (auto simp: legal_op_def)
  with put_law [OF assms(1) this] area_bound [OF assms(1,4)] show ?thesis
    using Poke assms(3-5) by (auto simp: spares_def mem_eq_on_def unat_wd)
qed

lemma run_Cons:
  "run_ops alloc free put s (oper # ops) =
    Option.bind (run_ops alloc free put s [oper]) (\<lambda>s. run_ops alloc free put s ops)"
  by (cases oper) (simp_all split: bind_split)

lemma script_ok:
  "inv s \<Longrightarrow> legal_ops alloc free put areas s ops \<Longrightarrow>
   \<exists>s'. run_ops alloc free put s ops = Some s' \<and> inv s'"
proof (induction ops arbitrary: s)
  case (Cons oper ops)
  obtain s1 where "run_ops alloc free put s [oper] = Some s1" "inv s1"
    using step_ok Cons.prems by auto
  then show ?case using Cons by (subst run_Cons) simp
qed simp

lemma script_spares:
  "inv s \<Longrightarrow> legal_ops alloc free put areas s ops \<Longrightarrow> (p, u) \<in> areas s \<Longrightarrow>
   list_all (spares p u) ops \<Longrightarrow> run_ops alloc free put s ops = Some s' \<Longrightarrow>
   (p, u) \<in> areas s' \<and> mem_eq_on p (p + u) (mem_of s) (mem_of s')"
proof (induction ops arbitrary: s)
  case (Cons oper ops)
  obtain s1 where s1: "run_ops alloc free put s [oper] = Some s1" "inv s1"
    using step_ok Cons.prems by auto
  have 1: "(p, u) \<in> areas s1" "mem_eq_on p (p + u) (mem_of s) (mem_of s1)"
    using step_spares [of s oper p u s1] Cons.prems s1 by auto
  have "run_ops alloc free put s1 ops = Some s'"
    using Cons.prems(5) s1(1) run_Cons [of s oper ops] by simp
  then have "(p, u) \<in> areas s' \<and> mem_eq_on p (p + u) (mem_of s1) (mem_of s')"
    using Cons s1 1 by auto
  then show ?case using 1(2) mem_eq_on_trans by blast
qed simp

end

end
