(* ===== verification/Mem_Service.thy ===== *)
theory Mem_Service
  imports Mem_Walk
begin

text \<open>
  Every break provider gives an allocator: \<open>heap_inv\<close> is the invariant of a heap without
  the list of blocks, and the sublocale turns the contract of \<^verbatim>\<open>alloc_mem\<close> and
  \<^verbatim>\<open>free_mem\<close> into the interface the clients of \<^verbatim>\<open>kmalloc\<close> and \<^verbatim>\<open>malloc\<close> use.
\<close>

definition heap_inv ::
  "(u64 \<Rightarrow> 'k \<Rightarrow> (u64 \<times> 'k) option) \<Rightarrow> ('k \<Rightarrow> nat) \<Rightarrow> ('k \<Rightarrow> bool) \<Rightarrow> nat \<Rightarrow> ('k, 'l) heap \<Rightarrow> bool"
  where
  "heap_inv sbrk brk_of brk_ok brk_limit h \<longleftrightarrow>
    heap_ok sbrk brk_of brk_ok brk_limit h (heap_blks h) \<and> lock_ready (hpool h)"

lemma heap_invI:
  "heap_ok sb bo bk bl h bs \<Longrightarrow> lock_ready (hpool h) \<Longrightarrow> heap_inv sb bo bk bl h \<and> heap_blks h = bs"
  using heap_blks_eq [of h bs] by (auto simp: heap_inv_def heap_ok_def)

lemma heap_inv_chain:
  assumes "heap_inv sb bo bk bl h"
  shows "chain (hmem h) (unat (pool_start (hpool h))) (heap_blks h)"
    "unat (pool_start (hpool h)) + blens (heap_blks h) < 2 ^ 64"
  using assms blocks_in_bound
  by (fastforce simp: heap_inv_def heap_ok_def pool_inv_def blocks_in_def)+

lemma area_bounds:
  assumes "heap_inv sb bo bk bl h" "(p, u) \<in> allocs h"
  shows "unat (pool_start (hpool h)) + 32 \<le> p" "p + u + 8 \<le> unat (pool_end (hpool h))" "p + u < 2 ^ 64"
proof -
  let ?s = "unat (pool_start (hpool h))"
  have "?s + 32 \<le> p \<and> p + u + 8 \<le> ?s + blens (heap_blks h)"
    using live_bounds [OF heap_inv_chain(1) [OF assms(1)]] assms(2) by (auto simp: allocs_def)
  moreover have "?s + blens (heap_blks h) = unat (pool_end (hpool h))"
    using assms(1) by (simp add: heap_inv_def heap_ok_def pool_inv_def blocks_in_def)
  ultimately show "?s + 32 \<le> p" "p + u + 8 \<le> unat (pool_end (hpool h))" "p + u < 2 ^ 64"
    using unat_lt_64 [of "pool_end (hpool h)"] by (auto simp del: unat_lt_64)
qed

lemma areas_disjoint:
  assumes "heap_inv sb bo bk bl h" "(p, u) \<in> allocs h" "(q, v) \<in> allocs h" "(p, u) \<noteq> (q, v)"
  shows "p + u + 40 \<le> q \<or> q + v + 40 \<le> p"
proof -
  note ch = heap_inv_chain(1) [OF assms(1)]
  have "p \<noteq> q"
  proof
    assume "p = q"
    then have "u = v"
      using live_distinct [OF ch] assms(2,3) unfolding allocs_def distinct_map inj_on_def by force
    with \<open>p = q\<close> assms(4) show False by simp
  qed
  with live_disjoint [OF ch] assms(2,3) show ?thesis by (simp add: allocs_def)
qed

lemma poke_inv:
  assumes "heap_inv sb bo bk bl h" "(p, u) \<in> allocs h" "p \<le> x" "x < p + u"
  shows "heap_inv sb bo bk bl (poke h (wd x) b)" "allocs (poke h (wd x) b) = allocs h"
proof -
  let ?s = "unat (pool_start (hpool h))" and ?m = "(hmem h)(wd x := b)"
  have x: "x < 2 ^ 64" using area_bounds(3) [OF assms(1,2)] assms(4) by simp
  have fr: "frame_out p (p + u) (hmem h) ?m"
    using assms(3,4) x by (auto simp: frame_out_def mem_eq_on_def wd_eq_iff)
  note ch = heap_inv_chain [OF assms(1)]
  note cw = client_write_chain [OF ch(1) assms(2) [unfolded allocs_def] fr ch(2)]
  have "heap_ok sb bo bk bl (poke h (wd x) b) (heap_blks h)" "lock_ready (hpool (poke h (wd x) b))"
    using assms(1) cw by (auto simp: heap_inv_def heap_ok_def pool_inv_def blocks_in_def poke_def)
  from heap_invI [OF this] show "heap_inv sb bo bk bl (poke h (wd x) b)"
    "allocs (poke h (wd x) b) = allocs h"
    by (simp_all add: allocs_def poke_def)
qed

context sbrk_provider
begin

lemma heap_alloc:
  assumes "heap_inv sbrk brk_of brk_ok brk_limit h" "unat n + 7 < 2 ^ 64"
  shows "\<exists>p h'. alloc_mem h n = Some (p, h') \<and> heap_inv sbrk brk_of brk_ok brk_limit h' \<and>
    pool_start (hpool h') = pool_start (hpool h) \<and>
    live_kept (allocs h) (hmem h) (hmem h') \<and>
    (if p = NULL then allocs h' = allocs h \<and>
       (n \<noteq> 0 \<longrightarrow> (\<forall>b \<in> set (heap_blks h'). \<not> fits (unat (ALIGNED_TO_8BYTES n)) b) \<and>
          exhausted sbrk brk_of brk_ok h')
     else allocs h' = insert (unat p, unat n) (allocs h) \<and> unat p \<notin> fst ` allocs h \<and>
       8 dvd unat p \<and> 0 < unat n \<and> mem_zero_on (unat p) (unat p + unat n) (hmem h'))"
proof -
  have ok: "ok h (heap_blks h)" "lock_ready (hpool h)" using assms(1) by (auto simp: heap_inv_def)
  from alloc_mem_spec [OF ok assms(2)] obtain p h' bs' where r: "alloc_mem h n = Some (p, h')"
    "ok h' bs'" "lock_ready (hpool h')" "pool_start (hpool h') = pool_start (hpool h)"
    "live_kept (live_of h (heap_blks h)) (hmem h) (hmem h')"
    "if p = NULL then live_of h' bs' = live_of h (heap_blks h) \<and>
       (n \<noteq> 0 \<longrightarrow> (\<forall>b \<in> set bs'. \<not> fits (unat (ALIGNED_TO_8BYTES n)) b) \<and>
          exhausted sbrk brk_of brk_ok h')
     else live_of h' bs' = insert (unat p, unat n) (live_of h (heap_blks h)) \<and>
       unat p \<notin> fst ` live_of h (heap_blks h) \<and> 8 dvd unat p \<and> 0 < unat n \<and>
       mem_zero_on (unat p) (unat p + unat n) (hmem h')"
    by blast
  with heap_invI [OF r(2,3)] show ?thesis by (auto simp: allocs_def)
qed

lemma heap_free:
  assumes "heap_inv sbrk brk_of brk_ok brk_limit h" "(p, u) \<in> allocs h"
  shows "\<exists>h'. free_mem h (wd p) = Some h' \<and> heap_inv sbrk brk_of brk_ok brk_limit h' \<and>
    pool_start (hpool h') = pool_start (hpool h) \<and>
    allocs h' = allocs h - {(p, u)} \<and> live_kept (allocs h') (hmem h) (hmem h') \<and>
    free_mem h' (wd p) = Some h'"
proof -
  have ok: "ok h (heap_blks h)" "lock_ready (hpool h)" "(p, u) \<in> live_of h (heap_blks h)"
    using assms by (auto simp: heap_inv_def allocs_def)
  from free_mem_spec [OF ok] obtain h' bs' where r: "free_mem h (wd p) = Some h'" "ok h' bs'"
    "lock_ready (hpool h')" "pool_start (hpool h') = pool_start (hpool h)" "live_of h' bs' = live_of h (heap_blks h) - {(p, u)}"
    "live_kept (live_of h' bs') (hmem h) (hmem h')" "\<not> mem_blk_ok (hmem h') (wd p - 32)"
    by blast
  with heap_invI [OF r(2,3)] free_mem_refused [OF r(3), of "wd p"] show ?thesis
    by (auto simp: allocs_def)
qed

end

sublocale sbrk_provider \<subseteq> heap: allocator alloc_mem free_mem poke
  "heap_inv sbrk brk_of brk_ok brk_limit :: ('k, 'l) heap \<Rightarrow> bool" allocs hmem
proof unfold_locales
  fix h :: "('k, 'l) heap" and n :: u64
  assume "heap_inv sbrk brk_of brk_ok brk_limit h" "unat n + 7 < 2 ^ 64"
  from heap_alloc [OF this] show "\<exists>p h'. alloc_mem h n = Some (p, h') \<and>
      heap_inv sbrk brk_of brk_ok brk_limit h' \<and> live_kept (allocs h) (hmem h) (hmem h') \<and>
      (if p = NULL then allocs h' = allocs h
       else allocs h' = insert (unat p, unat n) (allocs h) \<and> unat p \<notin> fst ` allocs h \<and>
         8 dvd unat p \<and> mem_zero_on (unat p) (unat p + unat n) (hmem h'))"
    by (auto split: if_splits)
next
  fix h :: "('k, 'l) heap"
  assume "heap_inv sbrk brk_of brk_ok brk_limit h"
  then show "free_mem h NULL = Some h" by (simp add: free_mem_def)
next
  fix h :: "('k, 'l) heap" and p u
  assume "heap_inv sbrk brk_of brk_ok brk_limit h" "(p, u) \<in> allocs h"
  from heap_free [OF this] show "\<exists>h'. free_mem h (wd p) = Some h' \<and>
      heap_inv sbrk brk_of brk_ok brk_limit h' \<and> allocs h' = allocs h - {(p, u)} \<and>
      live_kept (allocs h') (hmem h) (hmem h') \<and> free_mem h' (wd p) = Some h'"
    by blast
next
  fix h :: "('k, 'l) heap" and p u x b
  assume "heap_inv sbrk brk_of brk_ok brk_limit h" "(p, u) \<in> allocs h" "p \<le> x" "x < p + u"
  from poke_inv [OF this] show "heap_inv sbrk brk_of brk_ok brk_limit (poke h (wd x) b) \<and>
      allocs (poke h (wd x) b) = allocs h \<and> hmem (poke h (wd x) b) = (hmem h)(wd x := b)"
    by (simp add: poke_def)
next
  fix h :: "('k, 'l) heap" and p u
  assume "heap_inv sbrk brk_of brk_ok brk_limit h" "(p, u) \<in> allocs h"
  then show "p + u < 2 ^ 64" by (rule area_bounds(3))
next
  fix h :: "('k, 'l) heap" and p u q v
  assume "heap_inv sbrk brk_of brk_ok brk_limit h" "(p, u) \<in> allocs h" "(q, v) \<in> allocs h"
    "(p, u) \<noteq> (q, v)"
  from areas_disjoint [OF this] show "p + u < q \<or> q + v < p" by linarith
qed

end
