(* ===== verification/Kmalloc.thy ===== *)
theory Kmalloc
  imports Mem_Service Spinlock Cstring
begin

text \<open>
  The kernel heap of \<^verbatim>\<open>mm/memory.c\<close>: the break of \<^verbatim>\<open>kernel_mock_sbrk\<close>, which moves inside
  the fixed memory pool, and \<^verbatim>\<open>kmalloc\<close>, \<^verbatim>\<open>kzalloc\<close> and \<^verbatim>\<open>kfree\<close> on the kernel pool,
  protected by a spin lock. The interpretation \<open>kernel\<close> discharges the laws of
  \<open>sbrk_provider\<close> for this break.
\<close>

section \<open>Definitions\<close>

record ksbrk =
  last_brk :: u64
  allocated_size :: int

definition ksbrk_init :: ksbrk where
  "ksbrk_init = \<lparr>last_brk = MEM_POOL_START, allocated_size = 0\<rparr>"

definition kernel_mock_sbrk :: "u64 \<Rightarrow> ksbrk \<Rightarrow> (u64 \<times> ksbrk) option" where
  "kernel_mock_sbrk increment k =
    (let n = allocated_size k + sint increment in
     if n < - (2 ^ 63) \<or> 2 ^ 63 \<le> n then None
     else if 0 \<le> n \<and> n \<le> int (unat MEM_POOL_SIZE) then
       Some (last_brk k, \<lparr>last_brk = last_brk k + increment, allocated_size = n\<rparr>)
     else Some (-1, k))"

type_synonym kheap = "(ksbrk, spinlock_ptr) heap"

text \<open>The static variables before \<^verbatim>\<open>init_kmalloc_free\<close>: all zero, over any memory content.\<close>

definition kheap_start :: "mem \<Rightarrow> kheap" where
  "kheap_start m =
    \<lparr>hmem = m,
     hpool = \<lparr>pool_start = 0, pool_end = 0, sbrk_func = (\<lambda>_ _. None), total_length = 0,
              pool_lock = None, lock_init_func = None, lock_func = None, unlock_func = None\<rparr>,
     hbrk = ksbrk_init\<rparr>"

definition init_kmalloc_free :: "spinlock \<Rightarrow> kheap \<Rightarrow> kheap option" where
  "init_kmalloc_free kmalloc_lock h =
    init_mm h kernel_mock_sbrk (Some kmalloc_lock) (Some spin_lock_init) (Some spin_lock)
      (Some spin_unlock)"

definition kmalloc :: "kheap \<Rightarrow> u64 \<Rightarrow> (u64 \<times> kheap) option" where
  "kmalloc h sz = alloc_mem h sz"

definition kzalloc :: "kheap \<Rightarrow> u64 \<Rightarrow> (u64 \<times> kheap) option" where
  "kzalloc h sz = do {
     (mem, h) \<leftarrow> kmalloc h sz;
     if mem \<noteq> NULL then Some (mem, h\<lparr>hmem := memset (hmem h) mem 0 sz\<rparr>)
     else Some (mem, h) }"

definition kfree :: "kheap \<Rightarrow> u64 \<Rightarrow> kheap option" where
  "kfree h ustart = free_mem h ustart"

section \<open>The break of the kernel\<close>

definition kbrk_of :: "ksbrk \<Rightarrow> nat" where
  "kbrk_of k = unat MEM_POOL_START + nat (allocated_size k)"

definition kbrk_ok :: "ksbrk \<Rightarrow> bool" where
  "kbrk_ok k \<longleftrightarrow> 0 \<le> allocated_size k \<and> allocated_size k \<le> int (unat MEM_POOL_SIZE) \<and>
    last_brk k = wd (kbrk_of k)"

definition kbrk_limit :: nat where
  "kbrk_limit = unat MEM_POOL_END"

definition kheap_inv :: "kheap \<Rightarrow> bool" where
  "kheap_inv h \<longleftrightarrow> heap_inv kernel_mock_sbrk kbrk_of kbrk_ok kbrk_limit h \<and>
    pool_start (hpool h) = MEM_POOL_START"

lemma sint_small: "n < 2 ^ 63 \<Longrightarrow> sint (wd n) = int n"
  by (simp add: wd_def signed_of_nat signed_take_bit_int_eq_self)

lemma kernel_mock_sbrk_grow:
  assumes "kbrk_ok k" "n < 2 ^ 62"
  shows "kernel_mock_sbrk (wd n) k =
    Some (if kbrk_of k + n \<le> kbrk_limit
          then (wd (kbrk_of k), \<lparr>last_brk = wd (kbrk_of k + n), allocated_size = allocated_size k + int n\<rparr>)
          else (-1, k))"
  using assms sint_small [of n]
  by (auto simp: kernel_mock_sbrk_def kbrk_ok_def kbrk_of_def kbrk_limit_def pool_layout wd_simps
      Let_def)

interpretation kernel: sbrk_provider kernel_mock_sbrk kbrk_of kbrk_ok kbrk_limit
proof unfold_locales
  fix k n
  assume k: "kbrk_ok k" "0 < n" "n \<le> int_max"
  have "kbrk_of (snd (the (kernel_mock_sbrk (wd n) k))) =
      (if kbrk_of k + n \<le> kbrk_limit then kbrk_of k + n else kbrk_of k) \<and>
    kbrk_ok (snd (the (kernel_mock_sbrk (wd n) k)))"
    using k kernel_mock_sbrk_grow [OF k(1), of n]
    by (auto simp: kbrk_of_def kbrk_ok_def kbrk_limit_def pool_layout nat_add_distrib add.assoc)
  then show "\<exists>k'. kbrk_ok k' \<and>
      (kernel_mock_sbrk (wd n) k = Some (-1, k') \<and> kbrk_of k' = kbrk_of k \<or>
       kernel_mock_sbrk (wd n) k = Some (wd (kbrk_of k), k') \<and> kbrk_of k' = kbrk_of k + n)"
    using kernel_mock_sbrk_grow [OF k(1), of n] k
    by (intro exI [of _ "snd (the (kernel_mock_sbrk (wd n) k))"]) (auto split: if_splits)
next
  fix k
  assume "kbrk_ok k"
  then show "kbrk_of k \<le> kbrk_limit"
    by (auto simp: kbrk_of_def kbrk_ok_def kbrk_limit_def pool_layout)
next
  show "kbrk_limit < 2 ^ 64 - 1" by (simp add: kbrk_limit_def pool_layout)
qed

section \<open>The kernel heap\<close>

lemma spin_lock_ready:
  "lock_func p = Some spin_lock \<Longrightarrow> unlock_func p = Some spin_unlock \<Longrightarrow> lock_free (pool_lock p) \<Longrightarrow>
   lock_ready p"
  using spin_lock_unlock [of "pool_lock p"] by (fastforce simp: lock_ready_def)

lemma init_kmalloc_free_blks:
  "\<exists>h. init_kmalloc_free lk (kheap_start m) = Some h \<and> kheap_inv h \<and> heap_blks h = [free_blk 40]"
proof -
  let ?h0 = "kheap_start m"
  have k: "kbrk_ok (hbrk ?h0)" "kbrk_of (hbrk ?h0) = unat MEM_POOL_START"
    by (auto simp: kheap_start_def ksbrk_init_def kbrk_ok_def kbrk_of_def)
  have g: "kernel_mock_sbrk 40 (hbrk ?h0) \<noteq> Some (-1, k')" for k'
    using kernel_mock_sbrk_grow [OF k(1), of 40] k(2)
    by (simp add: wd_eq_numeral kbrk_limit_def pool_layout)
  from kernel.init_mm_spec [OF k(1) _ _ _ g, of "Some lk" "Some spin_lock_init" "Some spin_lock"
      "Some spin_unlock"]
  obtain h where h: "init_mm ?h0 kernel_mock_sbrk (Some lk) (Some spin_lock_init) (Some spin_lock)
      (Some spin_unlock) = Some h"
    "heap_ok kernel_mock_sbrk kbrk_of kbrk_ok kbrk_limit h [free_blk 40]"
    "pool_start (hpool h) = wd (kbrk_of (hbrk ?h0))" "lock_func (hpool h) = Some spin_lock"
    "unlock_func (hpool h) = Some spin_unlock" "pool_lock (hpool h) = spin_lock_init (Some lk)"
    by (auto simp: k(2) pool_layout kbrk_limit_def)
  have "lock_ready (hpool h)"
    using h(4-6) by (intro spin_lock_ready) (auto simp: lock_free_def spin_lock_init_def)
  with h heap_invI [OF h(2)] show ?thesis
    by (auto simp: init_kmalloc_free_def kheap_inv_def k(2))
qed

lemma memset_zeroed:
  assumes "mem_zero_on p (p + unat n) m" "p + unat n < 2 ^ 64"
  shows "memset m (wd p) 0 n = m"
proof
  fix a
  show "memset m (wd p) 0 n a = m a"
  proof (cases "unat (a - wd p) < unat n")
    case True
    have "a = wd (p + unat (a - wd p))" by (simp add: wd_add [symmetric])
    moreover have "m (wd (p + unat (a - wd p))) = 0"
      using assms(1) True by (simp add: mem_zero_on_def)
    ultimately show ?thesis using True by (simp add: memset_eq)
  qed (simp add: memset_eq)
qed

text \<open>Freed memory is cleared when it is merged, so the clearing of \<open>kzalloc\<close> finds zeros.\<close>

lemma kzalloc_eq_kmalloc:
  assumes "kheap_inv h" "unat n + 7 < 2 ^ 64"
  shows "kzalloc h n = kmalloc h n"
proof -
  have inv: "heap_inv kernel_mock_sbrk kbrk_of kbrk_ok kbrk_limit h"
    using assms(1) by (simp add: kheap_inv_def)
  obtain p h' where r: "alloc_mem h n = Some (p, h')"
    "heap_inv kernel_mock_sbrk kbrk_of kbrk_ok kbrk_limit h'"
    "p \<noteq> NULL \<Longrightarrow> allocs h' = insert (unat p, unat n) (allocs h)"
    "p \<noteq> NULL \<Longrightarrow> mem_zero_on (unat p) (unat p + unat n) (hmem h')"
    using kernel.heap.alloc_law [OF inv assms(2)] by (auto split: if_splits)
  show ?thesis
  proof (cases "p = NULL")
    case False
    have "unat p + unat n < 2 ^ 64"
      using kernel.heap.area_bound [OF r(2)] r(3) [OF False] by blast
    with memset_zeroed [OF r(4)] False r(1) show ?thesis
      by (simp add: kzalloc_def kmalloc_def)
  qed (use r(1) in \<open>simp add: kzalloc_def kmalloc_def\<close>)
qed

lemma used_bytes_live: "used_bytes bs = sum_list (map snd (live a bs))"
  by (induction bs arbitrary: a) (auto split: option.splits)

lemma used_bytes_allocs:
  assumes "kheap_inv h"
  shows "used_bytes (heap_blks h) = (\<Sum>(p, u) \<in> allocs h. u)"
proof -
  let ?l = "live (unat (pool_start (hpool h))) (heap_blks h)"
  have "chain (hmem h) (unat (pool_start (hpool h))) (heap_blks h)"
    using assms heap_inv_chain(1) unfolding kheap_inv_def by blast
  then have "distinct ?l" using live_distinct distinct_map by blast
  then have "sum_list (map snd ?l) = sum snd (set ?l)" by (rule sum_list_distinct_conv_sum_set)
  then show ?thesis
    by (simp add: used_bytes_live [of _ "unat (pool_start (hpool h))"] allocs_def case_prod_unfold)
qed

text \<open>A request that wraps in \<open>ALIGNED_TO_8BYTES\<close> asks the pool for zero bytes.\<close>

lemma kmalloc_minus_one:
  assumes "kheap_inv h" "heap_blks h = [free_blk 40]"
  shows "\<exists>h'. kmalloc h (-1) = Some (pool_start (hpool h) + 32, h') \<and>
    pool_end (hpool h') = pool_start (hpool h) + 40 \<and> total_length (hpool h') = -1"
proof -
  let ?s = "pool_start (hpool h)"
  have ok: "heap_ok kernel_mock_sbrk kbrk_of kbrk_ok kbrk_limit h [free_blk 40]"
    "lock_ready (hpool h)"
    using assms by (auto simp: kheap_inv_def heap_inv_def)
  have al: "ALIGNED_TO_8BYTES (-1) = wd 0" by (simp add: ALIGNED_TO_8BYTES_def)
  obtain l where run: "\<And>p h1. get_mem_blk (h\<lparr>hpool := (hpool h)\<lparr>pool_lock := l\<rparr>\<rparr>) (wd 0) = Some (p, h1) \<Longrightarrow>
      hpool h1 = (hpool h)\<lparr>pool_lock := l, pool_end := pool_end (hpool h1)\<rparr> \<Longrightarrow>
      alloc_mem h (-1) = Some (
        if p = NULL then (NULL, h1\<lparr>hpool := (hpool h)\<lparr>pool_end := pool_end (hpool h1)\<rparr>\<rparr>)
        else (user_start (store64 (hmem h1) (p + 24) (-1)) p,
          h1\<lparr>hmem := store64 (hmem h1) (p + 24) (-1),
             hpool := (hpool h)\<lparr>pool_end := pool_end (hpool h1),
                                total_length := total_length (hpool h) + (-1)\<rparr>\<rparr>))"
    using kernel.alloc_mem_run [OF ok(2), of "-1"] unfolding al by auto
  let ?h = "h\<lparr>hpool := (hpool h)\<lparr>pool_lock := l\<rparr>\<rparr>" and ?a = "unat (pool_start (hpool h))"
  have inv: "blocks_in (hmem h) (hpool ?h) [free_blk 40]" "free_zero (hmem h) ?a [free_blk 40]"
    "total_length (hpool h) = 0" "blk_at (hmem h) ?a (free_blk 40)"
    "?a + 40 = unat (pool_end (hpool h))" "8 \<le> ?a"
    using ok(1) by (auto simp: heap_ok_def pool_inv_def blocks_in_def mem_zero_on_def)
  have e: "?a + 40 < 2 ^ 64" using inv(5) by simp
  have ft: "fits 0 (free_blk 40)" by (simp add: fits_def)
  obtain m where m: "mark_mem_blk (hmem h) (hpool ?h) (wd ?a) (wd 0) = Some m"
    "chain m ?a (carve 0 0 (free_blk 40))"
    using mark_mem_blk_at [OF inv(4,2) ft, of "hpool ?h"] inv(5) by auto
  have "find_loop (hmem h) (hpool ?h) ?s 0 = Some ?s"
    using find_loop_found [of "hmem h" "hpool ?h" "[]" "[]" "free_blk 40" "[]" 0 ?a] inv(1) ft by simp
  moreover have nn: "?s \<noteq> NULL" using inv(6) by auto
  ultimately have "find_a_free_blk ?h 0 = Some (?s, ?h)" by (subst find_a_free_blk.simps) simp
  then have "get_mem_blk ?h (wd 0) = Some (?s, ?h\<lparr>hmem := m\<rparr>)"
    using m(1) nn by (simp add: get_mem_blk_def)
  from run [OF this] have "alloc_mem h (-1) = Some (user_start (store64 m (?s + 24) (-1)) ?s,
      h\<lparr>hmem := store64 m (?s + 24) (-1), hpool := (hpool h)\<lparr>total_length := -1\<rparr>\<rparr>)"
    using nn inv(3) by simp
  moreover have "user_start (store64 m (wd (?a + 24)) (-1)) (wd ?a) = wd (?a + 32)"
    using m(2) e wd_add_numeral [of ?a]
    by (simp add: user_start_def load_store_other carve_def blk_at_def del: wd_unat)
  moreover have "wd (?a + 24) = ?s + 24" "wd (?a + 32) = ?s + 32" "wd (?a + 40) = ?s + 40"
    using wd_add_numeral [of ?a] by simp_all
  ultimately show ?thesis
    using inv(5) wd_unat [of "pool_end (hpool h)"] by (simp add: kmalloc_def)
qed

text \<open>When the break refused, the pool has more than half of its final size.\<close>

lemma kernel_exhausted:
  assumes "kheap_inv h" "exhausted kernel_mock_sbrk kbrk_of kbrk_ok h"
  shows "unat MEM_POOL_SIZE < 2 * blens (heap_blks h)"
proof -
  let ?n = "blens (heap_blks h)" and ?s = "unat (pool_start (hpool h))"
  have ok: "heap_ok kernel_mock_sbrk kbrk_of kbrk_ok kbrk_limit h (heap_blks h)"
    using assms(1) by (simp add: kheap_inv_def heap_inv_def)
  note f = kernel.ok_facts [OF ok refl refl]
  obtain k where k: "kbrk_ok k" "kbrk_of k = ?s + ?n" "kernel_mock_sbrk (wd ?n) k = Some (-1, hbrk h)"
    using assms(2) f ok by (auto simp: exhausted_def heap_ok_def)
  have "wd (kbrk_of k) \<noteq> -1" using k(1) by (rule kernel.brk_not_minus_one)
  then have "kbrk_limit < ?s + ?n + ?n"
    using kernel_mock_sbrk_grow [OF k(1), of ?n] f(3) k(2,3) by (auto split: if_splits)
  moreover have "?s = unat MEM_POOL_START" using assms(1) by (simp add: kheap_inv_def)
  ultimately show ?thesis by (simp add: kbrk_limit_def pool_layout)
qed

lemma no_live_single:
  assumes "live a bs = []" "coalesced bs" "bs \<noteq> []"
  shows "\<exists>n. bs = [free_blk n]"
proof -
  obtain b cs where b: "bs = b # cs" using assms(3) by (cases bs) auto
  moreover have "cs = []"
    using assms(1,2) b by (cases cs) (auto simp: coalesced_Cons split: option.splits)
  moreover have "b = free_blk (blen b)"
    using assms(1) b by (auto simp: free_blk_def split: option.splits)
  ultimately show ?thesis by blast
qed

lemma kmalloc_run:
  assumes "kheap_inv h" "unat n + 7 < 2 ^ 64"
  shows "\<exists>p h'. kmalloc h n = Some (p, h') \<and> kheap_inv h' \<and>
    live_kept (allocs h) (hmem h) (hmem h') \<and>
    (if p = NULL then allocs h' = allocs h \<and>
       (n \<noteq> 0 \<longrightarrow> unat MEM_POOL_SIZE < 2 * blens (heap_blks h') \<and>
          (\<forall>b \<in> set (heap_blks h'). \<not> fits (unat (ALIGNED_TO_8BYTES n)) b))
     else allocs h' = insert (unat p, unat n) (allocs h) \<and> unat p \<notin> fst ` allocs h \<and>
       8 dvd unat p \<and> 0 < unat n \<and> mem_zero_on (unat p) (unat p + unat n) (hmem h'))"
proof -
  have inv: "heap_inv kernel_mock_sbrk kbrk_of kbrk_ok kbrk_limit h"
    "pool_start (hpool h) = MEM_POOL_START"
    using assms(1) by (simp_all add: kheap_inv_def)
  from kernel.heap_alloc [OF inv(1) assms(2)] inv(2) kernel_exhausted show ?thesis
    unfolding kmalloc_def kheap_inv_def by (elim exE conjE) (auto split: if_splits)
qed

lemma kmalloc_empty:
  assumes "kheap_inv h" "allocs h = {}" "0 < unat n" "unat n \<le> 2 ^ 27"
  shows "\<exists>p h'. kmalloc h n = Some (p, h') \<and> p \<noteq> NULL \<and> kheap_inv h' \<and> allocs h' = {(unat p, unat n)}"
proof -
  obtain p h' where r: "kmalloc h n = Some (p, h')" "kheap_inv h'"
    "if p = NULL then allocs h' = allocs h \<and>
       (n \<noteq> 0 \<longrightarrow> unat MEM_POOL_SIZE < 2 * blens (heap_blks h') \<and>
          (\<forall>b \<in> set (heap_blks h'). \<not> fits (unat (ALIGNED_TO_8BYTES n)) b))
     else allocs h' = insert (unat p, unat n) (allocs h)"
    using kmalloc_run [OF assms(1), of n] assms(4) by (auto split: if_splits)
  have "p \<noteq> NULL"
  proof
    assume p: "p = NULL"
    have "\<exists>k. heap_blks h' = [free_blk k]"
    proof (rule no_live_single)
      show "live (unat (pool_start (hpool h'))) (heap_blks h') = []"
        using r(3) p assms(2) by (simp add: allocs_def)
    qed (use r(2) in \<open>simp_all add: kheap_inv_def heap_inv_def heap_ok_def pool_inv_def\<close>)
    then show False
      using r(3) p assms(3,4) unat_ALIGNED_TO_8BYTES [of n] by (auto simp: fits_def pool_layout unat_gt_0)
  qed
  with r assms(2) show ?thesis by auto
qed

text \<open>How large a pool with no fitting block can be: the areas, what each wastes, and a free remainder
  between any two of them.\<close>

lemma crowded_bound:
  assumes "list_all tight bs" "coalesced bs" "\<forall>b \<in> set bs. \<not> fits n b"
  shows "blens bs \<le> used_bytes bs + 87 * length (live a bs) + (length (live a bs) + 1) * (n + 39) \<and>
    (bs \<noteq> [] \<and> bused (hd bs) \<noteq> None \<longrightarrow>
       blens bs \<le> used_bytes bs + 87 * length (live a bs) + length (live a bs) * (n + 39))"
  using assms
proof (induction bs arbitrary: a)
  case (Cons b bs)
  then have IH: "blens bs \<le> used_bytes bs + 87 * length (live a bs) + (length (live a bs) + 1) * (n + 39)"
    "bs \<noteq> [] \<and> bused (hd bs) \<noteq> None \<longrightarrow>
      blens bs \<le> used_bytes bs + 87 * length (live a bs) + length (live a bs) * (n + 39)" for a
    by (auto simp: coalesced_Cons)
  show ?case
  proof (cases "bused b")
    case None
    then have "blen b \<le> n + 39" "bs \<noteq> [] \<longrightarrow> bused (hd bs) \<noteq> None"
      using Cons.prems by (auto simp: fits_def coalesced_Cons)
    then show ?thesis using IH(2) [of "a + blen b"] None by (cases "bs = []") auto
  next
    case (Some u)
    then have "blen b \<le> u + 87" using Cons.prems(1) by (simp add: tight_def)
    then show ?thesis using IH(1) [of "a + blen b"] Some by (auto simp: algebra_simps)
  qed
qed simp

lemma kmalloc_succeeds_run:
  assumes "kheap_inv h" "0 < unat n"
    "2 * ((\<Sum>(p, u) \<in> allocs h. u) + 87 * card (allocs h) + (card (allocs h) + 1) * (unat n + 46)) \<le> unat MEM_POOL_SIZE"
  shows "\<exists>p h'. kmalloc h n = Some (p, h') \<and> p \<noteq> NULL \<and> kheap_inv h' \<and>
    allocs h' = insert (unat p, unat n) (allocs h) \<and> unat p \<notin> fst ` allocs h"
proof -
  have small: "unat n + 7 < 2 ^ 64"
    using assms(3) by (simp add: pool_layout)
  obtain p h' where r: "kmalloc h n = Some (p, h')" "kheap_inv h'"
    "if p = NULL then allocs h' = allocs h \<and>
       (n \<noteq> 0 \<longrightarrow> unat MEM_POOL_SIZE < 2 * blens (heap_blks h') \<and>
          (\<forall>b \<in> set (heap_blks h'). \<not> fits (unat (ALIGNED_TO_8BYTES n)) b))
     else allocs h' = insert (unat p, unat n) (allocs h) \<and> unat p \<notin> fst ` allocs h"
    using kmalloc_run [OF assms(1) small] by (auto split: if_splits)
  have "p \<noteq> NULL"
  proof
    assume p: "p = NULL"
    let ?bs = "heap_blks h'" and ?s = "unat (pool_start (hpool h'))" and ?n = "unat (ALIGNED_TO_8BYTES n)"
    have inv: "list_all tight ?bs" "coalesced ?bs" "chain (hmem h') ?s ?bs"
      using r(2) unfolding kheap_inv_def heap_inv_def heap_ok_def pool_inv_def blocks_in_def by blast+
    have e: "allocs h' = allocs h" "unat MEM_POOL_SIZE < 2 * blens ?bs" "\<forall>b \<in> set ?bs. \<not> fits ?n b"
      using r(3) p assms(2) by (auto simp: unat_gt_0)
    have "distinct (live ?s ?bs)" using live_distinct [OF inv(3)] by (simp add: distinct_map)
    then have k: "length (live ?s ?bs) = card (allocs h)" using e(1) by (simp add: allocs_def distinct_card [symmetric])
    have "used_bytes ?bs = (\<Sum>(p, u) \<in> allocs h. u)" using used_bytes_allocs [OF r(2)] e(1) by simp
    then have "blens ?bs \<le> (\<Sum>(p, u) \<in> allocs h. u) + 87 * card (allocs h) + (card (allocs h) + 1) * (?n + 39)"
      using crowded_bound [OF inv(1,2) e(3), of ?s] unfolding k by simp
    also have "?n + 39 \<le> unat n + 46" using unat_ALIGNED_TO_8BYTES [OF small] by simp
    then have "(\<Sum>(p, u) \<in> allocs h. u) + 87 * card (allocs h) + (card (allocs h) + 1) * (?n + 39) \<le>
        (\<Sum>(p, u) \<in> allocs h. u) + 87 * card (allocs h) + (card (allocs h) + 1) * (unat n + 46)"
      by (intro add_left_mono mult_le_mono2)
    finally show False using e(2) assms(3) by simp
  qed
  with r show ?thesis by auto
qed

lemma kfree_run:
  assumes "kheap_inv h" "(p, u) \<in> allocs h"
  shows "\<exists>h'. kfree h (wd p) = Some h' \<and> kheap_inv h' \<and> allocs h' = allocs h - {(p, u)} \<and>
    live_kept (allocs h') (hmem h) (hmem h') \<and> kfree h' (wd p) = Some h'"
proof -
  have inv: "heap_inv kernel_mock_sbrk kbrk_of kbrk_ok kbrk_limit h"
    "pool_start (hpool h) = MEM_POOL_START"
    using assms(1) by (simp_all add: kheap_inv_def)
  from kernel.heap_free [OF inv(1) assms(2)] inv(2) show ?thesis
    unfolding kheap_inv_def kfree_def by auto
qed

lemma kheap_poke:
  assumes "kheap_inv h" "(p, u) \<in> allocs h" "p \<le> x" "x < p + u"
  shows "kheap_inv (poke h (wd x) b) \<and> allocs (poke h (wd x) b) = allocs h \<and>
    hmem (poke h (wd x) b) = (hmem h)(wd x := b)"
proof -
  have inv: "heap_inv kernel_mock_sbrk kbrk_of kbrk_ok kbrk_limit h" "pool_start (hpool h) = MEM_POOL_START"
    using assms(1) by (simp_all add: kheap_inv_def)
  from poke_inv [OF inv(1) assms(2-4)] inv(2) show ?thesis
    by (simp add: kheap_inv_def poke_def)
qed

interpretation kheap: allocator kmalloc kfree poke kheap_inv allocs hmem
proof unfold_locales
  fix h :: kheap and n :: u64
  assume "kheap_inv h" "unat n + 7 < 2 ^ 64"
  from kmalloc_run [OF this] show "\<exists>p h'. kmalloc h n = Some (p, h') \<and> kheap_inv h' \<and>
      live_kept (allocs h) (hmem h) (hmem h') \<and>
      (if p = NULL then allocs h' = allocs h
       else allocs h' = insert (unat p, unat n) (allocs h) \<and> unat p \<notin> fst ` allocs h \<and>
         8 dvd unat p \<and> mem_zero_on (unat p) (unat p + unat n) (hmem h'))"
    by (auto split: if_splits)
next
  fix h :: kheap and p u x and b :: u8
  assume inv: "kheap_inv h"
  then have inv': "heap_inv kernel_mock_sbrk kbrk_of kbrk_ok kbrk_limit h"
    by (simp add: kheap_inv_def)
  show "kfree h NULL = Some h" by (simp add: kfree_def free_mem_def)
  assume a: "(p, u) \<in> allocs h"
  with inv show "\<exists>h'. kfree h (wd p) = Some h' \<and> kheap_inv h' \<and> allocs h' = allocs h - {(p, u)} \<and>
      live_kept (allocs h') (hmem h) (hmem h') \<and> kfree h' (wd p) = Some h'"
    by (rule kfree_run)
  show "p + u < 2 ^ 64" using inv' a by (rule area_bounds(3))
  show "p + u < q \<or> q + v < p" if "(q, v) \<in> allocs h" "(p, u) \<noteq> (q, v)" for q v
    using areas_disjoint [OF inv' a that] by linarith
  assume "p \<le> x" "x < p + u"
  with inv a show "kheap_inv (poke h (wd x) b) \<and> allocs (poke h (wd x) b) = allocs h \<and>
      hmem (poke h (wd x) b) = (hmem h)(wd x := b)"
    by (rule kheap_poke)
qed

lemma kheap_booted:
  "\<exists>h. init_kmalloc_free lk (kheap_start m) = Some h \<and> kheap_inv h \<and> allocs h = {}"
  using init_kmalloc_free_blks [of lk m] by (auto simp: allocs_def)

section \<open>Properties\<close>

text \<open>C2. \<^verbatim>\<open>kmalloc\<close> on a well-formed kernel heap comes back, keeps the heap well formed and
  the bytes of every area in use, and either hands out an area that is new, aligned, zeroed
  and not empty, or returns null with the areas unchanged. Null for a positive size means that no
  free block is big enough and that doubling the pool would pass the end of its memory.\<close>

theorem kmalloc_contract:
  assumes "kheap_inv h" "unat n + 7 < 2 ^ 64"
  shows "\<exists>p h'. kmalloc h n = Some (p, h') \<and> kheap_inv h' \<and>
    live_kept (allocs h) (hmem h) (hmem h') \<and>
    (if p = NULL then allocs h' = allocs h \<and>
       (n \<noteq> 0 \<longrightarrow> unat MEM_POOL_SIZE < 2 * blens (heap_blks h') \<and>
          (\<forall>b \<in> set (heap_blks h'). \<not> fits (unat (ALIGNED_TO_8BYTES n)) b))
     else allocs h' = insert (unat p, unat n) (allocs h) \<and> unat p \<notin> fst ` allocs h \<and>
       8 dvd unat p \<and> 0 < unat n \<and> mem_zero_on (unat p) (unat p + unat n) (hmem h'))"
  using assms by (rule kmalloc_run)

theorem kmalloc_contract_witness:
  "\<exists>h p h'. init_kmalloc_free \<lparr>data0 = 7, data1 = 0\<rparr> (kheap_start (\<lambda>_. 255)) = Some h \<and>
    kmalloc h 100 = Some (p, h') \<and> kheap_inv h' \<and> (p \<noteq> NULL \<longrightarrow> (unat p, 100) \<in> allocs h')"
proof -
  obtain h where h: "init_kmalloc_free \<lparr>data0 = 7, data1 = 0\<rparr> (kheap_start (\<lambda>_. 255)) = Some h"
    "kheap_inv h"
    using init_kmalloc_free_blks by blast
  have "unat (100 :: u64) + 7 < 2 ^ 64" by simp
  from kmalloc_contract [OF h(2) this] h(1) show ?thesis by (auto split: if_splits)
qed

text \<open>C3. \<^verbatim>\<open>kfree\<close> of an area in use takes exactly that area away, keeps the bytes of all
  others and the invariant, and a second \<^verbatim>\<open>kfree\<close> of the same pointer is refused
  without changing anything.\<close>

theorem kfree_contract:
  assumes "kheap_inv h" "(p, u) \<in> allocs h"
  shows "\<exists>h'. kfree h (wd p) = Some h' \<and> kheap_inv h' \<and> allocs h' = allocs h - {(p, u)} \<and>
    live_kept (allocs h') (hmem h) (hmem h') \<and> kfree h' (wd p) = Some h'"
  using assms by (rule kfree_run)

theorem kfree_contract_witness:
  "\<exists>h p h' h''. init_kmalloc_free \<lparr>data0 = 0, data1 = 0\<rparr> (kheap_start (\<lambda>_. 0)) = Some h \<and>
    kmalloc h 100 = Some (p, h') \<and> kfree h' p = Some h'' \<and> kheap_inv h'' \<and> allocs h'' = {} \<and>
    kfree h'' p = Some h''"
proof -
  obtain h where h: "init_kmalloc_free \<lparr>data0 = 0, data1 = 0\<rparr> (kheap_start (\<lambda>_. 0)) = Some h"
    "kheap_inv h" "allocs h = {}"
    using kheap_booted by blast
  obtain p h' where k: "kmalloc h 100 = Some (p, h')" "kheap_inv h'" "allocs h' = {(unat p, 100)}"
    using kmalloc_empty [OF h(2,3), of 100] by auto
  have "(unat p, 100) \<in> allocs h'" by (simp add: k(3))
  from kfree_contract [OF k(2) this] h(1) k(1,3) show ?thesis by auto
qed

text \<open>C1. Memory integrity of the kernel heap: any sequence of legal client calls (allocate, free
  what is in use, store inside an area in use) comes back from every call with a well-formed
  heap, and an area that the sequence neither frees nor stores into is still in use at the
  end with all its bytes as they were.\<close>

theorem kheap_integrity:
  assumes "kheap_inv h" "legal_ops kmalloc kfree poke allocs h ops"
  shows "\<exists>h'. run_ops kmalloc kfree poke h ops = Some h' \<and> kheap_inv h' \<and>
    (\<forall>(p, u) \<in> allocs h. list_all (spares p u) ops \<longrightarrow>
       (p, u) \<in> allocs h' \<and> mem_eq_on p (p + u) (hmem h) (hmem h'))"
proof -
  obtain h' where h': "run_ops kmalloc kfree poke h ops = Some h'" "kheap_inv h'"
    using kheap.script_ok [OF assms] by blast
  with kheap.script_spares [OF assms _ _ h'(1)] show ?thesis by blast
qed

theorem kheap_integrity_witness:
  "\<exists>h p h' h''. init_kmalloc_free \<lparr>data0 = 0, data1 = 0\<rparr> (kheap_start (\<lambda>_. 0)) = Some h \<and>
    kmalloc h 100 = Some (p, h') \<and>
    run_ops kmalloc kfree poke h' [Malloc 50, Malloc 0, Mfree NULL, Malloc 4096] = Some h'' \<and>
    (unat p, 100) \<in> allocs h'' \<and> mem_eq_on (unat p) (unat p + 100) (hmem h') (hmem h'')"
proof -
  obtain h where h: "init_kmalloc_free \<lparr>data0 = 0, data1 = 0\<rparr> (kheap_start (\<lambda>_. 0)) = Some h"
    "kheap_inv h" "allocs h = {}"
    using kheap_booted by blast
  obtain p h' where k: "kmalloc h 100 = Some (p, h')" "p \<noteq> NULL" "kheap_inv h'"
    "allocs h' = {(unat p, 100)}"
    using kmalloc_empty [OF h(2,3), of 100] by auto
  let ?ops = "[Malloc 50, Malloc 0, Mfree NULL, Malloc 4096]"
  have "legal_ops kmalloc kfree poke allocs h' ?ops"
    by (simp add: legal_op_def split: option.splits)
  moreover have "list_all (spares (unat p) 100) ?ops"
    using k(2) by (simp add: spares_def unat_gt_0)
  ultimately show ?thesis
    using kheap_integrity [OF k(3), of ?ops] h(1) k(1,4) by auto
qed



text \<open>C5. The byte count of the pool is the sum of the sizes asked for and not freed yet, so the
  consistency check \<^verbatim>\<open>get_pool_malloc_total_length\<close> never reports an error.\<close>

theorem kheap_total_length:
  assumes "kheap_inv h"
  shows "get_pool_malloc_total_length h = Some (wd (\<Sum>(p, u) \<in> allocs h. u))"
proof -
  have "pool_inv h (heap_blks h)" using assms by (simp add: kheap_inv_def heap_inv_def heap_ok_def)
  from total_length_spec [OF this] show ?thesis by (simp add: used_bytes_allocs [OF assms])
qed

theorem kheap_total_length_witness:
  "\<exists>h p h'. init_kmalloc_free \<lparr>data0 = 0, data1 = 0\<rparr> (kheap_start (\<lambda>_. 0)) = Some h \<and>
    kmalloc h 100 = Some (p, h') \<and> get_pool_malloc_total_length h' = Some 100"
proof -
  obtain h where h: "init_kmalloc_free \<lparr>data0 = 0, data1 = 0\<rparr> (kheap_start (\<lambda>_. 0)) = Some h"
    "kheap_inv h" "allocs h = {}"
    using kheap_booted by blast
  obtain p h' where k: "kmalloc h 100 = Some (p, h')" "kheap_inv h'" "allocs h' = {(unat p, 100)}"
    using kmalloc_empty [OF h(2,3), of 100] by auto
  from kheap_total_length [OF k(2)] h(1) k(1,3) show ?thesis by (auto simp: wd_eq_numeral)
qed

text \<open>C6. \<^verbatim>\<open>init_kmalloc_free\<close> succeeds whatever the memory and the lock hold, and leaves a
  well-formed heap without areas in which every request up to 128 MB succeeds.\<close>

theorem kheap_boot:
  "\<exists>h. init_kmalloc_free lk (kheap_start m) = Some h \<and> kheap_inv h \<and> allocs h = {} \<and>
    (\<forall>n. 0 < unat n \<and> unat n \<le> 2 ^ 27 \<longrightarrow> (\<exists>p h'. kmalloc h n = Some (p, h') \<and> p \<noteq> NULL))"
proof -
  obtain h where h: "init_kmalloc_free lk (kheap_start m) = Some h" "kheap_inv h" "allocs h = {}"
    using kheap_booted by blast
  with kmalloc_empty [OF h(2,3)] show ?thesis by blast
qed

theorem kheap_boot_witness:
  "\<exists>h p h'. init_kmalloc_free \<lparr>data0 = 3, data1 = 4\<rparr> (kheap_start (\<lambda>_. 1)) = Some h \<and>
    kmalloc h 1000000 = Some (p, h') \<and> p \<noteq> NULL"
proof -
  have "0 < unat (1000000 :: u64) \<and> unat (1000000 :: u64) \<le> 2 ^ 27" by simp
  then show ?thesis
    using kheap_boot [of "\<lparr>data0 = 3, data1 = 4\<rparr>" "\<lambda>_. 1"] by blast
qed

text \<open>The size of \<^verbatim>\<open>kmalloc\<close> is rounded up with wrap-around: on the fresh heap a request
  for \<open>2 ^ 64 - 1\<close> bytes succeeds, with a pointer to an area of no bytes in a pool of 40.\<close>

theorem kmalloc_wraps:
  "\<exists>h h'. init_kmalloc_free lk (kheap_start m) = Some h \<and>
    kmalloc h (-1) = Some (MEM_POOL_START + 32, h') \<and> pool_end (hpool h') = MEM_POOL_START + 40 \<and>
    total_length (hpool h') = -1"
proof -
  obtain h where h: "init_kmalloc_free lk (kheap_start m) = Some h" "kheap_inv h"
    "heap_blks h = [free_blk 40]"
    using init_kmalloc_free_blks by blast
  with kmalloc_minus_one [OF h(2,3)] show ?thesis by (auto simp: kheap_inv_def)
qed

text \<open>\<^verbatim>\<open>kzalloc\<close> gives what \<^verbatim>\<open>kmalloc\<close> gives: blocks are cleared when they are freed
  and merged, so the area is already zero when \<^verbatim>\<open>kzalloc\<close> clears it.\<close>

theorem kzalloc_kmalloc:
  assumes "kheap_inv h" "unat n + 7 < 2 ^ 64"
  shows "kzalloc h n = kmalloc h n"
  using assms by (rule kzalloc_eq_kmalloc)

theorem kzalloc_kmalloc_witness:
  "\<exists>h. init_kmalloc_free \<lparr>data0 = 0, data1 = 0\<rparr> (kheap_start (\<lambda>_. 0)) = Some h \<and>
    kzalloc h 100 = kmalloc h 100"
proof -
  obtain h where h: "init_kmalloc_free \<lparr>data0 = 0, data1 = 0\<rparr> (kheap_start (\<lambda>_. 0)) = Some h"
    "kheap_inv h"
    using kheap_booted by blast
  have "unat (100 :: u64) + 7 < 2 ^ 64" by simp
  from kzalloc_kmalloc [OF h(2) this] h(1) show ?thesis by blast
qed

text \<open>C22. No request is refused while the heap is less than half full: if the areas in use, 87 bytes of
  waste for each, and a remainder of the requested size between any two of them fill at most half of
  the 512 MB pool, then \<^verbatim>\<open>kmalloc\<close> succeeds.\<close>

theorem kmalloc_succeeds:
  assumes "kheap_inv h" "0 < unat n"
    "2 * ((\<Sum>(p, u) \<in> allocs h. u) + 87 * card (allocs h) + (card (allocs h) + 1) * (unat n + 46)) \<le> unat MEM_POOL_SIZE"
  shows "\<exists>p h'. kmalloc h n = Some (p, h') \<and> p \<noteq> NULL \<and> kheap_inv h' \<and>
    allocs h' = insert (unat p, unat n) (allocs h) \<and> unat p \<notin> fst ` allocs h"
  using assms by (rule kmalloc_succeeds_run)

theorem kmalloc_succeeds_witness:
  "\<exists>h p h1 q h2. init_kmalloc_free \<lparr>data0 = 0, data1 = 0\<rparr> (kheap_start (\<lambda>_. 0)) = Some h \<and>
    kmalloc h 0x8000000 = Some (p, h1) \<and> kmalloc h1 0x100000 = Some (q, h2) \<and> q \<noteq> NULL \<and>
    allocs h2 = {(unat p, 0x8000000), (unat q, 0x100000)}"
proof -
  obtain h where h: "init_kmalloc_free \<lparr>data0 = 0, data1 = 0\<rparr> (kheap_start (\<lambda>_. 0)) = Some h"
    "kheap_inv h" "allocs h = {}"
    using kheap_booted by blast
  obtain p h1 where k: "kmalloc h 0x8000000 = Some (p, h1)" "kheap_inv h1" "allocs h1 = {(unat p, 0x8000000)}"
    using kmalloc_empty [OF h(2,3), of "0x8000000"] by auto
  from kmalloc_succeeds [OF k(2), of "0x100000"] h(1) k(1,3) show ?thesis
    by (auto simp: pool_layout insert_commute)
qed

end
