(* ===== verification/Sched.thy ===== *)
theory Sched
  imports Kmalloc
begin

text \<open>
  The task table and the scheduler of \<^verbatim>\<open>kernel/sched.c\<close> as one CPU sees them. A pointer to a
  task is \<open>Task i\<close> (\<^verbatim>\<open>&tasks[i]\<close>) or \<open>Swapper i\<close> (\<^verbatim>\<open>&swapper_task_struct[i]\<close>). Kernel stacks
  are pages at addresses the linker chooses, which the state carries; the first word of a
  stack page is the task pointer of its \<^verbatim>\<open>thread_info\<close>. The context switch of
  \<^verbatim>\<open>cpu_switch_to\<close> (\<^verbatim>\<open>kernel/irq.S\<close>) saves the callee-saved registers of the CPU in the
  previous task and loads those of the next one.
\<close>

section \<open>Tasks\<close>

definition NUM_CPUS :: nat where "NUM_CPUS = 2"

definition MAX_NUM_PROCESSES :: nat where "MAX_NUM_PROCESSES = 32"

definition TASK_COMM_LEN :: nat where "TASK_COMM_LEN = 16"

definition KERNEL_STACK_SIZE :: u64 where "KERNEL_STACK_SIZE = 4096"

datatype process_state = INITIALIZING | RUNNING | SLEEPING | STOPPED | NUM_PROC_STATES

datatype task_ptr = NoTask | Task nat | Swapper nat

record cpu_context =
  x19 :: u64
  x20 :: u64
  x21 :: u64
  x22 :: u64
  x23 :: u64
  x24 :: u64
  x25 :: u64
  x26 :: u64
  x27 :: u64
  x28 :: u64
  ctx_fp :: u64
  ctx_sp :: u64
  ctx_pc :: u64

record task_struct =
  state :: process_state
  stack :: u64
  cpu_context :: cpu_context
  pid :: int
  task_in_use :: bool
  comm :: "u8 list"
  pg_dir :: u64
  mm :: u64
  stime :: u64
  utime :: u64

definition zero_context :: cpu_context where
  "zero_context = \<lparr>x19 = 0, x20 = 0, x21 = 0, x22 = 0, x23 = 0, x24 = 0, x25 = 0, x26 = 0,
     x27 = 0, x28 = 0, ctx_fp = 0, ctx_sp = 0, ctx_pc = 0\<rparr>"

text \<open>A task structure after \<^verbatim>\<open>memset(t, 0, sizeof (*t))\<close>.\<close>

definition zero_task :: task_struct where
  "zero_task = \<lparr>state = INITIALIZING, stack = 0, cpu_context = zero_context, pid = 0,
     task_in_use = False, comm = replicate TASK_COMM_LEN 0, pg_dir = NULL, mm = NULL,
     stime = 0, utime = 0\<rparr>"

record sched =
  core_id :: nat
  daif :: u64
  cpu_regs :: cpu_context
  ttbr0 :: "u64 \<times> int"
  tlb_flushes :: "int list"
  tasks_lock :: spinlock
  tasks :: "nat \<Rightarrow> task_struct"
  swapper_task_struct :: "nat \<Rightarrow> task_struct"
  proc_kernel_stacks :: u64
  thread_info_task :: "u64 \<Rightarrow> task_ptr"
  stack_words :: "u64 \<Rightarrow> u64"
  kernel_heap :: kheap

text \<open>Access through a task pointer; writing through the null pointer is undefined.\<close>

definition task_of :: "sched \<Rightarrow> task_ptr \<Rightarrow> task_struct" where
  "task_of s t = (case t of NoTask \<Rightarrow> zero_task | Task i \<Rightarrow> tasks s i
     | Swapper i \<Rightarrow> swapper_task_struct s i)"

definition upd_task :: "task_ptr \<Rightarrow> (task_struct \<Rightarrow> task_struct) \<Rightarrow> sched \<Rightarrow> sched" where
  "upd_task t f s = (case t of NoTask \<Rightarrow> s
     | Task i \<Rightarrow> s\<lparr>tasks := (tasks s)(i := f (tasks s i))\<rparr>
     | Swapper i \<Rightarrow> s\<lparr>swapper_task_struct := (swapper_task_struct s)(i := f (swapper_task_struct s i))\<rparr>)"

section \<open>Operations\<close>

text \<open>\<^verbatim>\<open>strncpy\<close> of at most \<^verbatim>\<open>TASK_COMM_LEN - 1\<close> characters into the name field.\<close>

definition copy_comm :: "u8 list \<Rightarrow> u8 list \<Rightarrow> u8 list" where
  "copy_comm name old =
    take (TASK_COMM_LEN - 1) (takeWhile (\<lambda>c. c \<noteq> 0) name @ replicate (TASK_COMM_LEN - 1) 0) @
    drop (TASK_COMM_LEN - 1) old"

definition swapper_name :: "u8 list" where
  "swapper_name = [0x73, 0x77, 0x61, 0x70, 0x70, 0x65, 0x72]"

definition init_swapper :: "nat \<Rightarrow> sched \<Rightarrow> sched" where
  "init_swapper i s =
    (let stk = stack (swapper_task_struct s 0) + of_nat i * PAGE_SIZE;
         s = upd_task (Swapper i) (\<lambda>t. t\<lparr>state := RUNNING, stack := stk\<rparr>) s;
         s = s\<lparr>thread_info_task := (thread_info_task s)(stk := Swapper i)\<rparr>
     in upd_task (Swapper i)
          (\<lambda>t. t\<lparr>pid := 0, task_in_use := True,
                 comm := (copy_comm swapper_name (comm t))[TASK_COMM_LEN - 1 := 0]\<rparr>) s)"

definition init_sched :: "sched \<Rightarrow> sched" where
  "init_sched s =
    (let s = fold init_swapper [0..<NUM_CPUS] s
     in s\<lparr>tasks_lock := the (spin_lock_init (Some (tasks_lock s)))\<rparr>)"

definition current_thread_info :: "sched \<Rightarrow> u64" where
  "current_thread_info s = ctx_sp (cpu_regs s) AND NOT (KERNEL_STACK_SIZE - 1)"

definition get_current_proc :: "sched \<Rightarrow> task_ptr" where
  "get_current_proc s = thread_info_task s (current_thread_info s)"

definition is_task_ready :: "task_struct \<Rightarrow> bool" where
  "is_task_ready t \<longleftrightarrow> task_in_use t \<and> state t = RUNNING"

definition proc_time :: "task_struct \<Rightarrow> u64" where
  "proc_time t = stime t + utime t"

text \<open>The scan of \<^verbatim>\<open>get_next_proc\<close>; \<open>None\<close> stands for \<^verbatim>\<open>min_time_index == -1\<close>.\<close>

function next_loop :: "(nat \<Rightarrow> task_struct) \<Rightarrow> nat \<Rightarrow> nat option \<Rightarrow> u64 \<Rightarrow> nat option" where
  "next_loop ts i min_time_index min_time =
    (if i < MAX_NUM_PROCESSES then
       (if is_task_ready (ts i) then
          (if min_time_index = None \<or> proc_time (ts i) < min_time
           then next_loop ts (i + NUM_CPUS) (Some i) (proc_time (ts i))
           else next_loop ts (i + NUM_CPUS) min_time_index min_time)
        else next_loop ts (i + NUM_CPUS) min_time_index min_time)
     else min_time_index)"
  by pat_completeness auto
termination
  by (relation "measure (\<lambda>(ts, i, mi, mt). MAX_NUM_PROCESSES - i)") (auto simp: NUM_CPUS_def)

declare next_loop.simps [simp del]

definition get_next_proc :: "sched \<Rightarrow> (task_ptr \<times> sched) option" where
  "get_next_proc s = do {
     (min_time_index, d, l) \<leftarrow> locked_irqsave (daif s) (tasks_lock s)
       (Some (next_loop (tasks s) (core_id s) None 0));
     let s = s\<lparr>daif := d, tasks_lock := l\<rparr>;
     Some (case min_time_index of Some i \<Rightarrow> Task i | None \<Rightarrow> NoTask, s) }"

definition cpu_switch_to :: "task_ptr \<Rightarrow> task_ptr \<Rightarrow> sched \<Rightarrow> sched" where
  "cpu_switch_to prev nxt s =
    (let s = upd_task prev (\<lambda>t. t\<lparr>cpu_context := cpu_regs s\<rparr>) s
     in s\<lparr>cpu_regs := cpu_context (task_of s nxt)\<rparr>)"

definition schedule :: "sched \<Rightarrow> sched option" where
  "schedule s = do {
     let prev = get_current_proc s;
     (nxt, s) \<leftarrow> get_next_proc s;
     let nxt = (if nxt = NoTask then Swapper (core_id s) else nxt);
     if prev \<noteq> nxt then
       let s = (if pg_dir (task_of s nxt) \<noteq> NULL
                then s\<lparr>ttbr0 := (pa (pg_dir (task_of s nxt)), pid (task_of s nxt))\<rparr> else s)
       in Some (cpu_switch_to prev nxt s)
     else Some s }"

definition free_task_slot :: "task_ptr \<Rightarrow> sched \<Rightarrow> sched option" where
  "free_task_slot t s =
    (if t = NoTask then Some s
     else do {
       (s', d, l) \<leftarrow> locked_irqsave (daif s) (tasks_lock s) (Some (upd_task t (\<lambda>_. zero_task) s));
       Some (s'\<lparr>daif := d, tasks_lock := l\<rparr>) })"

definition claim_slot :: "nat \<Rightarrow> sched \<Rightarrow> sched" where
  "claim_slot i s =
    (let stk = proc_kernel_stacks s + of_nat i * KERNEL_STACK_SIZE;
         s = upd_task (Task i) (\<lambda>t. t\<lparr>task_in_use := True, pid := int i + 1, stack := stk\<rparr>) s
     in s\<lparr>thread_info_task := (thread_info_task s)(stk := Task i)\<rparr>)"

function slot_loop :: "nat \<Rightarrow> sched \<Rightarrow> task_ptr \<times> sched" where
  "slot_loop i s =
    (if i < MAX_NUM_PROCESSES then
       (if \<not> task_in_use (tasks s i) then (Task i, claim_slot i s)
        else if state (tasks s i) = STOPPED then
          slot_loop (i + 1) (upd_task (Task i) (\<lambda>_. zero_task)
            (s\<lparr>tlb_flushes := tlb_flushes s @ [pid (tasks s i)]\<rparr>))
        else slot_loop (i + 1) s)
     else (NoTask, s))"
  by pat_completeness auto
termination
  by (relation "measure (\<lambda>(i, s). MAX_NUM_PROCESSES - i)") auto

declare slot_loop.simps [simp del]

definition get_task_slot :: "sched \<Rightarrow> (task_ptr \<times> sched) option" where
  "get_task_slot s = do {
     ((t, s'), d, l) \<leftarrow> locked_irqsave (daif s) (tasks_lock s) (Some (slot_loop 0 s));
     Some (t, s'\<lparr>daif := d, tasks_lock := l\<rparr>) }"

definition pid_to_task :: "int \<Rightarrow> task_ptr" where
  "pid_to_task p =
    (let index = p - 1
     in if \<not> (0 \<le> index \<and> index < int MAX_NUM_PROCESSES) then NoTask else Task (nat index))"

definition set_task_state :: "task_ptr \<Rightarrow> process_state \<Rightarrow> sched \<Rightarrow> sched option" where
  "set_task_state t st s =
    (if t = NoTask then Some s
     else if st = NUM_PROC_STATES then Some s
     else do {
       (s', d, l) \<leftarrow> locked_irqsave (daif s) (tasks_lock s)
         (Some (upd_task t (\<lambda>t. t\<lparr>state := st\<rparr>) s));
       Some (s'\<lparr>daif := d, tasks_lock := l\<rparr>) })"

definition sizeof_mm_struct :: u64 where
  "sizeof_mm_struct = 24"

text \<open>The address of \<^verbatim>\<open>call_thread_func\<close> (assembly) is an argument, as is that of the name.\<close>

definition kernel_thread ::
  "u64 \<Rightarrow> u8 list option \<Rightarrow> u64 \<Rightarrow> u64 \<Rightarrow> sched \<Rightarrow> (int \<times> sched) option" where
  "kernel_thread call_thread_func name f args s =
    (case name of None \<Rightarrow> Some (-1, s)
     | Some name \<Rightarrow>
        if f = NULL then Some (-1, s)
        else do {
          (t, s) \<leftarrow> get_task_slot s;
          if t = NoTask then Some (-1, s)
          else do {
            let s = upd_task t (\<lambda>t. t\<lparr>cpu_context := (cpu_context t)\<lparr>ctx_fp := 0, ctx_pc := call_thread_func\<rparr>,
                                      comm := copy_comm name (comm t)\<rparr>) s;
            (m, h) \<leftarrow> kzalloc (kernel_heap s) sizeof_mm_struct;
            let s = s\<lparr>kernel_heap := h\<rparr>;
            if m = NULL then do { s \<leftarrow> free_task_slot t s; Some (-1, s) }
            else
              let s = upd_task t (\<lambda>t. t\<lparr>mm := m\<rparr>) s;
                  sp = stack (task_of s t) + KERNEL_STACK_SIZE;
                  s = s\<lparr>stack_words := (stack_words s)(sp - 8 := f, sp - 16 := args)\<rparr>
              in Some (0, upd_task t (\<lambda>t. t\<lparr>cpu_context := (cpu_context t)\<lparr>ctx_sp := sp - 16\<rparr>,
                                            state := RUNNING\<rparr>) s) } })"

section \<open>The choice of the next task\<close>

definition candidates :: "(nat \<Rightarrow> task_struct) \<Rightarrow> nat \<Rightarrow> nat set" where
  "candidates ts i = {j. i \<le> j \<and> j < MAX_NUM_PROCESSES \<and> (j - i) mod NUM_CPUS = 0 \<and> is_task_ready (ts j)}"

definition best_of :: "(nat \<Rightarrow> task_struct) \<Rightarrow> nat set \<Rightarrow> nat option \<Rightarrow> bool" where
  "best_of ts S r \<longleftrightarrow>
    (case r of None \<Rightarrow> S = {}
     | Some k \<Rightarrow> k \<in> S \<and> (\<forall>j \<in> S. proc_time (ts k) < proc_time (ts j) \<or>
         proc_time (ts k) = proc_time (ts j) \<and> k \<le> j))"

lemma candidates_step:
  assumes "i < MAX_NUM_PROCESSES"
  shows "candidates ts i = (if is_task_ready (ts i) then {i} else {}) \<union> candidates ts (i + NUM_CPUS)"
proof -
  have eq: "i \<le> j \<and> (j - i) mod 2 = 0 \<longleftrightarrow> j = i \<or> i + 2 \<le> j \<and> (j - (i + 2)) mod 2 = 0" for j
    by presburger
  have "j \<in> candidates ts i \<longleftrightarrow>
      j \<in> (if is_task_ready (ts i) then {i} else {}) \<union> candidates ts (i + NUM_CPUS)" for j
    using eq [of j] assms unfolding candidates_def NUM_CPUS_def by (cases "j = i") auto
  then show ?thesis by blast
qed

lemma next_loop_best:
  assumes "case mi of None \<Rightarrow> True | Some k \<Rightarrow> k < i \<and> mt = proc_time (ts k)"
  shows "best_of ts (set_option mi \<union> candidates ts i) (next_loop ts i mi mt)"
  using assms
proof (induction ts i mi mt rule: next_loop.induct)
  case (1 ts i mi mt)
  show ?case
  proof (cases "i < MAX_NUM_PROCESSES")
    case False
    then have "candidates ts i = {}" by (auto simp: candidates_def)
    then show ?thesis
      using False by (auto simp: next_loop.simps [of ts i] best_of_def split: option.splits)
  next
    case i: True
    note c = candidates_step [OF i, of ts]
    show ?thesis
    proof (cases "is_task_ready (ts i) \<and> (mi = None \<or> proc_time (ts i) < mt)")
      case True
      have n: "next_loop ts i mi mt = next_loop ts (i + NUM_CPUS) (Some i) (proc_time (ts i))"
        using i True by (simp add: next_loop.simps [of ts i])
      have b: "best_of ts ({i} \<union> candidates ts (i + NUM_CPUS)) (next_loop ts i mi mt)"
        unfolding n using 1(1) i True by (auto simp: NUM_CPUS_def)
      show ?thesis
      proof (cases mi)
        case None
        with b c True show ?thesis by simp
      next
        case (Some k)
        then have "proc_time (ts i) < proc_time (ts k)" using True "1.prems" by auto
        then show ?thesis
          using b c True Some by (auto simp: best_of_def split: option.splits)
      qed
    next
      case False
      have n: "next_loop ts i mi mt = next_loop ts (i + NUM_CPUS) mi mt"
        using i False by (auto simp: next_loop.simps [of ts i])
      have b: "best_of ts (set_option mi \<union> candidates ts (i + NUM_CPUS)) (next_loop ts i mi mt)"
        unfolding n using 1(2,3) i False "1.prems" by (cases "is_task_ready (ts i)") (auto split: option.splits)
      show ?thesis
      proof (cases "is_task_ready (ts i)")
        case ready: True
        then obtain k where k: "mi = Some k" "k < i" "proc_time (ts k) \<le> proc_time (ts i)"
          using False "1.prems" by (cases mi) auto
        with b c ready show ?thesis
          by (fastforce simp: best_of_def split: option.splits)
      qed (use b c in simp)
    qed
  qed
qed

end
