(* ===== verification/Sched_Inv.thy ===== *)
theory Sched_Inv
  imports Sched
begin

text \<open>
  The invariant of the scheduler on one CPU and its preservation by the operations of
  \<^verbatim>\<open>kernel/sched.c\<close>. The invariant ties the stack pages to the tasks: the page the stack
  pointer is in names the running task, and every other live task of this CPU has a saved
  stack pointer in its own page, so that switching to it makes it the current one.
\<close>

section \<open>The invariant\<close>

definition page_of :: "u64 \<Rightarrow> u64" where
  "page_of sp = sp AND NOT (KERNEL_STACK_SIZE - 1)"

definition home :: "sched \<Rightarrow> task_ptr \<Rightarrow> u64" where
  "home s t = (case t of NoTask \<Rightarrow> 0
     | Task i \<Rightarrow> proc_kernel_stacks s + of_nat i * KERNEL_STACK_SIZE
     | Swapper i \<Rightarrow> stack (swapper_task_struct s i))"

definition valid_task :: "task_ptr \<Rightarrow> bool" where
  "valid_task t = (case t of NoTask \<Rightarrow> False | Task i \<Rightarrow> i < MAX_NUM_PROCESSES | Swapper i \<Rightarrow> i < NUM_CPUS)"

text \<open>The stack pages are page-aligned and different tasks have different pages.\<close>

definition stacks_apart :: "sched \<Rightarrow> bool" where
  "stacks_apart s \<longleftrightarrow> (\<forall>t. valid_task t \<longrightarrow> page_of (home s t) = home s t) \<and>
    (\<forall>t u. valid_task t \<and> valid_task u \<and> home s t = home s u \<longrightarrow> t = u)"

text \<open>The tasks this CPU may run now or after a wake-up.\<close>

definition alive_here :: "sched \<Rightarrow> task_ptr \<Rightarrow> bool" where
  "alive_here s t = (case t of NoTask \<Rightarrow> False
     | Task i \<Rightarrow> i < MAX_NUM_PROCESSES \<and> i mod NUM_CPUS = core_id s \<and> task_in_use (tasks s i) \<and>
         state (tasks s i) \<in> {RUNNING, SLEEPING}
     | Swapper i \<Rightarrow> i = core_id s)"

definition resumable :: "sched \<Rightarrow> task_ptr \<Rightarrow> bool" where
  "resumable s t \<longleftrightarrow> page_of (ctx_sp (cpu_context (task_of s t))) = home s t"

definition sched_inv :: "sched \<Rightarrow> bool" where
  "sched_inv s \<longleftrightarrow> daif_wf (daif s) \<and> data0 (tasks_lock s) = 0 \<and> core_id s < NUM_CPUS \<and>
    stacks_apart s \<and> valid_task (get_current_proc s) \<and>
    current_thread_info s = home s (get_current_proc s) \<and>
    (\<forall>i. get_current_proc s = Task i \<longrightarrow> task_in_use (tasks s i)) \<and>
    (\<forall>i < MAX_NUM_PROCESSES. \<not> task_in_use (tasks s i) \<longrightarrow> tasks s i = zero_task) \<and>
    (\<forall>t. alive_here s t \<longrightarrow> thread_info_task s (home s t) = t \<and>
       (t \<noteq> get_current_proc s \<longrightarrow> resumable s t))"

lemma alive_valid: "sched_inv s \<Longrightarrow> alive_here s t \<Longrightarrow> valid_task t"
  by (auto simp: alive_here_def valid_task_def sched_inv_def split: task_ptr.splits)

lemma locked_tasks:
  assumes "sched_inv s"
  shows "locked_irqsave (daif s) (tasks_lock s) body = map_option (\<lambda>r. (r, daif s, tasks_lock s)) body"
  using assms by (intro locked_irqsave_free) (simp_all add: sched_inv_def)

lemma upd_task_simps [simp]:
  "core_id (upd_task t f s) = core_id s" "daif (upd_task t f s) = daif s"
  "cpu_regs (upd_task t f s) = cpu_regs s" "tasks_lock (upd_task t f s) = tasks_lock s"
  "proc_kernel_stacks (upd_task t f s) = proc_kernel_stacks s"
  "thread_info_task (upd_task t f s) = thread_info_task s"
  "kernel_heap (upd_task t f s) = kernel_heap s" "stack_words (upd_task t f s) = stack_words s"
  "ttbr0 (upd_task t f s) = ttbr0 s"
  by (simp_all add: upd_task_def split: task_ptr.splits)

lemma task_of_upd: "u \<noteq> NoTask \<Longrightarrow> task_of (upd_task t f s) u = (if u = t then f (task_of s u) else task_of s u)"
  by (auto simp: task_of_def upd_task_def split: task_ptr.splits)

lemma current_upd [simp]:
  "current_thread_info (upd_task t f s) = current_thread_info s"
  "get_current_proc (upd_task t f s) = get_current_proc s"
  by (simp_all add: current_thread_info_def get_current_proc_def)

section \<open>Changes that keep the invariant\<close>

text \<open>
  An update of one task keeps the invariant when it keeps the stack of a swapper, and the
  task is either not alive afterwards or was alive and keeps its saved stack pointer.
\<close>

lemma home_upd:
  assumes "\<And>x. stack (f x) = stack x \<or> (\<forall>i. t \<noteq> Swapper i)"
  shows "home (upd_task t f s) u = home s u"
  using assms by (auto simp: home_def upd_task_def split: task_ptr.splits)

lemma sched_inv_upd_task:
  assumes inv: "sched_inv s" and hm: "\<And>u. home (upd_task t f s) u = home s u"
    and ctx: "alive_here (upd_task t f s) t \<Longrightarrow> alive_here s t \<and>
      (t \<noteq> get_current_proc s \<longrightarrow> ctx_sp (cpu_context (f (task_of s t))) = ctx_sp (cpu_context (task_of s t)))"
    and use: "\<And>i. t = Task i \<Longrightarrow> (if task_in_use (f (tasks s i)) then True else f (tasks s i) = zero_task \<and>
      get_current_proc s \<noteq> Task i)"
  shows "sched_inv (upd_task t f s)"
proof -
  let ?s = "upd_task t f s"
  have other: "alive_here ?s u \<longleftrightarrow> alive_here s u" if "u \<noteq> t" for u
    using that by (cases u; cases t) (auto simp: alive_here_def upd_task_def)
  have "thread_info_task s (home s u) = u \<and> (u \<noteq> get_current_proc s \<longrightarrow> resumable ?s u)"
    if a: "alive_here ?s u" for u
  proof -
    have "u \<noteq> NoTask" using a by (auto simp: alive_here_def)
    moreover have "alive_here s u" using a other ctx by (cases "u = t") auto
    ultimately show ?thesis
      using inv ctx a by (auto simp: sched_inv_def resumable_def hm task_of_upd)
  qed
  moreover have "\<not> task_in_use (tasks ?s i) \<Longrightarrow> tasks ?s i = zero_task"
    if "i < MAX_NUM_PROCESSES" for i
    using that inv use [of i] by (cases t) (auto simp: sched_inv_def upd_task_def split: if_splits)
  moreover have "task_in_use (tasks ?s i)" if "get_current_proc s = Task i" for i
    using that inv use [of i] by (cases t) (auto simp: sched_inv_def upd_task_def split: if_splits)
  ultimately show ?thesis
    using inv by (auto simp: sched_inv_def hm stacks_apart_def)
qed

lemma sched_inv_cong:
  assumes "sched_inv s" "core_id s' = core_id s" "daif_wf (daif s')" "data0 (tasks_lock s') = 0"
    "cpu_regs s' = cpu_regs s" "tasks s' = tasks s" "swapper_task_struct s' = swapper_task_struct s"
    "proc_kernel_stacks s' = proc_kernel_stacks s" "thread_info_task s' = thread_info_task s"
  shows "sched_inv s'"
proof -
  have t: "task_of s' t = task_of s t" "home s' t = home s t" "alive_here s' t = alive_here s t" for t
    using assms by (auto simp: task_of_def home_def alive_here_def split: task_ptr.splits)
  have "get_current_proc s' = get_current_proc s" "current_thread_info s' = current_thread_info s"
    using assms by (simp_all add: get_current_proc_def current_thread_info_def)
  with t assms show ?thesis by (simp add: sched_inv_def stacks_apart_def resumable_def)
qed

section \<open>Scheduling\<close>

lemma get_next_proc_run:
  assumes "sched_inv s"
  shows "get_next_proc s = Some (case next_loop (tasks s) (core_id s) None 0 of Some i \<Rightarrow> Task i | None \<Rightarrow> NoTask, s)"
  by (simp add: get_next_proc_def locked_tasks [OF assms])

lemma candidates_core:
  assumes "c < NUM_CPUS"
  shows "candidates ts c = {j. j < MAX_NUM_PROCESSES \<and> j mod NUM_CPUS = c \<and> is_task_ready (ts j)}"
proof -
  have eq: "c \<le> j \<and> (j - c) mod 2 = 0 \<longleftrightarrow> j mod 2 = c" for j
    using assms unfolding NUM_CPUS_def by presburger
  have "j \<in> candidates ts c \<longleftrightarrow>
      j \<in> {j. j < MAX_NUM_PROCESSES \<and> j mod NUM_CPUS = c \<and> is_task_ready (ts j)}" for j
    unfolding candidates_def NUM_CPUS_def mem_Collect_eq using eq [of j] by metis
  then show ?thesis by blast
qed

definition next_task :: "sched \<Rightarrow> task_ptr" where
  "next_task s = (case next_loop (tasks s) (core_id s) None 0 of Some i \<Rightarrow> Task i
     | None \<Rightarrow> Swapper (core_id s))"

lemma next_task_alive:
  assumes "sched_inv s"
  shows "alive_here s (next_task s)"
proof -
  have "core_id s < NUM_CPUS" using assms by (simp add: sched_inv_def)
  then have "best_of (tasks s) {j. j < MAX_NUM_PROCESSES \<and> j mod NUM_CPUS = core_id s \<and> is_task_ready (tasks s j)}
      (next_loop (tasks s) (core_id s) None 0)"
    using next_loop_best [where mi = None and i = "core_id s" and mt = 0 and ts = "tasks s"] by (simp add: candidates_core)
  then show ?thesis
    by (auto simp: next_task_def alive_here_def best_of_def is_task_ready_def split: option.splits)
qed

lemma schedule_same:
  assumes "sched_inv s" "next_task s = get_current_proc s"
  shows "schedule s = Some s"
  using get_next_proc_run [OF assms(1)] assms(2)
  by (auto simp: schedule_def next_task_def Let_def split: option.splits)

lemma schedule_switch:
  assumes "sched_inv s" "next_task s \<noteq> get_current_proc s"
  shows "schedule s = Some (cpu_switch_to (get_current_proc s) (next_task s)
    (if pg_dir (task_of s (next_task s)) \<noteq> NULL
     then s\<lparr>ttbr0 := (pa (pg_dir (task_of s (next_task s))), pid (task_of s (next_task s)))\<rparr> else s))"
  using get_next_proc_run [OF assms(1)] assms(2)
  by (auto simp: schedule_def next_task_def Let_def split: option.splits)

lemma cpu_switch_inv:
  assumes inv: "sched_inv s" and n: "alive_here s n" "n \<noteq> get_current_proc s"
  shows "sched_inv (cpu_switch_to (get_current_proc s) n s)"
    "get_current_proc (cpu_switch_to (get_current_proc s) n s) = n"
proof -
  define p where "p = get_current_proc s"
  define s1 where "s1 = upd_task p (\<lambda>t. t\<lparr>cpu_context := cpu_regs s\<rparr>) s"
  define s2 where "s2 = s1\<lparr>cpu_regs := cpu_context (task_of s1 n)\<rparr>"
  have sw: "cpu_switch_to p n s = s2" by (simp add: cpu_switch_to_def s2_def s1_def Let_def)
  have nn: "n \<noteq> NoTask" using n(1) by (auto simp: alive_here_def)
  have hm: "home s2 t = home s t" for t
    unfolding s2_def s1_def home_def upd_task_def by (cases t; cases p) auto
  have al: "alive_here s2 t = alive_here s t" for t
    unfolding s2_def s1_def alive_here_def upd_task_def by (cases t; cases p) auto
  have tn: "task_of s1 n = task_of s n" using n(2) nn by (simp add: s1_def task_of_upd p_def)
  have ti: "thread_info_task s2 = thread_info_task s" by (simp add: s2_def s1_def)
  have res: "resumable s n" "thread_info_task s (home s n) = n"
    using inv n by (auto simp: sched_inv_def)
  then have ci: "current_thread_info s2 = home s n"
    by (simp add: current_thread_info_def s2_def tn resumable_def page_of_def)
  then have cur: "get_current_proc s2 = n" by (simp add: get_current_proc_def ti res)
  have "resumable s2 t" if "alive_here s t" "t \<noteq> n" for t
  proof -
    have t: "t \<noteq> NoTask" using that(1) by (auto simp: alive_here_def)
    have "cpu_context (task_of s2 t) = cpu_context (task_of s1 t)"
      by (auto simp: s2_def task_of_def split: task_ptr.splits)
    moreover have "page_of (ctx_sp (cpu_context (task_of s1 t))) = home s t"
    proof (cases "t = p")
      case True
      then show ?thesis
        using inv t by (simp add: s1_def task_of_upd sched_inv_def current_thread_info_def page_of_def p_def)
    next
      case False
      then show ?thesis using inv that(1) t by (simp add: s1_def task_of_upd sched_inv_def resumable_def p_def)
    qed
    ultimately show ?thesis by (simp add: resumable_def hm)
  qed
  moreover have "task_in_use (tasks s2 i) = task_in_use (tasks s i)" for i
    unfolding s2_def s1_def upd_task_def by (cases p) auto
  moreover have "tasks s2 i = tasks s i" if "\<not> task_in_use (tasks s i)" for i
    using inv that unfolding s2_def s1_def upd_task_def p_def sched_inv_def
    by (auto split: task_ptr.splits)
  moreover have "task_in_use (tasks s i)" if "n = Task i" for i
    using n(1) that by (simp add: alive_here_def)
  moreover have "daif s2 = daif s" "tasks_lock s2 = tasks_lock s" "core_id s2 = core_id s"
    by (simp_all add: s2_def s1_def)
  ultimately have "sched_inv s2"
    using inv n(1) alive_valid [OF inv n(1)] by (auto simp: sched_inv_def al hm cur ci stacks_apart_def ti)
  with sw cur show "sched_inv (cpu_switch_to (get_current_proc s) n s)"
    "get_current_proc (cpu_switch_to (get_current_proc s) n s) = n"
    by (simp_all add: p_def)
qed

lemma schedule_run:
  assumes inv: "sched_inv s"
  shows "\<exists>s'. schedule s = Some s' \<and> sched_inv s' \<and> get_current_proc s' = next_task s \<and>
    (get_current_proc s \<noteq> next_task s \<longrightarrow>
       cpu_context (task_of s' (get_current_proc s)) = cpu_regs s \<and>
       cpu_regs s' = cpu_context (task_of s (next_task s)) \<and>
       (pg_dir (task_of s (next_task s)) \<noteq> NULL \<longrightarrow>
          ttbr0 s' = (pa (pg_dir (task_of s (next_task s))), pid (task_of s (next_task s)))))"
proof (cases "next_task s = get_current_proc s")
  case True
  then show ?thesis using schedule_same [OF inv] inv by auto
next
  case False
  define n where "n = next_task s"
  define s1 where "s1 = (if pg_dir (task_of s n) \<noteq> NULL
     then s\<lparr>ttbr0 := (pa (pg_dir (task_of s n)), pid (task_of s n))\<rparr> else s)"
  have inv1: "sched_inv s1" by (rule sched_inv_cong [OF inv]) (use inv in \<open>auto simp: s1_def sched_inv_def\<close>)
  have eq: "get_current_proc s1 = get_current_proc s" "alive_here s1 n" "task_of s1 = task_of s"
    "cpu_regs s1 = cpu_regs s"
    using next_task_alive [OF inv]
    by (auto simp: s1_def get_current_proc_def current_thread_info_def alive_here_def n_def task_of_def
        fun_eq_iff split: task_ptr.splits)
  have nn: "n \<noteq> NoTask" "get_current_proc s \<noteq> NoTask"
    using eq(2) inv by (auto simp: alive_here_def sched_inv_def valid_task_def split: task_ptr.splits)
  note sw = cpu_switch_inv [OF inv1 eq(2), unfolded eq(1)]
  have run: "schedule s = Some (cpu_switch_to (get_current_proc s) n s1)"
    using schedule_switch [OF inv False] by (simp add: n_def s1_def)
  have ctx: "cpu_context (task_of (cpu_switch_to (get_current_proc s) n s1) (get_current_proc s)) = cpu_regs s"
    "cpu_regs (cpu_switch_to (get_current_proc s) n s1) = cpu_context (task_of s n)"
    using nn False eq(3,4)
    by (auto simp: cpu_switch_to_def Let_def task_of_def upd_task_def n_def s1_def split: task_ptr.splits)
  have tt: "ttbr0 (cpu_switch_to (get_current_proc s) n s1) = ttbr0 s1"
    by (simp add: cpu_switch_to_def Let_def)
  show ?thesis
    using run sw ctx tt False by (auto simp: n_def s1_def)
qed

lemma schedule_state:
  assumes "schedule s = Some s'" "t \<noteq> NoTask"
  shows "state (task_of s' t) = state (task_of s t) \<and> pid (task_of s' t) = pid (task_of s t) \<and>
    task_in_use (task_of s' t) = task_in_use (task_of s t)"
proof -
  have sw: "task_of (cpu_switch_to p n x) t = (if t = p then (task_of x t)\<lparr>cpu_context := cpu_regs x\<rparr> else task_of x t)"
    for p n x
    using task_of_upd [OF assms(2), of p "\<lambda>t. t\<lparr>cpu_context := cpu_regs x\<rparr>" x] assms(2)
    by (auto simp: cpu_switch_to_def Let_def task_of_def split: task_ptr.splits)
  have "task_of (s\<lparr>daif := d, tasks_lock := l\<rparr>) t = task_of s t"
    "task_of (s\<lparr>daif := d, tasks_lock := l, ttbr0 := b\<rparr>) t = task_of s t" for d l b
    by (simp_all add: task_of_def split: task_ptr.splits)
  with assms(1) show ?thesis
    by (auto simp: schedule_def get_next_proc_def Let_def sw locked_irqsave_def bind_eq_Some_conv split: if_splits)
qed

section \<open>Task slots\<close>

definition reap_run :: "nat \<Rightarrow> nat \<Rightarrow> sched \<Rightarrow> sched" where
  "reap_run i k s = s\<lparr>
     tasks := (\<lambda>j. if i \<le> j \<and> j < k \<and> state (tasks s j) = STOPPED then zero_task else tasks s j),
     tlb_flushes := tlb_flushes s @
       map (\<lambda>j. pid (tasks s j)) (filter (\<lambda>j. state (tasks s j) = STOPPED) [i..<k])\<rparr>"

lemma reap_run_empty [simp]: "reap_run i i s = s"
proof -
  have "(\<lambda>j. if i \<le> j \<and> j < i \<and> state (tasks s j) = STOPPED then zero_task else tasks s j) = tasks s"
    by (rule ext) auto
  then show ?thesis by (simp add: reap_run_def)
qed

lemma reap_run_step:
  assumes "i < k"
  shows "reap_run i k s = reap_run (Suc i) k
    (if state (tasks s i) = STOPPED
     then upd_task (Task i) (\<lambda>_. zero_task) (s\<lparr>tlb_flushes := tlb_flushes s @ [pid (tasks s i)]\<rparr>) else s)"
proof -
  have l: "[i..<k] = i # [Suc i..<k]" using assms by (simp add: upt_rec)
  have m: "map (\<lambda>j. pid (((tasks s)(i := z)) j)) (filter (\<lambda>j. state (((tasks s)(i := z)) j) = STOPPED) [Suc i..<k]) =
      map (\<lambda>j. pid (tasks s j)) (filter (\<lambda>j. state (tasks s j) = STOPPED) [Suc i..<k])" for z
  proof -
    have "filter (\<lambda>j. state (((tasks s)(i := z)) j) = STOPPED) [Suc i..<k] =
        filter (\<lambda>j. state (tasks s j) = STOPPED) [Suc i..<k]"
      by (rule filter_cong) auto
    then show ?thesis by auto
  qed
  have st: "state zero_task \<noteq> STOPPED" by (simp add: zero_task_def)
  have f: "(\<lambda>j. if i \<le> j \<and> j < k \<and> state (tasks s j) = STOPPED then zero_task else tasks s j) =
      (\<lambda>j. if Suc i \<le> j \<and> j < k \<and> state (((tasks s)(i := z)) j) = STOPPED then zero_task
           else ((tasks s)(i := z)) j)"
    if "z = (if state (tasks s i) = STOPPED then zero_task else tasks s i)" for z
    using assms that st by (intro ext) (auto simp: Suc_le_eq)
  show ?thesis
  proof (cases "state (tasks s i) = STOPPED")
    case True
    with f [of zero_task] m [of zero_task] show ?thesis
      by (simp add: reap_run_def upd_task_def l del: fun_upd_apply cong: if_cong)
  next
    case False
    with f [of "tasks s i"] show ?thesis by (simp add: reap_run_def l cong: if_cong)
  qed
qed

lemma slot_loop_spec:
  assumes "i \<le> MAX_NUM_PROCESSES"
  shows "\<exists>k. i \<le> k \<and> k \<le> MAX_NUM_PROCESSES \<and> (\<forall>j. i \<le> j \<and> j < k \<longrightarrow> task_in_use (tasks s j)) \<and>
    (k < MAX_NUM_PROCESSES \<longrightarrow> \<not> task_in_use (tasks s k)) \<and>
    slot_loop i s = (if k < MAX_NUM_PROCESSES then (Task k, claim_slot k (reap_run i k s))
                     else (NoTask, reap_run i k s))"
  using assms
proof (induction i s rule: slot_loop.induct)
  case (1 i s)
  show ?case
  proof (cases "i < MAX_NUM_PROCESSES \<and> task_in_use (tasks s i)")
    case False
    then show ?thesis
      using "1.prems" by (intro exI [of _ i]) (auto simp: slot_loop.simps [of i])
  next
    case True
    define s1 where "s1 = (if state (tasks s i) = STOPPED
      then upd_task (Task i) (\<lambda>_. zero_task) (s\<lparr>tlb_flushes := tlb_flushes s @ [pid (tasks s i)]\<rparr>) else s)"
    have run: "slot_loop i s = slot_loop (i + 1) s1"
      using True by (simp add: slot_loop.simps [of i] s1_def)
    have use: "tasks s1 j = tasks s j" if "j \<noteq> i" for j using that by (simp add: s1_def upd_task_def)
    obtain k where k: "i + 1 \<le> k" "k \<le> MAX_NUM_PROCESSES"
      "\<forall>j. i + 1 \<le> j \<and> j < k \<longrightarrow> task_in_use (tasks s1 j)"
      "k < MAX_NUM_PROCESSES \<longrightarrow> \<not> task_in_use (tasks s1 k)"
      "slot_loop (i + 1) s1 = (if k < MAX_NUM_PROCESSES then (Task k, claim_slot k (reap_run (i + 1) k s1))
                     else (NoTask, reap_run (i + 1) k s1))"
    proof (cases "state (tasks s i) = STOPPED")
      case st: True
      have "\<exists>k. i + 1 \<le> k \<and> k \<le> MAX_NUM_PROCESSES \<and> (\<forall>j. i + 1 \<le> j \<and> j < k \<longrightarrow> task_in_use (tasks s1 j)) \<and>
        (k < MAX_NUM_PROCESSES \<longrightarrow> \<not> task_in_use (tasks s1 k)) \<and>
        slot_loop (i + 1) s1 = (if k < MAX_NUM_PROCESSES then (Task k, claim_slot k (reap_run (i + 1) k s1))
                     else (NoTask, reap_run (i + 1) k s1))"
        unfolding s1_def if_P [OF st] by (rule 1(1)) (use True st in auto)
      then show thesis using that by blast
    next
      case st: False
      have "\<exists>k. i + 1 \<le> k \<and> k \<le> MAX_NUM_PROCESSES \<and> (\<forall>j. i + 1 \<le> j \<and> j < k \<longrightarrow> task_in_use (tasks s1 j)) \<and>
        (k < MAX_NUM_PROCESSES \<longrightarrow> \<not> task_in_use (tasks s1 k)) \<and>
        slot_loop (i + 1) s1 = (if k < MAX_NUM_PROCESSES then (Task k, claim_slot k (reap_run (i + 1) k s1))
                     else (NoTask, reap_run (i + 1) k s1))"
        unfolding s1_def if_not_P [OF st] by (rule 1(2)) (use True st in auto)
      then show thesis using that by blast
    qed
    have "reap_run i k s = reap_run (Suc i) k s1" using k(1) reap_run_step [of i k s] by (simp add: s1_def)
    moreover have "task_in_use (tasks s j)" if "i \<le> j" "j < k" for j
      using that k(3) [rule_format, of j] use [of j] True by (cases "j = i") auto
    ultimately show ?thesis using k use [of k] run by (intro exI [of _ k]) auto
  qed
qed

lemma sched_inv_tasks:
  assumes inv: "sched_inv s" and s': "s' = s\<lparr>tasks := ts, tlb_flushes := fl\<rparr>"
    and ts: "\<And>i. ts i = tasks s i \<or> state (tasks s i) = STOPPED \<and> ts i = zero_task"
    and cur: "state (task_of s (get_current_proc s)) \<noteq> STOPPED"
  shows "sched_inv s'"
proof -
  have al: "alive_here s' t = alive_here s t" for t
  proof (cases t)
    case (Task i)
    then show ?thesis using ts [of i] by (auto simp: alive_here_def s' zero_task_def)
  qed (simp_all add: alive_here_def s')
  have hm: "home s' t = home s t" for t by (simp add: home_def s' split: task_ptr.splits)
  have c: "get_current_proc s' = get_current_proc s" "current_thread_info s' = current_thread_info s"
    by (simp_all add: get_current_proc_def current_thread_info_def s')
  have tk: "task_of s' t = task_of s t" if "alive_here s t" for t
  proof (cases t)
    case (Task i)
    then show ?thesis using that ts [of i] by (auto simp: task_of_def s' alive_here_def)
  qed (simp_all add: task_of_def s')
  have z: "task_in_use (tasks s' i) \<or> tasks s' i = zero_task" if "i < MAX_NUM_PROCESSES" for i
    using that ts [of i] inv by (auto simp: s' sched_inv_def)
  have "task_in_use (tasks s' i)" if "get_current_proc s = Task i" for i
    using that ts [of i] inv cur by (auto simp: s' sched_inv_def task_of_def)
  with z inv show ?thesis
    by (auto simp: sched_inv_def c hm al stacks_apart_def resumable_def tk) (simp_all add: s')
qed

lemma claim_slot_inv:
  assumes inv: "sched_inv s" and i: "i < MAX_NUM_PROCESSES" "\<not> task_in_use (tasks s i)"
  shows "sched_inv (claim_slot i s)"
proof -
  define stk where "stk = proc_kernel_stacks s + of_nat i * KERNEL_STACK_SIZE"
  define s1 where "s1 = upd_task (Task i) (\<lambda>t. t\<lparr>task_in_use := True, pid := int i + 1, stack := stk\<rparr>) s"
  have z: "tasks s i = zero_task" using inv i by (simp add: sched_inv_def)
  have inv1: "sched_inv s1"
    unfolding s1_def using inv
    by (rule sched_inv_upd_task)
      (auto simp: home_def upd_task_def alive_here_def z zero_task_def split: task_ptr.splits)
  have cl: "claim_slot i s = s1\<lparr>thread_info_task := (thread_info_task s1)(stk := Task i)\<rparr>"
    by (simp add: claim_slot_def s1_def stk_def Let_def)
  have hm: "home s1 (Task i) = stk" "valid_task (Task i)"
    using i by (simp_all add: s1_def home_def stk_def valid_task_def)
  have ti: "thread_info_task (claim_slot i s) (home s1 t) = (if t = Task i then Task i else thread_info_task s1 (home s1 t))"
    if "valid_task t" for t
    using inv1 hm that unfolding cl sched_inv_def stacks_apart_def by auto
  have cur: "get_current_proc s1 \<noteq> Task i"
    using inv i(2) by (auto simp: s1_def sched_inv_def)
  have eq: "home (claim_slot i s) t = home s1 t" "alive_here (claim_slot i s) t = alive_here s1 t"
    "task_of (claim_slot i s) t = task_of s1 t" for t
    by (auto simp: cl home_def alive_here_def task_of_def split: task_ptr.splits)
  have ci: "current_thread_info (claim_slot i s) = current_thread_info s1"
    by (simp add: cl current_thread_info_def)
  have c: "get_current_proc (claim_slot i s) = get_current_proc s1"
    using inv1 ti [of "get_current_proc s1"] cur ci
    by (simp add: sched_inv_def get_current_proc_def)
  have "thread_info_task (claim_slot i s) (home s1 t) = t" if "alive_here s1 t" for t
    using that ti [OF alive_valid [OF inv1 that]] inv1 by (simp add: sched_inv_def)
  then show ?thesis
    using inv1 by (auto simp: sched_inv_def eq ci c stacks_apart_def resumable_def) (simp_all add: cl)
qed

lemma get_task_slot_run:
  assumes inv: "sched_inv s" and cur: "state (task_of s (get_current_proc s)) \<noteq> STOPPED"
  obtains k where "k \<le> MAX_NUM_PROCESSES" "\<forall>j < k. task_in_use (tasks s j)"
    "k < MAX_NUM_PROCESSES \<Longrightarrow> \<not> task_in_use (tasks s k)"
    "get_task_slot s = Some (if k < MAX_NUM_PROCESSES then (Task k, claim_slot k (reap_run 0 k s))
       else (NoTask, reap_run 0 k s))"
    "sched_inv (reap_run 0 k s)" "k < MAX_NUM_PROCESSES \<Longrightarrow> sched_inv (claim_slot k (reap_run 0 k s))"
proof -
  obtain k where k: "k \<le> MAX_NUM_PROCESSES" "\<forall>j. 0 \<le> j \<and> j < k \<longrightarrow> task_in_use (tasks s j)"
    "k < MAX_NUM_PROCESSES \<longrightarrow> \<not> task_in_use (tasks s k)"
    "slot_loop 0 s = (if k < MAX_NUM_PROCESSES then (Task k, claim_slot k (reap_run 0 k s))
       else (NoTask, reap_run 0 k s))"
    using slot_loop_spec [of 0 s] by auto
  have inv1: "sched_inv (reap_run 0 k s)"
    by (rule sched_inv_tasks [OF inv reap_run_def _ cur]) auto
  have "daif (reap_run 0 k s) = daif s" "tasks_lock (reap_run 0 k s) = tasks_lock s"
    by (simp_all add: reap_run_def)
  then have "get_task_slot s = Some (if k < MAX_NUM_PROCESSES then (Task k, claim_slot k (reap_run 0 k s))
       else (NoTask, reap_run 0 k s))"
    by (auto simp: get_task_slot_def locked_tasks [OF inv] k(4) claim_slot_def Let_def upd_task_def)
  moreover have "sched_inv (claim_slot k (reap_run 0 k s))" if "k < MAX_NUM_PROCESSES"
    using that k(3) by (intro claim_slot_inv [OF inv1]) (auto simp: reap_run_def)
  ultimately show thesis using that [of k] k inv1 by auto
qed

lemma set_task_state_run:
  assumes "sched_inv s" "t \<noteq> NoTask" "st \<noteq> NUM_PROC_STATES"
  shows "set_task_state t st s = Some (upd_task t (\<lambda>t. t\<lparr>state := st\<rparr>) s)"
  using assms(2,3) by (simp add: set_task_state_def locked_tasks [OF assms(1)])

lemma set_task_state_inv:
  assumes inv: "sched_inv s" and t: "alive_here s t" and st: "st \<noteq> NUM_PROC_STATES"
  shows "sched_inv (upd_task t (\<lambda>t. t\<lparr>state := st\<rparr>) s)"
  by (rule sched_inv_upd_task [OF inv])
    (use t in \<open>auto simp: home_def upd_task_def alive_here_def task_of_def split: task_ptr.splits\<close>)

section \<open>A running system\<close>

text \<open>
  A CPU 0 that runs its swapper after \<^verbatim>\<open>init_sched\<close>, with an empty task table and the
  kernel heap just initialised.
\<close>

definition boot_sched :: "kheap \<Rightarrow> sched" where
  "boot_sched h = init_sched
     \<lparr>core_id = 0, daif = 0, cpu_regs = zero_context\<lparr>ctx_sp := 0xFFFFFFC040100FF0\<rparr>, ttbr0 = (0, 0),
      tlb_flushes = [], tasks_lock = \<lparr>data0 = 1, data1 = 0\<rparr>, tasks = (\<lambda>_. zero_task),
      swapper_task_struct = (\<lambda>_. zero_task\<lparr>stack := 0xFFFFFFC040100000\<rparr>),
      proc_kernel_stacks = 0xFFFFFFC040200000, thread_info_task = (\<lambda>_. NoTask),
      stack_words = (\<lambda>_. 0), kernel_heap = h\<rparr>"

lemma boot_fields:
  "core_id (boot_sched h) = 0" "daif (boot_sched h) = 0" "data0 (tasks_lock (boot_sched h)) = 0"
  "tasks (boot_sched h) = (\<lambda>_. zero_task)" "proc_kernel_stacks (boot_sched h) = 0xFFFFFFC040200000"
  "ctx_sp (cpu_regs (boot_sched h)) = 0xFFFFFFC040100FF0" "kernel_heap (boot_sched h) = h"
  "thread_info_task (boot_sched h) 0xFFFFFFC040100000 = Swapper 0"
  "stack (swapper_task_struct (boot_sched h) 0) = 0xFFFFFFC040100000"
  "stack (swapper_task_struct (boot_sched h) (Suc 0)) = 0xFFFFFFC040101000"
  "state (swapper_task_struct (boot_sched h) 0) = RUNNING"
  by (simp_all add: boot_sched_def init_sched_def init_swapper_def upd_task_def NUM_CPUS_def upt_rec
      spin_lock_init_def PAGE_SIZE_def zero_task_def Let_def)

lemma page_of_div: "unat (page_of a) = unat a div 4096 * 4096"
  unfolding page_of_def KERNEL_STACK_SIZE_def using unat_PAGE_ADDR [of a] by (simp add: PAGE_ADDR_def PAGE_SIZE_def)

lemma boot_home:
  assumes "valid_task t"
  shows "home (boot_sched h) t = (case t of NoTask \<Rightarrow> 0 | Task i \<Rightarrow> wd (0xFFFFFFC040200000 + i * 4096)
    | Swapper i \<Rightarrow> wd (0xFFFFFFC040100000 + i * 4096))"
proof (cases t)
  case (Swapper i)
  then have "i = 0 \<or> i = 1" using assms by (auto simp: valid_task_def NUM_CPUS_def)
  then show ?thesis using Swapper by (auto simp: home_def boot_fields wd_def)
qed (simp_all add: home_def boot_fields KERNEL_STACK_SIZE_def wd_def)

lemma boot_stacks: "stacks_apart (boot_sched h)"
  unfolding stacks_apart_def
proof (intro conjI allI impI)
  fix t assume t: "valid_task t"
  show "page_of (home (boot_sched h) t) = home (boot_sched h) t"
    using t by (intro word_unat_eq_iff [THEN iffD2])
      (auto simp: page_of_div boot_home valid_task_def MAX_NUM_PROCESSES_def NUM_CPUS_def unat_wd
        split: task_ptr.splits)
next
  fix t u
  assume "valid_task t \<and> valid_task u \<and> home (boot_sched h) t = home (boot_sched h) u"
  then show "t = u"
    by (auto simp: boot_home valid_task_def MAX_NUM_PROCESSES_def NUM_CPUS_def wd_eq_iff
        split: task_ptr.splits)
qed

lemma boot_inv: "sched_inv (boot_sched h)"
proof -
  have ci: "current_thread_info (boot_sched h) = 0xFFFFFFC040100000"
    by (simp add: current_thread_info_def boot_fields KERNEL_STACK_SIZE_def)
  have cur: "get_current_proc (boot_sched h) = Swapper 0"
    by (simp add: get_current_proc_def ci boot_fields)
  have al: "t = Swapper 0" if "alive_here (boot_sched h) t" for t
    using that by (auto simp: alive_here_def boot_fields zero_task_def split: task_ptr.splits)
  have "thread_info_task (boot_sched h) (home (boot_sched h) t) = t \<and>
      (t \<noteq> Swapper 0 \<longrightarrow> resumable (boot_sched h) t)" if "alive_here (boot_sched h) t" for t
    using al [OF that] by (simp add: home_def boot_fields)
  moreover have "home (boot_sched h) (Swapper 0) = 0xFFFFFFC040100000" by (simp add: home_def boot_fields)
  ultimately show ?thesis
    using boot_stacks by (simp add: sched_inv_def boot_fields daif_wf_def NUM_CPUS_def cur ci valid_task_def)
qed

section \<open>Properties\<close>



text \<open>C7. \<^verbatim>\<open>schedule\<close> always comes back in the chosen task: the registers of the previous task are
  saved in it, those of the chosen one are loaded, the page table base is switched to its
  page directory if it has one, and the current task found through the stack pointer is the
  chosen one; the invariant is kept.\<close>

theorem schedule_switches:
  assumes "sched_inv s"
  shows "\<exists>s'. schedule s = Some s' \<and> sched_inv s' \<and> get_current_proc s' = next_task s \<and>
    (get_current_proc s \<noteq> next_task s \<longrightarrow>
       cpu_context (task_of s' (get_current_proc s)) = cpu_regs s \<and>
       cpu_regs s' = cpu_context (task_of s (next_task s)) \<and>
       (pg_dir (task_of s (next_task s)) \<noteq> NULL \<longrightarrow>
          ttbr0 s' = (pa (pg_dir (task_of s (next_task s))), pid (task_of s (next_task s)))))"
  using assms by (rule schedule_run)

theorem schedule_switches_witness:
  "\<exists>s'. schedule (boot_sched (kheap_start (\<lambda>_. 0))) = Some s' \<and> sched_inv s'"
  using schedule_switches [OF boot_inv [of "kheap_start (\<lambda>_. 0)"]] by blast

text \<open>\<^verbatim>\<open>get_task_slot\<close> gives out the lowest slot that is not in use: the slot gets its pid,
  its kernel stack and the thread info that names it; stopped tasks below it are cleared and
  their address space identifier is flushed; all other tasks stay as they are. It fails exactly when
  every slot is in use at the call, even when it has just cleared a stopped one.\<close>

theorem get_task_slot_first_free:
  assumes "sched_inv s" "state (task_of s (get_current_proc s)) \<noteq> STOPPED"
  shows "\<exists>t s'. get_task_slot s = Some (t, s') \<and> sched_inv s' \<and>
    (t = NoTask \<longleftrightarrow> (\<forall>j < MAX_NUM_PROCESSES. task_in_use (tasks s j))) \<and>
    (t \<noteq> NoTask \<longrightarrow> (\<exists>k. t = Task k)) \<and>
    (\<forall>k. t = Task k \<longrightarrow> k < MAX_NUM_PROCESSES \<and> \<not> task_in_use (tasks s k) \<and>
       (\<forall>j < k. task_in_use (tasks s j)) \<and> task_in_use (tasks s' k) \<and> pid (tasks s' k) = int k + 1 \<and>
       pid_to_task (pid (tasks s' k)) = t \<and>
       stack (tasks s' k) = home s t \<and> thread_info_task s' (home s t) = t) \<and>
    (\<forall>j < MAX_NUM_PROCESSES. t \<noteq> Task j \<longrightarrow>
       tasks s' j = tasks s j \<or> state (tasks s j) = STOPPED \<and> tasks s' j = zero_task)"
proof -
  obtain k where k: "k \<le> MAX_NUM_PROCESSES" "\<forall>j < k. task_in_use (tasks s j)"
    "k < MAX_NUM_PROCESSES \<Longrightarrow> \<not> task_in_use (tasks s k)"
    "get_task_slot s = Some (if k < MAX_NUM_PROCESSES then (Task k, claim_slot k (reap_run 0 k s))
       else (NoTask, reap_run 0 k s))"
    "sched_inv (reap_run 0 k s)" "k < MAX_NUM_PROCESSES \<Longrightarrow> sched_inv (claim_slot k (reap_run 0 k s))"
    using get_task_slot_run [OF assms] by metis
  show ?thesis
  proof (cases "k < MAX_NUM_PROCESSES")
    case True
    then show ?thesis
      using k by (auto simp: claim_slot_def Let_def upd_task_def reap_run_def home_def pid_to_task_def)
  next
    case False
    then show ?thesis using k by (auto simp: reap_run_def)
  qed
qed

theorem get_task_slot_first_free_witness:
  "\<exists>s'. get_task_slot (boot_sched (kheap_start (\<lambda>_. 0))) = Some (Task 0, s') \<and> pid (tasks s' 0) = 1"
proof -
  let ?s = "boot_sched (kheap_start (\<lambda>_. 0))"
  have cur: "get_current_proc ?s = Swapper 0"
    by (simp add: get_current_proc_def current_thread_info_def boot_fields KERNEL_STACK_SIZE_def)
  have "state (task_of ?s (get_current_proc ?s)) \<noteq> STOPPED" by (simp add: cur task_of_def boot_fields)
  from get_task_slot_first_free [OF boot_inv this]
  obtain t s' where r: "get_task_slot ?s = Some (t, s')" "sched_inv s'"
    "t = NoTask \<longleftrightarrow> (\<forall>j < MAX_NUM_PROCESSES. task_in_use (tasks ?s j))"
    "\<forall>k. t = Task k \<longrightarrow> k < MAX_NUM_PROCESSES \<and> \<not> task_in_use (tasks ?s k) \<and>
       (\<forall>j < k. task_in_use (tasks ?s j)) \<and> task_in_use (tasks s' k) \<and> pid (tasks s' k) = int k + 1"
    "t \<noteq> NoTask \<longrightarrow> (\<exists>k. t = Task k)"
    by blast
  have "\<not> task_in_use (tasks ?s 0)" "0 < MAX_NUM_PROCESSES"
    by (simp_all add: boot_fields zero_task_def MAX_NUM_PROCESSES_def)
  then have "t \<noteq> NoTask" using r(3) by blast
  then obtain k where k: "t = Task k" using r(5) by blast
  then have "k = 0" using r(4) by (auto simp: boot_fields zero_task_def)
  with k r(1,4) show ?thesis by auto
qed

end
