(* ===== verification/Kthread.thy ===== *)
theory Kthread
  imports Sched_Inv
begin

text \<open>
  Creating kernel threads: \<^verbatim>\<open>kernel_thread\<close> of \<^verbatim>\<open>kernel/sched.c\<close> takes a task slot and a
  memory descriptor from the kernel heap, and prepares a stack from which the first switch to
  the task starts the thread function.
\<close>

lemma page_of_top:
  assumes "page_of h = h"
  shows "page_of (h + KERNEL_STACK_SIZE - 16) = h"
proof -
  define q where "q = unat h div 4096"
  have u: "unat h = q * 4096" using page_of_div [of h] assms by (simp add: q_def)
  have "q * 4096 < 4096 * 4503599627370496" using unat_lt_64 [of h] u by simp
  then have q: "q < 4503599627370496" by simp
  have "h + KERNEL_STACK_SIZE - 16 = wd (q * 4096 + 4080)"
    using u wd_unat [of h] by (simp add: KERNEL_STACK_SIZE_def wd_add_numeral [symmetric])
  moreover have "unat (wd (q * 4096 + 4080)) = q * 4096 + 4080" using q by (intro unat_wd) simp
  moreover have "(q * 4096 + 4080) div 4096 = q" by simp
  ultimately have "unat (page_of (h + KERNEL_STACK_SIZE - 16)) = unat h"
    unfolding page_of_div u by simp
  then show ?thesis by (simp add: word_unat_eq_iff)
qed

lemma home_upd_Task [simp]: "home (upd_task (Task k) f s) t = home s t"
  by (simp add: home_def upd_task_def split: task_ptr.splits)

text \<open>An update of a slot that is in use but not alive yet.\<close>

lemma sched_inv_setup:
  assumes "sched_inv s" "\<And>t. state (f t) = state t" "\<And>t. task_in_use (f t) = task_in_use t"
    "task_in_use (tasks s k)" "state (tasks s k) = INITIALIZING"
  shows "sched_inv (upd_task (Task k) f s)"
proof (rule sched_inv_upd_task [OF assms(1) home_upd_Task])
  assume "alive_here (upd_task (Task k) f s) (Task k)"
  then show "alive_here s (Task k) \<and> (Task k \<noteq> get_current_proc s \<longrightarrow>
      ctx_sp (cpu_context (f (task_of s (Task k)))) = ctx_sp (cpu_context (task_of s (Task k))))"
    using assms(2-) by (simp add: alive_here_def upd_task_def)
qed (use assms(3,4) in auto)

lemma sched_inv_start:
  assumes inv: "sched_inv s" and k: "k < MAX_NUM_PROCESSES" "task_in_use (tasks s k)"
    "get_current_proc s \<noteq> Task k" "thread_info_task s (home s (Task k)) = Task k"
    and f: "page_of (ctx_sp (cpu_context (f (tasks s k)))) = home s (Task k)" "task_in_use (f (tasks s k))"
  shows "sched_inv (upd_task (Task k) f s)"
proof -
  let ?s = "upd_task (Task k) f s"
  have other: "alive_here ?s t = alive_here s t \<and> (t \<noteq> NoTask \<longrightarrow> task_of ?s t = task_of s t)"
    if "t \<noteq> Task k" for t
    using that by (cases t) (auto simp: alive_here_def upd_task_def task_of_def)
  have "resumable ?s (Task k)" using f(1) by (simp add: resumable_def task_of_def upd_task_def home_def)
  moreover have "resumable ?s t" if "alive_here ?s t" "t \<noteq> Task k" "t \<noteq> get_current_proc s" for t
    using that other [OF that(2)] inv by (auto simp: sched_inv_def resumable_def alive_here_def)
  moreover have "thread_info_task s (home s t) = t" if "alive_here ?s t" for t
    using that other [of t] inv k(4) by (cases "t = Task k") (auto simp: sched_inv_def)
  moreover have "task_in_use (tasks ?s i) \<or> tasks ?s i = zero_task" if "i < MAX_NUM_PROCESSES" for i
    using that inv f(2) by (auto simp: sched_inv_def upd_task_def)
  moreover have "task_in_use (tasks ?s i)" if "get_current_proc s = Task i" for i
    using that inv f(2) by (auto simp: sched_inv_def upd_task_def)
  ultimately show ?thesis using inv k(3) by (auto simp: sched_inv_def stacks_apart_def)
qed

lemma free_task_slot_run:
  assumes "sched_inv s" "t \<noteq> NoTask"
  shows "free_task_slot t s = Some (upd_task t (\<lambda>_. zero_task) s)"
  using assms(2) by (simp add: free_task_slot_def locked_tasks [OF assms(1)])

lemma kzalloc_mm:
  assumes "kheap_inv h"
  shows "\<exists>m h'. kzalloc h sizeof_mm_struct = Some (m, h') \<and> kheap_inv h' \<and>
    (m \<noteq> NULL \<longrightarrow> (unat m, 24) \<in> allocs h' \<and> mem_zero_on (unat m) (unat m + 24) (hmem h'))"
proof -
  have u: "unat sizeof_mm_struct + 7 < 2 ^ 64" "unat sizeof_mm_struct = 24" by (simp_all add: sizeof_mm_struct_def)
  from kheap.alloc_law [OF assms u(1)] show ?thesis
    unfolding kzalloc_eq_kmalloc [OF assms u(1)] u(2) by (auto split: if_splits)
qed

definition thread_ready :: "u64 \<Rightarrow> u64 \<Rightarrow> u64 \<Rightarrow> nat \<Rightarrow> sched \<Rightarrow> bool" where
  "thread_ready ctf f args k s \<longleftrightarrow>
    is_task_ready (tasks s k) \<and> pid (tasks s k) = int k + 1 \<and>
    ctx_pc (cpu_context (tasks s k)) = ctf \<and> resumable s (Task k) \<and>
    stack_words s (ctx_sp (cpu_context (tasks s k)) + 8) = f \<and>
    stack_words s (ctx_sp (cpu_context (tasks s k))) = args \<and>
    (unat (mm (tasks s k)), 24) \<in> allocs (kernel_heap s)"

lemma kernel_thread_slot:
  assumes inv: "sched_inv s" and heap: "kheap_inv (kernel_heap s)" and f: "f \<noteq> NULL"
    and slot: "get_task_slot s = Some (Task k, s1)" "sched_inv s1" "kernel_heap s1 = kernel_heap s"
      "k < MAX_NUM_PROCESSES" "task_in_use (tasks s1 k)" "state (tasks s1 k) = INITIALIZING"
      "pid (tasks s1 k) = int k + 1" "stack (tasks s1 k) = home s1 (Task k)"
      "thread_info_task s1 (home s1 (Task k)) = Task k" "get_current_proc s1 \<noteq> Task k"
  shows "\<exists>r s'. kernel_thread ctf (Some name) f args s = Some (r, s') \<and> sched_inv s' \<and>
    kheap_inv (kernel_heap s') \<and> (r = -1 \<or> r = 0 \<and> thread_ready ctf f args k s')"
proof -
  define g :: "task_struct \<Rightarrow> task_struct" where "g = (\<lambda>t. t\<lparr>cpu_context := (cpu_context t)\<lparr>ctx_fp := 0, ctx_pc := ctf\<rparr>,
                             comm := copy_comm name (comm t)\<rparr>)"
  define s2 where "s2 = upd_task (Task k) g s1"
  have s2: "sched_inv s2" "kernel_heap s2 = kernel_heap s"
    using slot(2,3,5,6) by (auto simp: s2_def g_def intro!: sched_inv_setup)
  obtain m h' where m: "kzalloc (kernel_heap s) sizeof_mm_struct = Some (m, h')" "kheap_inv h'"
    "m \<noteq> NULL \<longrightarrow> (unat m, 24) \<in> allocs h'"
    using kzalloc_mm [OF heap] by blast
  define s3 where "s3 = s2\<lparr>kernel_heap := h'\<rparr>"
  have inv3: "sched_inv s3"
    by (rule sched_inv_cong [OF s2(1)]) (use s2(1) in \<open>auto simp: s3_def sched_inv_def\<close>)
  have t3: "tasks s3 k = g (tasks s1 k)" "thread_info_task s3 = thread_info_task s1"
    "home s3 t = home s1 t" "get_current_proc s3 = get_current_proc s1" for t
    by (simp_all add: s3_def s2_def upd_task_def home_def get_current_proc_def current_thread_info_def
        split: task_ptr.splits)
  show ?thesis
  proof (cases "m = NULL")
    case True
    have "sched_inv (upd_task (Task k) (\<lambda>_. zero_task) s3)"
      by (rule sched_inv_upd_task [OF inv3 home_upd_Task])
        (use slot(10) t3(4) in \<open>auto simp: alive_here_def upd_task_def zero_task_def\<close>)
    moreover have "kernel_thread ctf (Some name) f args s = Some (-1, upd_task (Task k) (\<lambda>_. zero_task) s3)"
      using f slot(1) m(1) True s2(2) free_task_slot_run [OF inv3, of "Task k"]
      by (simp add: kernel_thread_def Let_def s3_def s2_def g_def)
    ultimately show ?thesis using m(2) by (auto simp: s3_def)
  next
    case False
    define sp where "sp = stack (tasks s1 k) + KERNEL_STACK_SIZE"
    define s4 where "s4 = upd_task (Task k) (\<lambda>t. t\<lparr>mm := m\<rparr>) s3"
    define s5 where "s5 = s4\<lparr>stack_words := (stack_words s4)(sp - 8 := f, sp - 16 := args)\<rparr>"
    define e :: "task_struct \<Rightarrow> task_struct" where "e = (\<lambda>t. t\<lparr>cpu_context := (cpu_context t)\<lparr>ctx_sp := sp - 16\<rparr>, state := RUNNING\<rparr>)"
    have inv4: "sched_inv s4"
      unfolding s4_def using inv3 slot(5,6) by (intro sched_inv_setup) (auto simp: t3 g_def)
    have inv5: "sched_inv s5"
      by (rule sched_inv_cong [OF inv4]) (use inv4 in \<open>auto simp: s5_def sched_inv_def\<close>)
    have k5: "tasks s5 k = (g (tasks s1 k))\<lparr>mm := m\<rparr>" "thread_info_task s5 = thread_info_task s1"
      "home s5 t = home s1 t" "get_current_proc s5 = get_current_proc s1" "kernel_heap s5 = h'" for t
      by (simp_all add: s5_def s4_def upd_task_def t3 home_def get_current_proc_def current_thread_info_def
          s3_def split: task_ptr.splits) (simp_all add: s2_def upd_task_def)
    have al: "page_of (home s1 (Task k)) = home s1 (Task k)"
      using slot(2,4) by (auto simp: sched_inv_def stacks_apart_def valid_task_def)
    have pg: "page_of (sp - 16) = home s1 (Task k)"
      unfolding sp_def slot(8) using page_of_top [OF al] .
    have "sched_inv (upd_task (Task k) e s5)"
      by (rule sched_inv_start [OF inv5 slot(4)])
        (use slot(5,9,10) pg in \<open>simp_all add: k5 g_def e_def\<close>)
    moreover have "kernel_thread ctf (Some name) f args s = Some (0, upd_task (Task k) e s5)"
      using f slot(1) m(1) False s2(2)
      by (simp add: kernel_thread_def Let_def s5_def s4_def s3_def s2_def g_def e_def sp_def task_of_def upd_task_def)
    moreover have "thread_ready ctf f args k (upd_task (Task k) e s5)"
      using slot(5,7) m(3) False pg
      by (simp add: thread_ready_def is_task_ready_def upd_task_def e_def k5 g_def resumable_def task_of_def
          home_def) (simp add: s5_def s4_def s3_def s2_def)
    ultimately show ?thesis using m(2) by (auto simp: k5)
  qed
qed



end
