(* ===== verification/Mutex.thy ===== *)
theory Mutex
  imports Sched_Inv
begin

text \<open>
  The sleeping lock of \<^verbatim>\<open>kernel/mutex.c\<close>. \<open>mutex_lock_iter\<close> is one round of the loop of
  \<^verbatim>\<open>mutex_lock\<close>, up to and including the call of \<^verbatim>\<open>schedule\<close> when the mutex is taken: the
  round after that runs when the task is scheduled again. The rounds of several tasks
  interleave in the step relation \<open>mutex_step\<close>; each round and each unlock runs under the
  spin lock of the mutex, so they are atomic there.
\<close>

unbundle bit_operations_syntax

section \<open>Definitions\<close>

datatype mutex_state = MUTEX_UNLOCKED | MUTEX_LOCKED

record mutex_t =
  mutex_spin :: spinlock
  mutex_st :: mutex_state
  waiting :: u32

definition init_mutex :: "mutex_t option \<Rightarrow> mutex_t option" where
  "init_mutex p = map_option
    (\<lambda>m. m\<lparr>mutex_spin := the (spin_lock_init (Some (mutex_spin m))), mutex_st := MUTEX_UNLOCKED,
           waiting := 0\<rparr>) p"

text \<open>The bitmap is 32 bits wide; the shifted bit is computed with 64 bits and cut off.\<close>

definition waiting_bit :: "nat \<Rightarrow> u32" where
  "waiting_bit p = ucast (push_bit p (1 :: u64))"

text \<open>The part of a locking round that works on the mutex: acquire, or note the task as waiting.\<close>

definition mutex_attempt :: "nat \<Rightarrow> mutex_t \<Rightarrow> bool \<times> mutex_t" where
  "mutex_attempt p m =
    (if mutex_st m = MUTEX_UNLOCKED then (True, m\<lparr>mutex_st := MUTEX_LOCKED\<rparr>)
     else (False, m\<lparr>waiting := waiting m OR waiting_bit p\<rparr>))"

definition mutex_lock_iter :: "mutex_t option \<Rightarrow> sched \<Rightarrow> (bool \<times> mutex_t option \<times> sched) option" where
  "mutex_lock_iter p s =
    (case p of None \<Rightarrow> Some (True, p, s)
     | Some m \<Rightarrow> do {
         l \<leftarrow> spin_lock (Some (mutex_spin m));
         let m = m\<lparr>mutex_spin := the l\<rparr>;
         let current = get_current_proc s;
         let (acquired, m) = mutex_attempt (nat (pid (task_of s current))) m;
         if acquired then do {
           l \<leftarrow> spin_unlock (Some (mutex_spin m));
           Some (True, Some (m\<lparr>mutex_spin := the l\<rparr>), s) }
         else do {
           s \<leftarrow> set_task_state current SLEEPING s;
           l \<leftarrow> spin_unlock (Some (mutex_spin m));
           s \<leftarrow> schedule s;
           Some (False, Some (m\<lparr>mutex_spin := the l\<rparr>), s) } })"

function waiting_loop :: "mutex_t \<Rightarrow> nat \<Rightarrow> int" where
  "waiting_loop m i =
    (if i < 32 then
       (if (ucast (waiting m) :: u64) AND push_bit i 1 \<noteq> 0 then int i else waiting_loop m (i + 1))
     else -1)"
  by pat_completeness auto
termination
  by (relation "measure (\<lambda>(m, i). 32 - i)") auto

declare waiting_loop.simps [simp del]

definition get_next_waiting :: "mutex_t \<Rightarrow> int" where
  "get_next_waiting m = waiting_loop m 0"

text \<open>The part of \<^verbatim>\<open>mutex_unlock\<close> that works on the mutex: the task to wake, or none.\<close>

definition mutex_release :: "mutex_t \<Rightarrow> int \<times> mutex_t" where
  "mutex_release m =
    (let m = m\<lparr>mutex_st := MUTEX_UNLOCKED\<rparr>; p = get_next_waiting m
     in if 0 < p then (p, m\<lparr>waiting := waiting m AND NOT (waiting_bit (nat p))\<rparr>) else (p, m))"

definition mutex_unlock :: "mutex_t option \<Rightarrow> sched \<Rightarrow> (mutex_t option \<times> sched) option" where
  "mutex_unlock p s =
    (case p of None \<Rightarrow> Some (p, s)
     | Some m \<Rightarrow> do {
         l \<leftarrow> spin_lock (Some (mutex_spin m));
         let (w, m) = mutex_release (m\<lparr>mutex_spin := the l\<rparr>);
         s \<leftarrow> (if 0 < w then set_task_state (pid_to_task w) RUNNING s else Some s);
         l \<leftarrow> spin_unlock (Some (mutex_spin m));
         Some (Some (m\<lparr>mutex_spin := the l\<rparr>), s) })"

section \<open>The waiting bitmap\<close>

lemma bit_waiting_bit: "bit (waiting_bit p) n \<longleftrightarrow> n = p \<and> p < 32"
  unfolding waiting_bit_def by (auto simp: bit_simps)

lemma waiting_test:
  "(ucast (w :: u32) :: u64) AND push_bit i 1 \<noteq> 0 \<longleftrightarrow> bit w i"
proof
  assume "bit w i"
  then have "bit ((ucast w :: u64) AND push_bit i 1) i"
    by (auto simp: bit_simps dest: bit_imp_le_length)
  then show "(ucast w :: u64) AND push_bit i 1 \<noteq> 0" by (metis bit_0_eq bot_apply bot_bool_def)
next
  assume "(ucast w :: u64) AND push_bit i 1 \<noteq> 0"
  then obtain n where "bit ((ucast w :: u64) AND push_bit i 1) n" by (auto simp: bit_eq_iff)
  then show "bit w i" by (auto simp: bit_simps)
qed

lemma waiting_test_exp: "(ucast (w :: u32) :: u64) AND 2 ^ i = 0 \<longleftrightarrow> \<not> bit w i"
  using waiting_test [of w i] unfolding push_bit_of_1 by blast

lemma waiting_loop_spec:
  "case waiting_loop m i of r \<Rightarrow>
    (r = -1 \<and> (\<forall>j. i \<le> j \<longrightarrow> \<not> bit (waiting m) j) \<or>
     (\<exists>k. r = int k \<and> i \<le> k \<and> k < 32 \<and> bit (waiting m) k \<and> (\<forall>j. i \<le> j \<and> j < k \<longrightarrow> \<not> bit (waiting m) j)))"
proof (induction m i rule: waiting_loop.induct)
  case (1 m i)
  have top: "bit (waiting m) j \<Longrightarrow> j < 32" for j using bit_imp_le_length [of "waiting m" j] by simp
  show ?case
  proof (cases "i < 32 \<and> \<not> bit (waiting m) i")
    case True
    with 1 have "waiting_loop m (i + 1) = -1 \<and> (\<forall>j. i + 1 \<le> j \<longrightarrow> \<not> bit (waiting m) j) \<or>
       (\<exists>k. waiting_loop m (i + 1) = int k \<and> i + 1 \<le> k \<and> k < 32 \<and> bit (waiting m) k \<and>
          (\<forall>j. i + 1 \<le> j \<and> j < k \<longrightarrow> \<not> bit (waiting m) j))"
      by (simp add: waiting_test_exp)
    moreover have "waiting_loop m i = waiting_loop m (i + 1)"
      using True by (simp add: waiting_loop.simps [of m i] waiting_test_exp)
    ultimately show ?thesis using True
      by (metis Suc_eq_plus1 Suc_leD Suc_leI le_neq_implies_less)
  next
    case False
    then show ?thesis using top by (auto simp: waiting_loop.simps [of m i] waiting_test_exp) (metis le_trans not_less)
  qed
qed

lemma get_next_waiting_cases:
  obtains (none) "get_next_waiting m = -1" "waiting m = 0"
  | (some) k where "get_next_waiting m = int k" "k < 32" "bit (waiting m) k" "\<forall>j < k. \<not> bit (waiting m) j"
proof -
  have "get_next_waiting m = -1 \<and> (\<forall>j. \<not> bit (waiting m) j) \<or>
     (\<exists>k. get_next_waiting m = int k \<and> k < 32 \<and> bit (waiting m) k \<and> (\<forall>j < k. \<not> bit (waiting m) j))"
    using waiting_loop_spec [of m 0] by (simp add: get_next_waiting_def)
  moreover have "waiting m = 0" if "\<forall>j. \<not> bit (waiting m) j"
    by (rule bit_word_eqI) (use that in simp)
  ultimately show thesis using none some by blast
qed

section \<open>Several tasks\<close>

text \<open>
  Where each process is: not using the mutex, about to run a locking round, asleep in
  \<^verbatim>\<open>mutex_lock\<close>, or between \<^verbatim>\<open>mutex_lock\<close> and \<^verbatim>\<open>mutex_unlock\<close>. Setting a process to
  \<^verbatim>\<open>RUNNING\<close> makes a sleeping one run its next round.
\<close>

datatype phase = Idle | Trying | Asleep | Owner

record msys =
  mtx :: mutex_t
  phase_of :: "nat \<Rightarrow> phase"

definition wake :: "int \<Rightarrow> (nat \<Rightarrow> phase) \<Rightarrow> nat \<Rightarrow> phase" where
  "wake w ph = (if 0 < w \<and> ph (nat w) = Asleep then ph(nat w := Trying) else ph)"

inductive mutex_step :: "msys \<Rightarrow> msys \<Rightarrow> bool" where
  call: "phase_of s p = Idle \<Longrightarrow> 1 \<le> p \<Longrightarrow> p \<le> MAX_NUM_PROCESSES \<Longrightarrow>
    mutex_step s (s\<lparr>phase_of := (phase_of s)(p := Trying)\<rparr>)"
| acquire: "phase_of s p = Trying \<Longrightarrow> mutex_attempt p (mtx s) = (True, m) \<Longrightarrow>
    mutex_step s \<lparr>mtx = m, phase_of = (phase_of s)(p := Owner)\<rparr>"
| block: "phase_of s p = Trying \<Longrightarrow> mutex_attempt p (mtx s) = (False, m) \<Longrightarrow>
    mutex_step s \<lparr>mtx = m, phase_of = (phase_of s)(p := Asleep)\<rparr>"
| release: "phase_of s p = Owner \<Longrightarrow> mutex_release (mtx s) = (w, m) \<Longrightarrow>
    mutex_step s \<lparr>mtx = m, phase_of = wake w ((phase_of s)(p := Idle))\<rparr>"

abbreviation mutex_steps :: "msys \<Rightarrow> msys \<Rightarrow> bool" where
  "mutex_steps \<equiv> mutex_step\<^sup>*\<^sup>*"

inductive_cases mutex_stepE: "mutex_step s s'"

definition msys_init :: msys where
  "msys_init = \<lparr>mtx = \<lparr>mutex_spin = \<lparr>data0 = 0, data1 = 0\<rparr>, mutex_st = MUTEX_UNLOCKED, waiting = 0\<rparr>,
     phase_of = (\<lambda>_. Idle)\<rparr>"

definition mutex_inv :: "msys \<Rightarrow> bool" where
  "mutex_inv s \<longleftrightarrow>
    (\<forall>p q. phase_of s p = Owner \<and> phase_of s q = Owner \<longrightarrow> p = q) \<and>
    (mutex_st (mtx s) = MUTEX_LOCKED \<longleftrightarrow> (\<exists>p. phase_of s p = Owner)) \<and>
    (\<forall>p < 32. bit (waiting (mtx s)) p \<longleftrightarrow> phase_of s p = Asleep) \<and>
    phase_of s 0 = Idle \<and>
    (mutex_st (mtx s) = MUTEX_UNLOCKED \<and> waiting (mtx s) \<noteq> 0 \<longrightarrow> (\<exists>p. phase_of s p = Trying))"

lemma mutex_inv_init: "mutex_inv msys_init"
  by (simp add: mutex_inv_def msys_init_def)

lemma pid_not_0: "mutex_inv s \<Longrightarrow> phase_of s p \<noteq> Idle \<Longrightarrow> p \<noteq> 0"
  by (metis mutex_inv_def)

lemma release_inv:
  assumes inv: "mutex_inv s" and p: "phase_of s p = Owner" and r: "mutex_release (mtx s) = (w, m)"
  shows "mutex_inv \<lparr>mtx = m, phase_of = wake w ((phase_of s)(p := Idle))\<rparr>"
proof -
  define m0 where "m0 = (mtx s)\<lparr>mutex_st := MUTEX_UNLOCKED\<rparr>"
  have own: "phase_of s q = Owner \<longleftrightarrow> q = p" for q using inv p by (auto simp: mutex_inv_def)
  have w0: "waiting m0 = waiting (mtx s)" by (simp add: m0_def)
  show ?thesis
  proof (cases rule: get_next_waiting_cases [of m0])
    case none
    then have "w = -1" "m = m0" using r by (auto simp: mutex_release_def Let_def m0_def)
    with none inv own p show ?thesis
      by (auto simp: mutex_inv_def wake_def m0_def split: if_splits)
  next
    case (some k)
    have k: "phase_of s k = Asleep" using inv some by (auto simp: mutex_inv_def w0)
    have k0: "k \<noteq> 0" "k \<noteq> p" using k p pid_not_0 [OF inv, of k] by auto
    have e: "w = int k" "m = m0\<lparr>waiting := waiting m0 AND NOT (waiting_bit k)\<rparr>"
      using r some k0 by (auto simp: mutex_release_def Let_def m0_def)
    have ph: "wake w ((phase_of s)(p := Idle)) = ((phase_of s)(p := Idle))(k := Trying)"
      using k k0 by (simp add: wake_def e)
    have b: "bit (waiting m0 AND NOT (waiting_bit k)) q \<longleftrightarrow> bit (waiting (mtx s)) q \<and> q \<noteq> k" if "q < 32" for q
      using that by (auto simp: bit_simps bit_waiting_bit w0)
    have "phase_of s p \<noteq> Asleep" using p by simp
    then show ?thesis
      unfolding ph using inv own k k0 b by (auto simp: mutex_inv_def e m0_def)
  qed
qed

lemma mutex_inv_step:
  assumes "mutex_step s s'" "mutex_inv s"
  shows "mutex_inv s'"
  using assms(1)
proof cases
  case (call p)
  have "(phase_of s' q = Owner) = (phase_of s q = Owner)" "(phase_of s' q = Asleep) = (phase_of s q = Asleep)"
    "phase_of s q = Trying \<Longrightarrow> phase_of s' q = Trying" for q
    using call by auto
  moreover have "mtx s' = mtx s" "phase_of s' 0 = phase_of s 0" using call by auto
  ultimately show ?thesis using assms(2) unfolding mutex_inv_def by simp blast
next
  case (acquire p m)
  then have "mutex_st (mtx s) = MUTEX_UNLOCKED" "m = (mtx s)\<lparr>mutex_st := MUTEX_LOCKED\<rparr>"
    by (auto simp: mutex_attempt_def split: if_splits)
  with acquire assms(2) pid_not_0 [OF assms(2), of p] show ?thesis by (auto simp: mutex_inv_def)
next
  case (block p m)
  then have "mutex_st (mtx s) = MUTEX_LOCKED" "m = (mtx s)\<lparr>waiting := waiting (mtx s) OR waiting_bit p\<rparr>"
    by (auto simp: mutex_attempt_def split: if_splits) (metis mutex_state.exhaust)
  moreover from this obtain q where "phase_of s q = Owner" "q \<noteq> p"
    using assms(2) block(2) by (fastforce simp: mutex_inv_def)
  ultimately show ?thesis
    using block assms(2) pid_not_0 [OF assms(2), of p] by (auto simp: mutex_inv_def bit_simps bit_waiting_bit)
next
  case (release p w m)
  then show ?thesis using release_inv assms(2) by blast
qed

lemma mutex_inv_steps: "mutex_steps s s' \<Longrightarrow> mutex_inv s \<Longrightarrow> mutex_inv s'"
  by (induction rule: rtranclp_induct) (auto intro: mutex_inv_step)

text \<open>Process 32 has no bit in the bitmap.\<close>

lemma wake_below_32:
  assumes "mutex_release m = (w, m')"
  shows "w < 32"
proof (cases rule: get_next_waiting_cases [of "m\<lparr>mutex_st := MUTEX_UNLOCKED\<rparr>"])
  case none
  then show ?thesis using assms by (auto simp: mutex_release_def Let_def)
next
  case (some k)
  then show ?thesis using assms by (auto simp: mutex_release_def Let_def split: if_splits)
qed

lemma asleep_32_step:
  assumes "mutex_step s s'" "phase_of s 32 = Asleep"
  shows "phase_of s' 32 = Asleep"
  using assms(1)
proof (rule mutex_stepE)
  fix p w m
  assume r: "s' = \<lparr>mtx = m, phase_of = wake w ((phase_of s)(p := Idle))\<rparr>" "phase_of s p = Owner"
    "mutex_release (mtx s) = (w, m)"
  have "nat w \<noteq> 32" "p \<noteq> 32" using wake_below_32 [OF r(3)] r(2) assms(2) by auto
  then show ?thesis using r(1) assms(2) by (simp add: wake_def)
qed (use assms(2) in auto)

section \<open>One task\<close>

lemma mutex_spin_free:
  assumes "data0 (mutex_spin m) = 0"
  shows "spin_lock (Some (mutex_spin m)) = Some (Some ((mutex_spin m)\<lparr>data0 := 1\<rparr>))"
    "spin_unlock (Some ((mutex_spin m)\<lparr>data0 := 1\<rparr>)) = Some (Some (mutex_spin m))"
  using assms by (cases "mutex_spin m"; simp add: spin_lock_def spin_unlock_def)+

lemma mutex_lock_iter_free:
  assumes "data0 (mutex_spin m) = 0" "mutex_st m = MUTEX_UNLOCKED"
  shows "mutex_lock_iter (Some m) s = Some (True, Some (m\<lparr>mutex_st := MUTEX_LOCKED\<rparr>), s)"
  using mutex_spin_free [OF assms(1)] assms(2) by (simp add: mutex_lock_iter_def mutex_attempt_def)

lemma mutex_lock_iter_taken:
  assumes "data0 (mutex_spin m) = 0" "mutex_st m = MUTEX_LOCKED" "sched_inv s"
    "alive_here s (get_current_proc s)"
  shows "\<exists>s'. mutex_lock_iter (Some m) s =
      Some (False, Some (m\<lparr>waiting := waiting m OR waiting_bit (nat (pid (task_of s (get_current_proc s))))\<rparr>), s') \<and>
    sched_inv s' \<and> state (task_of s' (get_current_proc s)) = SLEEPING \<and>
    get_current_proc s' = next_task (upd_task (get_current_proc s) (\<lambda>t. t\<lparr>state := SLEEPING\<rparr>) s)"
proof -
  let ?c = "get_current_proc s"
  let ?s = "upd_task ?c (\<lambda>t. t\<lparr>state := SLEEPING\<rparr>) s"
  have nn: "?c \<noteq> NoTask" using assms(4) by (auto simp: alive_here_def)
  have st: "set_task_state ?c SLEEPING s = Some ?s" using assms(3) nn by (simp add: set_task_state_run)
  have inv: "sched_inv ?s" using assms(3,4) by (intro set_task_state_inv) auto
  obtain s' where s': "schedule ?s = Some s'" "sched_inv s'" "get_current_proc s' = next_task ?s"
    using schedule_run [OF inv] by blast
  have "state (task_of s' ?c) = SLEEPING"
    using schedule_state [OF s'(1) nn] nn by (simp add: task_of_upd)
  with s' st mutex_spin_free [OF assms(1)] assms(2) show ?thesis
    by (simp add: mutex_lock_iter_def mutex_attempt_def)
qed

section \<open>Properties\<close>

text \<open>One round of \<^verbatim>\<open>mutex_lock\<close>: a free mutex is taken and the task goes on; a taken one
  makes the task set its bit, go to sleep and give the CPU to the task the scheduler
  chooses, which is never the sleeping task itself unless it is the swapper.\<close>

theorem mutex_lock_round:
  assumes "data0 (mutex_spin m) = 0" "sched_inv s" "alive_here s (get_current_proc s)"
  shows "\<exists>acquired m' s'. mutex_lock_iter (Some m) s = Some (acquired, Some m', s') \<and> sched_inv s' \<and>
    (if mutex_st m = MUTEX_UNLOCKED
     then acquired \<and> m' = m\<lparr>mutex_st := MUTEX_LOCKED\<rparr> \<and> s' = s
     else \<not> acquired \<and> state (task_of s' (get_current_proc s)) = SLEEPING \<and>
       m' = m\<lparr>waiting := waiting m OR waiting_bit (nat (pid (task_of s (get_current_proc s))))\<rparr> \<and>
       (\<forall>i. get_current_proc s = Task i \<longrightarrow> get_current_proc s' \<noteq> Task i))"
proof (cases "mutex_st m")
  case MUTEX_UNLOCKED
  then show ?thesis using mutex_lock_iter_free [OF assms(1)] assms(2) by auto
next
  case MUTEX_LOCKED
  let ?c = "get_current_proc s"
  let ?s = "upd_task ?c (\<lambda>t. t\<lparr>state := SLEEPING\<rparr>) s"
  obtain s' where s': "mutex_lock_iter (Some m) s =
      Some (False, Some (m\<lparr>waiting := waiting m OR waiting_bit (nat (pid (task_of s ?c)))\<rparr>), s')"
    "sched_inv s'" "state (task_of s' ?c) = SLEEPING" "get_current_proc s' = next_task ?s"
    using mutex_lock_iter_taken [OF assms(1) MUTEX_LOCKED assms(2,3)] by blast
  have "next_task ?s \<noteq> Task i" if "?c = Task i" for i
  proof
    assume n: "next_task ?s = Task i"
    have "best_of (tasks ?s) (candidates (tasks ?s) (core_id ?s)) (next_loop (tasks ?s) (core_id ?s) None 0)"
      using next_loop_best [where mi = None and i = "core_id ?s" and mt = 0 and ts = "tasks ?s"] by simp
    with n have "is_task_ready (tasks ?s i)"
      by (auto simp: next_task_def best_of_def candidates_def split: option.splits)
    then show False using that by (simp add: upd_task_def is_task_ready_def)
  qed
  with s' MUTEX_LOCKED show ?thesis by auto
qed

theorem mutex_lock_round_witness:
  "\<exists>m' s'. mutex_lock_iter (Some \<lparr>mutex_spin = \<lparr>data0 = 0, data1 = 0\<rparr>, mutex_st = MUTEX_LOCKED, waiting = 0\<rparr>)
      (boot_sched (kheap_start (\<lambda>_. 0))) = Some (False, Some m', s') \<and> sched_inv s'"
proof -
  let ?s = "boot_sched (kheap_start (\<lambda>_. 0))"
  let ?m = "\<lparr>mutex_spin = \<lparr>data0 = 0, data1 = 0\<rparr>, mutex_st = MUTEX_LOCKED, waiting = 0\<rparr>"
  have "get_current_proc ?s = Swapper 0"
    by (simp add: get_current_proc_def current_thread_info_def boot_fields KERNEL_STACK_SIZE_def)
  then have "alive_here ?s (get_current_proc ?s)" by (simp add: alive_here_def boot_fields)
  from mutex_lock_round [OF _ boot_inv this, of ?m] show ?thesis by auto
qed

text \<open>C14. Mutual exclusion and no stranded waiter: in every state the processes can reach, at most one
  of them is between \<^verbatim>\<open>mutex_lock\<close> and \<^verbatim>\<open>mutex_unlock\<close>, and whenever one of the processes
  1 to 31 sleeps on the mutex, either the mutex has an owner, whose unlock will wake
  a waiter, or some process is about to try to lock it.\<close>

theorem mutex_safe:
  assumes "mutex_steps msys_init s"
  shows "(\<forall>p q. phase_of s p = Owner \<and> phase_of s q = Owner \<longrightarrow> p = q) \<and>
    (\<forall>p < 32. phase_of s p = Asleep \<longrightarrow> bit (waiting (mtx s)) p \<and>
       ((\<exists>q. phase_of s q = Owner) \<or> (\<exists>q. phase_of s q = Trying)))"
proof -
  have inv: "mutex_inv s" using mutex_inv_steps [OF assms mutex_inv_init] .
  have "(\<exists>q. phase_of s q = Owner) \<or> (\<exists>q. phase_of s q = Trying)"
    if "p < 32" "phase_of s p = Asleep" for p
  proof (cases "mutex_st (mtx s)")
    case MUTEX_UNLOCKED
    have "waiting (mtx s) \<noteq> 0" using inv that by (auto simp: mutex_inv_def)
    with inv MUTEX_UNLOCKED show ?thesis by (auto simp: mutex_inv_def)
  next
    case MUTEX_LOCKED
    with inv show ?thesis by (auto simp: mutex_inv_def)
  qed
  with inv show ?thesis by (auto simp: mutex_inv_def)
qed

theorem mutex_safe_witness:
  "\<exists>s. mutex_steps msys_init s \<and> phase_of s 3 = Owner \<and> phase_of s 4 \<noteq> Owner"
proof -
  let ?s1 = "msys_init\<lparr>phase_of := (phase_of msys_init)(3 := Trying)\<rparr>"
  let ?s2 = "\<lparr>mtx = (mtx msys_init)\<lparr>mutex_st := MUTEX_LOCKED\<rparr>, phase_of = (phase_of ?s1)(3 := Owner)\<rparr>"
  have "mutex_step msys_init ?s1" by (rule call) (simp_all add: msys_init_def MAX_NUM_PROCESSES_def)
  moreover have "mutex_step ?s1 ?s2" by (rule acquire) (simp_all add: mutex_attempt_def msys_init_def)
  ultimately have r: "mutex_steps msys_init ?s2"
    by (rule converse_rtranclp_into_rtranclp [OF _ r_into_rtranclp])
  moreover have "phase_of ?s2 3 = Owner" by simp
  moreover have "phase_of ?s2 4 \<noteq> Owner" using mutex_safe [OF r] by (simp add: msys_init_def)
  ultimately show ?thesis by blast
qed

text \<open>C15. The waiting bitmap is one bit too short: process 32, which exists, blocks without setting a
  bit, and from then on no sequence of steps ever wakes it.\<close>

theorem mutex_pid_32_stranded:
  assumes "phase_of s 32 = Trying" "mutex_st (mtx s) = MUTEX_LOCKED"
  shows "\<exists>s1. mutex_step s s1 \<and> mtx s1 = mtx s \<and> phase_of s1 32 = Asleep \<and>
    (\<forall>s2. mutex_steps s1 s2 \<longrightarrow> phase_of s2 32 = Asleep)"
proof -
  have z: "waiting_bit 32 = 0" by (rule bit_word_eqI) (simp add: bit_waiting_bit)
  have at: "mutex_attempt 32 (mtx s) = (False, mtx s)"
    using assms(2) by (simp add: mutex_attempt_def z)
  let ?s = "\<lparr>mtx = mtx s, phase_of = (phase_of s)(32 := Asleep)\<rparr>"
  have "mutex_step s ?s" using assms(1) at by (rule block)
  moreover have "phase_of s2 32 = Asleep" if "mutex_steps ?s s2" for s2
    using that by (induction rule: rtranclp_induct) (auto intro: asleep_32_step)
  ultimately show ?thesis by (intro exI [of _ ?s]) simp
qed

theorem mutex_pid_32_stranded_witness:
  "\<exists>s1. mutex_step \<lparr>mtx = \<lparr>mutex_spin = \<lparr>data0 = 0, data1 = 0\<rparr>, mutex_st = MUTEX_LOCKED, waiting = 0\<rparr>,
      phase_of = (\<lambda>_. Idle)(1 := Owner, 32 := Trying)\<rparr> s1 \<and>
    Collect (mutex_steps s1) \<subseteq> {s2. phase_of s2 32 = Asleep}"
  using mutex_pid_32_stranded [of "\<lparr>mtx = \<lparr>mutex_spin = \<lparr>data0 = 0, data1 = 0\<rparr>, mutex_st = MUTEX_LOCKED,
      waiting = 0\<rparr>, phase_of = (\<lambda>_. Idle)(1 := Owner, 32 := Trying)\<rparr>"] by auto

end
