(* ===== verification/Page_Table.thy ===== *)
theory Page_Table
  imports Pages
begin

text \<open>
  The three-level page tables of \<^verbatim>\<open>mm/page_table.c\<close>. Tables are pages of the byte memory, an
  entry is a 64-bit word. The function that supplies zeroed table pages
  (\<^verbatim>\<open>pg_calloc_func\<close>) and the one that releases a page (\<^verbatim>\<open>free_pages\<close>) are arguments that
  work on an allocator state, as they are arguments of the C functions. \<^verbatim>\<open>mmu_on\<close> tells whether
  table pages are reached through the linear map.

  The tree of tables below a directory is abstracted to the function \<open>lookup\<close> from index paths
  to leaf entries; \<open>pt_wf\<close> says that the tables of the tree are pages of their own.
  The locale \<open>page_source\<close> is what the table code relies on, and is interpreted on the
  page allocator of the kernel and, in \<^verbatim>\<open>Boot_Map\<close>, on the boot allocator.
\<close>

unbundle bit_operations_syntax

section \<open>Definitions\<close>

definition layers :: "nat list" where
  "layers = [30, 21, 12]"

definition get_pg_entry_index :: "u64 \<Rightarrow> nat \<Rightarrow> nat" where
  "get_pg_entry_index addr layer = unat (drop_bit layer addr AND (push_bit 9 1 - 1))"

definition get_phy_addr :: "u64 \<Rightarrow> u64" where
  "get_phy_addr descriptor = descriptor AND NOT (PAGE_SIZE - 1) AND (push_bit 48 1 - 1)"

text \<open>The address under which the code reaches a physical table page, and back.\<close>

definition table_ptr :: "bool \<Rightarrow> u64 \<Rightarrow> u64" where
  "table_ptr mmu_on x = (if mmu_on then va x else x)"

definition table_phys :: "bool \<Rightarrow> u64 \<Rightarrow> u64" where
  "table_phys mmu_on x = (if mmu_on then pa x else x)"

definition entry_addr :: "u64 \<Rightarrow> nat \<Rightarrow> u64" where
  "entry_addr t i = t + 8 * of_nat i"

definition entry :: "mem \<Rightarrow> u64 \<Rightarrow> nat \<Rightarrow> u64" where
  "entry m t i = load64 m (entry_addr t i)"

fun setup_layers ::
  "('a \<Rightarrow> mem \<Rightarrow> (u64 \<times> 'a \<times> mem) option) \<Rightarrow> u64 \<Rightarrow> u64 \<Rightarrow> u64 \<Rightarrow> bool \<Rightarrow> nat list \<Rightarrow> u64 \<Rightarrow>
   'a \<times> mem \<Rightarrow> ('a \<times> mem) option" where
  "setup_layers calloc phy virt attrs mmu_on [] pt s = Some s"
| "setup_layers calloc phy virt attrs mmu_on (l # ls) pt (a, m) =
    (let i = get_pg_entry_index virt l
     in do {
       (a, m) \<leftarrow>
         (if entry m pt i = 0 then
            (if l \<noteq> 12 then do {
               (new_pt, a, m) \<leftarrow> calloc a m;
               if new_pt = 0 then None
               else if \<not> is_pointer_aligned new_pt (NOT 0xFFF) then None
               else Some (a, store64 m (entry_addr pt i)
                 (table_phys mmu_on new_pt OR attrs OR PTE_TYPE_TABLE OR PTE_BLOCK_AF)) }
             else Some (a, store64 m (entry_addr pt i) (phy OR attrs OR PTE_TYPE_TABLE OR PTE_BLOCK_AF)))
          else Some (a, m));
       setup_layers calloc phy virt attrs mmu_on ls (table_ptr mmu_on (get_phy_addr (entry m pt i))) (a, m) })"

definition setup_pg_for_addr ::
  "('a \<Rightarrow> mem \<Rightarrow> (u64 \<times> 'a \<times> mem) option) \<Rightarrow> u64 \<Rightarrow> u64 \<Rightarrow> u64 \<Rightarrow> u64 \<Rightarrow> bool \<Rightarrow>
   'a \<times> mem \<Rightarrow> ('a \<times> mem) option" where
  "setup_pg_for_addr calloc pg_dir phy virt attrs mmu_on s =
    setup_layers calloc phy virt attrs mmu_on layers pg_dir s"

fun walk_layers :: "mem \<Rightarrow> u64 \<Rightarrow> bool \<Rightarrow> nat list \<Rightarrow> u64 \<Rightarrow> u64" where
  "walk_layers m virt mmu_on [] pt = pt"
| "walk_layers m virt mmu_on (l # ls) pt =
    walk_layers m virt mmu_on ls (table_ptr mmu_on (get_phy_addr (entry m pt (get_pg_entry_index virt l))))"

definition walk_virt_addr :: "mem \<Rightarrow> u64 \<Rightarrow> u64 \<Rightarrow> bool \<Rightarrow> u64" where
  "walk_virt_addr m pg_dir virt mmu_on = table_phys mmu_on (walk_layers m virt mmu_on layers pg_dir)"

text \<open>The last component of the state is the log of TLB invalidations by address.\<close>

definition unmap_one_user_page ::
  "('a \<Rightarrow> u64 \<Rightarrow> 'a option) \<Rightarrow> int \<Rightarrow> u64 \<Rightarrow> u64 \<Rightarrow> 'a \<times> mem \<times> (int \<times> u64) list \<Rightarrow>
   ('a \<times> mem \<times> (int \<times> u64) list) option" where
  "unmap_one_user_page free asid pg_dir virt s =
    (case s of (a, m, tlb) \<Rightarrow>
      let pt = walk_layers m virt True (butlast layers) pg_dir;
          i = get_pg_entry_index virt (last layers)
      in do {
        a \<leftarrow> (if entry m pt i \<noteq> 0 then free a (va (get_phy_addr (entry m pt i))) else Some a);
        Some (a, store64 m (entry_addr pt i) 0, tlb @ [(asid, virt)]) })"

record memory_map =
  map_phy_addr :: u64
  map_virt_addr :: u64
  map_size :: u64
  map_attrs :: u64

partial_function (option) single_map_loop ::
  "('a \<Rightarrow> mem \<Rightarrow> (u64 \<times> 'a \<times> mem) option) \<Rightarrow> u64 \<Rightarrow> u64 \<Rightarrow> u64 \<Rightarrow> u64 \<Rightarrow> u64 \<Rightarrow> bool \<Rightarrow>
   'a \<times> mem \<Rightarrow> ('a \<times> mem) option" where
  "single_map_loop calloc pg_dir phy virt end_addr attrs mmu_on s =
    (if phy < end_addr then do {
       s \<leftarrow> setup_pg_for_addr calloc pg_dir phy virt attrs mmu_on s;
       single_map_loop calloc pg_dir (phy + PAGE_SIZE) (virt + PAGE_SIZE) end_addr attrs mmu_on s }
     else Some s)"

definition add_single_map ::
  "('a \<Rightarrow> mem \<Rightarrow> (u64 \<times> 'a \<times> mem) option) \<Rightarrow> memory_map \<Rightarrow> u64 \<Rightarrow> bool \<Rightarrow>
   'a \<times> mem \<Rightarrow> ('a \<times> mem) option" where
  "add_single_map calloc mp pg_dir mmu_on s =
    single_map_loop calloc pg_dir (map_phy_addr mp) (map_virt_addr mp)
      (map_phy_addr mp + map_size mp) (map_attrs mp) mmu_on s"

section \<open>Pages and entries\<close>

definition page_aligned :: "u64 \<Rightarrow> bool" where
  "page_aligned t \<longleftrightarrow> 4096 dvd unat t"

text \<open>The two memories agree on the page at \<open>t\<close>.\<close>

definition page_eq :: "u64 \<Rightarrow> mem \<Rightarrow> mem \<Rightarrow> bool" where
  "page_eq t m m' \<longleftrightarrow> mem_eq_on (unat t) (unat t + 4096) m m'"

definition zero_page :: "u64 \<Rightarrow> mem \<Rightarrow> bool" where
  "zero_page t m \<longleftrightarrow> (\<forall>i < 512. entry m t i = 0)"

lemma page_aligned_bound:
  assumes "page_aligned t"
  shows "unat t + 4096 \<le> 2 ^ 64"
proof -
  obtain k where k: "unat t = 4096 * k" using assms unfolding page_aligned_def by (rule dvdE)
  have "4096 * k < 4096 * 4503599627370496" using unat_lt_64 [of t] k by simp
  then have "k + 1 \<le> 4503599627370496" by simp
  then show ?thesis unfolding k by simp
qed

lemma page_aligned_apart:
  assumes "page_aligned t" "page_aligned u" "t \<noteq> u"
  shows "unat t + 4096 \<le> unat u \<or> unat u + 4096 \<le> unat t"
proof -
  obtain j k where "unat t = 4096 * j" "unat u = 4096 * k"
    using assms(1,2) unfolding page_aligned_def by (metis dvdE)
  moreover have "j \<noteq> k" using assms(3) calculation by (auto simp: word_unat_eq_iff)
  ultimately show ?thesis by linarith
qed

lemma page_eq_refl [simp]: "page_eq t m m"
  by (simp add: page_eq_def)

lemma page_eq_trans: "page_eq t m m' \<Longrightarrow> page_eq t m' m'' \<Longrightarrow> page_eq t m m''"
  unfolding page_eq_def by (rule mem_eq_on_trans)

lemma entry_addr_wd: "entry_addr t i = wd (unat t + 8 * i)"
  by (simp add: entry_addr_def wd_def)

lemma entry_cong:
  assumes "page_eq t m m'" "i < 512"
  shows "entry m' t i = entry m t i"
proof -
  have "mem_eq_on (unat t + 8 * i) (unat t + 8 * i + 8) m m'"
    by (rule mem_eq_on_mono) (use assms in \<open>auto simp: page_eq_def\<close>)
  then show ?thesis by (simp add: entry_def entry_addr_wd load64_cong)
qed

lemma entry_store:
  assumes "page_aligned t" "page_aligned u" "i < 512" "j < 512"
  shows "entry (store64 m (entry_addr t i) v) u j = (if t = u \<and> i = j then v else entry m u j)"
proof (cases "t = u \<and> i = j")
  case False
  have "unat t + 8 * i + 8 \<le> unat u + 8 * j \<or> unat u + 8 * j + 8 \<le> unat t + 8 * i"
  proof (cases "t = u")
    case True
    with False show ?thesis by auto
  next
    case False
    with page_aligned_apart [OF assms(1,2)] assms(3,4) show ?thesis by linarith
  qed
  moreover have "unat t + 8 * i + 8 \<le> 2 ^ 64" "unat u + 8 * j + 8 \<le> 2 ^ 64"
    using page_aligned_bound [OF assms(1)] page_aligned_bound [OF assms(2)] assms(3,4) by linarith+
  ultimately have "entry (store64 m (entry_addr t i) v) u j = entry m u j"
    unfolding entry_def entry_addr_wd by (intro load64_store64_other) auto
  then show ?thesis using False by auto
qed (simp add: entry_def)

lemma page_eq_store:
  assumes "page_aligned t" "page_aligned u" "i < 512" "t \<noteq> u"
  shows "page_eq u m (store64 m (entry_addr t i) v)"
  unfolding page_eq_def entry_addr_wd
  using page_aligned_apart [OF assms(1,2,4)] page_aligned_bound [OF assms(1)]
    page_aligned_bound [OF assms(2)] assms(3)
  by (intro store64_frame) linarith+

lemma get_pg_entry_index_less: "get_pg_entry_index addr l < 512"
proof -
  have "push_bit 9 1 - 1 = (mask 9 :: u64)" by (simp add: mask_eq_exp_minus_1)
  then have "get_pg_entry_index addr l = unat (take_bit 9 (drop_bit l addr))"
    by (simp add: get_pg_entry_index_def take_bit_eq_mask)
  also have "\<dots> = take_bit 9 (unat (drop_bit l addr))" by (simp add: unsigned_take_bit_eq)
  also have "\<dots> < 2 ^ 9" by (rule take_bit_nat_less_exp)
  finally show ?thesis by simp
qed

section \<open>Descriptors\<close>

lemma bit_get_phy_addr: "bit (get_phy_addr d) n \<longleftrightarrow> bit d n \<and> 12 \<le> n \<and> n < 48"
proof -
  have m: "push_bit 48 1 - 1 = (mask 48 :: u64)" by (simp add: mask_eq_exp_minus_1)
  show ?thesis unfolding get_phy_addr_def page_mask m by (auto simp: bit_simps dest: bit_imp_le_length)
qed

definition frame_addr :: "u64 \<Rightarrow> bool" where
  "frame_addr x \<longleftrightarrow> get_phy_addr x = x"

lemma get_phy_addr_idem [simp]: "frame_addr (get_phy_addr d)"
  by (simp add: frame_addr_def bit_eq_iff bit_get_phy_addr)

lemma get_phy_addr_desc:
  assumes "get_phy_addr attrs = 0"
  shows "get_phy_addr (x OR attrs OR PTE_TYPE_TABLE OR PTE_BLOCK_AF) = get_phy_addr x"
proof -
  have a: "\<not> (bit attrs n \<and> 12 \<le> n \<and> n < 48)" for n
    using assms bit_get_phy_addr [of attrs n] by simp
  have c: "PTE_TYPE_TABLE OR PTE_BLOCK_AF = 1027" by (simp add: PTE_TYPE_TABLE_def PTE_BLOCK_AF_def)
  have "take_bit 12 (1027 :: u64) = 1027" by (simp add: take_bit_eq_mod)
  then have lo: "bit (1027 :: u64) n \<Longrightarrow> n < 12" for n by (metis bit_take_bit_iff)
  have "bit (get_phy_addr (x OR attrs OR 1027)) n = bit (get_phy_addr x) n" for n
    using a [of n] lo [of n] by (auto simp: bit_get_phy_addr bit_or_iff)
  then show ?thesis unfolding c by (intro bit_eqI) blast
qed

lemma get_phy_addr_low:
  assumes "x < 4096"
  shows "get_phy_addr x = 0"
proof -
  have "unat x < 2 ^ 12" using assms by (simp add: word_less_nat_alt)
  then have "take_bit 12 x = x"
    by (simp add: word_unat_eq_iff unsigned_take_bit_eq take_bit_nat_eq_self)
  then have "bit x n \<Longrightarrow> n < 12" for n by (metis bit_take_bit_iff)
  then have "\<not> bit (get_phy_addr x) n" for n using bit_get_phy_addr [of x n] by fastforce
  then show ?thesis by (intro bit_eqI) simp
qed

lemma desc_not_0: "x OR attrs OR PTE_TYPE_TABLE OR PTE_BLOCK_AF \<noteq> 0"
proof
  assume "x OR attrs OR PTE_TYPE_TABLE OR PTE_BLOCK_AF = 0"
  then have "\<not> bit (x OR attrs OR PTE_TYPE_TABLE OR PTE_BLOCK_AF) 10" by simp
  then show False by (simp add: bit_or_iff PTE_BLOCK_AF_def bit_push_bit_iff)
qed

lemma table_phys_ptr [simp]: "table_phys b (table_ptr b x) = x" "table_ptr b (table_phys b x) = x"
  by (simp_all add: table_ptr_def table_phys_def)

section \<open>The tree of tables\<close>

text \<open>A path has one index per layer below the table. \<open>child\<close> is the table an entry points to.\<close>

definition child :: "bool \<Rightarrow> u64 \<Rightarrow> u64" where
  "child mmu_on d = table_ptr mmu_on (get_phy_addr d)"

fun lookup :: "bool \<Rightarrow> mem \<Rightarrow> u64 \<Rightarrow> nat list \<Rightarrow> u64" where
  "lookup b m t [] = 0"
| "lookup b m t [i] = entry m t i"
| "lookup b m t (i # j # p) = (if entry m t i = 0 then 0 else lookup b m (child b (entry m t i)) (j # p))"

fun tables :: "bool \<Rightarrow> nat \<Rightarrow> mem \<Rightarrow> u64 \<Rightarrow> u64 set" where
  "tables b 0 m t = {t}"
| "tables b (Suc k) m t =
    insert t (\<Union>i \<in> {i. i < 512 \<and> entry m t i \<noteq> 0}. tables b k m (child b (entry m t i)))"

fun pt_wf :: "bool \<Rightarrow> nat \<Rightarrow> mem \<Rightarrow> u64 \<Rightarrow> bool" where
  "pt_wf b 0 m t \<longleftrightarrow> page_aligned t"
| "pt_wf b (Suc k) m t \<longleftrightarrow> page_aligned t \<and>
    (\<forall>i < 512. entry m t i \<noteq> 0 \<longrightarrow>
       pt_wf b k m (child b (entry m t i)) \<and> t \<notin> tables b k m (child b (entry m t i)) \<and>
       (\<forall>j < 512. j \<noteq> i \<longrightarrow> entry m t j \<noteq> 0 \<longrightarrow>
          tables b k m (child b (entry m t i)) \<inter> tables b k m (child b (entry m t j)) = {}))"

definition path_ok :: "nat \<Rightarrow> nat list \<Rightarrow> bool" where
  "path_ok k p \<longleftrightarrow> length p = Suc k \<and> (\<forall>i \<in> set p. i < 512)"

lemma tables_root [simp]: "t \<in> tables b k m t"
  by (cases k) auto

lemma pt_wf_aligned: "pt_wf b k m t \<Longrightarrow> page_aligned t"
  by (cases k) auto

lemma tables_aligned: "pt_wf b k m t \<Longrightarrow> u \<in> tables b k m t \<Longrightarrow> page_aligned u"
  by (induction b k m t rule: pt_wf.induct) auto

lemma finite_tables [simp]: "finite (tables b k m t)"
  by (induction b k m t rule: tables.induct) auto

text \<open>The tree depends only on the pages of its tables.\<close>

lemma tables_cong:
  assumes "\<And>u. u \<in> tables b k m t \<Longrightarrow> page_eq u m m'"
  shows "tables b k m' t = tables b k m t"
  using assms
proof (induction b k m t rule: tables.induct)
  case (2 b k m t)
  have e: "entry m' t i = entry m t i" if "i < 512" for i
    using "2.prems" that by (intro entry_cong) auto
  have "tables b k m' (child b (entry m t i)) = tables b k m (child b (entry m t i))"
    if "i < 512" "entry m t i \<noteq> 0" for i
    using 2 that by auto
  with e show ?case by auto
qed simp

lemma pt_wf_cong:
  assumes "\<And>u. u \<in> tables b k m t \<Longrightarrow> page_eq u m m'"
  shows "pt_wf b k m' t = pt_wf b k m t"
  using assms
proof (induction b k m t rule: pt_wf.induct)
  case (2 b k m t)
  have e: "entry m' t i = entry m t i" if "i < 512" for i
    using "2.prems" that by (intro entry_cong) auto
  have w: "pt_wf b k m' (child b (entry m t i)) = pt_wf b k m (child b (entry m t i))"
    "tables b k m' (child b (entry m t i)) = tables b k m (child b (entry m t i))"
    if "i < 512" "entry m t i \<noteq> 0" for i
    using 2 that by (auto intro!: tables_cong)
  show ?case by (simp add: e w cong: conj_cong)
qed simp

lemma lookup_cong:
  assumes "\<And>u. u \<in> tables b k m t \<Longrightarrow> page_eq u m m'" "path_ok k p"
  shows "lookup b m' t p = lookup b m t p"
  using assms
proof (induction k arbitrary: t p)
  case 0
  then obtain i where "p = [i]" "i < 512" by (auto simp: path_ok_def length_Suc_conv)
  then show ?case using 0 by (simp add: entry_cong)
next
  case (Suc k)
  then obtain i q where p: "p = i # q" "i < 512" "path_ok k q" "q \<noteq> []"
    by (auto simp: path_ok_def length_Suc_conv)
  then obtain j q' where q: "q = j # q'" by (cases q) auto
  have e: "entry m' t i = entry m t i" using Suc.prems(1) p(2) by (intro entry_cong) auto
  have "lookup b m' (child b (entry m t i)) q = lookup b m (child b (entry m t i)) q"
    if "entry m t i \<noteq> 0"
    using Suc.prems(1) p that by (intro Suc.IH) auto
  then show ?case by (simp add: p(1) q e)
qed

section \<open>Changing one entry\<close>

text \<open>Writing the entry \<open>i\<close> of the root leaves the other subtrees alone.\<close>

lemma pages_eq_entry:
  assumes "pt_wf b (Suc k) m t" "i < 512" "j < 512" "entry m t j \<noteq> 0"
    "u \<in> tables b k m (child b (entry m t j))"
  shows "page_eq u m (store64 m (entry_addr t i) v)"
proof -
  have "pt_wf b k m (child b (entry m t j))" "t \<notin> tables b k m (child b (entry m t j))"
    using assms by auto
  then show ?thesis
    using assms(1,2,5) by (intro page_eq_store) (auto intro: tables_aligned pt_wf_aligned)
qed

lemma entry_set [simp]:
  "page_aligned t \<Longrightarrow> i < 512 \<Longrightarrow> j < 512 \<Longrightarrow>
   entry (store64 m (entry_addr t i) v) t j = (if i = j then v else entry m t j)"
  by (simp add: entry_store)

section \<open>Mapping one page\<close>

text \<open>
  A change of the leaves below a table, where the pages handed out grow from \<open>U\<close> to \<open>U'\<close>: the leaf
  at each path is changed by \<open>f\<close>, the tree stays well formed and grows exactly by the new pages,
  and no page outside the tree is written. Mapping a page sets its leaf if it was empty.
\<close>

definition edits ::
  "bool \<Rightarrow> nat \<Rightarrow> u64 \<Rightarrow> (nat list \<Rightarrow> u64 \<Rightarrow> u64) \<Rightarrow> u64 set \<Rightarrow> u64 set \<Rightarrow> mem \<Rightarrow> mem \<Rightarrow> bool" where
  "edits b k t f U U' m m' \<longleftrightarrow>
    pt_wf b k m' t \<and> U \<subseteq> U' \<and> tables b k m' t = tables b k m t \<union> (U' - U) \<and>
    (\<forall>p. path_ok k p \<longrightarrow> lookup b m' t p = f p (lookup b m t p)) \<and>
    (\<forall>u. page_aligned u \<longrightarrow> u \<notin> tables b k m t \<union> (U' - U) \<longrightarrow> page_eq u m m')"

definition set_leaf :: "nat list \<Rightarrow> u64 \<Rightarrow> nat list \<Rightarrow> u64 \<Rightarrow> u64" where
  "set_leaf path d p x = (if p = path \<and> x = 0 then d else x)"

definition clear_leaf :: "nat list \<Rightarrow> nat list \<Rightarrow> u64 \<Rightarrow> u64" where
  "clear_leaf path p x = (if p = path then 0 else x)"

definition below :: "nat \<Rightarrow> (nat list \<Rightarrow> u64 \<Rightarrow> u64) \<Rightarrow> nat list \<Rightarrow> u64 \<Rightarrow> u64" where
  "below i f p x = (case p of [] \<Rightarrow> x | j # q \<Rightarrow> if j = i then f q x else x)"

lemma below_leaf:
  "below i (set_leaf q d) = set_leaf (i # q) d" "below i (clear_leaf q) = clear_leaf (i # q)"
  by (auto simp: fun_eq_iff below_def set_leaf_def clear_leaf_def split: list.splits)

lemma edits_cong:
  "edits b k t f U U' m m' \<Longrightarrow> (\<And>p x. path_ok k p \<Longrightarrow> f p x = g p x) \<Longrightarrow> edits b k t g U U' m m'"
  by (simp add: edits_def)

lemma edits_trans:
  assumes "edits b k t f U U' m m'" "edits b k t g U' U'' m' m''"
  shows "edits b k t (\<lambda>p x. g p (f p x)) U U'' m m''"
proof -
  have tb: "tables b k m'' t = tables b k m t \<union> (U'' - U)"
    using assms by (auto simp: edits_def)
  moreover have "page_eq u m m''" if "page_aligned u" "u \<notin> tables b k m t \<union> (U'' - U)" for u
  proof (rule page_eq_trans)
    have "u \<notin> tables b k m t \<union> (U' - U)" "u \<notin> tables b k m' t \<union> (U'' - U')"
      using that assms by (auto simp: edits_def)
    with that(1) assms show "page_eq u m m'" "page_eq u m' m''" unfolding edits_def by blast+
  qed
  moreover have "pt_wf b k m'' t" "U \<subseteq> U''" "\<forall>p. path_ok k p \<longrightarrow> lookup b m'' t p = g p (f p (lookup b m t p))"
    using assms by (auto simp: edits_def)
  ultimately show ?thesis unfolding edits_def by blast
qed

lemma path_ok_Cons: "path_ok (Suc k) (i # q) \<longleftrightarrow> i < 512 \<and> path_ok k q"
  by (auto simp: path_ok_def)

lemma path_ok_Suc: "path_ok (Suc k) p \<Longrightarrow> \<exists>i q. p = i # q \<and> i < 512 \<and> path_ok k q"
  by (auto simp: path_ok_def length_Suc_conv)

lemma path_ok_nonempty: "path_ok k q \<Longrightarrow> q \<noteq> []"
  by (auto simp: path_ok_def)

lemma lookup_Cons:
  "q \<noteq> [] \<Longrightarrow> lookup b m t (i # q) = (if entry m t i = 0 then 0 else lookup b m (child b (entry m t i)) q)"
  by (cases q) auto

lemma pt_wf_SucI:
  assumes "page_aligned t"
    "\<And>j. j < 512 \<Longrightarrow> entry m t j \<noteq> 0 \<Longrightarrow> pt_wf b k m (child b (entry m t j))"
    "\<And>j. j < 512 \<Longrightarrow> entry m t j \<noteq> 0 \<Longrightarrow> t \<notin> tables b k m (child b (entry m t j))"
    "\<And>j l. j < 512 \<Longrightarrow> l < 512 \<Longrightarrow> j \<noteq> l \<Longrightarrow> entry m t j \<noteq> 0 \<Longrightarrow> entry m t l \<noteq> 0 \<Longrightarrow>
       tables b k m (child b (entry m t j)) \<inter> tables b k m (child b (entry m t l)) = {}"
  shows "pt_wf b (Suc k) m t"
  using assms(1-3) assms(4) [OF _ _ not_sym] by simp

lemma UN_grow:
  assumes "i \<in> I" "S' i = S i \<union> X" "\<And>j. j \<in> I \<Longrightarrow> j \<noteq> i \<Longrightarrow> S' j = S j"
  shows "(\<Union>j \<in> I. S' j) = (\<Union>j \<in> I. S j) \<union> X"
proof -
  have "S' j = S j \<union> (if j = i then X else {})" if "j \<in> I" for j
    using assms(2) assms(3) [OF that] by auto
  then have "(\<Union>j \<in> I. S' j) = (\<Union>j \<in> I. S j \<union> (if j = i then X else {}))" by simp
  then show ?thesis using assms(1) by (auto split: if_splits)
qed

lemma edits_up:
  assumes wf: "pt_wf b (Suc k) m t" and i: "i < 512" "entry m t i \<noteq> 0"
    and U: "tables b (Suc k) m t \<subseteq> U"
    and sub: "edits b k (child b (entry m t i)) f U U' m m'"
  shows "edits b (Suc k) t (below i f) U U' m m'"
proof -
  let ?c = "\<lambda>j. child b (entry m t j)"
  have T: "pt_wf b k m (?c j)" "t \<notin> tables b k m (?c j)" "tables b k m (?c j) \<subseteq> U"
    if "j < 512" "entry m t j \<noteq> 0" for j
    using wf U that by auto
  have dj: "tables b k m (?c j) \<inter> tables b k m (?c l) = {}"
    if "j < 512" "l < 512" "j \<noteq> l" "entry m t j \<noteq> 0" "entry m t l \<noteq> 0" for j l
    using wf that by auto
  have keep: "page_eq u m m'" if "u \<in> U" "page_aligned u" "u \<notin> tables b k m (?c i)" for u
    using sub that by (auto simp: edits_def)
  have "page_eq t m m'" by (rule keep) (use wf U T(2) [OF i] in auto)
  then have e: "entry m' t j = entry m t j" if "j < 512" for j using that by (rule entry_cong)
  have pe: "page_eq u m m'" if "j < 512" "entry m t j \<noteq> 0" "j \<noteq> i" "u \<in> tables b k m (?c j)" for j u
    using that T [OF that(1,2)] dj [of j i] i by (intro keep) (auto intro: tables_aligned)
  have other: "tables b k m' (?c j) = tables b k m (?c j)" "pt_wf b k m' (?c j)"
    "path_ok k p \<Longrightarrow> lookup b m' (?c j) p = lookup b m (?c j) p"
    if "j < 512" "entry m t j \<noteq> 0" "j \<noteq> i" for j p
  proof -
    show "tables b k m' (?c j) = tables b k m (?c j)" by (rule tables_cong [OF pe [OF that]])
    show "pt_wf b k m' (?c j)" using pt_wf_cong [OF pe [OF that]] T(1) that by simp
    show "lookup b m' (?c j) p = lookup b m (?c j) p" if "path_ok k p"
      by (rule lookup_cong [OF pe [OF \<open>j < 512\<close> \<open>entry m t j \<noteq> 0\<close> \<open>j \<noteq> i\<close>] that])
  qed
  have new: "tables b k m' (?c i) = tables b k m (?c i) \<union> (U' - U)" "pt_wf b k m' (?c i)" "U \<subseteq> U'"
    using sub by (simp_all add: edits_def)
  have disj: "tables b k m' (?c j) \<inter> tables b k m' (?c l) = {}"
    if "j < 512" "l < 512" "j \<noteq> l" "entry m t j \<noteq> 0" "entry m t l \<noteq> 0" for j l
  proof -
    have "tables b k m (?c j) \<subseteq> U" "tables b k m (?c l) \<subseteq> U" using T(3) that by auto
    then show ?thesis
      using dj [OF that] that other(1) new(1) by (cases "j = i"; cases "l = i") auto
  qed
  have notin: "t \<notin> tables b k m' (?c j)" if "j < 512" "entry m t j \<noteq> 0" for j
    using T(2) [OF that] that other(1) new(1) U by (cases "j = i") auto
  have "pt_wf b k m' (?c j)" if "j < 512" "entry m t j \<noteq> 0" for j
    using other(2) [OF that] new(2) by (cases "j = i") auto
  then have "pt_wf b (Suc k) m' t"
    using wf by (intro pt_wf_SucI) (simp_all only: e pt_wf.simps notin disj not_False_eq_True)
  moreover have "tables b (Suc k) m' t = tables b (Suc k) m t \<union> (U' - U)"
  proof -
    have "(\<Union>j \<in> {j. j < 512 \<and> entry m t j \<noteq> 0}. tables b k m' (?c j)) =
        (\<Union>j \<in> {j. j < 512 \<and> entry m t j \<noteq> 0}. tables b k m (?c j)) \<union> (U' - U)"
      by (rule UN_grow [of i]) (use other(1) new(1) i in auto)
    moreover have "{j. j < 512 \<and> entry m' t j \<noteq> 0} = {j. j < 512 \<and> entry m t j \<noteq> 0}" using e by auto
    ultimately show ?thesis using e by auto
  qed
  moreover have "lookup b m' t p = below i f p (lookup b m t p)" if p: "path_ok (Suc k) p" for p
  proof -
    obtain j r where r: "p = j # r" "j < 512" "path_ok k r" using path_ok_Suc [OF p] by blast
    have ne: "r \<noteq> []" using r(3) path_ok_nonempty by auto
    show ?thesis
    proof (cases "j = i")
      case True
      with r(3) sub i ne show ?thesis by (auto simp: r(1) lookup_Cons e edits_def below_def)
    next
      case False
      with r(2,3) other(3) ne show ?thesis by (auto simp: r(1) lookup_Cons e below_def)
    qed
  qed
  moreover have "page_eq u m m'" if "page_aligned u" "u \<notin> tables b (Suc k) m t \<union> (U' - U)" for u
    using sub that i by (auto simp: edits_def)
  ultimately show ?thesis using new(3) by (auto simp: edits_def)
qed

lemma edits_grow:
  assumes mp: "edits b k t f (insert p U) U' m2 m'" and p: "p \<notin> U" "p \<notin> tables b k m t"
    and tb: "tables b k m2 t = insert p (tables b k m t)"
    and lk: "\<And>r. path_ok k r \<Longrightarrow> lookup b m2 t r = lookup b m t r"
    and pg: "\<And>u. page_aligned u \<Longrightarrow> u \<notin> insert p (tables b k m t) \<Longrightarrow> page_eq u m m2"
  shows "edits b k t f U U' m m'"
proof -
  have U: "U \<subseteq> U'" "U' - U = insert p (U' - insert p U)" using mp p(1) by (auto simp: edits_def)
  have "tables b k m' t = tables b k m t \<union> (U' - U)" using mp tb U(2) by (auto simp: edits_def)
  moreover have "page_eq u m m'" if "page_aligned u" "u \<notin> tables b k m t \<union> (U' - U)" for u
  proof (rule page_eq_trans)
    have n: "u \<notin> insert p (tables b k m t)" "u \<notin> insert p (tables b k m t) \<union> (U' - insert p U)"
      using that U(2) by auto
    then show "page_eq u m m2" using pg that(1) by blast
    show "page_eq u m2 m'" using mp n(2) that(1) unfolding edits_def tb by blast
  qed
  moreover have "pt_wf b k m' t" "\<forall>r. path_ok k r \<longrightarrow> lookup b m' t r = f r (lookup b m t r)"
    using mp lk by (simp_all add: edits_def)
  ultimately show ?thesis using U(1) unfolding edits_def by blast
qed

text \<open>A new zeroed table \<open>p\<close> hung into the empty entry \<open>i\<close> changes no leaf.\<close>

lemma tables_zero: "zero_page p m \<Longrightarrow> tables b k m p = {p}"
  by (cases k) (auto simp: zero_page_def)

lemma lookup_zero: "zero_page p m \<Longrightarrow> path_ok k q \<Longrightarrow> lookup b m p q = 0"
  by (cases k) (auto simp: zero_page_def path_ok_def length_Suc_conv)

lemma pt_wf_zero: "zero_page p m \<Longrightarrow> page_aligned p \<Longrightarrow> pt_wf b k m p"
  by (cases k) (auto simp: zero_page_def)

lemma new_table:
  assumes wf: "pt_wf b (Suc k) m t" and i: "i < 512" "entry m t i = 0"
    and p: "page_aligned p" "p \<notin> tables b (Suc k) m t" "zero_page p m1" "child b d = p" "d \<noteq> 0"
    and m1: "\<And>u. page_aligned u \<Longrightarrow> u \<noteq> p \<Longrightarrow> page_eq u m m1"
    and m2: "m2 = store64 m1 (entry_addr t i) d"
  shows "pt_wf b (Suc k) m2 t" "tables b (Suc k) m2 t = insert p (tables b (Suc k) m t)"
    "path_ok (Suc k) r \<Longrightarrow> lookup b m2 t r = lookup b m t r"
    "page_aligned u \<Longrightarrow> u \<notin> insert p (tables b (Suc k) m t) \<Longrightarrow> page_eq u m m2"
    "entry m2 t i = d"
proof -
  have t: "page_aligned t" "t \<noteq> p" using wf p(2) by auto
  show pe: "page_eq u m m2" if "page_aligned u" "u \<notin> insert p (tables b (Suc k) m t)" for u
    unfolding m2 by (rule page_eq_trans [OF m1 page_eq_store]) (use that t i in auto)
  have e1: "entry m1 t j = entry m t j" if "j < 512" for j using m1 t that by (intro entry_cong) auto
  have e2: "entry m2 t j = (if j = i then d else entry m t j)" if "j < 512" for j
    using that t i e1 by (auto simp: m2)
  then show "entry m2 t i = d" using i by simp
  have z: "zero_page p m2"
    using p(3) entry_store [OF t(1) p(1) i(1)] t(2) by (simp add: zero_page_def m2)
  let ?c = "\<lambda>j. child b (entry m t j)"
  have T: "pt_wf b k m (?c j)" "t \<notin> tables b k m (?c j)" "p \<notin> tables b k m (?c j)"
    "tables b k m (?c j) \<subseteq> tables b (Suc k) m t"
    if "j < 512" "entry m t j \<noteq> 0" for j
    using wf p(2) that by auto
  have sub: "page_eq u m m2" if "j < 512" "entry m t j \<noteq> 0" "u \<in> tables b k m (?c j)" for j u
    unfolding m2 using T [OF that(1,2)] that(3) t i
    by (intro page_eq_trans [OF m1 page_eq_store]) (auto intro: tables_aligned)
  have old: "tables b k m2 (?c j) = tables b k m (?c j)" "pt_wf b k m2 (?c j)"
    "path_ok k q \<Longrightarrow> lookup b m2 (?c j) q = lookup b m (?c j) q"
    if "j < 512" "entry m t j \<noteq> 0" for j q
  proof -
    show "tables b k m2 (?c j) = tables b k m (?c j)" by (rule tables_cong [OF sub [OF that]])
    show "pt_wf b k m2 (?c j)" using pt_wf_cong [OF sub [OF that]] T(1) that by simp
    show "lookup b m2 (?c j) q = lookup b m (?c j) q" if "path_ok k q"
      by (rule lookup_cong [OF sub [OF \<open>j < 512\<close> \<open>entry m t j \<noteq> 0\<close>] that])
  qed
  have new: "tables b k m2 p = {p}" "pt_wf b k m2 p" "path_ok k q \<Longrightarrow> lookup b m2 p q = 0" for q
    using z p(1) by (simp_all add: tables_zero pt_wf_zero lookup_zero)
  have c: "child b (entry m2 t j) = (if j = i then p else ?c j)" "entry m2 t j \<noteq> 0 \<longleftrightarrow> j = i \<or> entry m t j \<noteq> 0"
    if "j < 512" for j
    using e2 [OF that] p(4,5) i by auto
  have dj: "tables b k m (?c j) \<inter> tables b k m (?c l) = {}"
    if "j < 512" "l < 512" "j \<noteq> l" "entry m t j \<noteq> 0" "entry m t l \<noteq> 0" for j l
    using wf that by auto
  have tb: "tables b k m2 (child b (entry m2 t j)) = (if j = i then {p} else tables b k m (?c j))"
    if "j < 512" "entry m2 t j \<noteq> 0" for j
    using c [OF that(1)] old(1) new(1) that by auto
  show "pt_wf b (Suc k) m2 t"
  proof (rule pt_wf_SucI [OF t(1)])
    fix j assume j: "j < 512" "entry m2 t j \<noteq> 0"
    show "pt_wf b k m2 (child b (entry m2 t j))" using c [OF j(1)] old(2) new(2) j by auto
    show "t \<notin> tables b k m2 (child b (entry m2 t j))" using tb [OF j] c(2) [OF j(1)] T(2) j t(2) by auto
    fix l assume l: "l < 512" "j \<noteq> l" "entry m2 t l \<noteq> 0"
    show "tables b k m2 (child b (entry m2 t j)) \<inter> tables b k m2 (child b (entry m2 t l)) = {}"
      unfolding tb [OF j] tb [OF l(1,3)]
      using c(2) [OF j(1)] c(2) [OF l(1)] T(3) dj [OF j(1) l(1,2)] j l by auto
  qed
  have "{j. j < 512 \<and> entry m2 t j \<noteq> 0} = insert i {j. j < 512 \<and> entry m t j \<noteq> 0}" using c(2) i by auto
  then show "tables b (Suc k) m2 t = insert p (tables b (Suc k) m t)"
    using tb c(2) i by auto
  show "lookup b m2 t r = lookup b m t r" if r: "path_ok (Suc k) r"
  proof -
    obtain j q where q: "r = j # q" "j < 512" "path_ok k q" using path_ok_Suc [OF r] by blast
    show ?thesis
      using c [OF q(2)] old(3) [OF q(2) _ q(3)] new(3) [OF q(3)] i path_ok_nonempty [OF q(3)] e2 [OF q(2)]
      by (cases "j = i") (simp_all add: q(1) lookup_Cons)
  qed
qed

section \<open>Paths of virtual addresses\<close>

definition va_path :: "u64 \<Rightarrow> nat list" where
  "va_path virt = map (get_pg_entry_index virt) layers"

text \<open>The number of the virtual page: bits 12 to 38 of the address.\<close>

definition vpn :: "u64 \<Rightarrow> nat" where
  "vpn virt = unat virt div 4096 mod 2 ^ 27"

lemma path_ok_va_path [simp]: "path_ok 2 (va_path virt)"
  by (auto simp: path_ok_def va_path_def layers_def get_pg_entry_index_less)

lemma get_pg_entry_index_div: "get_pg_entry_index addr l = unat addr div 2 ^ l mod 512"
proof -
  have "push_bit 9 1 - 1 = (mask 9 :: u64)" by (simp add: mask_eq_exp_minus_1)
  then have "get_pg_entry_index addr l = unat (take_bit 9 (drop_bit l addr))"
    by (simp add: get_pg_entry_index_def take_bit_eq_mask)
  also have "\<dots> = unat addr div 2 ^ l mod 512"
    by (simp only: unsigned_take_bit_eq unsigned_drop_bit_eq) (simp add: take_bit_eq_mod drop_bit_eq_div)
  finally show ?thesis .
qed

lemma va_path_eq_iff: "va_path v = va_path w \<longleftrightarrow> vpn v = vpn w"
proof -
  have split: "x mod 2 ^ 27 = 2 ^ 18 * (x div 2 ^ 18 mod 512) + (2 ^ 9 * (x div 2 ^ 9 mod 512) + x mod 512)"
    for x :: nat
    using mod_mult2_eq [of x "2 ^ 18" "2 ^ 9"] mod_mult2_eq [of x "2 ^ 9" "2 ^ 9"] by simp
  have idx: "get_pg_entry_index u 30 = unat u div 4096 div 2 ^ 18 mod 512"
    "get_pg_entry_index u 21 = unat u div 4096 div 2 ^ 9 mod 512"
    "get_pg_entry_index u 12 = unat u div 4096 mod 512" for u
    by (simp_all add: get_pg_entry_index_div div_mult2_eq [symmetric])
  define x where "x = unat v div 4096"
  define y where "y = unat w div 4096"
  have "x mod 2 ^ 27 = y mod 2 ^ 27 \<longleftrightarrow>
      x div 2 ^ 18 mod 512 = y div 2 ^ 18 mod 512 \<and> x div 2 ^ 9 mod 512 = y div 2 ^ 9 mod 512 \<and> x mod 512 = y mod 512"
  proof
    assume eq: "x mod 2 ^ 27 = y mod 2 ^ 27"
    have "z div 2 ^ 18 mod 512 = z mod 2 ^ 27 div 2 ^ 18" for z :: nat
      using mod_mult2_eq [of z "2 ^ 18" "2 ^ 9"] by simp
    moreover have "z div 2 ^ 9 mod 512 = z mod 2 ^ 27 div 2 ^ 9 mod 512" for z :: nat
      using mod_mult2_eq [of z "2 ^ 9" "2 ^ 18"] by (simp add: mod_mod_cancel)
    moreover have "z mod 512 = z mod 2 ^ 27 mod 512" for z :: nat by (simp add: mod_mod_cancel)
    ultimately show "x div 2 ^ 18 mod 512 = y div 2 ^ 18 mod 512 \<and> x div 2 ^ 9 mod 512 = y div 2 ^ 9 mod 512 \<and> x mod 512 = y mod 512"
      using eq by metis
  qed (simp only: split)
  then show ?thesis by (simp add: va_path_def layers_def vpn_def idx x_def y_def)
qed

lemma vpn_add: "vpn (virt + PAGE_SIZE * of_nat j) = (vpn virt + j) mod 2 ^ 27"
proof -
  have "unat (virt + PAGE_SIZE * of_nat j) = (unat virt + 4096 * j) mod 2 ^ 64"
    by (simp add: PAGE_SIZE_def unat_word_ariths unat_of_nat take_bit_eq_mod mod_simps)
  moreover have "x mod 2 ^ 64 div 4096 mod 2 ^ 27 = x div 4096 mod 2 ^ 27" for x :: nat
    using mod_mult2_eq [of x 4096 "2 ^ 52"] by (simp add: mod_mod_cancel)
  ultimately show ?thesis by (simp add: vpn_def mod_simps add.commute)
qed

lemma vpn_add_any:
  assumes "4096 dvd unat b"
  shows "vpn (b + x) = (vpn b + unat x div 4096) mod 2 ^ 27"
proof -
  obtain c where c: "unat b = 4096 * c" using assms by (auto simp: dvd_def)
  have "y mod 2 ^ 64 div 4096 mod 2 ^ 27 = y div 4096 mod 2 ^ 27" for y :: nat
    using mod_mult2_eq [of y 4096 "2 ^ 52"] by (simp add: mod_mod_cancel)
  moreover have "unat (b + x) = (4096 * c + unat x) mod 2 ^ 64" by (simp add: unat_word_ariths c)
  ultimately have "vpn (b + x) = (c + unat x div 4096) mod 2 ^ 27" by (simp add: vpn_def)
  then show ?thesis by (simp add: vpn_def c mod_simps)
qed

lemma va_path_page: "va_path (PAGE_ADDR v) = va_path v"
  by (simp add: va_path_eq_iff vpn_def unat_PAGE_ADDR)

lemma va_path_distinct:
  assumes "i < j" "j < 2 ^ 27"
  shows "va_path (virt + PAGE_SIZE * of_nat i) \<noteq> va_path (virt + PAGE_SIZE * of_nat j)"
proof
  assume "va_path (virt + PAGE_SIZE * of_nat i) = va_path (virt + PAGE_SIZE * of_nat j)"
  then have "(vpn virt + i) mod 2 ^ 27 = (vpn virt + j) mod 2 ^ 27"
    by (simp add: va_path_eq_iff vpn_add)
  then have "2 ^ 27 dvd (vpn virt + j) - (vpn virt + i)" using assms by (metis add_le_cancel_left less_imp_le mod_eq_dvd_iff_nat)
  then show False using assms by (auto dest!: dvd_imp_le)
qed

section \<open>Mapping a range\<close>

definition leaf_desc :: "u64 \<Rightarrow> u64 \<Rightarrow> u64" where
  "leaf_desc phy attrs = phy OR attrs OR PTE_TYPE_TABLE OR PTE_BLOCK_AF"

fun set_range :: "u64 \<Rightarrow> u64 \<Rightarrow> u64 \<Rightarrow> nat \<Rightarrow> nat list \<Rightarrow> u64 \<Rightarrow> u64" where
  "set_range virt phy attrs 0 p x = x"
| "set_range virt phy attrs (Suc n) p x =
    set_range (virt + PAGE_SIZE) (phy + PAGE_SIZE) attrs n p (set_leaf (va_path virt) (leaf_desc phy attrs) p x)"

lemma set_range_other:
  "(\<And>j. j < n \<Longrightarrow> p \<noteq> va_path (virt + PAGE_SIZE * of_nat j)) \<Longrightarrow> set_range virt phy attrs n p x = x"
proof (induction n arbitrary: virt phy x)
  case (Suc n)
  have "p \<noteq> va_path virt" using Suc.prems [of 0] by simp
  moreover have "p \<noteq> va_path (virt + PAGE_SIZE + PAGE_SIZE * of_nat j)" if "j < n" for j
    using Suc.prems [of "Suc j"] that by (simp add: algebra_simps)
  ultimately show ?case using Suc.IH by (simp add: set_leaf_def)
qed simp

lemma set_range_at:
  assumes "j < n" "n \<le> 2 ^ 27"
  shows "set_range virt phy attrs n (va_path (virt + PAGE_SIZE * of_nat j)) x =
    (if x = 0 then leaf_desc (phy + PAGE_SIZE * of_nat j) attrs else x)"
  using assms
proof (induction n arbitrary: virt phy j x)
  case (Suc n)
  show ?case
  proof (cases j)
    case 0
    have "va_path (virt + PAGE_SIZE * of_nat 0) \<noteq> va_path (virt + PAGE_SIZE + PAGE_SIZE * of_nat l)" if "l < n" for l
      using va_path_distinct [of 0 "Suc l" virt] that Suc.prems(2) by (simp add: algebra_simps)
    then show ?thesis
      using set_range_other [of n "va_path virt" "virt + PAGE_SIZE"] by (simp add: 0 set_leaf_def)
  next
    case (Suc l)
    have "va_path (virt + PAGE_SIZE * of_nat (Suc l)) \<noteq> va_path virt"
      using va_path_distinct [of 0 "Suc l" virt] Suc.prems Suc by simp
    then show ?thesis
      using Suc.IH [of l "virt + PAGE_SIZE" "phy + PAGE_SIZE" x] Suc.prems Suc
      by (simp add: set_leaf_def algebra_simps)
  qed
qed simp

lemma set_range_kept: "x \<noteq> 0 \<Longrightarrow> set_range virt phy attrs n p x = x"
  by (induction n arbitrary: virt phy) (auto simp: set_leaf_def)

section \<open>Walking and clearing\<close>

fun leaf_table :: "bool \<Rightarrow> mem \<Rightarrow> u64 \<Rightarrow> nat list \<Rightarrow> u64 option" where
  "leaf_table b m t [] = None"
| "leaf_table b m t [i] = Some t"
| "leaf_table b m t (i # j # p) = (if entry m t i = 0 then None else leaf_table b m (child b (entry m t i)) (j # p))"

lemma leaf_table_Cons:
  "q \<noteq> [] \<Longrightarrow> leaf_table b m t (i # q) = (if entry m t i = 0 then None else leaf_table b m (child b (entry m t i)) q)"
  by (cases q) auto

lemma lookup_leaf: "lookup b m t p = (case leaf_table b m t p of None \<Rightarrow> 0 | Some l \<Rightarrow> entry m l (last p))"
  by (induction b m t p rule: lookup.induct) (auto split: option.splits)

lemma walk_leaf_table:
  "leaf_table b m t (map (get_pg_entry_index virt) (ls @ [l])) = Some x \<Longrightarrow> walk_layers m virt b ls t = x"
  by (induction ls arbitrary: t) (auto simp: leaf_table_Cons child_def split: if_splits)

lemma leaf_table_in:
  "path_ok k p \<Longrightarrow> leaf_table b m t p = Some l \<Longrightarrow> l \<in> tables b k m t"
proof (induction k arbitrary: t p)
  case 0
  then show ?case by (auto simp: path_ok_def length_Suc_conv)
next
  case (Suc k)
  obtain i q where "p = i # q" "i < 512" "path_ok k q" using path_ok_Suc [OF Suc.prems(1)] by blast
  with Suc path_ok_nonempty show ?case by (fastforce simp: leaf_table_Cons split: if_splits)
qed

lemma edits_clear:
  assumes "pt_wf b k m t" "tables b k m t \<subseteq> U" "path_ok k p" "leaf_table b m t p = Some l"
  shows "edits b k t (clear_leaf p) U U m (store64 m (entry_addr l (last p)) 0)"
  using assms
proof (induction k arbitrary: t p)
  case 0
  then obtain i where p: "p = [i]" "i < 512" by (auto simp: path_ok_def length_Suc_conv)
  with 0 page_eq_store [of t _ i m 0] show ?case
    by (auto simp: edits_def path_ok_def length_Suc_conv clear_leaf_def split: if_splits)
next
  case (Suc k)
  obtain i q where p: "p = i # q" "i < 512" "path_ok k q" using path_ok_Suc [OF Suc.prems(3)] by blast
  have q: "q \<noteq> []" using path_ok_nonempty [OF p(3)] .
  have e: "entry m t i \<noteq> 0" "leaf_table b m (child b (entry m t i)) q = Some l"
    using Suc.prems(4) q by (simp_all add: p(1) leaf_table_Cons split: if_splits)
  have "edits b k (child b (entry m t i)) (clear_leaf q) U U m (store64 m (entry_addr l (last q)) 0)"
    using Suc.IH [of "child b (entry m t i)" q] Suc.prems(1,2) p e by auto
  from edits_up [OF Suc.prems(1) p(2) e(1) Suc.prems(2) this] q show ?case
    by (simp add: below_leaf p(1))
qed

lemma walk_lookup:
  assumes "lookup b m t (va_path virt) \<noteq> 0"
  shows "walk_virt_addr m t virt b = get_phy_addr (lookup b m t (va_path virt))"
proof -
  obtain l where l: "leaf_table b m t (va_path virt) = Some l"
    using assms by (cases "leaf_table b m t (va_path virt)") (simp_all add: lookup_leaf)
  have "va_path virt = map (get_pg_entry_index virt) ([30, 21] @ [12])" by (simp add: va_path_def layers_def)
  with l walk_leaf_table [of b m t virt "[30, 21]" 12 l] have "walk_layers m virt b [30, 21] t = l" by simp
  moreover have "walk_layers m virt b (xs @ [y]) t =
      table_ptr b (get_phy_addr (entry m (walk_layers m virt b xs t) (get_pg_entry_index virt y)))" for xs y
    by (induction xs arbitrary: t) auto
  ultimately have "walk_layers m virt b layers t = table_ptr b (get_phy_addr (entry m l (get_pg_entry_index virt 12)))"
    unfolding layers_def by (metis append_Cons append_Nil)
  then show ?thesis using l by (simp add: walk_virt_addr_def lookup_leaf va_path_def layers_def)
qed

section \<open>Tables still to be made\<close>

fun missing :: "bool \<Rightarrow> mem \<Rightarrow> u64 \<Rightarrow> nat list \<Rightarrow> nat" where
  "missing b m t [] = 0"
| "missing b m t [i] = 0"
| "missing b m t (i # j # q) = (if entry m t i = 0 then Suc (length q) else missing b m (child b (entry m t i)) (j # q))"

lemma missing_Cons:
  "q \<noteq> [] \<Longrightarrow> missing b m t (i # q) = (if entry m t i = 0 then length q else missing b m (child b (entry m t i)) q)"
  by (cases q) auto

lemma missing_le: "missing b m t p \<le> length p - 1"
  by (induction b m t p rule: missing.induct) (auto split: if_splits)

lemma missing_zero: "zero_page p m \<Longrightarrow> path_ok k q \<Longrightarrow> missing b m p q = k"
  by (cases k) (auto simp: zero_page_def path_ok_def length_Suc_conv)

section \<open>The supplier of table pages\<close>

text \<open>
  What the table code needs from the supplier of table pages. \<open>used\<close> is the set of pages it has
  handed out, \<open>avail\<close> how many more it can hand out; it writes no other page than the one it
  returns.
\<close>

locale page_source =
  fixes calloc :: "'a \<Rightarrow> mem \<Rightarrow> (u64 \<times> 'a \<times> mem) option"
    and used :: "'a \<Rightarrow> u64 set"
    and avail :: "'a \<Rightarrow> nat"
    and src_ok :: "'a \<Rightarrow> bool"
    and mmu_on :: bool
  assumes calloc_some: "src_ok a \<Longrightarrow> 0 < avail a \<Longrightarrow>
      \<exists>p a' m'. calloc a m = Some (p, a', m') \<and> p \<noteq> NULL \<and> page_aligned p \<and>
        frame_addr (table_phys mmu_on p) \<and> p \<notin> used a \<and> used a' = insert p (used a) \<and>
        avail a' = avail a - 1 \<and> src_ok a' \<and> zero_page p m' \<and>
        (\<forall>u. page_aligned u \<longrightarrow> u \<noteq> p \<longrightarrow> page_eq u m m')"
    and calloc_none: "src_ok a \<Longrightarrow> avail a = 0 \<Longrightarrow> \<exists>a'. calloc a m = Some (NULL, a', m)"

begin

lemma setup_leaf:
  assumes wf: "pt_wf mmu_on 0 m t" and i: "i = get_pg_entry_index virt 12"
    and d: "d = phy OR attrs OR PTE_TYPE_TABLE OR PTE_BLOCK_AF"
  shows "\<exists>m'. setup_layers calloc phy virt attrs mmu_on [12] t (a, m) = Some (a, m') \<and>
    edits mmu_on 0 t (set_leaf [i] d) U U m m'"
proof -
  let ?m = "if entry m t i = 0 then store64 m (entry_addr t i) d else m"
  have a: "page_aligned t" "i < 512" using wf i get_pg_entry_index_less by auto
  have "setup_layers calloc phy virt attrs mmu_on [12] t (a, m) = Some (a, ?m)"
    by (simp add: i d Let_def)
  moreover have "edits mmu_on 0 t (set_leaf [i] d) U U m ?m"
    using a page_eq_store [OF a(1) _ a(2)]
    by (auto simp: edits_def path_ok_def length_Suc_conv set_leaf_def split: if_splits)
  ultimately show ?thesis by blast
qed

lemma setup_layers_spec:
  assumes "src_ok a" "pt_wf mmu_on k m t" "tables mmu_on k m t \<subseteq> used a"
    "missing mmu_on m t (map (get_pg_entry_index virt) ls) \<le> avail a"
    "ls = ls' @ [12]" "12 \<notin> set ls'" "length ls' = k" "get_phy_addr attrs = 0"
    "d = phy OR attrs OR PTE_TYPE_TABLE OR PTE_BLOCK_AF"
  shows "\<exists>a' m'. setup_layers calloc phy virt attrs mmu_on ls t (a, m) = Some (a', m') \<and>
    src_ok a' \<and> avail a \<le> avail a' + missing mmu_on m t (map (get_pg_entry_index virt) ls) \<and>
    edits mmu_on k t (set_leaf (map (get_pg_entry_index virt) ls) d) (used a) (used a') m m'"
  using assms(1-7)
proof (induction k arbitrary: ls ls' a m t)
  case 0
  then have "ls = [12]" by simp
  moreover obtain m' where "setup_layers calloc phy virt attrs mmu_on [12] t (a, m) = Some (a, m')"
    "edits mmu_on 0 t (set_leaf [get_pg_entry_index virt 12] d) (used a) (used a) m m'"
    using setup_leaf [OF 0(2) refl assms(9)] by blast
  ultimately show ?case using 0(1) by auto
next
  case (Suc k)
  obtain l ls1 where l: "ls' = l # ls1" "length ls1 = k" "12 \<notin> set ls1" "l \<noteq> 12"
    using Suc.prems by (cases ls') auto
  define i where "i = get_pg_entry_index virt l"
  define q where "q = map (get_pg_entry_index virt) (ls1 @ [12])"
  have i: "i < 512" by (simp add: i_def get_pg_entry_index_less)
  have q: "path_ok k q" using l(2) by (auto simp: q_def path_ok_def get_pg_entry_index_less)
  have path: "map (get_pg_entry_index virt) ls = i # q" using Suc.prems(5) l(1) by (simp add: i_def q_def)
  note ms = missing_Cons [OF path_ok_nonempty [OF q], of mmu_on m t i]
  show ?case
  proof (cases "entry m t i = 0")
    case False
    let ?c = "child mmu_on (entry m t i)"
    have "pt_wf mmu_on k m ?c" "tables mmu_on k m ?c \<subseteq> used a" using Suc.prems(2,3) i False by auto
    then obtain a' m' where r: "setup_layers calloc phy virt attrs mmu_on (ls1 @ [12]) ?c (a, m) = Some (a', m')"
      "src_ok a'" "avail a \<le> avail a' + missing mmu_on m ?c q" "edits mmu_on k ?c (set_leaf q d) (used a) (used a') m m'"
      using Suc.IH [of a m ?c "ls1 @ [12]" ls1] Suc.prems(1,4) l ms False unfolding path by (auto simp: q_def)
    have "setup_layers calloc phy virt attrs mmu_on ls t (a, m) = Some (a', m')"
      using r(1) False Suc.prems(5) l(1) by (simp add: Let_def i_def child_def)
    with r edits_up [OF Suc.prems(2) i False Suc.prems(3) r(4)] ms False show ?thesis unfolding path below_leaf by auto
  next
    case True
    have len: "length q = Suc k" using q by (simp add: path_ok_def)
    then have av: "Suc k \<le> avail a" using Suc.prems(4) ms True unfolding path by simp
    obtain p a1 m1 where c: "calloc a m = Some (p, a1, m1)" "p \<noteq> NULL" "page_aligned p"
      "frame_addr (table_phys mmu_on p)" "p \<notin> used a" "used a1 = insert p (used a)"
      "avail a1 = avail a - 1" "src_ok a1" "zero_page p m1"
      "\<And>u. page_aligned u \<Longrightarrow> u \<noteq> p \<Longrightarrow> page_eq u m m1"
      using calloc_some [of a m] Suc.prems(1) av by auto
    define e where "e = table_phys mmu_on p OR attrs OR PTE_TYPE_TABLE OR PTE_BLOCK_AF"
    define m2 where "m2 = store64 m1 (entry_addr t i) e"
    have e: "child mmu_on e = p" "e \<noteq> 0"
      using c(4) by (simp_all add: e_def child_def get_phy_addr_desc [OF assms(8)] frame_addr_def desc_not_0)
    have pn: "p \<notin> tables mmu_on (Suc k) m t" using c(5) Suc.prems(3) by auto
    note n = new_table [OF Suc.prems(2) i True c(3) pn c(9) e c(10) m2_def]
    have sub: "tables mmu_on (Suc k) m2 t \<subseteq> used a1" using n(2) c(6) Suc.prems(3) by auto
    have "entry m2 t i \<noteq> 0" "child mmu_on (entry m2 t i) = p" using n(5) e by auto
    moreover have "pt_wf mmu_on k m2 p" "tables mmu_on k m2 p \<subseteq> used a1"
      using n(1) sub i calculation by auto
    moreover have "zero_page p m2"
      using entry_cong [OF page_eq_store [of t p i m1 e]] c(3,9) pn i pt_wf_aligned [OF Suc.prems(2)] by (auto simp: m2_def zero_page_def)
    then have mk: "missing mmu_on m2 p q = k" using missing_zero [OF _ q] by blast
    moreover have "k \<le> avail a1" using av c(7) by simp
    ultimately obtain a' m' where r: "setup_layers calloc phy virt attrs mmu_on (ls1 @ [12]) p (a1, m2) = Some (a', m')"
      "src_ok a'" "avail a1 \<le> avail a' + missing mmu_on m2 p q" "edits mmu_on k p (set_leaf q d) (used a1) (used a') m2 m'"
      using Suc.IH [of a1 m2 p "ls1 @ [12]" ls1] c(8) l by (auto simp: q_def)
    have al: "is_pointer_aligned p (NOT 0xFFF)"
      using c(3) aligned_page_iff [of p] by (simp add: page_aligned_def PAGE_SIZE_def)
    have run: "setup_layers calloc phy virt attrs mmu_on ls t (a, m) = Some (a', m')"
      using r(1) True Suc.prems(5) l(1,4) c(1,2) al n(5) e(1)
      by (simp add: Let_def i_def child_def m2_def e_def)
    have "edits mmu_on (Suc k) t (set_leaf (i # q) d) (used a1) (used a') m2 m'"
      using r(4) edits_up [OF n(1) i _ sub, of "set_leaf q d", unfolded below_leaf] \<open>entry m2 t i \<noteq> 0\<close> \<open>child mmu_on (entry m2 t i) = p\<close> by simp
    then have "edits mmu_on (Suc k) t (set_leaf (i # q) d) (used a) (used a') m m'"
      using edits_grow [OF _ c(5) pn n(2) n(3,4)] unfolding c(6) by blast
    moreover have "avail a \<le> avail a' + missing mmu_on m t (i # q)" using r(3) c(7) mk ms True len by simp
    ultimately show ?thesis using r(2) run unfolding path by blast
  qed
qed

lemma setup_pg_for_addr_spec:
  assumes "src_ok a" "pt_wf mmu_on 2 m t" "tables mmu_on 2 m t \<subseteq> used a" "missing mmu_on m t (va_path virt) \<le> avail a"
    "get_phy_addr attrs = 0"
  shows "\<exists>a' m'. setup_pg_for_addr calloc t phy virt attrs mmu_on (a, m) = Some (a', m') \<and>
    src_ok a' \<and> avail a \<le> avail a' + missing mmu_on m t (va_path virt) \<and>
    edits mmu_on 2 t (set_leaf (va_path virt) (leaf_desc phy attrs)) (used a) (used a') m m'"
  using setup_layers_spec [OF assms(1-3), of virt layers "[30, 21]" attrs "leaf_desc phy attrs" phy] assms(4,5)
  by (simp add: setup_pg_for_addr_def va_path_def layers_def leaf_desc_def)

lemma single_map_loop_spec:
  assumes "src_ok a" "pt_wf mmu_on 2 m t" "tables mmu_on 2 m t \<subseteq> used a" "2 * n \<le> avail a"
    "get_phy_addr attrs = 0" "unat phy + 4096 * n < 2 ^ 64"
    "0 < n \<Longrightarrow> unat phy + 4096 * (n - 1) < unat end_addr" "unat end_addr \<le> unat phy + 4096 * n"
  shows "\<exists>a' m'. single_map_loop calloc t phy virt end_addr attrs mmu_on (a, m) = Some (a', m') \<and>
    src_ok a' \<and> avail a \<le> avail a' + 2 * n \<and>
    edits mmu_on 2 t (set_range virt phy attrs n) (used a) (used a') m m'"
  using assms(1-4,6-8)
proof (induction n arbitrary: a m phy virt)
  case 0
  then have "\<not> phy < end_addr" by (simp add: word_less_nat_alt)
  then show ?case using 0 by (simp add: single_map_loop.simps edits_def)
next
  case (Suc n)
  obtain a1 m1 where s: "setup_pg_for_addr calloc t phy virt attrs mmu_on (a, m) = Some (a1, m1)"
    "src_ok a1" "avail a \<le> avail a1 + 2"
    "edits mmu_on 2 t (set_leaf (va_path virt) (leaf_desc phy attrs)) (used a) (used a1) m m1"
    using setup_pg_for_addr_spec [OF Suc.prems(1-3) _ assms(5), of virt phy] Suc.prems(4)
      missing_le [of mmu_on m t "va_path virt"] path_ok_va_path [of virt] by (fastforce simp: path_ok_def)
  have u: "unat (phy + PAGE_SIZE) = unat phy + 4096"
    using Suc.prems(5) by (simp add: PAGE_SIZE_def unat_word_ariths)
  have lt: "phy < end_addr" using Suc.prems(6) by (simp add: word_less_nat_alt)
  have "pt_wf mmu_on 2 m1 t" "tables mmu_on 2 m1 t \<subseteq> used a1" using s(4) Suc.prems(3) by (auto simp: edits_def)
  moreover have "0 < n \<Longrightarrow> unat (phy + PAGE_SIZE) + 4096 * (n - 1) < unat end_addr"
    using Suc.prems(6) u by (cases n) auto
  ultimately obtain a' m' where r:
    "single_map_loop calloc t (phy + PAGE_SIZE) (virt + PAGE_SIZE) end_addr attrs mmu_on (a1, m1) = Some (a', m')"
    "src_ok a'" "avail a1 \<le> avail a' + 2 * n"
    "edits mmu_on 2 t (set_range (virt + PAGE_SIZE) (phy + PAGE_SIZE) attrs n) (used a1) (used a') m1 m'"
    using Suc.IH [OF s(2), of m1 "phy + PAGE_SIZE" "virt + PAGE_SIZE"] Suc.prems(4,5,7) s(3) u by auto
  with s(1,3) lt edits_trans [OF s(4) r(4)] show ?case
    by (simp add: single_map_loop.simps [of _ _ phy])
qed

end

section \<open>The page allocator as supplier\<close>

definition kcalloc :: "pages_usage \<Rightarrow> mem \<Rightarrow> (u64 \<times> pages_usage \<times> mem) option" where
  "kcalloc usage m = get_zeroed_pages usage m 0"

definition used_pages :: "pages_usage \<Rightarrow> u64 set" where
  "used_pages usage = page_addr ` {i. i < MAX_NUM_PAGES \<and> usage i \<noteq> 0}"

definition free_count :: "pages_usage \<Rightarrow> nat" where
  "free_count usage = card {i. i < MAX_NUM_PAGES \<and> usage i = 0}"

lemma page_addr_aligned [simp]: "i < MAX_NUM_PAGES \<Longrightarrow> page_aligned (page_addr i)"
  by (simp add: page_aligned_def unat_page_addr pool_layout)

lemma frame_addr_iff: "frame_addr x \<longleftrightarrow> 4096 dvd unat x \<and> unat x < 2 ^ 48"
proof -
  have m: "push_bit 48 1 - 1 = (mask 48 :: u64)" by (simp add: mask_eq_exp_minus_1)
  have g: "get_phy_addr x = take_bit 48 (x AND NOT (PAGE_SIZE - 1))"
    unfolding get_phy_addr_def m by (simp add: take_bit_eq_mask and.assoc)
  have a: "x AND NOT (PAGE_SIZE - 1) = x \<longleftrightarrow> 4096 dvd unat x"
    using aligned_page_iff [of x] by (simp add: is_pointer_aligned_def)
  have t: "take_bit 48 y = y \<longleftrightarrow> unat y < 2 ^ 48" for y :: u64
    by (simp add: word_unat_eq_iff unsigned_take_bit_eq take_bit_nat_eq_self_iff)
  show ?thesis
  proof
    assume "frame_addr x"
    then have "take_bit 48 (x AND NOT (PAGE_SIZE - 1)) = x" using g by (simp add: frame_addr_def)
    then have "bit x n \<Longrightarrow> bit (x AND NOT (PAGE_SIZE - 1)) n \<and> n < 48" for n by (metis bit_take_bit_iff)
    then have "x AND NOT (PAGE_SIZE - 1) = x" "take_bit 48 x = x"
      by (auto simp: bit_eq_iff bit_and_iff bit_take_bit_iff)
    then show "4096 dvd unat x \<and> unat x < 2 ^ 48" using a t by blast
  next
    assume "4096 dvd unat x \<and> unat x < 2 ^ 48"
    then show "frame_addr x" unfolding frame_addr_def g using a t by auto
  qed
qed

lemma frame_addr_add:
  assumes "frame_addr phy" "unat phy + 4096 * n \<le> 2 ^ 48" "j < n"
  shows "frame_addr (phy + PAGE_SIZE * of_nat j)"
proof -
  have "phy + PAGE_SIZE * of_nat j = wd (unat phy + 4096 * j)" by (simp add: PAGE_SIZE_def wd_def)
  moreover have "unat phy + 4096 * j < 2 ^ 48" using assms(2,3) by simp
  ultimately have "unat (phy + PAGE_SIZE * of_nat j) = unat phy + 4096 * j" using unat_wd by simp
  with assms show ?thesis by (simp add: frame_addr_iff)
qed

lemma page_addr_frame [simp]:
  assumes "i < MAX_NUM_PAGES"
  shows "frame_addr (pa (page_addr i))"
proof -
  have "pa (page_addr i) = wd (0x70000000 + 4096 * i)"
    by (simp add: pa_def page_addr_def pool_layout PAGE_OFFSET_val PAGE_SIZE_def wd_def)
  moreover have "0x70000000 + 4096 * i < 2 ^ 48" using assms by (simp add: MAX_NUM_PAGES_val)
  ultimately show ?thesis using unat_wd [of "0x70000000 + 4096 * i"] by (simp add: frame_addr_iff)
qed

lemma zeroed_page:
  assumes "page_aligned p"
  shows "zero_page p (memset m p 0 4096)" "page_aligned u \<Longrightarrow> u \<noteq> p \<Longrightarrow> page_eq u m (memset m p 0 4096)"
proof -
  note b = page_aligned_bound [OF assms]
  have z: "memset m p 0 4096 (wd (unat p + x)) = 0" if "x < 4096" for x
    using that b unat_wd_diff [of "unat p" "unat p + x"] by (simp add: memset_eq)
  show "zero_page p (memset m p 0 4096)"
    unfolding zero_page_def
  proof (intro allI impI)
    fix i :: nat assume i: "i < 512"
    have "load_bytes (memset m p 0 4096) (entry_addr p i) 8 = replicate 8 0"
      using i z [of "8 * i + _"] by (intro nth_equalityI) (simp_all add: load_bytes_def entry_addr_wd wd_simps add.assoc)
    moreover have "of_le (replicate 8 0) = (0 :: u64)" by (simp add: bit_eq_iff bit_of_le)
    ultimately show "entry (memset m p 0 4096) p i = 0" by (simp add: entry_def load64_def)
  qed
  show "page_eq u m (memset m p 0 4096)" if u: "page_aligned u" "u \<noteq> p"
    unfolding page_eq_def mem_eq_on_def
  proof (intro allI impI)
    fix x assume x: "unat u \<le> x \<and> x < unat u + 4096"
    then have "x < 2 ^ 64" using page_aligned_bound [OF u(1)] by linarith
    then have "\<not> unat (wd x - p) < 4096"
      using x page_aligned_apart [OF assms u(1)] u(2) b unat_wd_diff [of "unat p" x] by auto
    then show "m (wd x) = memset m p 0 4096 (wd x)" by (simp add: memset_eq)
  qed
qed

lemma free_count_pos: "0 < free_count usage \<longleftrightarrow> (\<exists>i < MAX_NUM_PAGES. usage i = 0)"
  by (auto simp: free_count_def card_gt_0_iff)

lemma kcalloc_run:
  obtains (found) i where "i < MAX_NUM_PAGES" "usage i = 0" "0 < free_count usage"
    "kcalloc usage m = Some (page_addr i, usage(i := 1), memset m (page_addr i) 0 4096)"
  | (full) "kcalloc usage m = Some (NULL, usage, m)" "free_count usage = 0"
proof -
  have "(0 :: nat) < 31" by simp
  then show thesis
  proof (cases rule: get_free_pages_spec [of 0 usage])
    case (found i)
    have "set_run usage i 1 1 = usage(i := 1)" by (auto simp: set_run_def fun_eq_iff)
    moreover have "usage i = 0" using found(3) by (simp add: free_run_def)
    ultimately show thesis
      using that(1) [of i] found free_count_pos page_addr_facts(3)
      by (auto simp: kcalloc_def get_zeroed_pages_def PAGE_SIZE_def)
  next
    case full
    have "\<not> (\<exists>i < MAX_NUM_PAGES. usage i = 0)"
    proof
      assume "\<exists>i < MAX_NUM_PAGES. usage i = 0"
      then obtain i where "i < MAX_NUM_PAGES" "usage i = 0" by blast
      then show False using full(2) [rule_format, of i] by (auto simp: free_run_def less_Suc_eq)
    qed
    then have "free_count usage = 0" using free_count_pos [of usage] by auto
    then show thesis using that(2) full(1) by (simp add: kcalloc_def get_zeroed_pages_def)
  qed
qed

lemma used_pages_upd:
  assumes "i < MAX_NUM_PAGES"
  shows "used_pages (usage(i := 1)) = insert (page_addr i) (used_pages usage)"
    "used_pages (usage(i := 0)) = used_pages usage - {page_addr i}"
    "page_addr i \<in> used_pages usage \<longleftrightarrow> usage i \<noteq> 0"
proof -
  have "page_addr x = page_addr i \<longleftrightarrow> x = i" if "x < MAX_NUM_PAGES" for x
    using page_addr_eq_iff [of x i] that assms by simp
  then show "used_pages (usage(i := 1)) = insert (page_addr i) (used_pages usage)"
    "used_pages (usage(i := 0)) = used_pages usage - {page_addr i}"
    "page_addr i \<in> used_pages usage \<longleftrightarrow> usage i \<noteq> 0"
    using assms by (auto simp: used_pages_def image_iff) metis+
qed

lemma free_count_upd:
  assumes "i < MAX_NUM_PAGES" "usage i = 0"
  shows "free_count (usage(i := 1)) = free_count usage - 1"
proof -
  have "{j. j < MAX_NUM_PAGES \<and> (usage(i := 1)) j = 0} = {j. j < MAX_NUM_PAGES \<and> usage j = 0} - {i}" by auto
  then show ?thesis using assms by (simp add: free_count_def)
qed

text \<open>The entries of the usage table are 0 or 1.\<close>

definition usage_bits :: "pages_usage \<Rightarrow> bool" where
  "usage_bits usage \<longleftrightarrow> (\<forall>i < MAX_NUM_PAGES. usage i = 0 \<or> usage i = 1)"

lemma kcalloc_law:
  assumes "0 < free_count usage"
  shows "\<exists>p a' m'. kcalloc usage m = Some (p, a', m') \<and> p \<noteq> NULL \<and> page_aligned p \<and>
      frame_addr (table_phys True p) \<and> p \<notin> used_pages usage \<and> used_pages a' = insert p (used_pages usage) \<and>
      free_count a' = free_count usage - 1 \<and> (usage_bits usage \<longrightarrow> usage_bits a') \<and> zero_page p m' \<and>
      (\<forall>u. page_aligned u \<longrightarrow> u \<noteq> p \<longrightarrow> page_eq u m m')"
proof (cases rule: kcalloc_run [of usage m])
  case (found i)
  then show ?thesis
    using page_addr_facts(3) [of i] zeroed_page [where p = "page_addr i" and m = m] used_pages_upd [of i usage]
      free_count_upd [of i usage]
    by (auto simp: table_phys_def usage_bits_def)
next
  case full
  with assms show ?thesis by simp
qed

lemma kcalloc_full: "free_count usage = 0 \<Longrightarrow> \<exists>a'. kcalloc usage m = Some (NULL, a', m)"
  by (cases rule: kcalloc_run [of usage m]) auto

interpretation ktables: page_source kcalloc used_pages free_count "\<lambda>_. True" True
  by unfold_locales (use kcalloc_law kcalloc_full in blast)+

interpretation kbits: page_source kcalloc used_pages free_count usage_bits True
  by unfold_locales (use kcalloc_law kcalloc_full in blast)+

definition free_page :: "pages_usage \<Rightarrow> u64 \<Rightarrow> pages_usage option" where
  "free_page usage p = free_pages usage p 0"

lemma free_page_run:
  assumes "i < MAX_NUM_PAGES" "usage i = 1"
  shows "free_page usage (page_addr i) = Some (usage(i := 0))"
proof -
  have "set_run usage i 1 0 = usage(i := 0)" by (auto simp: set_run_def fun_eq_iff)
  moreover have "used_run usage i 1" using assms(2) by (auto simp: used_run_def less_Suc_eq)
  ultimately show ?thesis using free_pages_run [of 0 i usage] assms(1) by (simp add: free_page_def)
qed

lemma unmap_run:
  assumes "pt_wf True 2 m dir" "leaf_table True m dir (va_path virt) = Some l" "tables True 2 m dir \<subseteq> U"
    "(if lookup True m dir (va_path virt) \<noteq> 0
      then free a (va (get_phy_addr (lookup True m dir (va_path virt)))) else Some a) = Some a'"
  shows "\<exists>m'. unmap_one_user_page free asid dir virt (a, m, tlb) = Some (a', m', tlb @ [(asid, virt)]) \<and>
    edits True 2 dir (clear_leaf (va_path virt)) U U m m'"
proof -
  have p: "va_path virt = map (get_pg_entry_index virt) ([30, 21] @ [12])" by (simp add: va_path_def layers_def)
  have w: "walk_layers m virt True [30, 21] dir = l"
    using walk_leaf_table [of True m dir virt "[30, 21]" 12 l] assms(2) p by simp
  have e: "lookup True m dir (va_path virt) = entry m l (get_pg_entry_index virt 12)"
    using assms(2) by (simp add: lookup_leaf p)
  have "last (va_path virt) = get_pg_entry_index virt 12" by (simp add: p)
  then have "edits True 2 dir (clear_leaf (va_path virt)) U U m (store64 m (entry_addr l (get_pg_entry_index virt 12)) 0)"
    using edits_clear [OF assms(1,3) path_ok_va_path assms(2)] by simp
  moreover have "butlast layers = [30, 21]" "last layers = 12" by (simp_all add: layers_def)
  ultimately show ?thesis
    using assms(4) unfolding unmap_one_user_page_def e by (cases "entry m l (get_pg_entry_index virt 12) = 0") (simp_all add: w Let_def del: walk_layers.simps)
qed

section \<open>Properties\<close>

text \<open>C17. Mapping a range: with two free pages per page to map, \<^verbatim>\<open>add_single_map\<close> on a well-formed
  user directory does not run into its assertion. Afterwards the hardware walk of every
  virtual page of the range that had no mapping yields the corresponding physical page, every
  leaf outside the range is as before (and so is every leaf that was already set), the tables form
  a tree of pages of their own, all of them taken from the page pool, and no other page has been written.\<close>

theorem add_single_map_walks:
  assumes "pt_wf True 2 m dir" "tables True 2 m dir \<subseteq> used_pages usage"
    "2 * n \<le> free_count usage" "n \<le> 2 ^ 27" "get_phy_addr attrs = 0"
    "frame_addr phy" "unat phy + 4096 * n \<le> 2 ^ 48"
  shows "\<exists>usage' m'.
    add_single_map kcalloc \<lparr>map_phy_addr = phy, map_virt_addr = virt, map_size = 4096 * of_nat n, map_attrs = attrs\<rparr>
      dir True (usage, m) = Some (usage', m') \<and>
    pt_wf True 2 m' dir \<and> used_pages usage \<subseteq> used_pages usage' \<and>
    tables True 2 m' dir = tables True 2 m dir \<union> (used_pages usage' - used_pages usage) \<and>
    (\<forall>j < n. lookup True m dir (va_path (virt + PAGE_SIZE * of_nat j)) = 0 \<longrightarrow>
       walk_virt_addr m' dir (virt + PAGE_SIZE * of_nat j) True = phy + PAGE_SIZE * of_nat j) \<and>
    (\<forall>v. (\<forall>j < n. vpn v \<noteq> vpn (virt + PAGE_SIZE * of_nat j)) \<or> lookup True m dir (va_path v) \<noteq> 0 \<longrightarrow>
       lookup True m' dir (va_path v) = lookup True m dir (va_path v)) \<and>
    (\<forall>u. page_aligned u \<longrightarrow> u \<notin> tables True 2 m' dir \<longrightarrow> page_eq u m m')"
proof -
  have e: "unat (phy + 4096 * of_nat n) = unat phy + 4096 * n"
    using assms(7) unat_wd [of "unat phy + 4096 * n"] by (simp add: wd_def)
  obtain usage' m' where r:
    "single_map_loop kcalloc dir phy virt (phy + 4096 * of_nat n) attrs True (usage, m) = Some (usage', m')"
    "edits True 2 dir (set_range virt phy attrs n) (used_pages usage) (used_pages usage') m m'"
    using ktables.single_map_loop_spec [OF TrueI assms(1-3,5), of phy "phy + 4096 * of_nat n" virt] assms(7) e by auto
  have lk: "lookup True m' dir (va_path v) = set_range virt phy attrs n (va_path v) (lookup True m dir (va_path v))" for v
    using r(2) by (simp add: edits_def)
  have "walk_virt_addr m' dir (virt + PAGE_SIZE * of_nat j) True = phy + PAGE_SIZE * of_nat j"
    if j: "j < n" "lookup True m dir (va_path (virt + PAGE_SIZE * of_nat j)) = 0" for j
  proof -
    let ?p = "phy + PAGE_SIZE * of_nat j"
    have l: "lookup True m' dir (va_path (virt + PAGE_SIZE * of_nat j)) = leaf_desc ?p attrs"
      using set_range_at [OF j(1) assms(4)] j(2) by (simp add: lk)
    moreover have "frame_addr ?p" using frame_addr_add assms(6,7) j(1) by simp
    ultimately show ?thesis
      using walk_lookup [of True m' dir "virt + PAGE_SIZE * of_nat j"]
      by (simp add: leaf_desc_def desc_not_0 get_phy_addr_desc [OF assms(5)] frame_addr_def)
  qed
  moreover have "lookup True m' dir (va_path v) = lookup True m dir (va_path v)"
    if "(\<forall>j < n. vpn v \<noteq> vpn (virt + PAGE_SIZE * of_nat j)) \<or> lookup True m dir (va_path v) \<noteq> 0" for v
    using that set_range_other [of n "va_path v" virt] set_range_kept by (auto simp: lk va_path_eq_iff)
  ultimately show ?thesis
    using r by (simp add: add_single_map_def edits_def)
qed

lemma zero_mem_entry: "entry (\<lambda>_. 0) t i = 0"
  by (simp add: entry_def load64_def load_bytes_def bit_eq_iff bit_of_le)

lemma two_free: "2 \<le> free_count ((\<lambda>_. 0)(0 := 1))"
proof -
  have "card {1, 2 :: nat} \<le> free_count ((\<lambda>_. 0)(0 := 1))"
    unfolding free_count_def by (rule card_mono) (auto simp: MAX_NUM_PAGES_val)
  then show ?thesis by simp
qed

theorem add_single_map_walks_witness:
  "\<exists>usage' m'.
    add_single_map kcalloc \<lparr>map_phy_addr = 0x70005000, map_virt_addr = 0x400000, map_size = 4096, map_attrs = PTE_USER\<rparr>
      (page_addr 0) True ((\<lambda>_. 0)(0 := 1), (\<lambda>_. 0)) = Some (usage', m') \<and>
    walk_virt_addr m' (page_addr 0) 0x400000 True = 0x70005000"
proof -
  let ?u = "(\<lambda>_. 0)(0 := 1) :: pages_usage"
  have p: "page_addr 0 \<in> used_pages ?u" "page_aligned (page_addr 0)" by (simp_all add: used_pages_upd MAX_NUM_PAGES_val)
  have a: "pt_wf True 2 (\<lambda>_. 0) (page_addr 0)" "tables True 2 (\<lambda>_. 0) (page_addr 0) \<subseteq> used_pages ?u"
    using p by (simp_all add: numeral_2_eq_2 zero_mem_entry)
  have at: "get_phy_addr PTE_USER = 0" by (rule get_phy_addr_low) (simp add: PTE_USER_def)
  have f: "frame_addr 0x70005000" by (simp add: frame_addr_iff)
  have z: "lookup True (\<lambda>_. 0) (page_addr 0) (va_path 0x400000) = 0"
    using lookup_zero [of "page_addr 0" "\<lambda>_. 0" 2 "va_path 0x400000"] by (simp add: zero_page_def zero_mem_entry)
  from add_single_map_walks [OF a, of 1 PTE_USER "0x70005000" "0x400000"] at f z two_free show ?thesis by auto
qed

text \<open>Unmapping: for a page whose leaf table exists, \<^verbatim>\<open>unmap_one_user_page\<close> gives the mapped page back
  to the pool, clears exactly that leaf, keeps every other mapping and the tree of tables, and
  invalidates the TLB entry; when the page is not mapped, it only invalidates.\<close>

theorem unmap_one_user_page_clears:
  assumes "pt_wf True 2 m dir" "leaf_table True m dir (va_path virt) \<noteq> None"
    "lookup True m dir (va_path virt) \<noteq> 0 \<longrightarrow>
       get_phy_addr (lookup True m dir (va_path virt)) = pa (page_addr i) \<and> i < MAX_NUM_PAGES \<and> usage i = 1"
  shows "\<exists>m'. unmap_one_user_page free_page asid dir virt (usage, m, tlb) =
      Some (if lookup True m dir (va_path virt) \<noteq> 0 then usage(i := 0) else usage, m', tlb @ [(asid, virt)]) \<and>
    pt_wf True 2 m' dir \<and> tables True 2 m' dir = tables True 2 m dir \<and>
    lookup True m' dir (va_path virt) = 0 \<and>
    (\<forall>v. vpn v \<noteq> vpn virt \<longrightarrow> lookup True m' dir (va_path v) = lookup True m dir (va_path v))"
proof -
  obtain l where l: "leaf_table True m dir (va_path virt) = Some l" using assms(2) by blast
  have "(if lookup True m dir (va_path virt) \<noteq> 0
      then free_page usage (va (get_phy_addr (lookup True m dir (va_path virt)))) else Some usage) =
      Some (if lookup True m dir (va_path virt) \<noteq> 0 then usage(i := 0) else usage)"
    using assms(3) by (simp add: free_page_run)
  from unmap_run [where free = free_page and a = usage, OF assms(1) l subset_refl this, of asid tlb] show ?thesis
    by (auto simp: edits_def clear_leaf_def va_path_eq_iff)
qed

theorem unmap_one_user_page_clears_witness:
  "\<exists>usage1 m1 usage2 m2.
    add_single_map kcalloc \<lparr>map_phy_addr = pa (page_addr 9), map_virt_addr = 0x400000, map_size = 4096, map_attrs = PTE_USER\<rparr>
      (page_addr 0) True ((\<lambda>_. 0)(0 := 1), (\<lambda>_. 0)) = Some (usage1, m1) \<and>
    unmap_one_user_page free_page 3 (page_addr 0) 0x400000 (usage1(9 := 1), m1, []) = Some (usage2, m2, [(3, 0x400000)]) \<and>
    usage2 9 = 0 \<and> lookup True m2 (page_addr 0) (va_path 0x400000) = 0"
proof -
  let ?u = "(\<lambda>_. 0)(0 := 1) :: pages_usage" and ?d = "page_addr 0" and ?v = "0x400000 :: u64"
  have p: "page_addr 0 \<in> used_pages ?u" "page_aligned ?d" by (simp_all add: used_pages_upd MAX_NUM_PAGES_val)
  have a: "pt_wf True 2 (\<lambda>_. 0) ?d" "tables True 2 (\<lambda>_. 0) ?d \<subseteq> used_pages ?u"
    using p by (simp_all add: numeral_2_eq_2 zero_mem_entry)
  have at: "get_phy_addr PTE_USER = 0" by (rule get_phy_addr_low) (simp add: PTE_USER_def)
  have f: "frame_addr (pa (page_addr 9))" by (simp add: MAX_NUM_PAGES_val)
  have z: "lookup True (\<lambda>_. 0) ?d (va_path ?v) = 0"
    using lookup_zero [of ?d "\<lambda>_. 0" 2 "va_path ?v"] by (simp add: zero_page_def zero_mem_entry)
  have b: "unat (pa (page_addr 9)) + 4096 * 1 \<le> 2 ^ 48"
    by (simp add: page_addr_def pool_layout pa_def PAGE_OFFSET_val PAGE_SIZE_def)
  obtain u1 m1 where m1: "single_map_loop kcalloc ?d (pa (page_addr 9)) ?v (pa (page_addr 9) + 4096 * of_nat 1) PTE_USER True (?u, (\<lambda>_. 0)) = Some (u1, m1)"
    "edits True 2 ?d (set_range ?v (pa (page_addr 9)) PTE_USER 1) (used_pages ?u) (used_pages u1) (\<lambda>_. 0) m1"
    using ktables.single_map_loop_spec [OF TrueI a, of 1 PTE_USER "pa (page_addr 9)" "pa (page_addr 9) + 4096 * of_nat 1" ?v]
      at two_free by (auto simp: page_addr_def pool_layout pa_def PAGE_OFFSET_val PAGE_SIZE_def)
  have l1: "lookup True m1 ?d (va_path ?v) = leaf_desc (pa (page_addr 9)) PTE_USER" "pt_wf True 2 m1 ?d"
    using m1(2) z by (simp_all add: edits_def set_leaf_def)
  have h: "leaf_table True m1 ?d (va_path ?v) \<noteq> None"
    using l1(1) by (cases "leaf_table True m1 ?d (va_path ?v)") (simp_all add: lookup_leaf leaf_desc_def desc_not_0)
  have g: "get_phy_addr (lookup True m1 ?d (va_path ?v)) = pa (page_addr 9)"
    using f unfolding l1(1) leaf_desc_def get_phy_addr_desc [OF at] by (simp add: frame_addr_def)
  have nz: "lookup True m1 ?d (va_path ?v) \<noteq> 0" by (simp add: l1(1) leaf_desc_def desc_not_0)
  show ?thesis
    using unmap_one_user_page_clears [OF l1(2) h, of 9 "u1(9 := 1)" 3 "[]"] g nz m1(1)
    by (simp add: add_single_map_def MAX_NUM_PAGES_val) (metis fun_upd_same)
qed

end
