(* ===== verification/Vm.thy ===== *)
theory Vm
  imports Page_Table Klist Kthread
begin

text \<open>
  Address spaces: the memory descriptors of \<^verbatim>\<open>include/mm_types.h\<close> and the code of
  \<^verbatim>\<open>kernel/sched.c\<close> that builds, searches and tears down the address space of a task. The
  descriptors are objects of the kernel heap: their addresses come from \<^verbatim>\<open>kmalloc\<close> and go
  back with \<^verbatim>\<open>kfree\<close>, while their fields are kept in one store per structure type, which the
  separation of heap areas justifies; the allocator clears what is freed, so a freed object reads as
  zero. The embedded \<^verbatim>\<open>list_head\<close> of a \<^verbatim>\<open>pages_block\<close> is its first member; that of a
  \<^verbatim>\<open>vm_area_struct\<close> is at offset 64.
\<close>

unbundle bit_operations_syntax

section \<open>Descriptors\<close>

record vm_area_struct =
  vm_start :: u64
  vm_end :: u64
  vm_next :: u64
  vm_prev :: u64
  vm_mm :: u64
  vm_page_prot :: u64
  vm_flags :: u64
  lma :: u64

record mm_struct =
  mmap :: u64
  start_brk :: u64
  brk :: u64

record pages_block =
  user_virt_addr :: u64
  linear_addr :: u64
  order :: nat

definition VM_READ :: u64 where "VM_READ = 1"
definition VM_WRITE :: u64 where "VM_WRITE = 2"
definition VM_EXEC :: u64 where "VM_EXEC = 4"
definition VM_SHARED :: u64 where "VM_SHARED = 8"

definition sizeof_vma :: u64 where "sizeof_vma = 80"
definition sizeof_pages_block :: u64 where "sizeof_pages_block = 40"

definition zero_vma :: vm_area_struct where
  "zero_vma = \<lparr>vm_start = 0, vm_end = 0, vm_next = 0, vm_prev = 0, vm_mm = 0, vm_page_prot = 0,
     vm_flags = 0, lma = 0\<rparr>"

definition zero_mm :: mm_struct where
  "zero_mm = \<lparr>mmap = 0, start_brk = 0, brk = 0\<rparr>"

text \<open>The address of \<^verbatim>\<open>&vma->pages_block_list\<close>.\<close>

definition pages_block_list :: "u64 \<Rightarrow> u64" where
  "pages_block_list vma = vma + 64"

record vmsys =
  vm_sched :: sched
  usage :: pages_usage
  vmem :: mem
  vmas :: "u64 \<Rightarrow> vm_area_struct"
  mms :: "u64 \<Rightarrow> mm_struct"
  pblocks :: "u64 \<Rightarrow> pages_block"
  plinks :: list_links
  tlb_log :: "(int \<times> u64) list"

definition vm_task :: "vmsys \<Rightarrow> task_ptr \<Rightarrow> task_struct" where
  "vm_task s t = task_of (vm_sched s) t"

definition vm_heap :: "vmsys \<Rightarrow> kheap" where
  "vm_heap s = kernel_heap (vm_sched s)"

definition set_heap :: "kheap \<Rightarrow> vmsys \<Rightarrow> vmsys" where
  "set_heap h s = s\<lparr>vm_sched := (vm_sched s)\<lparr>kernel_heap := h\<rparr>\<rparr>"

definition upd_vma :: "u64 \<Rightarrow> (vm_area_struct \<Rightarrow> vm_area_struct) \<Rightarrow> vmsys \<Rightarrow> vmsys" where
  "upd_vma v f s = s\<lparr>vmas := (vmas s)(v := f (vmas s v))\<rparr>"

definition upd_mm :: "u64 \<Rightarrow> (mm_struct \<Rightarrow> mm_struct) \<Rightarrow> vmsys \<Rightarrow> vmsys" where
  "upd_mm p f s = s\<lparr>mms := (mms s)(p := f (mms s p))\<rparr>"

section \<open>Building an address space\<close>

definition setup_vma :: "task_ptr \<Rightarrow> u64 \<Rightarrow> u64 \<Rightarrow> u64 \<Rightarrow> u64 \<Rightarrow> vmsys \<Rightarrow> (int \<times> vmsys) option" where
  "setup_vma t start_addr end_addr flags l s =
    (if t = NoTask then Some (-1, s)
     else do {
       (vma, h) \<leftarrow> kzalloc (vm_heap s) sizeof_vma;
       let s = set_heap h s;
       if vma = NULL then Some (-1, s)
       else
         let s = upd_vma vma (\<lambda>_. zero_vma\<lparr>vm_start := start_addr, vm_end := end_addr, vm_flags := flags, lma := l\<rparr>) s;
             s = s\<lparr>plinks := INIT_LIST_HEAD (pages_block_list vma) (plinks s)\<rparr>;
             p = mm (vm_task s t)
         in if p = NULL then None
            else
              let s = (if mmap (mms s p) \<noteq> NULL then upd_vma (mmap (mms s p)) (\<lambda>v. v\<lparr>vm_prev := vma\<rparr>) s else s);
                  s = upd_vma vma (\<lambda>v. v\<lparr>vm_next := mmap (mms s p), vm_prev := NULL\<rparr>) s
              in Some (0, upd_mm p (\<lambda>m. m\<lparr>mmap := vma\<rparr>) s) })"

partial_function (option) find_vma_loop :: "(u64 \<Rightarrow> vm_area_struct) \<Rightarrow> u64 \<Rightarrow> u64 \<Rightarrow> u64 option" where
  "find_vma_loop vs addr vma =
    (if vma = NULL then Some NULL
     else if vm_start (vs vma) \<le> addr \<and> addr < vm_end (vs vma) then Some vma
     else find_vma_loop vs addr (vm_next (vs vma)))"

definition find_vma :: "vmsys \<Rightarrow> u64 \<Rightarrow> u64 \<Rightarrow> u64 option" where
  "find_vma s p addr = (if p = NULL then Some NULL else find_vma_loop (vmas s) addr (mmap (mms s p)))"

definition add_pages_block :: "u64 \<Rightarrow> u64 \<Rightarrow> u64 \<Rightarrow> nat \<Rightarrow> vmsys \<Rightarrow> (int \<times> vmsys) option" where
  "add_pages_block vma user linear ord s =
    (if vma = NULL \<or> user = NULL \<or> linear = NULL then Some (-1, s)
     else do {
       (pb, h) \<leftarrow> kmalloc (vm_heap s) sizeof_pages_block;
       let s = set_heap h s;
       if pb = NULL then Some (-1, s)
       else Some (0, s\<lparr>pblocks := (pblocks s)(pb := \<lparr>user_virt_addr = user, linear_addr = linear, order = ord\<rparr>),
                       plinks := list_add_tail pb (pages_block_list vma) (plinks s)\<rparr>) })"

definition user_attrs :: "bool \<Rightarrow> u64" where
  "user_attrs rdonly =
    (let attrs = PTE_BLOCK_MEMTYPE MT_NORMAL OR PTE_USER OR PTE_BLOCK_INNER_SHARE OR PTE_BLOCK_NG
     in if rdonly then attrs OR PTE_RDONLY else attrs)"

definition setup_user_page_mapping :: "u64 \<Rightarrow> u64 \<Rightarrow> u64 \<Rightarrow> u64 \<Rightarrow> bool \<Rightarrow> vmsys \<Rightarrow> vmsys option" where
  "setup_user_page_mapping dir virt phy sz rdonly s =
    (if dir = NULL then Some s
     else if phy = -1 then Some s
     else do {
       (u, m) \<leftarrow> add_single_map kcalloc
         \<lparr>map_phy_addr = phy, map_virt_addr = virt, map_size = sz, map_attrs = user_attrs rdonly\<rparr>
         dir True (usage s, vmem s);
       Some (s\<lparr>usage := u, vmem := m\<rparr>) })"

partial_function (option) page_mappings_loop :: "u64 \<Rightarrow> u64 \<Rightarrow> vmsys \<Rightarrow> vmsys option" where
  "page_mappings_loop dir vma s =
    (if vma = NULL then Some s
     else do {
       s' \<leftarrow> setup_user_page_mapping dir (vm_start (vmas s vma)) (lma (vmas s vma))
         (vm_end (vmas s vma) - vm_start (vmas s vma)) (vm_flags (vmas s vma) AND VM_WRITE = 0) s;
       page_mappings_loop dir (vm_next (vmas s' vma)) s' })"

definition setup_user_page_mappings :: "task_ptr \<Rightarrow> vmsys \<Rightarrow> vmsys option" where
  "setup_user_page_mappings t s =
    (if t = NoTask then Some s
     else if mm (vm_task s t) = NULL then None
     else page_mappings_loop (pg_dir (vm_task s t)) (mmap (mms s (mm (vm_task s t)))) s)"

partial_function (option) unmap_loop ::
  "int \<Rightarrow> u64 \<Rightarrow> u64 \<Rightarrow> u64 \<Rightarrow> pages_usage \<times> mem \<times> (int \<times> u64) list \<Rightarrow>
   (pages_usage \<times> mem \<times> (int \<times> u64) list) option" where
  "unmap_loop asid dir addr addr_end s =
    (if addr < addr_end then do {
       s \<leftarrow> unmap_one_user_page free_page asid dir addr s;
       unmap_loop asid dir (addr + PAGE_SIZE) addr_end s }
     else Some s)"

text \<open>\<^verbatim>\<open>unmap_one_user_page\<close> always returns 0.\<close>

definition unmap_user_page_mapping :: "int \<Rightarrow> u64 \<Rightarrow> u64 \<Rightarrow> u64 \<Rightarrow> vmsys \<Rightarrow> (int \<times> vmsys) option" where
  "unmap_user_page_mapping asid dir virt sz s =
    (if dir = NULL then Some (-1, s)
     else if virt = NULL \<or> \<not> is_pointer_aligned sz (NOT (PAGE_SIZE - 1)) then Some (-1, s)
     else do {
       (u, m, tlb) \<leftarrow> unmap_loop asid dir virt (virt + sz) (usage s, vmem s, tlb_log s);
       Some (0, s\<lparr>usage := u, vmem := m, tlb_log := tlb\<rparr>) })"

section \<open>Tearing down an address space\<close>

definition NUM_ENTRY_PER_PAGE :: nat where
  "NUM_ENTRY_PER_PAGE = 512"

definition free_page_tables_layer1 :: "mem \<Rightarrow> u64 \<Rightarrow> pages_usage \<Rightarrow> pages_usage option" where
  "free_page_tables_layer1 m pt u =
    (if pt = NULL then Some u
     else do {
       u \<leftarrow> fold_opt (\<lambda>i u. if entry m pt i \<noteq> 0 then free_page u (va (get_phy_addr (entry m pt i))) else Some u)
         [0..<NUM_ENTRY_PER_PAGE] u;
       free_page u pt })"

definition free_page_tables :: "mem \<Rightarrow> u64 \<Rightarrow> pages_usage \<Rightarrow> pages_usage option" where
  "free_page_tables m dir u =
    (if dir = NULL then Some u
     else do {
       u \<leftarrow> fold_opt (\<lambda>i u. if entry m dir i \<noteq> 0 then free_page_tables_layer1 m (va (get_phy_addr (entry m dir i))) u
           else Some u) [0..<NUM_ENTRY_PER_PAGE] u;
       free_page u dir })"

definition free_pages_blocks :: "u64 \<Rightarrow> vmsys \<Rightarrow> vmsys option" where
  "free_pages_blocks vma s =
    (if vma = NULL then Some s
     else list_for_each_entry plinks
       (\<lambda>pb s. do { u \<leftarrow> free_pages (usage s) (linear_addr (pblocks s pb)) (order (pblocks s pb)); Some (s\<lparr>usage := u\<rparr>) })
       (pages_block_list vma) (lnext (plinks s) (pages_block_list vma)) s)"

text \<open>Releasing a descriptor: \<^verbatim>\<open>kfree\<close> clears it.\<close>

definition kfree_vma :: "u64 \<Rightarrow> vmsys \<Rightarrow> vmsys option" where
  "kfree_vma v s = do { h \<leftarrow> kfree (vm_heap s) v; Some (upd_vma v (\<lambda>_. zero_vma) (set_heap h s)) }"

definition kfree_mm :: "u64 \<Rightarrow> vmsys \<Rightarrow> vmsys option" where
  "kfree_mm p s = do { h \<leftarrow> kfree (vm_heap s) p; Some (upd_mm p (\<lambda>_. zero_mm) (set_heap h s)) }"

partial_function (option) exit_mm_loop :: "u64 \<Rightarrow> vmsys \<Rightarrow> vmsys option" where
  "exit_mm_loop vma s =
    (if vma = NULL then Some s
     else do {
       let vma_dummy = vm_next (vmas s vma);
       s' \<leftarrow> (if vm_flags (vmas s vma) AND VM_SHARED = 0 then free_pages_blocks vma s else Some s);
       s'' \<leftarrow> kfree_vma vma s';
       exit_mm_loop vma_dummy s'' })"

definition exit_mm :: "task_ptr \<Rightarrow> vmsys \<Rightarrow> vmsys option" where
  "exit_mm t s =
    (if t = NoTask then Some s
     else if mm (vm_task s t) = NULL then Some s
     else do {
       s \<leftarrow> exit_mm_loop (mmap (mms s (mm (vm_task s t)))) s;
       s \<leftarrow> kfree_mm (mm (vm_task s t)) s;
       u \<leftarrow> free_page_tables (vmem s) (pg_dir (vm_task s t)) (usage s);
       Some (s\<lparr>usage := u\<rparr>) })"

definition do_exit :: "vmsys \<Rightarrow> vmsys option" where
  "do_exit s = do {
     let t = get_current_proc (vm_sched s);
     s \<leftarrow> exit_mm t s;
     let s = s\<lparr>vm_sched := upd_task t (\<lambda>k. k\<lparr>state := STOPPED\<rparr>) (vm_sched s)\<rparr>;
     sc \<leftarrow> schedule (vm_sched s);
     Some (s\<lparr>vm_sched := sc\<rparr>) }"

section \<open>Releasing pages\<close>

definition release :: "pages_usage \<Rightarrow> u64 set \<Rightarrow> pages_usage" where
  "release u S = (\<lambda>i. if i < MAX_NUM_PAGES \<and> page_addr i \<in> S then 0 else u i)"

definition owned :: "pages_usage \<Rightarrow> u64 set \<Rightarrow> bool" where
  "owned u S \<longleftrightarrow> (\<forall>p \<in> S. \<exists>i < MAX_NUM_PAGES. p = page_addr i \<and> u i = 1)"

definition block_pages :: "pages_block \<Rightarrow> u64 set" where
  "block_pages b = (\<lambda>j. linear_addr b + PAGE_SIZE * of_nat j) ` {..<2 ^ order b}"

definition block_ok :: "pages_block \<Rightarrow> bool" where
  "block_ok b \<longleftrightarrow> order b < 31 \<and> (\<exists>a. linear_addr b = page_addr a \<and> a + 2 ^ order b \<le> MAX_NUM_PAGES)"

lemma release_empty [simp]: "release u {} = u"
  by (simp add: release_def)

lemma release_release: "release (release u S) T = release u (S \<union> T)"
  by (auto simp: release_def fun_eq_iff)

lemma owned_mono: "owned u T \<Longrightarrow> S \<subseteq> T \<Longrightarrow> owned u S"
  by (auto simp: owned_def)

lemma owned_release: "owned u S \<Longrightarrow> S \<inter> T = {} \<Longrightarrow> owned (release u T) S"
  by (fastforce simp: owned_def release_def)

lemma used_pages_release: "used_pages (release u S) = used_pages u - S"
  by (auto simp: used_pages_def release_def)

lemma owned_iff:
  assumes "usage_bits u"
  shows "owned u S \<longleftrightarrow> S \<subseteq> used_pages u"
proof
  assume "S \<subseteq> used_pages u"
  then show "owned u S" using assms by (fastforce simp: owned_def used_pages_def usage_bits_def)
qed (auto simp: owned_def used_pages_def)

lemma free_page_owned:
  assumes "owned u {p}"
  shows "free_page u p = Some (release u {p})" "p \<noteq> NULL"
proof -
  obtain i where i: "i < MAX_NUM_PAGES" "p = page_addr i" "u i = 1" using assms by (auto simp: owned_def)
  have "u(i := 0) = release u {p}"
  proof
    fix j
    show "(u(i := 0)) j = release u {p} j"
      using i page_addr_eq_iff [of j i] by (auto simp: release_def)
  qed
  then show "free_page u p = Some (release u {p})" using free_page_run [of i u] i by simp
  show "p \<noteq> NULL" using page_addr_facts(3) [OF i(1)] i(2) by simp
qed

lemma page_addr_add: "page_addr a + PAGE_SIZE * of_nat j = page_addr (a + j)"
  by (simp add: page_addr_def algebra_simps)

lemma free_block_owned:
  assumes "block_ok b" "owned u (block_pages b)"
  shows "free_pages u (linear_addr b) (order b) = Some (release u (block_pages b))"
proof -
  obtain a where a: "linear_addr b = page_addr a" "a + 2 ^ order b \<le> MAX_NUM_PAGES" "order b < 31"
    using assms(1) by (auto simp: block_ok_def)
  have bp: "block_pages b = page_addr ` {a..<a + 2 ^ order b}"
  proof -
    have "(\<lambda>j. a + j) ` {..<2 ^ order b} = {a..<a + 2 ^ order b}"
      using image_add_atLeastLessThan [of a 0 "2 ^ order b"] by (simp add: lessThan_atLeast0 add.commute)
    then show ?thesis unfolding block_pages_def a(1) page_addr_add by (metis image_image)
  qed
  have inj: "page_addr i = page_addr j \<longleftrightarrow> i = j" if "i < MAX_NUM_PAGES" "j < MAX_NUM_PAGES" for i j
    using that by (simp add: page_addr_eq_iff)
  have "used_run u a (2 ^ order b)"
    unfolding used_run_def
  proof (intro allI impI)
    fix i assume i: "a \<le> i \<and> i < a + 2 ^ order b"
    then have "page_addr i \<in> block_pages b" unfolding bp by auto
    then obtain j where "j < MAX_NUM_PAGES" "page_addr i = page_addr j" "u j = 1"
      using assms(2) by (auto simp: owned_def)
    then show "u i = 1" using inj [of i j] i a(2) by simp
  qed
  moreover have "set_run u a (2 ^ order b) 0 = release u (block_pages b)"
  proof
    fix i
    have "page_addr i \<in> block_pages b \<longleftrightarrow> a \<le> i \<and> i < a + 2 ^ order b" if "i < MAX_NUM_PAGES"
    proof
      assume "page_addr i \<in> block_pages b"
      then obtain j where "page_addr i = page_addr j" "a \<le> j" "j < a + 2 ^ order b" unfolding bp by auto
      with inj [OF that, of j] a(2) show "a \<le> i \<and> i < a + 2 ^ order b" by simp
    qed (auto simp: bp)
    then show "set_run u a (2 ^ order b) 0 i = release u (block_pages b) i"
      using a(2) by (auto simp: set_run_def release_def)
  qed
  ultimately show ?thesis using free_pages_run [OF a(3,2)] a(1) by simp
qed

text \<open>A loop that releases one set of pages per round.\<close>

lemma fold_release:
  assumes "\<And>x u. x \<in> set xs \<Longrightarrow> owned u (S x) \<Longrightarrow> f x u = Some (release u (S x))"
    "\<And>x y. x \<in> set xs \<Longrightarrow> y \<in> set xs \<Longrightarrow> x \<noteq> y \<Longrightarrow> S x \<inter> S y = {}" "distinct xs"
    "owned u (\<Union>x \<in> set xs. S x)"
  shows "fold_opt f xs u = Some (release u (\<Union>x \<in> set xs. S x))"
  using assms
proof (induction xs arbitrary: u)
  case (Cons x xs)
  have d: "S x \<inter> (\<Union>y \<in> set xs. S y) = {}" using Cons.prems(2) [of x] Cons.prems(3) by auto
  have "f x u = Some (release u (S x))" using Cons.prems(1) [of x] Cons.prems(4) by (auto intro: owned_mono)
  moreover have "fold_opt f xs (release u (S x)) = Some (release (release u (S x)) (\<Union>y \<in> set xs. S y))"
  proof (rule Cons.IH)
    show "owned (release u (S x)) (\<Union>y \<in> set xs. S y)"
      using Cons.prems(4) d by (auto intro!: owned_release intro: owned_mono)
  qed (use Cons.prems in auto)
  ultimately show ?case by (simp add: release_release)
qed simp

section \<open>Releasing page tables\<close>

lemma child_True: "va (get_phy_addr d) = child True d"
  by (simp add: child_def table_ptr_def)

lemma free_layer1_spec:
  assumes wf: "pt_wf True 1 m pt" and ow: "owned u (tables True 1 m pt)"
  shows "free_page_tables_layer1 m pt u = Some (release u (tables True 1 m pt))"
proof -
  let ?S = "\<lambda>i. if entry m pt i \<noteq> 0 then {child True (entry m pt i)} else {}"
  have T: "tables True 1 m pt = insert pt (\<Union>i \<in> set [0..<512]. ?S i)" by auto
  have w: "pt \<notin> (\<Union>i \<in> set [0..<512]. ?S i)" using wf by auto
  have "fold_opt (\<lambda>i u. if entry m pt i \<noteq> 0 then free_page u (child True (entry m pt i)) else Some u)
      [0..<512] u = Some (release u (\<Union>i \<in> set [0..<512]. ?S i))"
  proof (rule fold_release)
    show "owned u (\<Union>i \<in> set [0..<512]. ?S i)" using ow T by (auto intro: owned_mono)
  qed (use wf in \<open>auto simp: free_page_owned\<close>)
  moreover have "owned (release u (\<Union>i \<in> set [0..<512]. ?S i)) {pt}"
    using ow w T by (intro owned_release) (auto intro: owned_mono)
  ultimately show ?thesis
    using free_page_owned [of _ pt]
    unfolding T free_page_tables_layer1_def NUM_ENTRY_PER_PAGE_def child_True by (simp add: release_release)
qed

lemma pt_wf_SucD:
  assumes "pt_wf b (Suc k) m t" "i < 512" "entry m t i \<noteq> 0"
  shows "pt_wf b k m (child b (entry m t i))" "t \<notin> tables b k m (child b (entry m t i))"
    "j < 512 \<Longrightarrow> i \<noteq> j \<Longrightarrow> entry m t j \<noteq> 0 \<Longrightarrow>
     tables b k m (child b (entry m t i)) \<inter> tables b k m (child b (entry m t j)) = {}"
  using assms by auto

lemma free_page_tables_spec:
  assumes wf: "pt_wf True 2 m dir" and ow: "owned u (tables True 2 m dir)"
  shows "free_page_tables m dir u = Some (release u (tables True 2 m dir))"
proof -
  let ?S = "\<lambda>i. if entry m dir i \<noteq> 0 then tables True 1 m (child True (entry m dir i)) else {}"
  have wf2: "pt_wf True (Suc 1) m dir" using wf by (simp only: Suc_1)
  have w: "pt_wf True 1 m (child True (entry m dir i))" "dir \<notin> tables True 1 m (child True (entry m dir i))"
    if "i < 512" "entry m dir i \<noteq> 0" for i
    using pt_wf_SucD(1,2) [OF wf2 that] by simp_all
  have d: "?S i \<inter> ?S j = {}" if "i < 512" "j < 512" "i \<noteq> j" for i j
    using pt_wf_SucD(3) [OF wf2 that(1) _ that(2,3)] by auto
  have "tables True 2 m dir = insert dir (\<Union>i \<in> {i. i < 512 \<and> entry m dir i \<noteq> 0}. tables True 1 m (child True (entry m dir i)))"
    using tables.simps(2) [of True 1 m dir] by (simp only: Suc_1)
  then have T: "tables True 2 m dir = insert dir (\<Union>i \<in> set [0..<512]. ?S i)"
    by (auto split: if_splits)
  have n: "dir \<notin> (\<Union>i \<in> set [0..<512]. ?S i)" using w by auto
  have "fold_opt (\<lambda>i u. if entry m dir i \<noteq> 0 then free_page_tables_layer1 m (child True (entry m dir i)) u else Some u)
      [0..<512] u = Some (release u (\<Union>i \<in> set [0..<512]. ?S i))"
  proof (rule fold_release)
    show "owned u (\<Union>i \<in> set [0..<512]. ?S i)" using ow T by (auto intro: owned_mono)
    show "?S i \<inter> ?S j = {}" if "i \<in> set [0..<512]" "j \<in> set [0..<512]" "i \<noteq> j" for i j using d that by simp
    show "(if entry m dir i \<noteq> 0 then free_page_tables_layer1 m (child True (entry m dir i)) v else Some v) =
        Some (release v (?S i))" if "i \<in> set [0..<512]" "owned v (?S i)" for i v
    proof (cases "entry m dir i = 0")
      case False
      then have "owned v (tables True 1 m (child True (entry m dir i)))" using that(2) by (simp del: One_nat_def)
      moreover have "i < 512" using that(1) by simp
      ultimately have "free_page_tables_layer1 m (child True (entry m dir i)) v =
          Some (release v (tables True 1 m (child True (entry m dir i))))"
        using free_layer1_spec w(1) False by blast
      then show ?thesis using False by (simp del: One_nat_def)
    qed simp
  qed simp
  moreover have "owned (release u (\<Union>i \<in> set [0..<512]. ?S i)) {dir}"
    using ow n T by (intro owned_release) (auto intro: owned_mono)
  ultimately show ?thesis
    using free_page_owned [of _ dir]
    unfolding T free_page_tables_def NUM_ENTRY_PER_PAGE_def child_True
    by (simp add: release_release del: One_nat_def)
qed

section \<open>The areas of an address space\<close>

text \<open>The chain of areas of a descriptor, and the page blocks of its private areas.\<close>

fun vchain :: "(u64 \<Rightarrow> vm_area_struct) \<Rightarrow> u64 \<Rightarrow> u64 list \<Rightarrow> bool" where
  "vchain f a [] \<longleftrightarrow> a = NULL"
| "vchain f a (v # vs) \<longleftrightarrow> a = v \<and> v \<noteq> NULL \<and> vchain f (vm_next (f v)) vs"

definition private_vma :: "(u64 \<Rightarrow> vm_area_struct) \<Rightarrow> u64 \<Rightarrow> bool" where
  "private_vma f v \<longleftrightarrow> vm_flags (f v) AND VM_SHARED = 0"

fun private_blocks :: "(u64 \<Rightarrow> vm_area_struct) \<Rightarrow> (u64 \<Rightarrow> u64 list) \<Rightarrow> u64 list \<Rightarrow> u64 list" where
  "private_blocks f bl [] = []"
| "private_blocks f bl (v # vs) = (if private_vma f v then bl v else []) @ private_blocks f bl vs"

definition blocks_apart :: "(u64 \<Rightarrow> pages_block) \<Rightarrow> u64 list \<Rightarrow> bool" where
  "blocks_apart pb bs \<longleftrightarrow> distinct bs \<and> (\<forall>b \<in> set bs. block_ok (pb b)) \<and>
    (\<forall>b \<in> set bs. \<forall>c \<in> set bs. b \<noteq> c \<longrightarrow> block_pages (pb b) \<inter> block_pages (pb c) = {})"

definition blocks_pages :: "(u64 \<Rightarrow> pages_block) \<Rightarrow> u64 list \<Rightarrow> u64 set" where
  "blocks_pages pb bs = (\<Union>b \<in> set bs. block_pages (pb b))"

lemma vchain_cong:
  "(\<And>v. v \<in> set vs \<Longrightarrow> vm_next (g v) = vm_next (f v)) \<Longrightarrow> vchain g a vs = vchain f a vs"
  by (induction vs arbitrary: a) auto

lemma private_blocks_cong:
  "(\<And>v. v \<in> set vs \<Longrightarrow> vm_flags (g v) = vm_flags (f v)) \<Longrightarrow> private_blocks g bl vs = private_blocks f bl vs"
  by (induction vs) (auto simp: private_vma_def)

lemma blocks_apart_append: "blocks_apart pb (xs @ ys) \<Longrightarrow> blocks_apart pb xs \<and> blocks_apart pb ys"
  by (auto simp: blocks_apart_def)

lemma blocks_pages_append [simp]: "blocks_pages pb (xs @ ys) = blocks_pages pb xs \<union> blocks_pages pb ys"
  by (auto simp: blocks_pages_def)

lemma blocks_pages_disjoint:
  assumes "blocks_apart pb (xs @ ys)"
  shows "blocks_pages pb xs \<inter> blocks_pages pb ys = {}"
proof -
  have "block_pages (pb b) \<inter> block_pages (pb c) = {}" if "b \<in> set xs" "c \<in> set ys" for b c
  proof -
    have "b \<noteq> c" "b \<in> set (xs @ ys)" "c \<in> set (xs @ ys)" using assms that by (auto simp: blocks_apart_def)
    then show ?thesis using assms unfolding blocks_apart_def by blast
  qed
  then show ?thesis unfolding blocks_pages_def by blast
qed

section \<open>Leaving an address space\<close>

lemma vm_simps [simp]:
  "vm_heap (set_heap h s) = h" "usage (set_heap h s) = usage s" "vmem (set_heap h s) = vmem s"
  "vmas (set_heap h s) = vmas s" "mms (set_heap h s) = mms s" "pblocks (set_heap h s) = pblocks s"
  "plinks (set_heap h s) = plinks s" "tlb_log (set_heap h s) = tlb_log s"
  "vm_sched (set_heap h s) = (vm_sched s)\<lparr>kernel_heap := h\<rparr>"
  "vm_heap (upd_vma v f s) = vm_heap s" "usage (upd_vma v f s) = usage s" "vmem (upd_vma v f s) = vmem s"
  "vmas (upd_vma v f s) = (vmas s)(v := f (vmas s v))" "mms (upd_vma v f s) = mms s"
  "pblocks (upd_vma v f s) = pblocks s" "plinks (upd_vma v f s) = plinks s" "tlb_log (upd_vma v f s) = tlb_log s"
  "vm_sched (upd_vma v f s) = vm_sched s"
  "vm_heap (upd_mm q g s) = vm_heap s" "usage (upd_mm q g s) = usage s" "vmem (upd_mm q g s) = vmem s"
  "vmas (upd_mm q g s) = vmas s" "mms (upd_mm q g s) = (mms s)(q := g (mms s q))"
  "pblocks (upd_mm q g s) = pblocks s" "plinks (upd_mm q g s) = plinks s" "tlb_log (upd_mm q g s) = tlb_log s"
  "vm_sched (upd_mm q g s) = vm_sched s"
  "vm_heap (s\<lparr>usage := u\<rparr>) = vm_heap s" "vm_heap (s\<lparr>vmem := m\<rparr>) = vm_heap s"
  "vm_heap (s\<lparr>plinks := l\<rparr>) = vm_heap s" "vm_heap (s\<lparr>pblocks := pb\<rparr>) = vm_heap s"
  "vm_heap (s\<lparr>tlb_log := tlb\<rparr>) = vm_heap s"
  by (simp_all add: set_heap_def upd_vma_def upd_mm_def vm_heap_def)

lemma fold_usage:
  "fold_opt (\<lambda>pb s. do { u \<leftarrow> g (pblocks s pb) (usage s); Some (s\<lparr>usage := u\<rparr>) }) bs s =
    map_option (\<lambda>u. s\<lparr>usage := u\<rparr>) (fold_opt (\<lambda>pb u. g (pblocks s pb) u) bs (usage s))"
proof (induction bs arbitrary: s)
  case (Cons b bs)
  show ?case
  proof (cases "g (pblocks s b) (usage s)")
    case (Some u)
    then show ?thesis using Cons [of "s\<lparr>usage := u\<rparr>"] by (simp add: option.map_comp o_def)
  qed simp
qed simp

lemma free_pages_blocks_spec:
  assumes "vma \<noteq> NULL" "is_list (plinks s) (pages_block_list vma) bs" "blocks_apart (pblocks s) bs"
    "owned (usage s) (blocks_pages (pblocks s) bs)"
  shows "free_pages_blocks vma s = Some (s\<lparr>usage := release (usage s) (blocks_pages (pblocks s) bs)\<rparr>)"
proof -
  let ?g = "\<lambda>b u. free_pages u (linear_addr b) (order b)"
  have "fold_opt (\<lambda>pb. ?g (pblocks s pb)) bs (usage s) = Some (release (usage s) (blocks_pages (pblocks s) bs))"
    unfolding blocks_pages_def
  proof (rule fold_release)
    show "?g (pblocks s pb) u = Some (release u (block_pages (pblocks s pb)))"
      if "pb \<in> set bs" "owned u (block_pages (pblocks s pb))" for pb u
      using free_block_owned that assms(3) by (auto simp: blocks_apart_def)
  qed (use assms(3,4) in \<open>auto simp: blocks_apart_def blocks_pages_def\<close>)
  moreover have "free_pages_blocks vma s =
      fold_opt (\<lambda>pb s. do { u \<leftarrow> ?g (pblocks s pb) (usage s); Some (s\<lparr>usage := u\<rparr>) }) bs s"
    unfolding free_pages_blocks_def using assms(1,2)
    by (subst is_list_first [OF assms(2)])
      (auto intro!: list_for_each_entry_fold [where ys = "[]"] elim!: option_bind_SomeE)
  ultimately show ?thesis using fold_usage [of ?g bs s] by simp
qed

lemma kfree_vma_spec:
  assumes "kheap_inv (vm_heap s)" "(unat v, n) \<in> allocs (vm_heap s)"
  shows "\<exists>h. kfree_vma v s = Some (upd_vma v (\<lambda>_. zero_vma) (set_heap h s)) \<and> kheap_inv h \<and>
    allocs h = allocs (vm_heap s) - {(unat v, n)}"
  using kfree_run [OF assms] by (auto simp: kfree_vma_def)

text \<open>The states before and after agree but for the pages, the heap and the areas given back.\<close>

definition torn_down :: "u64 set \<Rightarrow> u64 set \<Rightarrow> vmsys \<Rightarrow> vmsys \<Rightarrow> bool" where
  "torn_down P V s s' \<longleftrightarrow>
    usage s' = release (usage s) P \<and> kheap_inv (vm_heap s') \<and>
    allocs (vm_heap s') = allocs (vm_heap s) - (\<lambda>v. (unat v, 80)) ` V \<and>
    vmas s' = (\<lambda>v. if v \<in> V then zero_vma else vmas s v) \<and>
    vm_sched s' = (vm_sched s)\<lparr>kernel_heap := vm_heap s'\<rparr> \<and> vmem s' = vmem s \<and> mms s' = mms s \<and>
    pblocks s' = pblocks s \<and> plinks s' = plinks s \<and> tlb_log s' = tlb_log s"

lemma exit_mm_loop_spec:
  assumes "kheap_inv (vm_heap s)" "vchain (vmas s) a vs" "distinct vs"
    "\<forall>v \<in> set vs. (unat v, 80) \<in> allocs (vm_heap s) \<and> is_list (plinks s) (pages_block_list v) (bl v)"
    "blocks_apart (pblocks s) (private_blocks (vmas s) bl vs)"
    "owned (usage s) (blocks_pages (pblocks s) (private_blocks (vmas s) bl vs))"
  shows "\<exists>s'. exit_mm_loop a s = Some s' \<and>
    torn_down (blocks_pages (pblocks s) (private_blocks (vmas s) bl vs)) (set vs) s s'"
  using assms
proof (induction vs arbitrary: a s)
  case Nil
  have "(vm_sched s)\<lparr>kernel_heap := vm_heap s\<rparr> = vm_sched s" by (simp add: vm_heap_def)
  then have "torn_down (blocks_pages (pblocks s) (private_blocks (vmas s) bl [])) (set []) s s"
    using Nil(1) unfolding torn_down_def by (simp add: blocks_pages_def)
  moreover have "exit_mm_loop a s = Some s" using Nil(2) by (subst exit_mm_loop.simps) simp
  ultimately show ?case by blast
next
  case (Cons v vs)
  let ?bs = "if private_vma (vmas s) v then bl v else []"
  define P where "P = blocks_pages (pblocks s) ?bs"
  define s1 where "s1 = s\<lparr>usage := release (usage s) P\<rparr>"
  have v: "a = v" "v \<noteq> NULL" "v \<notin> set vs" using Cons.prems by auto
  note ap = blocks_apart_append [OF Cons.prems(5) [unfolded private_blocks.simps]]
  have s1: "(if vm_flags (vmas s v) AND VM_SHARED = 0 then free_pages_blocks v s else Some s) = Some s1"
  proof (cases "private_vma (vmas s) v")
    case True
    then have "blocks_apart (pblocks s) (bl v)" "owned (usage s) (blocks_pages (pblocks s) (bl v))"
      "is_list (plinks s) (pages_block_list v) (bl v)"
      using ap Cons.prems(4,6) by (auto intro: owned_mono)
    from free_pages_blocks_spec [OF v(2) this(3,1,2)] True show ?thesis
      by (simp add: private_vma_def s1_def P_def)
  next
    case False
    then show ?thesis by (simp add: private_vma_def s1_def P_def blocks_pages_def)
  qed
  obtain h where h: "kfree_vma v s1 = Some (upd_vma v (\<lambda>_. zero_vma) (set_heap h s1))" "kheap_inv h"
    "allocs h = allocs (vm_heap s) - {(unat v, 80)}"
    using kfree_vma_spec [of s1 v 80] Cons.prems(1,4) by (auto simp: s1_def)
  define s2 where "s2 = upd_vma v (\<lambda>_. zero_vma) (set_heap h s1)"
  have f: "kheap_inv (vm_heap s2)" "pblocks s2 = pblocks s" "usage s2 = release (usage s) P" "plinks s2 = plinks s"
    "vmas s2 = (vmas s)(v := zero_vma)" "vm_heap s2 = h"
    using h(2) by (simp_all add: s2_def s1_def)
  have "vchain (vmas s2) (vm_next (vmas s v)) vs = vchain (vmas s) (vm_next (vmas s v)) vs"
    by (rule vchain_cong) (use v(3) in \<open>auto simp: f(5)\<close>)
  then have ch: "vchain (vmas s2) (vm_next (vmas s v)) vs" using Cons.prems(2) by simp
  have pv: "private_blocks (vmas s2) bl vs = private_blocks (vmas s) bl vs"
    using v(3) by (intro private_blocks_cong) (auto simp: f(5))
  have un: "unat w \<noteq> unat v" if "w \<in> set vs" for w using that v(3) by (metis word_unat_eq_iff)
  have "owned (release (usage s) P) (blocks_pages (pblocks s) (private_blocks (vmas s) bl vs))"
    using Cons.prems(6) blocks_pages_disjoint [OF Cons.prems(5) [unfolded private_blocks.simps]]
    by (intro owned_release) (auto simp: P_def intro: owned_mono)
  then obtain s' where s': "exit_mm_loop (vm_next (vmas s v)) s2 = Some s'"
    "torn_down (blocks_pages (pblocks s) (private_blocks (vmas s) bl vs)) (set vs) s2 s'"
    using Cons.IH [OF f(1) ch, unfolded pv f(2-4) f(6) h(3)] Cons.prems(3,4) ap un by auto
  have "exit_mm_loop a s = Some s'"
    using v s1 h(1) s'(1) by (simp add: exit_mm_loop.simps [of v] s2_def Let_def)
  moreover have "torn_down (blocks_pages (pblocks s) (private_blocks (vmas s) bl (v # vs))) (set (v # vs)) s s'"
    using s'(2) unfolding torn_down_def
    by (auto simp: f h(3) P_def release_release fun_eq_iff s2_def s1_def)
  ultimately show ?case by blast
qed

section \<open>The invariant of an address space\<close>

text \<open>
  The address space of task \<open>t\<close>, with the areas \<open>vs\<close> and their page blocks \<open>bl\<close>: all descriptors
  are live objects of the kernel heap, the lists are intact, the page tables form a tree, and
  the task owns the pages of its tables and of the blocks of its private areas, each once.
\<close>

definition vma_objects :: "kheap \<Rightarrow> u64 list \<Rightarrow> (u64 \<Rightarrow> u64 list) \<Rightarrow> bool" where
  "vma_objects h vs bl \<longleftrightarrow> distinct vs \<and>
    (\<forall>v \<in> set vs. (unat v, 80) \<in> allocs h \<and> (\<forall>b \<in> set (bl v). (unat b, 40) \<in> allocs h)) \<and>
    (\<forall>v \<in> set vs. \<forall>w \<in> set vs. v \<noteq> w \<longrightarrow> set (bl v) \<inter> set (bl w) = {})"

definition vma_lists :: "vmsys \<Rightarrow> u64 list \<Rightarrow> (u64 \<Rightarrow> u64 list) \<Rightarrow> bool" where
  "vma_lists s vs bl \<longleftrightarrow> (\<forall>v \<in> set vs. is_list (plinks s) (pages_block_list v) (bl v))"

definition as_pages :: "task_ptr \<Rightarrow> u64 list \<Rightarrow> (u64 \<Rightarrow> u64 list) \<Rightarrow> vmsys \<Rightarrow> u64 set" where
  "as_pages t vs bl s = tables True 2 (vmem s) (pg_dir (vm_task s t)) \<union>
     blocks_pages (pblocks s) (private_blocks (vmas s) bl vs)"

definition as_inv :: "task_ptr \<Rightarrow> u64 list \<Rightarrow> (u64 \<Rightarrow> u64 list) \<Rightarrow> vmsys \<Rightarrow> bool" where
  "as_inv t vs bl s \<longleftrightarrow>
    t \<noteq> NoTask \<and> kheap_inv (vm_heap s) \<and> usage_bits (usage s) \<and>
    mm (vm_task s t) \<noteq> NULL \<and> (unat (mm (vm_task s t)), 24) \<in> allocs (vm_heap s) \<and>
    vchain (vmas s) (mmap (mms s (mm (vm_task s t)))) vs \<and>
    vma_objects (vm_heap s) vs bl \<and> vma_lists s vs bl \<and>
    pt_wf True 2 (vmem s) (pg_dir (vm_task s t)) \<and>
    blocks_apart (pblocks s) (private_blocks (vmas s) bl vs) \<and>
    tables True 2 (vmem s) (pg_dir (vm_task s t)) \<inter> blocks_pages (pblocks s) (private_blocks (vmas s) bl vs) = {} \<and>
    owned (usage s) (as_pages t vs bl s)"

lemma vm_task_upd [simp]:
  "vm_task (set_heap h s) t = vm_task s t" "vm_task (upd_vma v f s) t = vm_task s t"
  "vm_task (upd_mm q g s) t = vm_task s t" "vm_task (s\<lparr>usage := u\<rparr>) t = vm_task s t"
  "vm_task (s\<lparr>vmem := m\<rparr>) t = vm_task s t" "vm_task (s\<lparr>plinks := l\<rparr>) t = vm_task s t"
  "vm_task (s\<lparr>pblocks := pb\<rparr>) t = vm_task s t" "vm_task (s\<lparr>tlb_log := tlb\<rparr>) t = vm_task s t"
  by (simp_all add: vm_task_def set_heap_def upd_vma_def upd_mm_def task_of_def split: task_ptr.splits)

lemma as_inv_exit:
  assumes inv: "as_inv t vs bl s"
  shows "\<exists>s'. exit_mm t s = Some s' \<and> usage s' = release (usage s) (as_pages t vs bl s) \<and>
    kheap_inv (vm_heap s') \<and>
    allocs (vm_heap s') = allocs (vm_heap s) - insert (unat (mm (vm_task s t)), 24) ((\<lambda>v. (unat v, 80)) ` set vs) \<and>
    (\<forall>u. mm (vm_task s' u) = mm (vm_task s u) \<and> pg_dir (vm_task s' u) = pg_dir (vm_task s u)) \<and>
    vmem s' = vmem s \<and> pblocks s' = pblocks s \<and> plinks s' = plinks s \<and>
    vm_sched s' = (vm_sched s)\<lparr>kernel_heap := vm_heap s'\<rparr>"
proof -
  let ?p = "mm (vm_task s t)" and ?B = "blocks_pages (pblocks s) (private_blocks (vmas s) bl vs)"
    and ?d = "pg_dir (vm_task s t)"
  have ow: "owned (usage s) ?B" "owned (usage s) (tables True 2 (vmem s) ?d)"
    using inv by (auto simp: as_inv_def as_pages_def intro: owned_mono)
  obtain s1 where s1: "exit_mm_loop (mmap (mms s ?p)) s = Some s1" "torn_down ?B (set vs) s s1"
    using exit_mm_loop_spec [of s "mmap (mms s ?p)" vs bl] inv ow(1)
    by (auto simp: as_inv_def vma_objects_def vma_lists_def)
  have t1: "vm_task s1 u = vm_task s u" for u
    using s1(2) by (simp add: torn_down_def vm_task_def task_of_def split: task_ptr.splits)
  have "(unat ?p, 24) \<in> allocs (vm_heap s1)" "kheap_inv (vm_heap s1)"
    using inv s1(2) by (auto simp: torn_down_def as_inv_def)
  then obtain h where h: "kfree (vm_heap s1) ?p = Some h" "kheap_inv h" "allocs h = allocs (vm_heap s1) - {(unat ?p, 24)}"
    using kfree_run [of "vm_heap s1" "unat ?p" 24] by auto
  define s2 where "s2 = upd_mm ?p (\<lambda>_. zero_mm) (set_heap h s1)"
  have s2: "kfree_mm ?p s1 = Some s2" using h(1) by (simp add: kfree_mm_def s2_def)
  have "owned (usage s2) (tables True 2 (vmem s2) ?d)"
    using s1(2) ow(2) inv by (auto simp: s2_def torn_down_def as_inv_def intro!: owned_release)
  then have f: "free_page_tables (vmem s2) ?d (usage s2) = Some (release (usage s2) (tables True 2 (vmem s) ?d))"
    using free_page_tables_spec [of "vmem s2" ?d "usage s2"] s1(2) inv by (simp add: s2_def torn_down_def as_inv_def)
  let ?s = "s2\<lparr>usage := release (usage s2) (tables True 2 (vmem s) ?d)\<rparr>"
  have "exit_mm t s = Some ?s"
    using s1(1) s2 f inv by (simp add: exit_mm_def t1 as_inv_def) (simp add: s2_def t1)
  moreover have "usage ?s = release (usage s) (as_pages t vs bl s)"
    using s1(2) by (simp add: s2_def torn_down_def release_release as_pages_def Un_commute)
  moreover have "vm_task ?s u = vm_task s u" for u by (simp add: s2_def t1)
  moreover have "vm_sched ?s = (vm_sched s)\<lparr>kernel_heap := vm_heap ?s\<rparr>"
    using s1(2) by (simp add: s2_def torn_down_def)
  ultimately show ?thesis
    using s1(2) h(2,3) by (intro exI [of _ ?s]) (auto simp: s2_def torn_down_def)
qed

end
