(* ===== verification/As_Inv.thy ===== *)
theory As_Inv
  imports Vm
begin

text \<open>
  The operations that build an address space keep its invariant: a new area, a new page block,
  and a mapping of pages.
\<close>

section \<open>Objects of the heap\<close>

definition in_areas :: "kheap \<Rightarrow> u64 \<Rightarrow> bool" where
  "in_areas h x \<longleftrightarrow> (\<exists>(p, u) \<in> allocs h. p \<le> unat x \<and> unat x < p + u)"

definition nodes :: "(u64 \<Rightarrow> u64 list) \<Rightarrow> u64 \<Rightarrow> u64 set" where
  "nodes bl v = insert (pages_block_list v) (set (bl v))"

lemma in_areasI: "(p, u) \<in> allocs h \<Longrightarrow> p \<le> unat x \<Longrightarrow> unat x < p + u \<Longrightarrow> in_areas h x"
  unfolding in_areas_def by blast

lemma areas_neq:
  assumes "kheap_inv h" "(p, u) \<in> allocs h" "(q, w) \<in> allocs h" "(p, u) \<noteq> (q, w)"
    "p \<le> unat x" "unat x < p + u" "q \<le> unat y" "unat y < q + w"
  shows "x \<noteq> y"
  using kheap.areas_apart [OF assms(1-4)] assms(5-8) by auto

lemma pages_block_list_unat:
  assumes "kheap_inv h" "(unat v, 80) \<in> allocs h"
  shows "unat (pages_block_list v) = unat v + 64"
proof -
  have "pages_block_list v = wd (unat v + 64)"
    using wd_add_numeral [of "unat v"] by (simp add: pages_block_list_def)
  then show ?thesis using kheap.area_bound [OF assms] by (simp add: unat_wd)
qed

text \<open>A new object overlaps nothing that was there.\<close>

lemma fresh_object:
  assumes "kheap_inv h'" "allocs h' = insert (unat v, n) (allocs h)" "unat v \<notin> fst ` allocs h"
    "unat v \<le> unat x" "unat x < unat v + n" "in_areas h y"
  shows "x \<noteq> y"
proof -
  obtain q w where q: "(q, w) \<in> allocs h" "q \<le> unat y" "unat y < q + w"
    using assms(6) by (auto simp: in_areas_def)
  have "(unat v, n) \<noteq> (q, w)" using assms(3) q(1) by force
  then show ?thesis using areas_neq [OF assms(1), of "unat v" n q w x y] assms(2,4,5) q by auto
qed

lemma nodes_in_areas:
  assumes "kheap_inv h" "vma_objects h vs bl" "v \<in> set vs" "x \<in> nodes bl v"
  shows "in_areas h x"
proof (cases "x = pages_block_list v")
  case True
  have v: "(unat v, 80) \<in> allocs h" using assms(2,3) by (simp add: vma_objects_def)
  show ?thesis by (rule in_areasI [OF v]) (use pages_block_list_unat [OF assms(1) v] True in simp_all)
next
  case False
  then have "(unat x, 40) \<in> allocs h" using assms(2-4) by (auto simp: vma_objects_def nodes_def)
  then show ?thesis by (rule in_areasI) simp_all
qed

lemma nodes_disjoint:
  assumes inv: "kheap_inv h" and ob: "vma_objects h vs bl" and v: "v \<in> set vs" "w \<in> set vs" "v \<noteq> w"
  shows "nodes bl v \<inter> nodes bl w = {}"
proof -
  have a: "(unat x, 80) \<in> allocs h" "unat (pages_block_list x) = unat x + 64" if "x \<in> set vs" for x
    using that ob pages_block_list_unat [OF inv] by (auto simp: vma_objects_def)
  have b: "(unat b, 40) \<in> allocs h" if "b \<in> set (bl x)" "x \<in> set vs" for b x
    using that ob by (auto simp: vma_objects_def)
  have hb: "pages_block_list x \<noteq> b" if "x \<in> set vs" "y \<in> set vs" "b \<in> set (bl y)" for x y b
    using areas_neq [OF inv a(1) b, of x b y "pages_block_list x" b] a(2) that by simp
  have "unat v \<noteq> unat w" using v(3) by (metis word_unat_eq_iff)
  then have "pages_block_list v \<noteq> pages_block_list w" using a(2) v(1,2) by (metis add_right_cancel)
  moreover have "set (bl v) \<inter> set (bl w) = {}" using ob v by (simp add: vma_objects_def)
  ultimately show ?thesis using hb v by (auto simp: nodes_def)
qed

section \<open>A new area\<close>

lemma kalloc_object:
  assumes "kheap_inv h" "unat n + 7 < 2 ^ 64"
  shows "\<exists>p h'. kmalloc h n = Some (p, h') \<and> kzalloc h n = Some (p, h') \<and> kheap_inv h' \<and>
    (if p = NULL then allocs h' = allocs h
     else allocs h' = insert (unat p, unat n) (allocs h) \<and> unat p \<notin> fst ` allocs h)"
  using kmalloc_run [OF assms] unfolding kzalloc_eq_kmalloc [OF assms] by (auto split: if_splits)

lemma vma_objects_mono: "vma_objects h vs bl \<Longrightarrow> allocs h \<subseteq> allocs h' \<Longrightarrow> vma_objects h' vs bl"
  by (fastforce simp: vma_objects_def)

lemma as_inv_heap:
  assumes "as_inv t vs bl s" "kheap_inv h" "allocs (vm_heap s) \<subseteq> allocs h"
  shows "as_inv t vs bl (set_heap h s)"
  using assms vma_objects_mono [of "vm_heap s" vs bl h]
  by (auto simp: as_inv_def vma_lists_def as_pages_def)

definition same_area :: "vm_area_struct \<Rightarrow> vm_area_struct \<Rightarrow> bool" where
  "same_area v w \<longleftrightarrow> vm_start v = vm_start w \<and> vm_end v = vm_end w \<and> vm_flags v = vm_flags w \<and> lma v = lma w"

lemma is_list_init_other:
  "is_list h head xs \<Longrightarrow> l \<notin> set (head # xs) \<Longrightarrow> is_list (INIT_LIST_HEAD l h) head xs"
  by (subst is_list_cong [of head xs "INIT_LIST_HEAD l h" h]) (auto simp: INIT_LIST_HEAD_def)

lemma setup_vma_inv:
  assumes inv: "as_inv t vs bl s"
  shows "\<exists>r s'. setup_vma t a e fl l s = Some (r, s') \<and> usage s' = usage s \<and> vmem s' = vmem s \<and>
    (\<forall>u. vm_task s' u = vm_task s u) \<and>
    (r = -1 \<and> as_inv t vs bl s' \<and> vmas s' = vmas s \<and> (\<exists>h. kzalloc (vm_heap s) sizeof_vma = Some (NULL, h)) \<or>
     r = 0 \<and> (\<exists>v. v \<notin> set vs \<and> as_inv t (v # vs) (bl(v := [])) s' \<and>
       same_area (vmas s' v) (zero_vma\<lparr>vm_start := a, vm_end := e, vm_flags := fl, lma := l\<rparr>) \<and>
       (\<forall>w \<in> set vs. same_area (vmas s' w) (vmas s w)) \<and> unat v \<notin> fst ` allocs (vm_heap s) \<and>
       allocs (vm_heap s') = insert (unat v, 80) (allocs (vm_heap s)))) \<and>
    vm_sched s' = (vm_sched s)\<lparr>kernel_heap := vm_heap s'\<rparr>"
proof -
  have kh: "kheap_inv (vm_heap s)" and tn: "t \<noteq> NoTask" using inv by (auto simp: as_inv_def)
  obtain v h where k: "kzalloc (vm_heap s) sizeof_vma = Some (v, h)" "kheap_inv h"
    "if v = NULL then allocs h = allocs (vm_heap s)
     else allocs h = insert (unat v, 80) (allocs (vm_heap s)) \<and> unat v \<notin> fst ` allocs (vm_heap s)"
    using kalloc_object [OF kh, of sizeof_vma] by (auto simp: sizeof_vma_def)
  show ?thesis
  proof (cases "v = NULL")
    case True
    then have "setup_vma t a e fl l s = Some (-1, set_heap h s)" using tn k(1) by (simp add: setup_vma_def)
    moreover have "as_inv t vs bl (set_heap h s)" using as_inv_heap [OF inv k(2)] k(3) True by simp
    ultimately show ?thesis using k(1) True by (auto simp: set_heap_def vm_heap_def vm_task_def task_of_def split: task_ptr.splits)
  next
    case False
    let ?p = "mm (vm_task s t)"
    let ?m = "mmap (mms s ?p)"
    define new where "new = zero_vma\<lparr>vm_start := a, vm_end := e, vm_flags := fl, lma := l\<rparr>"
    define f1 where "f1 = (vmas s)(v := new)"
    define f2 where "f2 = (if ?m \<noteq> NULL then f1(?m := (f1 ?m)\<lparr>vm_prev := v\<rparr>) else f1)"
    define f3 where "f3 = f2(v := (f2 v)\<lparr>vm_next := ?m, vm_prev := NULL\<rparr>)"
    define s' where "s' = (set_heap h s)\<lparr>vmas := f3, plinks := INIT_LIST_HEAD (pages_block_list v) (plinks s),
        mms := (mms s)(?p := (mms s ?p)\<lparr>mmap := v\<rparr>)\<rparr>"
    have pn: "?p \<noteq> NULL" using inv by (simp add: as_inv_def)
    have al: "allocs h = insert (unat v, 80) (allocs (vm_heap s))" "unat v \<notin> fst ` allocs (vm_heap s)"
      using k(3) False by auto
    have ob: "vma_objects (vm_heap s) vs bl" "vma_lists s vs bl" using inv by (simp_all add: as_inv_def)
    have vn: "v \<notin> set vs" using ob(1) al(2) by (force simp: vma_objects_def)
    have m0: "?m \<noteq> v" using inv vn False by (cases vs) (auto simp: as_inv_def)
    have f3: "f3 v = new\<lparr>vm_next := ?m, vm_prev := NULL\<rparr>"
      "w \<noteq> v \<Longrightarrow> f3 w = (if w = ?m \<and> ?m \<noteq> NULL then (vmas s w)\<lparr>vm_prev := v\<rparr> else vmas s w)" for w
      using m0 by (auto simp: f3_def f2_def f1_def)
    have run: "setup_vma t a e fl l s = Some (0, s')"
      using tn k(1) False pn
      by (simp add: setup_vma_def Let_def s'_def f3_def f2_def f1_def new_def set_heap_def upd_vma_def upd_mm_def
          vm_task_def task_of_def split: task_ptr.splits)
    have f3w: "f3 w = (if w = ?m \<and> ?m \<noteq> NULL then (vmas s w)\<lparr>vm_prev := v\<rparr> else vmas s w)" if "w \<in> set vs" for w
      by (rule f3(2)) (use that vn in blast)
    have ch: "vchain f3 v (v # vs)"
    proof -
      have "vchain f3 ?m vs = vchain (vmas s) ?m vs" 
      proof (rule vchain_cong)
        show "vm_next (f3 w) = vm_next (vmas s w)" if "w \<in> set vs" for w using f3w [OF that] by simp
      qed
      then show ?thesis using inv False by (simp add: f3 as_inv_def)
    qed
    have fl: "vm_flags (f3 w) = vm_flags (vmas s w)" if "w \<in> set vs" for w
      using f3w [OF that] by simp
    have "private_blocks f3 (bl(v := [])) vs = private_blocks (vmas s) bl vs"
      using fl vn by (induction vs) (auto simp: private_vma_def)
    then have pb: "private_blocks f3 (bl(v := [])) (v # vs) = private_blocks (vmas s) bl vs" by simp
    have "vma_objects h (v # vs) (bl(v := []))"
      using ob(1) al vn by (auto simp: vma_objects_def)
    moreover have "is_list (INIT_LIST_HEAD (pages_block_list v) (plinks s)) (pages_block_list w) (bl w)" if w: "w \<in> set vs" for w
    proof (rule is_list_init_other)
      have "unat (pages_block_list v) = unat v + 64" using pages_block_list_unat [OF k(2)] al(1) by simp
      then have "pages_block_list v \<noteq> x" if "x \<in> nodes bl w" for x
        using fresh_object [OF k(2) al, of "pages_block_list v" x] nodes_in_areas [OF kh ob(1) w that] by simp
      then show "pages_block_list v \<notin> set (pages_block_list w # bl w)" by (auto simp: nodes_def)
    qed (use ob(2) w in \<open>simp add: vma_lists_def\<close>)
    ultimately have "as_inv t (v # vs) (bl(v := [])) s'"
      using inv k(2) al(1) ch pb vn INIT_LIST_HEAD_list [of "pages_block_list v" "plinks s"]
      by (auto simp: as_inv_def s'_def vma_lists_def as_pages_def set_heap_def vm_task_def vm_heap_def
          task_of_def split: task_ptr.splits)
    moreover have "same_area (vmas s' v) new" "\<forall>w \<in> set vs. same_area (vmas s' w) (vmas s w)"
      using f3(1) f3w by (auto simp: s'_def same_area_def)
    moreover have "vm_task s' u = vm_task s u" for u
      by (simp add: s'_def vm_task_def task_of_def set_heap_def split: task_ptr.splits)
    moreover have "allocs (vm_heap s') = insert (unat v, 80) (allocs (vm_heap s))" "vm_sched s' = (vm_sched s)\<lparr>kernel_heap := vm_heap s'\<rparr>"
      using al(1) by (simp_all add: s'_def set_heap_def vm_heap_def)
    moreover have "usage s' = usage s" "vmem s' = vmem s" by (simp_all add: s'_def)
    ultimately show ?thesis using run vn al(2) unfolding new_def by blast
  qed
qed

section \<open>A new page block\<close>

lemma private_blocks_append:
  "private_blocks f bl (xs @ ys) = private_blocks f bl xs @ private_blocks f bl ys"
  by (induction xs) auto

lemma private_blocks_other: "v \<notin> set vs \<Longrightarrow> private_blocks f (bl(v := x)) vs = private_blocks f bl vs"
  by (induction vs) auto

lemma private_blocks_add:
  assumes "v \<in> set vs" "distinct vs" "private_vma f v"
  obtains A C where "private_blocks f bl vs = A @ C" "private_blocks f (bl(v := bl v @ [b])) vs = A @ b # C"
proof -
  obtain ys zs where vs: "vs = ys @ v # zs" using assms(1) by (meson split_list)
  then have "v \<notin> set ys" "v \<notin> set zs" using assms(2) by auto
  then show thesis
    using that [of "private_blocks f bl ys @ bl v" "private_blocks f bl zs"] assms(3)
    by (simp add: vs private_blocks_append private_blocks_other)
qed

lemma private_blocks_sub: "set (private_blocks f bl vs) \<subseteq> (\<Union>v \<in> set vs. set (bl v))"
  by (induction vs) auto

lemma blocks_apart_insert:
  assumes "blocks_apart pb (A @ C)" "b \<notin> set (A @ C)" "block_ok x"
    "block_pages x \<inter> blocks_pages pb (A @ C) = {}"
  shows "blocks_apart (pb(b := x)) (A @ b # C)"
    "blocks_pages (pb(b := x)) (A @ b # C) = block_pages x \<union> blocks_pages pb (A @ C)"
proof -
  have e: "(pb(b := x)) c = pb c" if "c \<in> set (A @ C)" for c using that assms(2) by auto
  have d: "block_pages x \<inter> block_pages (pb c) = {}" if "c \<in> set (A @ C)" for c
    using that assms(4) by (auto simp: blocks_pages_def)
  have "block_pages ((pb(b := x)) c) \<inter> block_pages ((pb(b := x)) c') = {}"
    if "c \<in> set (A @ b # C)" "c' \<in> set (A @ b # C)" "c \<noteq> c'" for c c'
  proof -
    have "c = b \<or> c \<in> set (A @ C)" "c' = b \<or> c' \<in> set (A @ C)" using that(1,2) by auto
    then show ?thesis
      using that(3) e d assms(1) unfolding blocks_apart_def by (metis Int_commute fun_upd_same)
  qed
  moreover have "distinct (A @ b # C)" using assms(1,2) by (auto simp: blocks_apart_def)
  moreover have "block_ok ((pb(b := x)) c)" if "c \<in> set (A @ b # C)" for c
    using that assms(1-3) by (auto simp: blocks_apart_def)
  ultimately show "blocks_apart (pb(b := x)) (A @ b # C)" unfolding blocks_apart_def by blast
  show "blocks_pages (pb(b := x)) (A @ b # C) = block_pages x \<union> blocks_pages pb (A @ C)"
    using assms(2) by (auto simp: blocks_pages_def split: if_splits)
qed

lemma add_pages_block_inv:
  assumes inv: "as_inv t vs bl s" and v: "v \<in> set vs" "private_vma (vmas s) v"
    and nn: "user \<noteq> NULL" "linear \<noteq> NULL"
    and x: "x = \<lparr>user_virt_addr = user, linear_addr = linear, order = ord\<rparr>" "block_ok x"
      "owned (usage s) (block_pages x)" "block_pages x \<inter> as_pages t vs bl s = {}"
  shows "\<exists>r s'. add_pages_block v user linear ord s = Some (r, s') \<and> usage s' = usage s \<and> vmem s' = vmem s \<and>
    vmas s' = vmas s \<and> mms s' = mms s \<and> (\<forall>u. vm_task s' u = vm_task s u) \<and>
    (r = -1 \<and> as_inv t vs bl s' \<and> as_pages t vs bl s' = as_pages t vs bl s \<or>
     r = 0 \<and> (\<exists>b. as_inv t vs (bl(v := bl v @ [b])) s' \<and> pblocks s' b = x \<and>
       as_pages t vs (bl(v := bl v @ [b])) s' = block_pages x \<union> as_pages t vs bl s))"
proof -
  have kh: "kheap_inv (vm_heap s)" and ob: "vma_objects (vm_heap s) vs bl" "vma_lists s vs bl"
    and ap: "blocks_apart (pblocks s) (private_blocks (vmas s) bl vs)"
    using inv by (auto simp: as_inv_def)
  have v0: "v \<noteq> NULL"
  proof -
    have "w \<noteq> NULL" if "vchain f a ws" "w \<in> set ws" for w f a ws
      using that by (induction ws arbitrary: a) auto
    then show ?thesis using inv v(1) by (auto simp: as_inv_def)
  qed
  obtain b h where k: "kmalloc (vm_heap s) sizeof_pages_block = Some (b, h)" "kheap_inv h"
    "if b = NULL then allocs h = allocs (vm_heap s)
     else allocs h = insert (unat b, 40) (allocs (vm_heap s)) \<and> unat b \<notin> fst ` allocs (vm_heap s)"
    using kalloc_object [OF kh, of sizeof_pages_block] by (auto simp: sizeof_pages_block_def)
  show ?thesis
  proof (cases "b = NULL")
    case True
    then have "add_pages_block v user linear ord s = Some (-1, set_heap h s)"
      using k(1) nn v0 by (simp add: add_pages_block_def)
    moreover have "as_inv t vs bl (set_heap h s)" using as_inv_heap [OF inv k(2)] k(3) True by simp
    ultimately show ?thesis by (auto simp: as_pages_def)
  next
    case False
    define s' where "s' = (set_heap h s)\<lparr>pblocks := (pblocks s)(b := x),
        plinks := list_add_tail b (pages_block_list v) (plinks s)\<rparr>"
    let ?bl = "bl(v := bl v @ [b])"
    have run: "add_pages_block v user linear ord s = Some (0, s')"
      using k(1) nn v0 False by (simp add: add_pages_block_def s'_def x(1))
    have al: "allocs h = insert (unat b, 40) (allocs (vm_heap s))" "unat b \<notin> fst ` allocs (vm_heap s)"
      using k(3) False by auto
    have fr: "b \<notin> nodes bl w" if "w \<in> set vs" for w
      using fresh_object [OF k(2) al, of b] nodes_in_areas [OF kh ob(1) that] by auto
    have bs: "b \<notin> set (bl w)" if "w \<in> set vs" for w using fr [OF that] by (simp add: nodes_def)
    have "vma_objects h vs ?bl"
      using ob(1) al(1) bs by (auto simp: vma_objects_def)
    moreover have "vma_lists s' vs ?bl"
      unfolding vma_lists_def
    proof
      fix w assume w: "w \<in> set vs"
      have L: "is_list (plinks s) (pages_block_list u) (bl u)" if "u \<in> set vs" for u
        using ob(2) that by (simp add: vma_lists_def)
      show "is_list (plinks s') (pages_block_list w) (?bl w)"
      proof (cases "w = v")
        case True
        then show ?thesis using list_add_tail_list [OF L [OF v(1)]] fr [OF v(1)] by (simp add: s'_def nodes_def)
      next
        case False
        have "set (pages_block_list w # bl w) \<inter> set (b # pages_block_list v # bl v) = {}"
          using nodes_disjoint [OF kh ob(1) w v(1) False] fr [OF w] by (auto simp: nodes_def)
        from list_add_other(2) [OF L [OF v(1)] L [OF w] this] False show ?thesis by (simp add: s'_def)
      qed
    qed
    moreover obtain A C where AC: "private_blocks (vmas s) bl vs = A @ C" "private_blocks (vmas s) ?bl vs = A @ b # C"
    proof -
      have "distinct vs" using ob(1) by (simp add: vma_objects_def)
      from private_blocks_add [OF v(1) this v(2)] show thesis using that .
    qed
    moreover have "b \<notin> set (A @ C)"
      using private_blocks_sub [of "vmas s" bl vs] bs AC(1) by auto
    note ins = blocks_apart_insert [OF ap [unfolded AC(1)] this x(2)]
    have dp: "block_pages x \<inter> blocks_pages (pblocks s) (A @ C) = {}" "block_pages x \<inter> tables True 2 (vmem s) (pg_dir (vm_task s t)) = {}"
      using x(4) AC(1) by (auto simp: as_pages_def)
    have asp: "as_pages t vs ?bl s' = block_pages x \<union> as_pages t vs bl s"
      using ins(2) [OF dp(1)] AC by (auto simp: as_pages_def s'_def)
    ultimately have "as_inv t vs ?bl s'"
      using inv k(2) al(1) ins [OF dp(1)] dp(2) x(3) asp
      by (auto simp: as_inv_def s'_def owned_def)
    then show ?thesis using run asp by (auto simp: s'_def)
  qed
qed

section \<open>A new mapping\<close>

lemma user_attrs_low [simp]: "get_phy_addr (user_attrs rdonly) = 0"
  by (rule get_phy_addr_low)
    (simp add: user_attrs_def Let_def PTE_BLOCK_MEMTYPE_def MT_NORMAL_def PTE_USER_def PTE_BLOCK_INNER_SHARE_def
      PTE_BLOCK_NG_def PTE_RDONLY_def)

text \<open>The effect of mapping \<open>n\<close> pages on the state.\<close>

definition user_mapped :: "u64 \<Rightarrow> u64 \<Rightarrow> u64 \<Rightarrow> nat \<Rightarrow> bool \<Rightarrow> vmsys \<Rightarrow> vmsys \<Rightarrow> bool" where
  "user_mapped dir virt phy n rdonly s s' \<longleftrightarrow>
    (\<exists>u m. s' = s\<lparr>usage := u, vmem := m\<rparr>) \<and> usage_bits (usage s') \<and>
    free_count (usage s) \<le> free_count (usage s') + 2 * n \<and>
    edits True 2 dir (set_range virt phy (user_attrs rdonly) n) (used_pages (usage s)) (used_pages (usage s'))
      (vmem s) (vmem s')"

lemma setup_user_page_mapping_run:
  assumes "dir \<noteq> NULL" "usage_bits (usage s)" "pt_wf True 2 (vmem s) dir" "tables True 2 (vmem s) dir \<subseteq> used_pages (usage s)"
    "2 * n \<le> free_count (usage s)" "frame_addr phy" "unat phy + 4096 * n \<le> 2 ^ 48" "sz = 4096 * of_nat n"
  shows "\<exists>s'. setup_user_page_mapping dir virt phy sz rdonly s = Some s' \<and> user_mapped dir virt phy n rdonly s s'"
proof -
  have e: "unat (phy + sz) = unat phy + 4096 * n"
    using assms(7) unat_wd [of "unat phy + 4096 * n"] unfolding assms(8) by (simp add: wd_def)
  have "phy \<noteq> -1"
  proof
    assume "phy = -1"
    then have "unat phy = 2 ^ 64 - 1" by (simp add: unsigned_minus_1_eq_mask mask_eq_exp_minus_1)
    then show False using assms(6) by (simp add: frame_addr_iff)
  qed
  moreover obtain u m where "single_map_loop kcalloc dir phy virt (phy + sz) (user_attrs rdonly) True (usage s, vmem s) = Some (u, m)"
    "usage_bits u" "free_count (usage s) \<le> free_count u + 2 * n"
    "edits True 2 dir (set_range virt phy (user_attrs rdonly) n) (used_pages (usage s)) (used_pages u) (vmem s) m"
    using kbits.single_map_loop_spec [OF assms(2-5) user_attrs_low, of phy "phy + sz" virt rdonly] assms(7) e by auto
  ultimately show ?thesis
    using assms(1) by (auto simp: setup_user_page_mapping_def add_single_map_def user_mapped_def)
qed

lemma user_mapped_inv:
  assumes inv: "as_inv t vs bl s" and um: "user_mapped (pg_dir (vm_task s t)) virt phy n rdonly s s'"
  shows "as_inv t vs bl s'"
    "as_pages t vs bl s' = as_pages t vs bl s \<union> (used_pages (usage s') - used_pages (usage s))"
proof -
  obtain u m where s': "s' = s\<lparr>usage := u, vmem := m\<rparr>" using um by (auto simp: user_mapped_def)
  let ?d = "pg_dir (vm_task s t)"
  have ub: "usage_bits (usage s)" "usage_bits u" using inv um by (simp_all add: as_inv_def user_mapped_def s')
  have ed: "pt_wf True 2 m ?d" "used_pages (usage s) \<subseteq> used_pages u"
    "tables True 2 m ?d = tables True 2 (vmem s) ?d \<union> (used_pages u - used_pages (usage s))"
    using um by (simp_all add: user_mapped_def edits_def s')
  show asp: "as_pages t vs bl s' = as_pages t vs bl s \<union> (used_pages (usage s') - used_pages (usage s))"
    by (auto simp: as_pages_def s' ed(3))
  have ow: "as_pages t vs bl s \<subseteq> used_pages (usage s)" using inv owned_iff [OF ub(1)] by (simp add: as_inv_def)
  then have "owned u (as_pages t vs bl s')" unfolding owned_iff [OF ub(2)] asp using ed(2) by (auto simp: s')
  moreover have "tables True 2 m ?d \<inter> blocks_pages (pblocks s) (private_blocks (vmas s) bl vs) = {}"
    using inv ow unfolding ed(3) by (auto simp: as_inv_def as_pages_def)
  ultimately show "as_inv t vs bl s'"
    using inv ub(2) ed(1) by (simp add: as_inv_def s' vma_lists_def as_pages_def)
qed

text \<open>Another address space that shares no page with it is not disturbed.\<close>

lemma user_mapped_other:
  assumes inv: "as_inv t vs bl s" and um: "user_mapped (pg_dir (vm_task s t)) virt phy n rdonly s s'"
    and oth: "as_inv t' vs' bl' s" "as_pages t vs bl s \<inter> as_pages t' vs' bl' s = {}"
  shows "as_inv t' vs' bl' s' \<and> as_pages t' vs' bl' s' = as_pages t' vs' bl' s \<and>
    as_pages t vs bl s' \<inter> as_pages t' vs' bl' s' = {} \<and>
    (\<forall>p. path_ok 2 p \<longrightarrow> lookup True (vmem s') (pg_dir (vm_task s' t')) p = lookup True (vmem s) (pg_dir (vm_task s t')) p)"
proof -
  obtain u m where s': "s' = s\<lparr>usage := u, vmem := m\<rparr>" using um by (auto simp: user_mapped_def)
  let ?d = "pg_dir (vm_task s t)" and ?e = "pg_dir (vm_task s t')"
  have ub: "usage_bits (usage s)" "usage_bits u" using inv um by (simp_all add: as_inv_def user_mapped_def s')
  have ed: "used_pages (usage s) \<subseteq> used_pages u"
    "\<And>x. page_aligned x \<Longrightarrow> x \<notin> tables True 2 (vmem s) ?d \<union> (used_pages u - used_pages (usage s)) \<Longrightarrow> page_eq x (vmem s) m"
    using um by (simp_all add: user_mapped_def edits_def s')
  have wf: "pt_wf True 2 (vmem s) ?e" using oth(1) by (simp add: as_inv_def)
  have ow: "as_pages t' vs' bl' s \<subseteq> used_pages (usage s)" using oth(1) owned_iff [OF ub(1)] by (simp add: as_inv_def)
  have pe: "page_eq x (vmem s) m" if "x \<in> tables True 2 (vmem s) ?e" for x
    using that ow oth(2) tables_aligned [OF wf that] by (intro ed(2)) (auto simp: as_pages_def)
  have tb: "tables True 2 m ?e = tables True 2 (vmem s) ?e" by (rule tables_cong [OF pe])
  then have asp: "as_pages t' vs' bl' s' = as_pages t' vs' bl' s" by (simp add: as_pages_def s')
  have "owned u (as_pages t' vs' bl' s)" unfolding owned_iff [OF ub(2)] using ow ed(1) by blast
  then have "as_inv t' vs' bl' s'"
    using oth(1) ub(2) pt_wf_cong [OF pe] tb asp by (simp add: as_inv_def s' vma_lists_def)
  moreover have "as_pages t vs bl s' \<inter> as_pages t' vs' bl' s' = {}"
    unfolding user_mapped_inv(2) [OF inv um] asp using oth(2) ow by blast
  moreover have "lookup True m ?e p = lookup True (vmem s) ?e p" if "path_ok 2 p" for p
    using that pe by (intro lookup_cong) auto
  ultimately show ?thesis using asp by (simp add: s')
qed

section \<open>Searching an area\<close>

definition vma_covers :: "(u64 \<Rightarrow> vm_area_struct) \<Rightarrow> u64 \<Rightarrow> u64 \<Rightarrow> bool" where
  "vma_covers f addr v \<longleftrightarrow> vm_start (f v) \<le> addr \<and> addr < vm_end (f v)"

lemma find_vma_loop_chain:
  "vchain f a vs \<Longrightarrow>
    find_vma_loop f addr a = Some (case List.find (vma_covers f addr) vs of None \<Rightarrow> NULL | Some v \<Rightarrow> v)"
proof (induction vs arbitrary: a)
  case (Cons v vs)
  then show ?case by (subst find_vma_loop.simps) (simp add: vma_covers_def [of f addr v])
qed (subst find_vma_loop.simps, simp)

lemma find_vma_chain:
  assumes "as_inv t vs bl s"
  shows "find_vma s (mm (vm_task s t)) addr =
    Some (case List.find (vma_covers (vmas s) addr) vs of None \<Rightarrow> NULL | Some v \<Rightarrow> v)"
  using assms by (simp add: find_vma_def as_inv_def find_vma_loop_chain)

lemma vchain_nonnull: "vchain f a vs \<Longrightarrow> v \<in> set vs \<Longrightarrow> v \<noteq> NULL"
  by (induction vs arbitrary: a) auto

section \<open>A first address space\<close>

definition as_start :: "kheap \<Rightarrow> u64 \<Rightarrow> vmsys" where
  "as_start h p = \<lparr>vm_sched = (boot_sched h)\<lparr>tasks := (tasks (boot_sched h))(0 := zero_task\<lparr>mm := p, pg_dir := page_addr 0\<rparr>)\<rparr>,
     usage = (\<lambda>_. 0)(0 := 1), vmem = (\<lambda>_. 0), vmas = (\<lambda>_. zero_vma), mms = (\<lambda>_. zero_mm),
     pblocks = (\<lambda>_. \<lparr>user_virt_addr = 0, linear_addr = 0, order = 0\<rparr>),
     plinks = \<lparr>lnext = (\<lambda>_. 0), lprev = (\<lambda>_. 0)\<rparr>, tlb_log = []\<rparr>"

definition as_pair :: "kheap \<Rightarrow> u64 \<Rightarrow> vmsys" where
  "as_pair h p = (as_start h p)\<lparr>usage := (\<lambda>_. 0)(0 := 1, 1 := 1),
     vm_sched := upd_task (Task 1) (\<lambda>t. t\<lparr>mm := p, pg_dir := page_addr 1\<rparr>) (vm_sched (as_start h p))\<rparr>"

lemma as_start_fields [simp]:
  "vm_task (as_start h p) (Task 0) = zero_task\<lparr>mm := p, pg_dir := page_addr 0\<rparr>" "vm_heap (as_start h p) = h"
  "usage (as_start h p) = (\<lambda>_. 0)(0 := 1)" "vmem (as_start h p) = (\<lambda>_. 0)" "vmas (as_start h p) = (\<lambda>_. zero_vma)"
  "mms (as_start h p) = (\<lambda>_. zero_mm)"
  by (simp_all add: as_start_def vm_task_def task_of_def vm_heap_def boot_fields)

lemma as_started: "\<exists>h p. as_inv (Task 0) [] (\<lambda>_. []) (as_start h p)"
proof -
  obtain h0 where h0: "kheap_inv h0" "allocs h0 = {}" using kheap_booted by blast
  obtain p h where k: "kmalloc h0 24 = Some (p, h)" "kheap_inv h" "p \<noteq> NULL" "allocs h = {(unat p, 24)}"
    using kmalloc_empty [OF h0, of 24] by auto
  have d: "page_aligned (page_addr 0)" by (simp add: MAX_NUM_PAGES_val)
  have "as_inv (Task 0) [] (\<lambda>_. []) (as_start h p)"
    using k d by (simp add: as_inv_def vma_objects_def vma_lists_def blocks_apart_def blocks_pages_def as_pages_def
        usage_bits_def owned_def zero_mm_def numeral_2_eq_2 zero_mem_entry MAX_NUM_PAGES_val) 
  then show ?thesis by blast
qed

lemma as_paired:
  obtains h p where "as_inv (Task 0) [] (\<lambda>_. []) (as_pair h p)" "as_inv (Task 1) [] (\<lambda>_. []) (as_pair h p)"
    "as_pages (Task 0) [] (\<lambda>_. []) (as_pair h p) = {page_addr 0}"
    "as_pages (Task 1) [] (\<lambda>_. []) (as_pair h p) = {page_addr 1}"
proof -
  obtain h p where a: "as_inv (Task 0) [] (\<lambda>_. []) (as_start h p)" using as_started by blast
  let ?s = "as_pair h p"
  have f: "vm_task ?s (Task 0) = zero_task\<lparr>mm := p, pg_dir := page_addr 0\<rparr>"
    "vm_task ?s (Task 1) = zero_task\<lparr>mm := p, pg_dir := page_addr 1\<rparr>" "vm_heap ?s = h"
    "usage ?s = (\<lambda>_. 0)(0 := 1, 1 := 1)" "vmem ?s = (\<lambda>_. 0)" "vmas ?s = (\<lambda>_. zero_vma)" "mms ?s = (\<lambda>_. zero_mm)"
    by (simp_all add: as_pair_def as_start_def vm_task_def task_of_def vm_heap_def boot_fields upd_task_def)
  have d: "page_aligned (page_addr 0)" "page_aligned (page_addr 1)" by (simp_all add: MAX_NUM_PAGES_val)
  have g: "as_pages (Task i) [] (\<lambda>_. []) ?s = {page_addr i}" if "i = 0 \<or> i = 1" for i
    using that f by (auto simp: as_pages_def blocks_pages_def numeral_2_eq_2 zero_mem_entry)
  have m: "(0 :: nat) < MAX_NUM_PAGES" "(1 :: nat) < MAX_NUM_PAGES" by (simp_all add: MAX_NUM_PAGES_val)
  have o: "owned (usage ?s) {page_addr i}" if "i = 0 \<or> i = 1" for i
    using that m unfolding owned_def f(4) by (auto intro: exI [of _ "0::nat"] exI [of _ "1::nat"])
  have "as_inv (Task i) [] (\<lambda>_. []) ?s" if i: "i = 0 \<or> i = 1" for i
    using a i d f o [OF i] unfolding as_inv_def g [OF i]
    by (auto simp: vma_objects_def vma_lists_def blocks_apart_def blocks_pages_def
        usage_bits_def zero_mm_def numeral_2_eq_2 zero_mem_entry)
  then show thesis using that [of h p] g by simp
qed

section \<open>Properties\<close>

text \<open>C19. Leaving an address space: \<^verbatim>\<open>exit_mm\<close> on a well-formed address space comes back, returns
  to the page pool exactly the pages of its tables and of the blocks of its private areas, and to the
  kernel heap its memory descriptor and its area descriptors. The page block descriptors stay allocated:
  nothing in the kernel frees them.\<close>

theorem exit_mm_releases:
  assumes "as_inv t vs bl s"
  shows "\<exists>s'. exit_mm t s = Some s' \<and> used_pages (usage s') = used_pages (usage s) - as_pages t vs bl s \<and>
    as_pages t vs bl s \<subseteq> used_pages (usage s) \<and> kheap_inv (vm_heap s') \<and>
    allocs (vm_heap s') = allocs (vm_heap s) - insert (unat (mm (vm_task s t)), 24) ((\<lambda>v. (unat v, 80)) ` set vs) \<and>
    (\<forall>v \<in> set vs. \<forall>b \<in> set (bl v). (unat b, 40) \<in> allocs (vm_heap s'))"
proof -
  have "as_pages t vs bl s \<subseteq> used_pages (usage s)" using assms owned_iff by (auto simp: as_inv_def)
  moreover have "\<forall>v \<in> set vs. \<forall>b \<in> set (bl v). (unat b, 40) \<in> allocs (vm_heap s)"
    using assms by (auto simp: as_inv_def vma_objects_def)
  ultimately show ?thesis using as_inv_exit [OF assms] by (auto simp: used_pages_release)
qed

theorem exit_mm_releases_witness:
  "\<exists>h p s'. exit_mm (Task 0) (as_start h p) = Some s' \<and> used_pages (usage s') = {} \<and> p \<noteq> NULL \<and>
    allocs (vm_heap s') = allocs h - {(unat p, 24)}"
proof -
  obtain h p where a: "as_inv (Task 0) [] (\<lambda>_. []) (as_start h p)" using as_started by blast
  then have "p \<noteq> NULL" by (simp add: as_inv_def)
  moreover have "as_pages (Task 0) [] (\<lambda>_. []) (as_start h p) = {page_addr 0}"
    by (simp add: as_pages_def blocks_pages_def numeral_2_eq_2 zero_mem_entry)
  moreover have "used_pages ((\<lambda>_. 0)(0 := 1)) = {page_addr 0}"
    by (auto simp: used_pages_def MAX_NUM_PAGES_val split: if_splits)
  ultimately show ?thesis using exit_mm_releases [OF a] by auto
qed

text \<open>A new area: \<^verbatim>\<open>setup_vma\<close> keeps the address space well formed, changes no page and no
  existing area, and when it returns 0 the first area that \<^verbatim>\<open>find_vma\<close> finds for an address in
  the new range is the new one; addresses outside are found as before.\<close>

theorem setup_vma_extends:
  assumes "as_inv t vs bl s"
  shows "\<exists>r s'. setup_vma t a e fl l s = Some (r, s') \<and> usage s' = usage s \<and> vmem s' = vmem s \<and>
    (r = -1 \<and> as_inv t vs bl s' \<or>
     r = 0 \<and> (\<exists>v. v \<notin> set vs \<and> as_inv t (v # vs) (bl(v := [])) s' \<and>
       vm_start (vmas s' v) = a \<and> vm_end (vmas s' v) = e \<and> vm_flags (vmas s' v) = fl \<and> lma (vmas s' v) = l \<and>
       (\<forall>addr. find_vma s' (mm (vm_task s' t)) addr =
          (if a \<le> addr \<and> addr < e then Some v else find_vma s (mm (vm_task s t)) addr))))"
proof -
  obtain r s' where r: "setup_vma t a e fl l s = Some (r, s')" "usage s' = usage s" "vmem s' = vmem s"
    "r = -1 \<and> as_inv t vs bl s' \<and> vmas s' = vmas s \<or>
     r = 0 \<and> (\<exists>v. v \<notin> set vs \<and> as_inv t (v # vs) (bl(v := [])) s' \<and>
       same_area (vmas s' v) (zero_vma\<lparr>vm_start := a, vm_end := e, vm_flags := fl, lma := l\<rparr>) \<and>
       (\<forall>w \<in> set vs. same_area (vmas s' w) (vmas s w)))"
    using setup_vma_inv [OF assms, of a e fl l] by blast
  show ?thesis
  proof (cases "r = -1")
    case False
    then obtain v where v: "r = 0" "v \<notin> set vs" "as_inv t (v # vs) (bl(v := [])) s'"
      "same_area (vmas s' v) (zero_vma\<lparr>vm_start := a, vm_end := e, vm_flags := fl, lma := l\<rparr>)"
      "\<forall>w \<in> set vs. same_area (vmas s' w) (vmas s w)" using r(4) by auto
    have "List.find (vma_covers (vmas s') addr) vs = List.find (vma_covers (vmas s) addr) vs" for addr
      using v(5) by (intro find_cong) (auto simp: vma_covers_def same_area_def)
    then have "find_vma s' (mm (vm_task s' t)) addr =
        (if a \<le> addr \<and> addr < e then Some v else find_vma s (mm (vm_task s t)) addr)" for addr
      using v(4) unfolding find_vma_chain [OF v(3)] find_vma_chain [OF assms]
      by (simp add: vma_covers_def same_area_def)
    then show ?thesis using r(1-3) v(1-4) by (auto simp: same_area_def)
  qed (use r in auto)
qed

theorem setup_vma_extends_witness:
  "\<exists>h p r s'. setup_vma (Task 0) 0x400000 0x402000 (VM_READ OR VM_WRITE) (-1) (as_start h p) = Some (r, s') \<and>
    (r = 0 \<longrightarrow> (\<exists>v. find_vma s' (mm (vm_task s' (Task 0))) 0x401234 = Some v \<and> vm_end (vmas s' v) = 0x402000))"
proof -
  obtain h p where a: "as_inv (Task 0) [] (\<lambda>_. []) (as_start h p)" using as_started by blast
  from setup_vma_extends [OF a, of "0x400000" "0x402000" "VM_READ OR VM_WRITE" "-1"] show ?thesis by fastforce
qed

text \<open>C18. Isolation of address spaces: mapping pages into the tables of one task comes back, maps the
  pages there, keeps both address spaces well formed and disjoint, and changes no translation of
  another task whose pages are disjoint.\<close>

theorem user_mapping_isolated:
  assumes "as_inv t vs bl s" "as_inv t' vs' bl' s" "as_pages t vs bl s \<inter> as_pages t' vs' bl' s = {}"
    "pg_dir (vm_task s t) \<noteq> NULL" "2 * n \<le> free_count (usage s)" "frame_addr phy" "unat phy + 4096 * n \<le> 2 ^ 48"
  shows "\<exists>s'. setup_user_page_mapping (pg_dir (vm_task s t)) virt phy (4096 * of_nat n) rdonly s = Some s' \<and>
    as_inv t vs bl s' \<and> as_inv t' vs' bl' s' \<and> as_pages t vs bl s' \<inter> as_pages t' vs' bl' s' = {} \<and>
    (\<forall>u. vm_task s' u = vm_task s u) \<and>
    (\<forall>v. lookup True (vmem s') (pg_dir (vm_task s t)) (va_path v) =
       set_range virt phy (user_attrs rdonly) n (va_path v) (lookup True (vmem s) (pg_dir (vm_task s t)) (va_path v))) \<and>
    (\<forall>v. lookup True (vmem s') (pg_dir (vm_task s t')) (va_path v) =
       lookup True (vmem s) (pg_dir (vm_task s t')) (va_path v))"
proof -
  let ?d = "pg_dir (vm_task s t)"
  have i: "usage_bits (usage s)" "pt_wf True 2 (vmem s) ?d" "tables True 2 (vmem s) ?d \<subseteq> used_pages (usage s)"
    using assms(1) owned_iff by (auto simp: as_inv_def as_pages_def)
  obtain s' where s': "setup_user_page_mapping ?d virt phy (4096 * of_nat n) rdonly s = Some s'"
    "user_mapped ?d virt phy n rdonly s s'"
    using setup_user_page_mapping_run [OF assms(4) i assms(5-7) refl] by blast
  have "lookup True (vmem s') ?d (va_path v) =
       set_range virt phy (user_attrs rdonly) n (va_path v) (lookup True (vmem s) ?d (va_path v))" for v
    using s'(2) by (auto simp: user_mapped_def edits_def)
  moreover have "vm_task s' u = vm_task s u" for u using s'(2) by (auto simp: user_mapped_def)
  ultimately show ?thesis
    using s'(1) user_mapped_inv(1) [OF assms(1) s'(2)] user_mapped_other [OF assms(1) s'(2) assms(2,3)] by auto
qed

theorem user_mapping_isolated_witness:
  "\<exists>h p s'. setup_user_page_mapping (page_addr 0) 0x400000 0x70005000 (4096 * of_nat 1) False (as_pair h p) = Some s' \<and>
    as_inv (Task 1) [] (\<lambda>_. []) s' \<and>
    lookup True (vmem s') (page_addr 0) (va_path 0x400000) = leaf_desc 0x70005000 (user_attrs False) \<and>
    lookup True (vmem s') (page_addr 1) (va_path 0x400000) = 0"
proof -
  obtain h p where a: "as_inv (Task 0) [] (\<lambda>_. []) (as_pair h p)" "as_inv (Task 1) [] (\<lambda>_. []) (as_pair h p)"
    "as_pages (Task 0) [] (\<lambda>_. []) (as_pair h p) = {page_addr 0}"
    "as_pages (Task 1) [] (\<lambda>_. []) (as_pair h p) = {page_addr 1}" by (rule as_paired)
  have d: "page_addr 0 \<noteq> page_addr 1" by (simp add: page_addr_eq_iff MAX_NUM_PAGES_val)
  have fr: "2 * 1 \<le> free_count (usage (as_pair h p))"
    using card_mono [of "{i. i < MAX_NUM_PAGES \<and> usage (as_pair h p) i = 0}" "{2, 3}"]
    by (simp add: free_count_def as_pair_def MAX_NUM_PAGES_val)
  have t: "pg_dir (vm_task (as_pair h p) (Task 0)) = page_addr 0" "pg_dir (vm_task (as_pair h p) (Task 1)) = page_addr 1"
    by (simp_all add: as_pair_def as_start_def vm_task_def task_of_def boot_fields upd_task_def)
  have z: "lookup True (vmem (as_pair h p)) x (va_path 0x400000) = 0" for x
    using lookup_zero [of x "\<lambda>_. 0" 2 "va_path 0x400000"] by (simp add: zero_page_def zero_mem_entry as_pair_def)
  have n: "pg_dir (vm_task (as_pair h p) (Task 0)) \<noteq> NULL"
    using t page_addr_facts(3) [of 0] by (simp add: MAX_NUM_PAGES_val)
  have p: "frame_addr 0x70005000" "unat (0x70005000 :: u64) + 4096 * 1 \<le> 2 ^ 48" by (simp_all add: frame_addr_iff)
  have e: "as_pages (Task 0) [] (\<lambda>_. []) (as_pair h p) \<inter> as_pages (Task 1) [] (\<lambda>_. []) (as_pair h p) = {}"
    unfolding a(3,4) using d by simp
  obtain s' where "setup_user_page_mapping (page_addr 0) 0x400000 0x70005000 (4096 * of_nat 1) False (as_pair h p) = Some s'"
    "as_inv (Task 1) [] (\<lambda>_. []) s'"
    "\<forall>v. lookup True (vmem s') (page_addr 0) (va_path v) = set_range 0x400000 0x70005000 (user_attrs False) 1 (va_path v)
       (lookup True (vmem (as_pair h p)) (page_addr 0) (va_path v))"
    "\<forall>v. lookup True (vmem s') (page_addr 1) (va_path v) = lookup True (vmem (as_pair h p)) (page_addr 1) (va_path v)"
    using user_mapping_isolated [OF a(1,2) e n fr p, of "0x400000" False] unfolding t by blast
  then show ?thesis using z by (intro exI [of _ h] exI [of _ p] exI [of _ s']) (simp add: set_leaf_def)
qed

end
