(* ===== verification/Boot_Map.thy ===== *)
theory Boot_Map
  imports Page_Table
begin

text \<open>
  Turning on the MMU: \<^verbatim>\<open>mm/mmu.c\<close> and the call sequence of \<^verbatim>\<open>boot/boot.S\<close>. The boot code runs with
  physical addresses. It clears its data section, builds an identity map and the linear map of the first five gigabytes with
  table pages taken from a fixed area, checks both maps with a walk, and loads the translation registers.

  The addresses the linker chooses (the data section, the two directories, the area for tables) are arguments; the size of the
  area is that of \<^verbatim>\<open>boot_kernel.ld\<close>. The messages are left out, and so is the build with block mappings
  (\<^verbatim>\<open>MMU_BY_BLOCK\<close>), which the makefile does not select.
\<close>

unbundle bit_operations_syntax

section \<open>Definitions\<close>

definition PAGE_TABLE_RAM_SIZE :: u64 where "PAGE_TABLE_RAM_SIZE = 0x2000000"

text \<open>The state of the allocator is its static variable \<^verbatim>\<open>offset\<close>; \<open>pg_mem\<close> is the area.\<close>

definition pg_calloc :: "u64 \<Rightarrow> nat \<Rightarrow> u64 \<Rightarrow> mem \<Rightarrow> u64 \<times> u64 \<times> mem" where
  "pg_calloc pg_mem order offset m =
    (let sz = PAGE_SIZE * push_bit order 1
     in if PAGE_TABLE_RAM_SIZE \<le> offset + sz then (NULL, offset, m)
        else let allocated = pg_mem + offset
             in (allocated, offset + sz, memset m allocated 0 sz))"

text \<open>As the supplier of table pages, which asks for one page at a time.\<close>

definition boot_calloc :: "u64 \<Rightarrow> u64 \<Rightarrow> mem \<Rightarrow> (u64 \<times> u64 \<times> mem) option" where
  "boot_calloc pg_mem offset m = Some (pg_calloc pg_mem 0 offset m)"

definition TCR_TG0_4K :: u64 where "TCR_TG0_4K = push_bit 14 0"
definition TCR_TG1_4K :: u64 where "TCR_TG1_4K = push_bit 30 0"
definition TCR_SHARED_INNER :: u64 where "TCR_SHARED_INNER = push_bit 12 3"
definition TCR_ORGN_WBWA :: u64 where "TCR_ORGN_WBWA = push_bit 10 1"
definition TCR_IRGN_WBWA :: u64 where "TCR_IRGN_WBWA = push_bit 8 1"
definition TCR_T0SZ :: "u64 \<Rightarrow> u64" where "TCR_T0SZ x = 64 - x"
definition TCR_T1SZ :: "u64 \<Rightarrow> u64" where "TCR_T1SZ x = push_bit 16 (64 - x)"

definition get_tcr :: u64 where
  "get_tcr =
    (let ips = 2; va_bits = of_nat VA_BITS;
         tcr = push_bit 32 ips;
         tcr = tcr OR TCR_TG1_4K OR TCR_TG0_4K OR TCR_SHARED_INNER OR TCR_ORGN_WBWA OR TCR_IRGN_WBWA;
         tcr = tcr OR TCR_T0SZ va_bits
     in tcr OR TCR_T1SZ va_bits)"

definition MEMORY_ATTRIBUTES :: u64 where
  "MEMORY_ATTRIBUTES = 0 OR push_bit 8 0x04 OR push_bit 16 0x0C OR push_bit 24 0x44 OR push_bit 32 0xFF"

definition boot_maps :: "memory_map list" where
  "boot_maps =
    [\<lparr>map_phy_addr = 0, map_virt_addr = 0, map_size = push_bit 30 1,
      map_attrs = PTE_BLOCK_MEMTYPE MT_DEVICE_NGNRNE OR PTE_BLOCK_NON_SHARE OR PTE_BLOCK_PXN OR PTE_BLOCK_UXN\<rparr>,
     \<lparr>map_phy_addr = push_bit 30 1, map_virt_addr = push_bit 30 1, map_size = push_bit 30 4,
      map_attrs = PTE_BLOCK_MEMTYPE MT_NORMAL OR PTE_BLOCK_INNER_SHARE OR PTE_BLOCK_UXN\<rparr>]"

fun add_map_loop :: "('a \<Rightarrow> mem \<Rightarrow> (u64 \<times> 'a \<times> mem) option) \<Rightarrow> u64 \<Rightarrow> u64 \<Rightarrow> memory_map list \<Rightarrow> 'a \<times> mem \<Rightarrow> ('a \<times> mem) option" where
  "add_map_loop calloc id_map linear_map [] s = Some s"
| "add_map_loop calloc id_map linear_map (mp # mps) s = do {
     s \<leftarrow> add_single_map calloc mp id_map False s;
     s \<leftarrow> add_single_map calloc (mp\<lparr>map_virt_addr := map_virt_addr mp + PAGE_OFFSET\<rparr>) linear_map False s;
     add_map_loop calloc id_map linear_map mps s }"

definition add_map :: "u64 \<Rightarrow> u64 \<Rightarrow> u64 \<Rightarrow> u64 \<times> mem \<Rightarrow> (u64 \<times> mem) option" where
  "add_map pg_mem id_map linear_map = add_map_loop (boot_calloc pg_mem) id_map linear_map boot_maps"

record mmu_regs =
  ttbr0_el1 :: u64
  ttbr1_el1 :: u64
  tcr_el1 :: u64
  mair_el1 :: u64
  sctlr_el1 :: u64

definition CR_M :: u64 where "CR_M = push_bit 0 1"

text \<open>\<open>reg\<close> is the address of a local variable; a failed assertion is \<open>None\<close>.\<close>

definition enable_paging :: "u64 \<Rightarrow> u64 \<Rightarrow> u64 \<Rightarrow> mem \<Rightarrow> mmu_regs \<Rightarrow> mmu_regs option" where
  "enable_paging id_map linear_map reg m r =
    (if walk_virt_addr m id_map reg False \<noteq> reg AND NOT (PAGE_SIZE - 1) then None
     else if walk_virt_addr m linear_map 0xFFFFFFC050FFFFC0 False \<noteq> (0xFFFFFFC050FFFFC0 - PAGE_OFFSET) AND NOT (PAGE_SIZE - 1) then None
     else let r = r\<lparr>ttbr0_el1 := id_map, ttbr1_el1 := linear_map\<rparr>;
              r = r\<lparr>tcr_el1 := get_tcr\<rparr>;
              r = r\<lparr>mair_el1 := MEMORY_ATTRIBUTES\<rparr>
          in Some (r\<lparr>sctlr_el1 := sctlr_el1 r OR CR_M\<rparr>))"

function clear_bss :: "u64 \<Rightarrow> u64 \<Rightarrow> mem \<Rightarrow> mem" where
  "clear_bss p bss_end m = (if p < bss_end then clear_bss (p + 1) bss_end (m(p := 0)) else m)"
  by pat_completeness auto
termination
proof (relation "measure (\<lambda>(p, bss_end, m). unat bss_end - unat p)")
  fix p bss_end :: u64 and m :: mem
  assume "p < bss_end"
  then have lt: "unat p < unat bss_end" by (simp add: word_less_nat_alt)
  then have "Suc (unat p) < 18446744073709551616" using unat_lt_64 [of bss_end] by linarith
  then have "unat (p + 1) = Suc (unat p)" by (simp add: unat_word_ariths)
  with lt have "unat (p + 1) = Suc (unat p)" "unat p < unat bss_end" by simp_all
  then show "((p + 1, bss_end, m(p := 0)), p, bss_end, m) \<in> measure (\<lambda>(p, bss_end, m). unat bss_end - unat p)" by simp
qed simp

declare clear_bss.simps [simp del]

text \<open>The boot sequence of the first CPU up to the jump into the kernel proper; the others find the tables made.\<close>

record boot_image =
  bi_bss_start :: u64
  bi_bss_end :: u64
  bi_id_map :: u64
  bi_linear_map :: u64
  bi_pg_mem :: u64

definition boot_cpu :: "boot_image \<Rightarrow> u64 \<Rightarrow> mem \<Rightarrow> mmu_regs \<Rightarrow> (u64 \<times> mem \<times> mmu_regs) option" where
  "boot_cpu im reg m r = do {
     let m = clear_bss (bi_bss_start im) (bi_bss_end im) m;
     (offset, m) \<leftarrow> add_map (bi_pg_mem im) (bi_id_map im) (bi_linear_map im) (0, m);
     r \<leftarrow> enable_paging (bi_id_map im) (bi_linear_map im) reg m r;
     Some (offset, m, r) }"

section \<open>How many tables a range needs\<close>

text \<open>Page after page of a range, a new leaf table is needed at every 512th page and a new middle table at every 512th of these.\<close>

definition new_tables :: "nat \<Rightarrow> nat" where
  "new_tables v = (if v mod 512 \<noteq> 0 then 0 else if v mod 2 ^ 18 \<noteq> 0 then 1 else 2)"

lemma va_path_vpn: "va_path virt = [vpn virt div 2 ^ 18, vpn virt div 512 mod 512, vpn virt mod 512]"
proof -
  have "unat virt div 2 ^ 30 mod 512 = unat virt div 4096 mod 2 ^ 27 div 2 ^ 18"
    using mod_mult2_eq [of "unat virt div 4096" "2 ^ 18" "2 ^ 9"] by (simp add: div_mult2_eq [symmetric])
  moreover have "unat virt div 2 ^ 21 mod 512 = unat virt div 4096 mod 2 ^ 27 div 512 mod 512"
    using mod_mult2_eq [of "unat virt div 4096" "2 ^ 9" "2 ^ 18"] by (simp add: mod_mod_cancel div_mult2_eq [symmetric])
  moreover have "unat virt div 2 ^ 12 mod 512 = unat virt div 4096 mod 2 ^ 27 mod 512" by (simp add: mod_mod_cancel)
  ultimately show ?thesis by (simp add: va_path_def layers_def vpn_def get_pg_entry_index_div)
qed

lemma missing_step:
  assumes "vpn virt mod 2 ^ 18 = 0 \<or> 0 < vpn virt \<and> lookup b m t (va_path prev) \<noteq> 0 \<and> vpn prev = vpn virt - 1"
  shows "missing b m t (va_path virt) \<le> new_tables (vpn virt)"
proof (cases "vpn virt mod 2 ^ 18 = 0")
  case True
  then have "vpn virt mod 512 = 0" using mod_mod_cancel [of 512 "2 ^ 18" "vpn virt"] by simp
  then show ?thesis using True missing_le [of b m t "va_path virt"] by (simp add: new_tables_def va_path_vpn)
next
  case False
  define v where "v = vpn virt"
  have p: "0 < v" "lookup b m t [(v - 1) div 2 ^ 18, (v - 1) div 512 mod 512, (v - 1) mod 512] \<noteq> 0"
    using assms False unfolding va_path_vpn v_def by metis+
  obtain w where w: "v = Suc w" using p(1) by (cases v) auto
  have d: "v div 2 ^ 18 = w div 2 ^ 18" using False unfolding w v_def [symmetric] by (simp add: div_Suc)
  have e: "v mod 512 \<noteq> 0 \<Longrightarrow> v div 512 = w div 512" unfolding w by (simp add: div_Suc)
  show ?thesis
    using p(2) False e unfolding va_path_vpn v_def [symmetric] new_tables_def d by (auto simp: w split: if_splits)
qed

lemma sum_split: "(\<Sum>j < (x :: nat) + y. f j) = (\<Sum>j < x. f j) + (\<Sum>j < y. f (x + j) :: nat)"
  by (induction y) auto

lemma sum_chunks: "(\<Sum>j < (c :: nat) * k. f j) = (\<Sum>i < k. \<Sum>j < c. f (c * i + j) :: nat)"
proof (induction k)
  case (Suc k)
  have "c * Suc k = c * k + c" by simp
  then show ?case using Suc by (simp only: sum_split sum.lessThan_Suc)
qed simp

lemma new_tables_512:
  assumes "b mod 512 = 0"
  shows "(\<Sum>j < 512. new_tables (b + j)) = new_tables b"
proof -
  obtain c where c: "b = 512 * c" using assms by (auto simp: mod_eq_0_iff_dvd)
  have "new_tables (b + Suc j) = 0" if "j < 511" for j
  proof -
    have "(512 * c + Suc j) mod 512 = Suc j" using that by (simp only: mod_mult_self4 mod_less)
    then show ?thesis by (simp add: new_tables_def c)
  qed
  then have "(\<Sum>j < Suc 511. new_tables (b + j)) = new_tables b"
    unfolding sum.lessThan_Suc_shift by simp
  then show ?thesis by simp
qed

lemma new_tables_2_18:
  assumes "b mod 2 ^ 18 = 0"
  shows "(\<Sum>j < 2 ^ 18. new_tables (b + j)) = 513"
proof -
  obtain c where c: "b = 2 ^ 18 * c" using assms by (auto simp: mod_eq_0_iff_dvd)
  have z: "(b + 512 * i) mod 512 = 0" for i
  proof -
    have "b + 512 * i = 512 * (512 * c + i)" by (simp add: c)
    then show ?thesis by simp
  qed
  have e: "new_tables (b + 512 * Suc i) = 1" if "i < 511" for i
  proof -
    have "(2 ^ 18 * c + 512 * Suc i) mod 2 ^ 18 = 512 * Suc i" using that unfolding mod_mult_self4 by simp
    then show ?thesis using z [of "Suc i"] by (simp add: new_tables_def c)
  qed
  have "(\<Sum>j < 512 * 512. new_tables (b + j)) = (\<Sum>i < 512. \<Sum>j < 512. new_tables (b + 512 * i + j))"
    unfolding sum_chunks by (simp add: add.assoc)
  also have "\<dots> = (\<Sum>i < 512. new_tables (b + 512 * i))" using new_tables_512 [OF z] by simp
  also have "\<dots> = (\<Sum>i < Suc 511. new_tables (b + 512 * i))" by simp
  also have "\<dots> = 513" unfolding sum.lessThan_Suc_shift using e assms z [of 0] by (simp add: new_tables_def)
  finally show ?thesis by simp
qed

lemma new_tables_chunks:
  assumes "b mod 2 ^ 18 = 0"
  shows "(\<Sum>j < 2 ^ 18 * g. new_tables (b + j)) = 513 * g"
proof -
  have "(b + 2 ^ 18 * i) mod 2 ^ 18 = 0" for i using assms by simp
  from new_tables_2_18 [OF this] show ?thesis unfolding sum_chunks by (simp add: add.assoc [symmetric])
qed

context page_source
begin

text \<open>The tables a range takes from the supplier, counted exactly when it starts a directory entry of its own.\<close>

lemma single_map_loop_budget:
  assumes "src_ok a" "pt_wf mmu_on 2 m t" "tables mmu_on 2 m t \<subseteq> used a"
    "(\<Sum>j < n. new_tables (vpn virt + j)) \<le> avail a" "vpn virt + n \<le> 2 ^ 27"
    "vpn virt mod 2 ^ 18 = 0 \<or> 0 < vpn virt \<and> lookup mmu_on m t (va_path prev) \<noteq> 0 \<and> vpn prev = vpn virt - 1"
    "get_phy_addr attrs = 0" "unat phy + 4096 * n < 2 ^ 64"
    "0 < n \<Longrightarrow> unat phy + 4096 * (n - 1) < unat end_addr" "unat end_addr \<le> unat phy + 4096 * n"
  shows "\<exists>a' m'. single_map_loop calloc t phy virt end_addr attrs mmu_on (a, m) = Some (a', m') \<and>
    src_ok a' \<and> avail a \<le> avail a' + (\<Sum>j < n. new_tables (vpn virt + j)) \<and>
    edits mmu_on 2 t (set_range virt phy attrs n) (used a) (used a') m m'"
  using assms(1-6,8-)
proof (induction n arbitrary: a m phy virt prev)
  case 0
  then have "\<not> phy < end_addr" by (simp add: word_less_nat_alt)
  then show ?case using 0 by (simp add: single_map_loop.simps edits_def)
next
  case (Suc n)
  let ?N = "\<Sum>j < n. new_tables (Suc (vpn virt) + j)"
  have sm: "(\<Sum>j < Suc n. new_tables (vpn virt + j)) = new_tables (vpn virt) + ?N"
    by (simp add: sum.lessThan_Suc_shift del: sum.lessThan_Suc)
  have ms: "missing mmu_on m t (va_path virt) \<le> new_tables (vpn virt)" using missing_step [OF Suc.prems(6)] .
  obtain a1 m1 where s: "setup_pg_for_addr calloc t phy virt attrs mmu_on (a, m) = Some (a1, m1)"
    "src_ok a1" "avail a \<le> avail a1 + new_tables (vpn virt)"
    "edits mmu_on 2 t (set_leaf (va_path virt) (leaf_desc phy attrs)) (used a) (used a1) m m1"
    using setup_pg_for_addr_spec [OF Suc.prems(1-3) _ assms(7), of virt phy] Suc.prems(4) ms unfolding sm by fastforce
  have u: "unat (phy + PAGE_SIZE) = unat phy + 4096"
    using Suc.prems(7) by (simp add: PAGE_SIZE_def unat_word_ariths)
  have lt: "phy < end_addr" using Suc.prems(8) by (simp add: word_less_nat_alt)
  have wf: "pt_wf mmu_on 2 m1 t" "tables mmu_on 2 m1 t \<subseteq> used a1" using s(4) Suc.prems(3) by (auto simp: edits_def)
  have lk: "lookup mmu_on m1 t (va_path virt) \<noteq> 0"
    using s(4) by (auto simp: edits_def set_leaf_def leaf_desc_def desc_not_0)
  have v: "vpn (virt + PAGE_SIZE) = (if vpn virt + 1 = 2 ^ 27 then 0 else vpn virt + 1)"
    using vpn_add [of virt 1] Suc.prems(5) by auto
  have v1: "vpn (virt + PAGE_SIZE) + n \<le> 2 ^ 27" using v Suc.prems(5) by (auto split: if_splits)
  have v2: "vpn (virt + PAGE_SIZE) mod 2 ^ 18 = 0 \<or>
      0 < vpn (virt + PAGE_SIZE) \<and> lookup mmu_on m1 t (va_path virt) \<noteq> 0 \<and> vpn virt = vpn (virt + PAGE_SIZE) - 1"
    using v lk by (auto split: if_splits)
  have "0 < n \<Longrightarrow> unat (phy + PAGE_SIZE) + 4096 * (n - 1) < unat end_addr"
    using Suc.prems(8) u by (cases n) auto
  moreover have "(\<Sum>j < n. new_tables (vpn (virt + PAGE_SIZE) + j)) = ?N" using v Suc.prems(5) by (cases n) auto
  ultimately obtain a' m' where r:
    "single_map_loop calloc t (phy + PAGE_SIZE) (virt + PAGE_SIZE) end_addr attrs mmu_on (a1, m1) = Some (a', m')"
    "src_ok a'" "avail a1 \<le> avail a' + ?N"
    "edits mmu_on 2 t (set_range (virt + PAGE_SIZE) (phy + PAGE_SIZE) attrs n) (used a1) (used a') m1 m'"
    using Suc.IH [OF s(2) wf _ v1 v2, of "phy + PAGE_SIZE"] Suc.prems(4,7,9) s(3) u unfolding sm by auto
  with s(1,3) lt edits_trans [OF s(4) r(4)] sm show ?case
    by (simp add: single_map_loop.simps [of _ _ phy] del: sum.lessThan_Suc)
qed

end


section \<open>The boot allocator as a supplier of table pages\<close>

text \<open>\<open>D\<close> are the pages outside the area that are in use, the two directories.\<close>

definition boot_used :: "u64 \<Rightarrow> u64 set \<Rightarrow> u64 \<Rightarrow> u64 set" where
  "boot_used pg_mem D offset = D \<union> (\<lambda>i. wd (unat pg_mem + 4096 * i)) ` {..<unat offset div 4096}"

definition boot_avail :: "u64 \<Rightarrow> nat" where "boot_avail offset = 8191 - unat offset div 4096"

definition boot_ok :: "u64 \<Rightarrow> u64 set \<Rightarrow> u64 \<Rightarrow> bool" where
  "boot_ok pg_mem D offset \<longleftrightarrow> page_aligned pg_mem \<and> pg_mem \<noteq> NULL \<and> unat pg_mem + 4096 * 8192 \<le> 2 ^ 48 \<and>
    4096 dvd unat offset \<and> unat offset \<le> 4096 * 8191 \<and> (\<forall>i < 8192. wd (unat pg_mem + 4096 * i) \<notin> D)"

lemma boot_calloc_some:
  assumes ok: "boot_ok pg_mem D a" and av: "0 < boot_avail a"
  shows "\<exists>p a' m'. boot_calloc pg_mem a m = Some (p, a', m') \<and> p \<noteq> NULL \<and> page_aligned p \<and> frame_addr (table_phys False p) \<and>
    p \<notin> boot_used pg_mem D a \<and> boot_used pg_mem D a' = insert p (boot_used pg_mem D a) \<and> boot_avail a' = boot_avail a - 1 \<and>
    boot_ok pg_mem D a' \<and> zero_page p m' \<and> (\<forall>u. page_aligned u \<longrightarrow> u \<noteq> p \<longrightarrow> page_eq u m m')"
proof -
  obtain i where i: "unat a = 4096 * i" "i < 8191" using ok av by (auto simp: boot_ok_def boot_avail_def dvd_def)
  define p where "p = pg_mem + a"
  have a': "unat (a + 4096) = 4096 * Suc i" using i by (simp add: unat_word_ariths)
  have b: "unat pg_mem + 4096 * 8192 \<le> 2 ^ 48" using ok by (simp add: boot_ok_def)
  have pw: "p = wd (unat pg_mem + 4096 * i)" unfolding p_def i(1) [symmetric] by (simp flip: wd_add)
  have up: "unat p = unat pg_mem + 4096 * i" unfolding pw by (rule unat_wd) (use b i(2) in simp)
  have "unat pg_mem \<noteq> 0" using ok by (simp add: boot_ok_def unat_eq_0)
  then have al: "page_aligned p" "p \<noteq> NULL" "frame_addr p"
    using ok up i(2) b by (auto simp: boot_ok_def page_aligned_def frame_addr_iff)
  have new: "p \<notin> boot_used pg_mem D a"
  proof -
    have "wd (unat pg_mem + 4096 * j) \<noteq> p" if "j < i" for j
    proof -
      have "unat (wd (unat pg_mem + 4096 * j)) = unat pg_mem + 4096 * j" by (rule unat_wd) (use b i(2) that in simp)
      then show ?thesis using up that by auto
    qed
    moreover have "p \<notin> D" using ok i(2) unfolding pw boot_ok_def by auto
    ultimately show ?thesis using i(1) by (auto simp: boot_used_def)
  qed
  have "\<not> PAGE_TABLE_RAM_SIZE \<le> a + 4096" using a' i(2) by (simp add: PAGE_TABLE_RAM_SIZE_def word_le_nat_alt)
  then have run: "boot_calloc pg_mem a m = Some (p, a + 4096, memset m p 0 4096)"
    by (simp add: boot_calloc_def pg_calloc_def Let_def PAGE_SIZE_def p_def)
  have "boot_used pg_mem D (a + 4096) = insert p (boot_used pg_mem D a)"
    unfolding boot_used_def a' i(1) pw by (auto simp: lessThan_Suc)
  moreover have "boot_avail (a + 4096) = boot_avail a - 1" by (simp add: boot_avail_def a' i(1))
  moreover have "boot_ok pg_mem D (a + 4096)" using ok i(2) unfolding boot_ok_def a' by auto
  ultimately show ?thesis using run al new zeroed_page [OF al(1)] by (auto simp: table_phys_def)
qed

lemma boot_calloc_none:
  assumes "boot_ok pg_mem D a" "boot_avail a = 0"
  shows "\<exists>a'. boot_calloc pg_mem a m = Some (NULL, a', m)"
proof -
  have "unat a = 4096 * 8191" using assms by (auto simp: boot_ok_def boot_avail_def dvd_def)
  then have "unat (a + 4096) = 4096 * 8192" by (simp add: unat_word_ariths)
  then have "PAGE_TABLE_RAM_SIZE \<le> a + 4096" by (simp add: PAGE_TABLE_RAM_SIZE_def word_le_nat_alt)
  then show ?thesis by (simp add: boot_calloc_def pg_calloc_def Let_def PAGE_SIZE_def)
qed

interpretation bootpg: page_source "boot_calloc pg_mem" "boot_used pg_mem D" boot_avail "boot_ok pg_mem D" False
  for pg_mem D
  by unfold_locales (use boot_calloc_some boot_calloc_none in blast)+

section \<open>Two trees of tables\<close>

lemma edits_other:
  assumes "edits b k t f U U' m m'" "pt_wf b k m r" "tables b k m r \<subseteq> U" "tables b k m t \<inter> tables b k m r = {}"
  shows "pt_wf b k m' r" "tables b k m' r = tables b k m r" "path_ok k p \<Longrightarrow> lookup b m' r p = lookup b m r p"
    "tables b k m' t \<inter> tables b k m' r = {}"
proof -
  have e: "page_eq u m m'" if "u \<in> tables b k m r" for u
    using assms(1,3,4) that tables_aligned [OF assms(2) that] unfolding edits_def by blast
  show "pt_wf b k m' r" using assms(2) pt_wf_cong [OF e] by simp
  show tr: "tables b k m' r = tables b k m r" by (rule tables_cong [OF e])
  show "path_ok k p \<Longrightarrow> lookup b m' r p = lookup b m r p" by (rule lookup_cong [OF e])
  show "tables b k m' t \<inter> tables b k m' r = {}" unfolding tr using assms(1,3,4) unfolding edits_def by blast
qed

text \<open>Mapping whole gigabytes.\<close>

lemma map_gigabytes:
  assumes "boot_ok pg_mem D a" "pt_wf False 2 m t" "tables False 2 m t \<subseteq> boot_used pg_mem D a" "513 * g \<le> boot_avail a"
    "vpn virt mod 2 ^ 18 = 0" "vpn virt + 2 ^ 18 * g \<le> 2 ^ 27" "get_phy_addr attrs = 0" "unat phy + 2 ^ 30 * g < 2 ^ 64"
  shows "\<exists>a' m'. add_single_map (boot_calloc pg_mem) \<lparr>map_phy_addr = phy, map_virt_addr = virt, map_size = push_bit 30 (of_nat g), map_attrs = attrs\<rparr>
      t False (a, m) = Some (a', m') \<and> boot_ok pg_mem D a' \<and> boot_avail a \<le> boot_avail a' + 513 * g \<and>
    edits False 2 t (set_range virt phy attrs (2 ^ 18 * g)) (boot_used pg_mem D a) (boot_used pg_mem D a') m m'"
proof -
  have "phy + push_bit 30 (of_nat g) = wd (unat phy + 2 ^ 30 * g)" by (simp add: wd_def push_bit_eq_mult mult.commute)
  then have e: "unat (phy + push_bit 30 (of_nat g)) = unat phy + 2 ^ 30 * g" using unat_wd [OF assms(8)] by simp
  have "(4096 :: nat) * (2 ^ 18 * g) = 2 ^ 30 * g" by simp
  then show ?thesis
    using bootpg.single_map_loop_budget [OF assms(1-3) _ assms(6) disjI1 [OF assms(5)] assms(7), of phy "phy + push_bit 30 (of_nat g)"]
      assms(4,8) e unfolding new_tables_chunks [OF assms(5)]
    by (auto simp: add_single_map_def)
qed


text \<open>Both trees, with their leaves.\<close>

definition two_maps :: "u64 \<Rightarrow> u64 set \<Rightarrow> u64 \<Rightarrow> u64 \<Rightarrow> u64 \<Rightarrow> mem \<Rightarrow> (nat list \<Rightarrow> u64) \<Rightarrow> (nat list \<Rightarrow> u64) \<Rightarrow> bool" where
  "two_maps pg_mem D t r a m ft fr \<longleftrightarrow> boot_ok pg_mem D a \<and> pt_wf False 2 m t \<and> pt_wf False 2 m r \<and>
    tables False 2 m t \<subseteq> boot_used pg_mem D a \<and> tables False 2 m r \<subseteq> boot_used pg_mem D a \<and>
    tables False 2 m t \<inter> tables False 2 m r = {} \<and>
    (\<forall>p. path_ok 2 p \<longrightarrow> lookup False m t p = ft p \<and> lookup False m r p = fr p)"

lemma two_maps_swap: "two_maps pg_mem D t r a m ft fr \<Longrightarrow> two_maps pg_mem D r t a m fr ft"
  by (auto simp: two_maps_def)

lemma two_maps_step:
  assumes tm: "two_maps pg_mem D t r a m ft fr" and g: "513 * g \<le> boot_avail a"
    "vpn virt mod 2 ^ 18 = 0" "vpn virt + 2 ^ 18 * g \<le> 2 ^ 27" "get_phy_addr attrs = 0" "unat phy + 2 ^ 30 * g < 2 ^ 64"
  obtains a' m' where "add_single_map (boot_calloc pg_mem) \<lparr>map_phy_addr = phy, map_virt_addr = virt, map_size = push_bit 30 (of_nat g), map_attrs = attrs\<rparr>
      t False (a, m) = Some (a', m')"
    "two_maps pg_mem D t r a' m' (\<lambda>p. set_range virt phy attrs (2 ^ 18 * g) p (ft p)) fr" "boot_avail a \<le> boot_avail a' + 513 * g"
    "boot_used pg_mem D a \<subseteq> boot_used pg_mem D a'"
    "\<And>u. page_aligned u \<Longrightarrow> u \<notin> boot_used pg_mem D a' \<Longrightarrow> page_eq u m m'"
proof -
  have w: "boot_ok pg_mem D a" "pt_wf False 2 m t" "tables False 2 m t \<subseteq> boot_used pg_mem D a"
    "pt_wf False 2 m r" "tables False 2 m r \<subseteq> boot_used pg_mem D a" "tables False 2 m t \<inter> tables False 2 m r = {}"
    using tm by (simp_all add: two_maps_def)
  obtain a' m' where s: "add_single_map (boot_calloc pg_mem) \<lparr>map_phy_addr = phy, map_virt_addr = virt, map_size = push_bit 30 (of_nat g), map_attrs = attrs\<rparr>
      t False (a, m) = Some (a', m')" "boot_ok pg_mem D a'" "boot_avail a \<le> boot_avail a' + 513 * g"
    and ed: "edits False 2 t (set_range virt phy attrs (2 ^ 18 * g)) (boot_used pg_mem D a) (boot_used pg_mem D a') m m'"
    using map_gigabytes [OF w(1-3) g] by blast
  note o = edits_other [OF ed w(4-6)]
  have sub: "boot_used pg_mem D a \<subseteq> boot_used pg_mem D a'" using ed by (simp add: edits_def)
  have "two_maps pg_mem D t r a' m' (\<lambda>p. set_range virt phy attrs (2 ^ 18 * g) p (ft p)) fr"
    using tm s(2) ed o w(3,5) sub by (auto simp: two_maps_def edits_def)
  moreover have "page_eq u m m'" if "page_aligned u" "u \<notin> boot_used pg_mem D a'" for u
    using ed that w(3) sub unfolding edits_def by blast
  ultimately show thesis using that s sub by blast
qed

text \<open>The leaf for the page of \<open>x\<close> behind the offset \<open>b\<close> of a map.\<close>

definition boot_leaf :: "u64 \<Rightarrow> nat list \<Rightarrow> u64" where
  "boot_leaf b p = set_range (b + push_bit 30 1) (push_bit 30 1) (map_attrs (boot_maps ! 1)) (2 ^ 18 * 4) p
     (set_range b 0 (map_attrs (boot_maps ! 0)) (2 ^ 18 * 1) p 0)"

lemma boot_attrs_low: "get_phy_addr (map_attrs (boot_maps ! 0)) = 0" "get_phy_addr (map_attrs (boot_maps ! 1)) = 0"
  by (simp_all add: boot_maps_def get_phy_addr_def PAGE_SIZE_def PTE_BLOCK_MEMTYPE_def MT_DEVICE_NGNRNE_def MT_NORMAL_def
      PTE_BLOCK_NON_SHARE_def PTE_BLOCK_INNER_SHARE_def PTE_BLOCK_PXN_def PTE_BLOCK_UXN_def)

lemma boot_leaf_at:
  assumes "unat x < 5 * 2 ^ 30" "4096 dvd unat b"
  shows "boot_leaf b (va_path (b + x)) = leaf_desc (PAGE_ADDR x) (map_attrs (boot_maps ! (if unat x < 2 ^ 30 then 0 else 1)))"
proof -
  define j where "j = unat x div 4096"
  have j: "j < 5 * 2 ^ 18" using assms(1) by (simp add: j_def div_less_iff_less_mult)
  have pj: "PAGE_ADDR x = PAGE_SIZE * of_nat j"
  proof -
    have "unat (PAGE_SIZE * of_nat j) = 4096 * j"
      using unat_wd [of "4096 * j"] j by (simp add: PAGE_SIZE_def wd_def)
    then show ?thesis by (simp add: word_unat_eq_iff unat_PAGE_ADDR j_def)
  qed
  have p: "va_path (b + x) = va_path (b + PAGE_SIZE * of_nat j)"
    by (simp add: va_path_eq_iff vpn_add vpn_add_any [OF assms(2)] j_def)
  show ?thesis
  proof (cases "unat x < 2 ^ 30")
    case True
    then have "j < 2 ^ 18 * 1" by (simp add: j_def div_less_iff_less_mult)
    from set_range_at [OF this, of b 0] True show ?thesis
      by (simp add: boot_leaf_def p pj set_range_kept leaf_desc_def desc_not_0)
  next
    case False
    define i where "i = j - 2 ^ 18"
    have "2 ^ 18 \<le> unat x div 4096" using False by simp
    then have ji: "j = 2 ^ 18 + i" "i < 2 ^ 18 * 4" using j by (auto simp: i_def j_def)
    have "va_path (b + PAGE_SIZE * of_nat j) \<noteq> va_path (b + PAGE_SIZE * of_nat l)" if "l < 2 ^ 18 * 1" for l
      using va_path_distinct [of l j b] that ji by simp
    then have z: "set_range b 0 (map_attrs (boot_maps ! 0)) (2 ^ 18 * 1) (va_path (b + PAGE_SIZE * of_nat j)) 0 = 0"
      by (rule set_range_other)
    have s: "PAGE_SIZE * of_nat j = push_bit 30 1 + PAGE_SIZE * of_nat i"
      unfolding ji(1) by (simp add: PAGE_SIZE_def algebra_simps push_bit_eq_mult)
    then have "b + PAGE_SIZE * of_nat j = b + push_bit 30 1 + PAGE_SIZE * of_nat i" by simp
    with set_range_at [OF ji(2), of "b + push_bit 30 1" "push_bit 30 1" "map_attrs (boot_maps ! 1)" 0] z s False
    show ?thesis unfolding boot_leaf_def p pj by (simp add: add.assoc)
  qed
qed

lemma boot_leaf_other:
  assumes "\<And>x. unat x < 5 * 2 ^ 30 \<Longrightarrow> vpn v \<noteq> vpn (b + x)"
  shows "boot_leaf b (va_path v) = 0"
proof -
  have n: "vpn v \<noteq> vpn (b + PAGE_SIZE * of_nat j)" if "j < 5 * 2 ^ 18" for j
    using assms [of "PAGE_SIZE * of_nat j"] unat_wd [of "4096 * j"] that by (simp add: PAGE_SIZE_def wd_def)
  have "va_path v \<noteq> va_path (b + push_bit 30 1 + PAGE_SIZE * of_nat j)" if "j < 2 ^ 18 * 4" for j
  proof -
    have e: "b + push_bit 30 1 + PAGE_SIZE * of_nat j = b + PAGE_SIZE * of_nat (2 ^ 18 + j)"
      by (simp add: PAGE_SIZE_def algebra_simps push_bit_eq_mult)
    have "2 ^ 18 + j < 5 * 2 ^ 18" using that by simp
    then show ?thesis unfolding va_path_eq_iff e by (rule n)
  qed
  moreover have "va_path v \<noteq> va_path (b + PAGE_SIZE * of_nat j)" if "j < 2 ^ 18 * 1" for j
    using n [of j] that by (simp add: va_path_eq_iff)
  ultimately show ?thesis unfolding boot_leaf_def by (simp add: set_range_other)
qed

lemma add_map_run:
  assumes ok: "boot_ok pg_mem {id_map, linear_map} 0" and d: "page_aligned id_map" "page_aligned linear_map" "id_map \<noteq> linear_map"
    and z: "zero_page id_map m" "zero_page linear_map m"
  obtains a m' where "add_map pg_mem id_map linear_map (0, m) = Some (a, m')"
    "two_maps pg_mem {id_map, linear_map} id_map linear_map a m' (boot_leaf 0) (boot_leaf PAGE_OFFSET)" "unat a \<le> 4096 * 5130"
    "\<And>u. page_aligned u \<Longrightarrow> u \<notin> boot_used pg_mem {id_map, linear_map} a \<Longrightarrow> page_eq u m m'"
proof -
  let ?D = "{id_map, linear_map}" and ?d = "map_attrs (boot_maps ! 0)" and ?r = "map_attrs (boot_maps ! 1)"
  have v: "vpn 0 = 0" "vpn (push_bit 30 1) = 2 ^ 18" "vpn PAGE_OFFSET = 2 ^ 26" "vpn (PAGE_OFFSET + push_bit 30 1) = 2 ^ 26 + 2 ^ 18"
    by (simp_all add: vpn_def PAGE_OFFSET_val push_bit_eq_mult)
  have t0: "two_maps pg_mem ?D id_map linear_map 0 m (\<lambda>_. 0) (\<lambda>_. 0)"
    using ok d z pt_wf_zero tables_zero lookup_zero by (auto simp: two_maps_def boot_used_def)
  have n0: "boot_avail 0 = 8191" by (simp add: boot_avail_def)
  obtain a1 m1 where s1: "add_single_map (boot_calloc pg_mem) \<lparr>map_phy_addr = 0, map_virt_addr = 0, map_size = push_bit 30 (of_nat 1), map_attrs = ?d\<rparr>
      id_map False (0, m) = Some (a1, m1)" "two_maps pg_mem ?D id_map linear_map a1 m1 (\<lambda>p. set_range 0 0 ?d (2 ^ 18 * 1) p 0) (\<lambda>_. 0)"
      "boot_avail 0 \<le> boot_avail a1 + 513 * 1" "boot_used pg_mem ?D 0 \<subseteq> boot_used pg_mem ?D a1"
      "\<And>u. page_aligned u \<Longrightarrow> u \<notin> boot_used pg_mem ?D a1 \<Longrightarrow> page_eq u m m1"
    by (rule two_maps_step [OF t0, of 1 0 ?d 0]) (use n0 v boot_attrs_low in auto)
  obtain a2 m2 where s2: "add_single_map (boot_calloc pg_mem) \<lparr>map_phy_addr = 0, map_virt_addr = PAGE_OFFSET, map_size = push_bit 30 (of_nat 1), map_attrs = ?d\<rparr>
      linear_map False (a1, m1) = Some (a2, m2)"
      "two_maps pg_mem ?D linear_map id_map a2 m2 (\<lambda>p. set_range PAGE_OFFSET 0 ?d (2 ^ 18 * 1) p 0) (\<lambda>p. set_range 0 0 ?d (2 ^ 18 * 1) p 0)"
      "boot_avail a1 \<le> boot_avail a2 + 513 * 1" "boot_used pg_mem ?D a1 \<subseteq> boot_used pg_mem ?D a2"
      "\<And>u. page_aligned u \<Longrightarrow> u \<notin> boot_used pg_mem ?D a2 \<Longrightarrow> page_eq u m1 m2"
    by (rule two_maps_step [OF two_maps_swap [OF s1(2)], of 1 PAGE_OFFSET ?d 0]) (use n0 s1(3) v boot_attrs_low in auto)
  obtain a3 m3 where s3: "add_single_map (boot_calloc pg_mem) \<lparr>map_phy_addr = push_bit 30 1, map_virt_addr = push_bit 30 1, map_size = push_bit 30 (of_nat 4), map_attrs = ?r\<rparr>
      id_map False (a2, m2) = Some (a3, m3)"
      "two_maps pg_mem ?D id_map linear_map a3 m3 (\<lambda>p. set_range (push_bit 30 1) (push_bit 30 1) ?r (2 ^ 18 * 4) p (set_range 0 0 ?d (2 ^ 18 * 1) p 0))
        (\<lambda>p. set_range PAGE_OFFSET 0 ?d (2 ^ 18 * 1) p 0)"
      "boot_avail a2 \<le> boot_avail a3 + 513 * 4" "boot_used pg_mem ?D a2 \<subseteq> boot_used pg_mem ?D a3"
      "\<And>u. page_aligned u \<Longrightarrow> u \<notin> boot_used pg_mem ?D a3 \<Longrightarrow> page_eq u m2 m3"
    by (rule two_maps_step [OF two_maps_swap [OF s2(2)], of 4 "push_bit 30 1" ?r "push_bit 30 1"])
      (use n0 s1(3) s2(3) v boot_attrs_low in \<open>auto simp: push_bit_eq_mult\<close>)
  obtain a4 m4 where s4: "add_single_map (boot_calloc pg_mem) \<lparr>map_phy_addr = push_bit 30 1, map_virt_addr = PAGE_OFFSET + push_bit 30 1, map_size = push_bit 30 (of_nat 4), map_attrs = ?r\<rparr>
      linear_map False (a3, m3) = Some (a4, m4)"
      "two_maps pg_mem ?D linear_map id_map a4 m4
        (\<lambda>p. set_range (PAGE_OFFSET + push_bit 30 1) (push_bit 30 1) ?r (2 ^ 18 * 4) p (set_range PAGE_OFFSET 0 ?d (2 ^ 18 * 1) p 0))
        (\<lambda>p. set_range (push_bit 30 1) (push_bit 30 1) ?r (2 ^ 18 * 4) p (set_range 0 0 ?d (2 ^ 18 * 1) p 0))"
      "boot_avail a3 \<le> boot_avail a4 + 513 * 4" "boot_used pg_mem ?D a3 \<subseteq> boot_used pg_mem ?D a4"
      "\<And>u. page_aligned u \<Longrightarrow> u \<notin> boot_used pg_mem ?D a4 \<Longrightarrow> page_eq u m3 m4"
    by (rule two_maps_step [OF two_maps_swap [OF s3(2)], of 4 "PAGE_OFFSET + push_bit 30 1" ?r "push_bit 30 1"])
      (use n0 s1(3) s2(3) s3(3) v boot_attrs_low in \<open>auto simp: push_bit_eq_mult\<close>)
  show thesis
  proof (rule that)
    show "add_map pg_mem id_map linear_map (0, m) = Some (a4, m4)"
      using s1(1) s2(1) s3(1) s4(1) by (simp add: add_map_def boot_maps_def add.commute)
    show "two_maps pg_mem ?D id_map linear_map a4 m4 (boot_leaf 0) (boot_leaf PAGE_OFFSET)"
      using two_maps_swap [OF s4(2)] by (simp add: boot_leaf_def [abs_def])
    have "4096 dvd unat a4" "3061 \<le> boot_avail a4" using s4(2) n0 s1(3) s2(3) s3(3) s4(3) by (auto simp: two_maps_def boot_ok_def)
    then show "unat a4 \<le> 4096 * 5130" by (auto simp: boot_avail_def dvd_def)
    show "page_eq u m m4" if "page_aligned u" "u \<notin> boot_used pg_mem ?D a4" for u
    proof -
      have n: "u \<notin> boot_used pg_mem ?D a3" "u \<notin> boot_used pg_mem ?D a2" "u \<notin> boot_used pg_mem ?D a1"
        using that(2) s2(4) s3(4) s4(4) by blast+
      note 4 = s4(5) [OF that] and 3 = s3(5) [OF that(1) n(1)] and 2 = s2(5) [OF that(1) n(2)] and 1 = s1(5) [OF that(1) n(3)]
      show ?thesis by (rule page_eq_trans [OF page_eq_trans [OF page_eq_trans [OF 1 2] 3] 4])
    qed
  qed
qed


section \<open>Clearing the data section\<close>

lemma clear_bss_run:
  assumes "unat bss_start \<le> unat bss_end"
  shows "clear_bss bss_start bss_end m = (\<lambda>x. if bss_start \<le> x \<and> x < bss_end then 0 else m x)"
  using assms
proof (induction "unat bss_end - unat bss_start" arbitrary: bss_start m)
  case 0
  then have "bss_start = bss_end" by (simp add: word_unat_eq_iff)
  then show ?case by (subst clear_bss.simps) (auto simp: fun_eq_iff word_less_nat_alt word_le_nat_alt)
next
  case (Suc n)
  then have lt: "unat bss_start < unat bss_end" by simp
  then have "Suc (unat bss_start) < 18446744073709551616" using unat_lt_64 [of bss_end] by linarith
  then have u: "unat (bss_start + 1) = Suc (unat bss_start)" by (simp add: unat_word_ariths)
  have "clear_bss (bss_start + 1) bss_end (m(bss_start := 0)) =
      (\<lambda>x. if bss_start + 1 \<le> x \<and> x < bss_end then 0 else (m(bss_start := 0)) x)"
    using Suc u lt by (intro Suc.hyps) auto
  then show ?case using lt u
    by (subst clear_bss.simps) (auto simp: fun_eq_iff word_less_nat_alt word_le_nat_alt word_unat_eq_iff [of _ bss_start])
qed

lemma clear_bss_page:
  assumes "unat bss_start \<le> unat p" "unat p + 4096 \<le> unat bss_end"
  shows "zero_page p (clear_bss bss_start bss_end m)"
proof -
  let ?m = "clear_bss bss_start bss_end m"
  have z: "?m (wd (unat p + x)) = 0" if "x < 4096" for x
  proof -
    have "unat p + x < 18446744073709551616" using that assms(2) unat_lt_64 [of bss_end] by linarith
    then have "unat p + x < 2 ^ 64" by simp
    from unat_wd [OF this] show ?thesis using assms that
      by (subst clear_bss_run) (auto simp: word_less_nat_alt word_le_nat_alt)
  qed
  show ?thesis
    unfolding zero_page_def
  proof (intro allI impI)
    fix i :: nat assume i: "i < 512"
    have "load_bytes ?m (entry_addr p i) 8 = replicate 8 0"
      using i z [of "8 * i + _"] by (intro nth_equalityI) (simp_all add: load_bytes_def entry_addr_wd wd_simps add.assoc)
    moreover have "of_le (replicate 8 0) = (0 :: u64)" by (simp add: bit_eq_iff bit_of_le)
    ultimately show "entry ?m p i = 0" by (simp add: entry_def load64_def)
  qed
qed

section \<open>Properties\<close>

text \<open>C35. Booting: if the linker places the two directories in the data section and apart from the area for tables, the boot code reaches the
  kernel: the area is large enough, and the two assertions hold whatever the address of the local variable below five gigabytes.
  Then the registers name the two directories; every physical address below five gigabytes has the same identity and
  linear translation, to its own page, as device memory in the first gigabyte and as normal memory above; every other
  entry of either tree is empty; and no page outside the area and the data section is written.\<close>

theorem boot_maps_memory:
  fixes im :: boot_image
  defines "id_map \<equiv> bi_id_map im" and "linear_map \<equiv> bi_linear_map im"
  assumes area: "page_aligned (bi_pg_mem im)" "bi_pg_mem im \<noteq> NULL" "unat (bi_pg_mem im) + 4096 * 8192 \<le> 2 ^ 48"
    and dirs: "page_aligned id_map" "page_aligned linear_map" "id_map \<noteq> linear_map"
      "\<forall>i < 8192. bi_pg_mem im + PAGE_SIZE * of_nat i \<notin> {id_map, linear_map}"
    and bss: "\<forall>d \<in> {id_map, linear_map}. unat (bi_bss_start im) \<le> unat d \<and> unat d + 4096 \<le> unat (bi_bss_end im)"
    and reg: "unat reg < 5 * 2 ^ 30"
  shows "\<exists>a m' r'. boot_cpu im reg m r = Some (a, m', r') \<and> unat a \<le> 4096 * 5130 \<and>
    ttbr0_el1 r' = id_map \<and> ttbr1_el1 r' = linear_map \<and> bit (sctlr_el1 r') 0 \<and>
    (\<forall>x. unat x < 5 * 2 ^ 30 \<longrightarrow>
      (let d = leaf_desc (PAGE_ADDR x) (map_attrs (boot_maps ! (if unat x < 2 ^ 30 then 0 else 1)))
       in lookup False m' id_map (va_path x) = d \<and> lookup False m' linear_map (va_path (va x)) = d \<and>
         walk_virt_addr m' id_map x False = PAGE_ADDR x \<and> walk_virt_addr m' linear_map (va x) False = PAGE_ADDR x)) \<and>
    (\<forall>v. (\<forall>x. unat x < 5 * 2 ^ 30 \<longrightarrow> vpn v \<noteq> vpn x) \<longrightarrow> lookup False m' id_map (va_path v) = 0) \<and>
    (\<forall>v. (\<forall>x. unat x < 5 * 2 ^ 30 \<longrightarrow> vpn v \<noteq> vpn (va x)) \<longrightarrow> lookup False m' linear_map (va_path v) = 0) \<and>
    (\<forall>u. page_aligned u \<longrightarrow> (\<forall>i < 8192. u \<noteq> bi_pg_mem im + PAGE_SIZE * of_nat i) \<longrightarrow> u \<notin> {id_map, linear_map} \<longrightarrow>
      page_eq u (clear_bss (bi_bss_start im) (bi_bss_end im) m) m')"
proof -
  let ?m = "clear_bss (bi_bss_start im) (bi_bss_end im) m" and ?D = "{id_map, linear_map}"
  have pw: "bi_pg_mem im + PAGE_SIZE * of_nat i = wd (unat (bi_pg_mem im) + 4096 * i)" for i by (simp add: PAGE_SIZE_def wd_def)
  have ok: "boot_ok (bi_pg_mem im) ?D 0" using area dirs(4) unfolding pw by (simp add: boot_ok_def)
  have z: "zero_page id_map ?m" "zero_page linear_map ?m" using bss by (auto intro!: clear_bss_page)
  obtain a m' where run: "add_map (bi_pg_mem im) id_map linear_map (0, ?m) = Some (a, m')"
    and tm: "two_maps (bi_pg_mem im) ?D id_map linear_map a m' (boot_leaf 0) (boot_leaf PAGE_OFFSET)" and a: "unat a \<le> 4096 * 5130"
    and pe: "\<And>u. page_aligned u \<Longrightarrow> u \<notin> boot_used (bi_pg_mem im) ?D a \<Longrightarrow> page_eq u ?m m'"
    using add_map_run [OF ok dirs(1-3) z] by blast
  have lk: "lookup False m' id_map (va_path v) = boot_leaf 0 (va_path v)" "lookup False m' linear_map (va_path v) = boot_leaf PAGE_OFFSET (va_path v)" for v
    using tm by (simp_all add: two_maps_def)
  have po: "4096 dvd unat PAGE_OFFSET" by (simp add: PAGE_OFFSET_val)
  define d where "d x = leaf_desc (PAGE_ADDR x) (map_attrs (boot_maps ! (if unat x < 2 ^ 30 then 0 else 1)))" for x
  have at: "lookup False m' id_map (va_path x) = d x" "lookup False m' linear_map (va_path (va x)) = d x" if "unat x < 5 * 2 ^ 30" for x
    using boot_leaf_at [OF that, of 0] boot_leaf_at [OF that po] by (simp_all add: lk d_def va_def add.commute)
  have dx: "d x \<noteq> 0" "get_phy_addr (d x) = PAGE_ADDR x" if "unat x < 5 * 2 ^ 30" for x
  proof -
    show "d x \<noteq> 0" by (simp add: d_def leaf_desc_def desc_not_0)
    have "frame_addr (PAGE_ADDR x)" using that by (auto simp: frame_addr_iff unat_PAGE_ADDR)
    then show "get_phy_addr (d x) = PAGE_ADDR x" using boot_attrs_low by (auto simp: d_def leaf_desc_def get_phy_addr_desc frame_addr_def)
  qed
  have wk: "walk_virt_addr m' id_map x False = PAGE_ADDR x" "walk_virt_addr m' linear_map (va x) False = PAGE_ADDR x" if "unat x < 5 * 2 ^ 30" for x
    using walk_lookup [of False m' id_map x] walk_lookup [of False m' linear_map "va x"] at [OF that] dx [OF that] by simp_all
  have "walk_virt_addr m' linear_map 0xFFFFFFC050FFFFC0 False = PAGE_ADDR (0xFFFFFFC050FFFFC0 - PAGE_OFFSET)"
    using wk(2) [of "0xFFFFFFC050FFFFC0 - PAGE_OFFSET"] by (simp add: va_def PAGE_OFFSET_val)
  then have "\<exists>r'. enable_paging id_map linear_map reg m' r = Some r' \<and> ttbr0_el1 r' = id_map \<and> ttbr1_el1 r' = linear_map \<and> bit (sctlr_el1 r') 0"
    using wk(1) [OF reg] by (simp add: enable_paging_def Let_def PAGE_ADDR_def CR_M_def bit_or_iff)
  then obtain r' where r': "boot_cpu im reg m r = Some (a, m', r')" "ttbr0_el1 r' = id_map" "ttbr1_el1 r' = linear_map" "bit (sctlr_el1 r') 0"
    using run by (auto simp: boot_cpu_def Let_def id_map_def linear_map_def)
  have "boot_used (bi_pg_mem im) ?D a \<subseteq> ?D \<union> {bi_pg_mem im + PAGE_SIZE * of_nat i |i. i < 8192}"
    using a unfolding pw boot_used_def by fastforce
  then have "page_eq u ?m m'" if "page_aligned u" "\<forall>i < 8192. u \<noteq> bi_pg_mem im + PAGE_SIZE * of_nat i" "u \<notin> ?D" for u
    using pe that by blast
  moreover have "lookup False m' id_map (va_path v) = 0" if "\<forall>x. unat x < 5 * 2 ^ 30 \<longrightarrow> vpn v \<noteq> vpn x" for v
    unfolding lk by (rule boot_leaf_other) (use that in simp)
  moreover have "lookup False m' linear_map (va_path v) = 0" if "\<forall>x. unat x < 5 * 2 ^ 30 \<longrightarrow> vpn v \<noteq> vpn (va x)" for v
    unfolding lk by (rule boot_leaf_other) (use that in \<open>simp add: va_def add.commute\<close>)
  ultimately show ?thesis using r' a at wk unfolding d_def Let_def by blast
qed


definition demo_boot :: boot_image where
  "demo_boot = \<lparr>bi_bss_start = 0x40100000, bi_bss_end = 0x40200000, bi_id_map = 0x40100000, bi_linear_map = 0x40101000, bi_pg_mem = 0x44000000\<rparr>"

theorem boot_maps_memory_witness:
  "\<exists>a m' r'. boot_cpu demo_boot 0x40301F38 (\<lambda>_. 0) \<lparr>ttbr0_el1 = 0, ttbr1_el1 = 0, tcr_el1 = 0, mair_el1 = 0, sctlr_el1 = 0\<rparr> = Some (a, m', r') \<and>
    walk_virt_addr m' 0x40101000 (va 0x40080010) False = 0x40080000"
proof -
  have "0x44000000 + PAGE_SIZE * of_nat i \<notin> {0x40100000, 0x40101000 :: u64}" if "i < 8192" for i
    using unat_wd [of "0x44000000 + 4096 * i"] that by (auto simp: PAGE_SIZE_def wd_def word_unat_eq_iff)
  then have a: "\<forall>i < 8192. bi_pg_mem demo_boot + PAGE_SIZE * of_nat i \<notin> {bi_id_map demo_boot, bi_linear_map demo_boot}"
    by (simp add: demo_boot_def)
  have b: "page_aligned (bi_pg_mem demo_boot)" "bi_pg_mem demo_boot \<noteq> NULL" "unat (bi_pg_mem demo_boot) + 4096 * 8192 \<le> 2 ^ 48"
    "page_aligned (bi_id_map demo_boot)" "page_aligned (bi_linear_map demo_boot)" "bi_id_map demo_boot \<noteq> bi_linear_map demo_boot"
    "\<forall>d \<in> {bi_id_map demo_boot, bi_linear_map demo_boot}. unat (bi_bss_start demo_boot) \<le> unat d \<and> unat d + 4096 \<le> unat (bi_bss_end demo_boot)"
    "unat (0x40301F38 :: u64) < 5 * 2 ^ 30" by (simp_all add: demo_boot_def page_aligned_def)
  have "PAGE_ADDR 0x40080010 = 0x40080000" by (simp add: PAGE_ADDR_def PAGE_SIZE_def)
  then show ?thesis
    using boot_maps_memory [where im = demo_boot and m = "\<lambda>_. 0" and r = "\<lparr>ttbr0_el1 = 0, ttbr1_el1 = 0, tcr_el1 = 0, mair_el1 = 0, sctlr_el1 = 0\<rparr>",
        OF b(1-6) a b(7,8)]
    by (elim exE conjE) (drule spec [of _ "0x40080010"], simp add: demo_boot_def Let_def)
qed

end
