(* ===== verification/User_Mem.thy ===== *)
theory User_Mem
  imports As_Inv Cstring
begin

text \<open>
  User memory as the kernel sees it in a system call: the buffers of \<^verbatim>\<open>read\<close>, \<^verbatim>\<open>write\<close>, \<^verbatim>\<open>nanosleep\<close> and \<^verbatim>\<open>fork\<close> are accessed at their
  user addresses, which the MMU translates through the tables that \<^verbatim>\<open>TTBR0_EL1\<close> names. A missing translation or a write to a
  read-only page is a data abort at EL1, which ends in \<^verbatim>\<open>panic\<close> (\<open>None\<close>); so does an access to an address above the user half, unless
  it happens to be a mapped kernel address, which the code does not check for and the model leaves out.
\<close>

unbundle bit_operations_syntax

section \<open>Access through the user tables\<close>

definition user_leaf :: "vmsys \<Rightarrow> u64 \<Rightarrow> u64" where
  "user_leaf s a = lookup True (vmem s) (va (fst (ttbr0 (vm_sched s)))) (va_path a)"

definition user_addr :: "vmsys \<Rightarrow> u64 \<Rightarrow> u64" where
  "user_addr s a = va (get_phy_addr (user_leaf s a)) + IN_PAGE_OFFSET a"

definition user_load :: "vmsys \<Rightarrow> u64 \<Rightarrow> u8 option" where
  "user_load s a =
    (if drop_bit VA_BITS a \<noteq> 0 \<or> user_leaf s a = 0 then None else Some (vmem s (user_addr s a)))"

definition user_store :: "vmsys \<Rightarrow> u64 \<Rightarrow> u8 \<Rightarrow> vmsys option" where
  "user_store s a b =
    (if drop_bit VA_BITS a \<noteq> 0 \<or> user_leaf s a = 0 \<or> user_leaf s a AND PTE_RDONLY \<noteq> 0 then None
     else Some (s\<lparr>vmem := (vmem s)(user_addr s a := b)\<rparr>))"

text \<open>The byte loops of \<^verbatim>\<open>memcpy\<close> and \<^verbatim>\<open>memset\<close> on user buffers.\<close>

fun copy_from_user :: "u64 \<Rightarrow> nat \<Rightarrow> vmsys \<Rightarrow> u8 list option" where
  "copy_from_user a 0 s = Some []"
| "copy_from_user a (Suc n) s = do { b \<leftarrow> user_load s a; bs \<leftarrow> copy_from_user (a + 1) n s; Some (b # bs) }"

fun copy_to_user :: "u64 \<Rightarrow> u8 list \<Rightarrow> vmsys \<Rightarrow> vmsys option" where
  "copy_to_user a [] s = Some s"
| "copy_to_user a (b # bs) s = do { s \<leftarrow> user_store s a b; copy_to_user (a + 1) bs s }"

text \<open>The copy of \<^verbatim>\<open>fork\<close>, from a user address to a page of the kernel's linear map.\<close>

function memcpy_user :: "u64 \<Rightarrow> u64 \<Rightarrow> nat \<Rightarrow> nat \<Rightarrow> vmsys \<Rightarrow> vmsys option" where
  "memcpy_user d a i n s =
    (if i < n then do {
       b \<leftarrow> user_load s (a + of_nat i);
       memcpy_user d a (i + 1) n (s\<lparr>vmem := (vmem s)(d + of_nat i := b)\<rparr>) }
     else Some s)"
  by pat_completeness auto
termination
  by (relation "measure (\<lambda>(d, a, i, n, s). n - i)") auto

declare memcpy_user.simps [simp del]

section \<open>Writing what can be read back\<close>

text \<open>A byte that the kernel may write at a user address: mapped, writable, and not a byte of the tables themselves.\<close>

definition writable_at :: "vmsys \<Rightarrow> u64 \<Rightarrow> bool" where
  "writable_at s a \<longleftrightarrow> drop_bit VA_BITS a = 0 \<and> user_leaf s a \<noteq> 0 \<and> user_leaf s a AND PTE_RDONLY = 0 \<and>
    va (get_phy_addr (user_leaf s a)) \<notin> tables True 2 (vmem s) (va (fst (ttbr0 (vm_sched s))))"

definition user_tables :: "vmsys \<Rightarrow> bool" where
  "user_tables s \<longleftrightarrow> pt_wf True 2 (vmem s) (va (fst (ttbr0 (vm_sched s))))"

lemma frame_aligned: "page_aligned (va (get_phy_addr d))"
proof -
  have "4096 dvd unat (get_phy_addr d)" using get_phy_addr_idem [of d] unfolding frame_addr_iff by blast
  moreover have "4096 dvd unat PAGE_OFFSET" by (simp add: PAGE_OFFSET_val)
  ultimately have "4096 dvd (unat (get_phy_addr d) + unat PAGE_OFFSET) mod 2 ^ 64"
    by (intro dvd_mod) (auto intro: dvd_add)
  then show ?thesis by (simp add: page_aligned_def va_def unat_word_ariths)
qed

lemma user_addr_page_eq:
  assumes "user_tables s" "writable_at s a" "t \<in> tables True 2 (vmem s) (va (fst (ttbr0 (vm_sched s))))"
  shows "page_eq t (vmem s) ((vmem s)(user_addr s a := b))"
proof -
  let ?f = "va (get_phy_addr (user_leaf s a))"
  have t: "page_aligned t" using assms(1,3) tables_aligned by (auto simp: user_tables_def)
  have "t \<noteq> ?f" using assms(2,3) by (auto simp: writable_at_def)
  then have ap: "unat t + 4096 \<le> unat ?f \<or> unat ?f + 4096 \<le> unat t" by (rule page_aligned_apart [OF t frame_aligned])
  have o: "unat (IN_PAGE_OFFSET a) < 4096" by (simp add: unat_IN_PAGE_OFFSET)
  have "unat (user_addr s a) = unat ?f + unat (IN_PAGE_OFFSET a)"
    using page_aligned_bound [OF frame_aligned, of "user_leaf s a"] o unfolding user_addr_def by (subst unat_word_ariths) simp
  then have "wd n \<noteq> user_addr s a" if "unat t \<le> n" "n < unat t + 4096" for n
    using that ap o page_aligned_bound [OF t] unat_wd [of n] by auto
  then show ?thesis by (auto simp: page_eq_def mem_eq_on_def)
qed

lemma user_store_ok:
  assumes "user_tables s" "writable_at s a"
  shows "user_store s a b = Some (s\<lparr>vmem := (vmem s)(user_addr s a := b)\<rparr>)"
    "user_leaf (s\<lparr>vmem := (vmem s)(user_addr s a := b)\<rparr>) x = user_leaf s x"
    "user_addr (s\<lparr>vmem := (vmem s)(user_addr s a := b)\<rparr>) x = user_addr s x"
    "user_tables (s\<lparr>vmem := (vmem s)(user_addr s a := b)\<rparr>)"
    "writable_at (s\<lparr>vmem := (vmem s)(user_addr s a := b)\<rparr>) x = writable_at s x"
proof -
  note e = user_addr_page_eq [OF assms, where b = b]
  show l: "user_leaf (s\<lparr>vmem := (vmem s)(user_addr s a := b)\<rparr>) x = user_leaf s x" for x
    using lookup_cong [OF e path_ok_va_path] by (simp add: user_leaf_def [of _ x])
  show "user_store s a b = Some (s\<lparr>vmem := (vmem s)(user_addr s a := b)\<rparr>)"
    using assms(2) by (simp add: user_store_def writable_at_def)
  show "user_addr (s\<lparr>vmem := (vmem s)(user_addr s a := b)\<rparr>) x = user_addr s x"
    unfolding user_addr_def [of _ x] l ..
  show "user_tables (s\<lparr>vmem := (vmem s)(user_addr s a := b)\<rparr>)"
    using pt_wf_cong [OF e] assms(1) by (simp add: user_tables_def)
  show "writable_at (s\<lparr>vmem := (vmem s)(user_addr s a := b)\<rparr>) x = writable_at s x"
    using tables_cong [OF e] by (simp add: writable_at_def l)
qed

lemma copy_to_user_ok:
  assumes "user_tables s" "\<forall>i < length bs. writable_at s (a + of_nat i)"
  shows "\<exists>m. copy_to_user a bs s = Some (s\<lparr>vmem := m\<rparr>) \<and> user_tables (s\<lparr>vmem := m\<rparr>) \<and>
    (\<forall>x. user_leaf (s\<lparr>vmem := m\<rparr>) x = user_leaf s x) \<and>
    (\<forall>x. (\<forall>i < length bs. x \<noteq> user_addr s (a + of_nat i)) \<longrightarrow> m x = vmem s x) \<and>
    (inj_on (\<lambda>i. user_addr s (a + of_nat i)) {..<length bs} \<longrightarrow> (\<forall>i < length bs. m (user_addr s (a + of_nat i)) = bs ! i))"
  using assms
proof (induction bs arbitrary: a s)
  case Nil
  then show ?case by (intro exI [of _ "vmem s"]) simp
next
  case (Cons b bs)
  have w: "writable_at s a" using Cons.prems(2) by force
  have sh: "a + 1 + of_nat i = a + of_nat (Suc i)" for i by (simp add: algebra_simps)
  define s1 where "s1 = s\<lparr>vmem := (vmem s)(user_addr s a := b)\<rparr>"
  note k = user_store_ok [OF Cons.prems(1) w, where b = b, folded s1_def]
  have "\<forall>i < length bs. writable_at s1 (a + 1 + of_nat i)"
    using Cons.prems(2) unfolding k(5) sh by auto
  from Cons.IH [OF k(4) this] obtain m where m: "copy_to_user (a + 1) bs s1 = Some (s1\<lparr>vmem := m\<rparr>)" "user_tables (s1\<lparr>vmem := m\<rparr>)"
    "\<forall>x. user_leaf (s1\<lparr>vmem := m\<rparr>) x = user_leaf s x"
    "\<forall>x. (\<forall>i < length bs. x \<noteq> user_addr s (a + of_nat (Suc i))) \<longrightarrow> m x = vmem s1 x"
    "inj_on (\<lambda>i. user_addr s (a + of_nat (Suc i))) {..<length bs} \<longrightarrow> (\<forall>i < length bs. m (user_addr s (a + of_nat (Suc i))) = bs ! i)"
    unfolding k(2,3) sh by blast
  have e: "s1\<lparr>vmem := m\<rparr> = s\<lparr>vmem := m\<rparr>" by (simp add: s1_def)
  have c: "copy_to_user a (b # bs) s = Some (s\<lparr>vmem := m\<rparr>)" using k(1) m(1) e by simp
  have fr: "m x = vmem s x" if "\<forall>i < length (b # bs). x \<noteq> user_addr s (a + of_nat i)" for x
  proof -
    have "x \<noteq> user_addr s (a + of_nat 0)" "\<forall>i < length bs. x \<noteq> user_addr s (a + of_nat (Suc i))"
      using that by (auto simp del: of_nat_Suc)
    then show ?thesis using m(4) by (simp add: s1_def)
  qed
  have rd: "m (user_addr s (a + of_nat i)) = (b # bs) ! i"
    if "inj_on (\<lambda>i. user_addr s (a + of_nat i)) {..<length (b # bs)}" "i < length (b # bs)" for i
  proof (cases i)
    case 0
    have "user_addr s (a + of_nat 0) \<noteq> user_addr s (a + of_nat (Suc j))" if "j < length bs" for j
      using that inj_onD [OF \<open>inj_on _ _\<close>, of 0 "Suc j"] by auto
    then show ?thesis using m(4) 0 by (simp add: s1_def del: of_nat_Suc)
  next
    case (Suc j)
    have "inj_on (\<lambda>i. user_addr s (a + of_nat (Suc i))) {..<length bs}"
      using inj_onD [OF that(1)] by (intro inj_onI) (fastforce simp del: of_nat_Suc)
    then show ?thesis using m(5) Suc that(2) by simp
  qed
  show ?case using c m(2,3) fr rd unfolding e by blast
qed

end
