(* ===== verification/Syscall.thy ===== *)
theory Syscall
  imports User_Mem
begin

text \<open>
  The part of \<^verbatim>\<open>kernel/isr.c\<close> that works on address spaces: page faults of user code and the
  system calls \<^verbatim>\<open>fork\<close>, \<^verbatim>\<open>brk\<close> and \<^verbatim>\<open>exit\<close>. The saved registers (\<^verbatim>\<open>struct pt_regs\<close> of
  \<^verbatim>\<open>include/arch.h\<close>) lie on the kernel stack of the task, and \<open>regs\<close> is their address: member
  number \<open>i\<close> is the stack word at \<open>regs + 8 * i\<close>, with \<^verbatim>\<open>regs[31]\<close> first, then \<^verbatim>\<open>sp\<close>, \<^verbatim>\<open>pc\<close>,
  \<^verbatim>\<open>pstate\<close>, \<^verbatim>\<open>orig_x0\<close> and \<^verbatim>\<open>syscallno\<close>.
\<close>

unbundle bit_operations_syntax

section \<open>Saved registers\<close>

definition pt_reg :: "u64 \<Rightarrow> nat \<Rightarrow> vmsys \<Rightarrow> u64" where
  "pt_reg regs i s = stack_words (vm_sched s) (regs + 8 * of_nat i)"

definition set_pt_reg :: "u64 \<Rightarrow> nat \<Rightarrow> u64 \<Rightarrow> vmsys \<Rightarrow> vmsys" where
  "set_pt_reg regs i v s =
    s\<lparr>vm_sched := (vm_sched s)\<lparr>stack_words := (stack_words (vm_sched s))(regs + 8 * of_nat i := v)\<rparr>\<rparr>"

definition PT_PSTATE :: nat where "PT_PSTATE = 33"
definition PT_ORIG_X0 :: nat where "PT_ORIG_X0 = 34"
definition PT_SYSCALLNO :: nat where "PT_SYSCALLNO = 35"

definition PSR_MODE_MASK :: u64 where "PSR_MODE_MASK = 0xF"
definition PSR_MODE_EL0t :: u64 where "PSR_MODE_EL0t = 0"

definition user_mode :: "u64 \<Rightarrow> vmsys \<Rightarrow> bool" where
  "user_mode regs s \<longleftrightarrow> pt_reg regs PT_PSTATE s AND PSR_MODE_MASK = PSR_MODE_EL0t"

definition upd_task_vm :: "task_ptr \<Rightarrow> (task_struct \<Rightarrow> task_struct) \<Rightarrow> vmsys \<Rightarrow> vmsys" where
  "upd_task_vm t f s = s\<lparr>vm_sched := upd_task t f (vm_sched s)\<rparr>"

definition get_ec_from_esr :: "u64 \<Rightarrow> u64" where
  "get_ec_from_esr esr = drop_bit 26 esr AND 0x3F"

definition is_kernel_inst_abort :: "u64 \<Rightarrow> bool" where
  "is_kernel_inst_abort esr \<longleftrightarrow> get_ec_from_esr esr = 0x21"

definition is_kernel_data_abort :: "u64 \<Rightarrow> bool" where
  "is_kernel_data_abort esr \<longleftrightarrow> get_ec_from_esr esr = 0x25"

definition is_svc :: "u64 \<Rightarrow> bool" where
  "is_svc esr \<longleftrightarrow> get_ec_from_esr esr = 0x15"

section \<open>Page faults\<close>

text \<open>
  The second half of \<^verbatim>\<open>do_el0_sync\<close>, for everything that is not a system call: an address inside
  an area gets a page, any other ends the process.
\<close>

definition el0_fault :: "u64 \<Rightarrow> vmsys \<Rightarrow> vmsys option" where
  "el0_fault addr s = do {
     let current = get_current_proc (vm_sched s);
     vma \<leftarrow> find_vma s (mm (vm_task s current)) addr;
     if vma \<noteq> NULL then do {
       (page, u) \<leftarrow> get_free_pages (usage s) 0;
       let s = s\<lparr>usage := u\<rparr>;
       if page = NULL then Some s
       else do {
         s \<leftarrow> setup_user_page_mapping (pg_dir (vm_task s current)) (PAGE_ADDR addr) (pa page) PAGE_SIZE False s;
         (ret, s) \<leftarrow> add_pages_block vma (PAGE_ADDR addr) page 0 s;
         Some s } }
     else do_exit s }"

section \<open>brk and exit\<close>

definition MAX_BRK_ADDR :: u64 where "MAX_BRK_ADDR = 0x0C000000"

definition drop_blocks :: "u64 \<Rightarrow> u64 \<Rightarrow> u64 \<Rightarrow> vmsys \<Rightarrow> vmsys option" where
  "drop_blocks vma newbrk oldbrk s =
    (let first = lnext (plinks s) (pages_block_list vma)
     in list_for_each_entry_safe plinks
       (\<lambda>pb s. Some (if newbrk \<le> user_virt_addr (pblocks s pb) \<and> user_virt_addr (pblocks s pb) < oldbrk
                     then s\<lparr>plinks := list_del pb (plinks s)\<rparr> else s))
       (pages_block_list vma) first (lnext (plinks s) first) s)"

definition brk_shrink :: "task_ptr \<Rightarrow> u64 \<Rightarrow> u64 \<Rightarrow> vmsys \<Rightarrow> vmsys option" where
  "brk_shrink current newbrk oldbrk s = do {
     let t = vm_task s current;
     (ret_val, s) \<leftarrow> unmap_user_page_mapping (pid t) (pg_dir t) newbrk (oldbrk - newbrk) s;
     vma \<leftarrow> find_vma s (mm t) (start_brk (mms s (mm t)));
     if vma = NULL then None else drop_blocks vma newbrk oldbrk s }"

definition brk_out :: "task_ptr \<Rightarrow> u64 \<Rightarrow> vmsys \<Rightarrow> vmsys option" where
  "brk_out current regs s = do {
     let p = mm (vm_task s current);
     vma \<leftarrow> find_vma s p (start_brk (mms s p));
     s \<leftarrow> (if vma = NULL then do {
             (ret, s) \<leftarrow> setup_vma current (start_brk (mms s p)) (brk (mms s p)) (VM_READ OR VM_WRITE) (-1) s;
             Some s }
           else Some (upd_vma vma (\<lambda>v. v\<lparr>vm_end := brk (mms s p)\<rparr>) s));
     Some (set_pt_reg regs 0 (brk (mms s p)) s) }"

definition sys_brk :: "u64 \<Rightarrow> vmsys \<Rightarrow> vmsys option" where
  "sys_brk regs s = do {
     let addr = pt_reg regs 0 s;
     let current = get_current_proc (vm_sched s);
     let p = mm (vm_task s current);
     if p = NULL then None
     else if addr = 0 then brk_out current regs s
     else if addr < start_brk (mms s p) \<or> MAX_BRK_ADDR < addr then brk_out current regs s
     else do {
       let newbrk = UPPER_PAGE_ADDR addr;
       let oldbrk = UPPER_PAGE_ADDR (brk (mms s p));
       s \<leftarrow> (if newbrk < oldbrk then brk_shrink current newbrk oldbrk s else Some s);
       brk_out current regs (upd_mm p (\<lambda>m. m\<lparr>brk := ucast (ucast addr :: u32)\<rparr>) s) } }"

definition sys_exit :: "u64 \<Rightarrow> vmsys \<Rightarrow> vmsys option" where
  "sys_exit regs s = do_exit s"

section \<open>fork\<close>

partial_function (option) fork_blocks_loop :: "u64 \<Rightarrow> u64 \<Rightarrow> u64 \<Rightarrow> vmsys \<Rightarrow> (bool \<times> vmsys) option" where
  "fork_blocks_loop child_vma head pb s =
    (if pb = head then Some (True, s)
     else do {
       (page, u) \<leftarrow> get_free_pages (usage s) 0;
       let s = s\<lparr>usage := u\<rparr>;
       if page = NULL then Some (False, s)
       else do {
         (ret, s) \<leftarrow> add_pages_block child_vma (user_virt_addr (pblocks s pb)) page 0 s;
         if ret < 0 then do { u \<leftarrow> free_pages (usage s) page 0; Some (False, s\<lparr>usage := u\<rparr>) }
         else do {
           let s = s\<lparr>vmem := memcpy (vmem s) page (linear_addr (pblocks s pb)) PAGE_SIZE\<rparr>;
           fork_blocks_loop child_vma head (lnext (plinks s) pb) s } } })"

definition fork_shared :: "task_ptr \<Rightarrow> u64 \<Rightarrow> vmsys \<Rightarrow> (bool \<times> vmsys) option" where
  "fork_shared ch vma s = do {
     let v = vmas s vma;
     (ret, s) \<leftarrow> setup_vma ch (vm_start v) (vm_end v) (vm_flags v) (lma v) s;
     Some (0 \<le> ret, s) }"

definition fork_loaded :: "task_ptr \<Rightarrow> u64 \<Rightarrow> vmsys \<Rightarrow> (bool \<times> vmsys) option" where
  "fork_loaded ch vma s = do {
     let v = vmas s vma;
     let ord = get_order (vm_end v - vm_start v);
     (page, u) \<leftarrow> get_free_pages (usage s) ord;
     let s = s\<lparr>usage := u\<rparr>;
     if page = NULL then Some (False, s)
     else do {
       (ret, s) \<leftarrow> setup_vma ch (vm_start v) (vm_end v) (vm_flags v) (pa page) s;
       if ret < 0 then do { u \<leftarrow> free_pages (usage s) page ord; Some (False, s\<lparr>usage := u\<rparr>) }
       else do {
         child_vma \<leftarrow> find_vma s (mm (vm_task s ch)) (vm_start v);
         (ret, s) \<leftarrow> add_pages_block child_vma (vm_start v) page ord s;
         if ret < 0 then do { u \<leftarrow> free_pages (usage s) page ord; Some (False, s\<lparr>usage := u\<rparr>) }
         else do {
           s \<leftarrow> memcpy_user page (vm_start v) 0 (unat (vm_end v - vm_start v)) s;
           Some (True, s) } } } }"

definition fork_anonymous :: "task_ptr \<Rightarrow> u64 \<Rightarrow> vmsys \<Rightarrow> (bool \<times> vmsys) option" where
  "fork_anonymous ch vma s = do {
     let v = vmas s vma;
     (ret, s) \<leftarrow> setup_vma ch (vm_start v) (vm_end v) (vm_flags v) (-1) s;
     if ret < 0 then Some (False, s)
     else do {
       child_vma \<leftarrow> find_vma s (mm (vm_task s ch)) (vm_start v);
       fork_blocks_loop child_vma (pages_block_list vma) (lnext (plinks s) (pages_block_list vma)) s } }"

definition fork_vma :: "task_ptr \<Rightarrow> u64 \<Rightarrow> vmsys \<Rightarrow> (bool \<times> vmsys) option" where
  "fork_vma ch vma s =
    (if vm_flags (vmas s vma) AND VM_SHARED \<noteq> 0 then fork_shared ch vma s
     else if lma (vmas s vma) \<noteq> -1 then fork_loaded ch vma s
     else fork_anonymous ch vma s)"

partial_function (option) fork_vmas_loop :: "task_ptr \<Rightarrow> u64 \<Rightarrow> vmsys \<Rightarrow> (bool \<times> vmsys) option" where
  "fork_vmas_loop ch vma s =
    (if vma = NULL then Some (True, s)
     else do {
       (ok, s) \<leftarrow> fork_vma ch vma s;
       if ok then fork_vmas_loop ch (vm_next (vmas s vma)) s else Some (False, s) })"

text \<open>\<^verbatim>\<open>memcpy(child_task->stack, parent_task->stack, PAGE_SIZE)\<close> on the words of the stacks, and
  the pointer at their start, which is kept apart as \<open>thread_info_task\<close>.\<close>

definition copy_stack :: "u64 \<Rightarrow> u64 \<Rightarrow> sched \<Rightarrow> sched" where
  "copy_stack d a s =
    s\<lparr>stack_words := fold (\<lambda>k w. w(d + 8 * of_nat k := w (a + 8 * of_nat k))) [0..<512] (stack_words s),
      thread_info_task := (thread_info_task s)(d := thread_info_task s a)\<rparr>"

definition fork_task :: "task_ptr \<Rightarrow> task_ptr \<Rightarrow> vmsys \<Rightarrow> vmsys" where
  "fork_task parent ch s =
    (let c = vm_task s ch; p = vm_task s parent;
         sc = copy_stack (stack c) (stack p) (vm_sched s);
         sc = sc\<lparr>thread_info_task := (thread_info_task sc)(stack c := ch)\<rparr>
     in s\<lparr>vm_sched := upd_task ch (\<lambda>t. t\<lparr>cpu_context := cpu_context p, comm := copy_comm (comm p) (comm t)\<rparr>) sc\<rparr>)"

text \<open>The end of a successful \<^verbatim>\<open>fork\<close>; \<open>ret_from_fork\<close> is the address of \<^verbatim>\<open>child_returns_from_fork\<close>.\<close>

definition fork_finish :: "u64 \<Rightarrow> u64 \<Rightarrow> task_ptr \<Rightarrow> task_ptr \<Rightarrow> vmsys \<Rightarrow> vmsys option" where
  "fork_finish ret_from_fork regs parent ch s = do {
     s \<leftarrow> setup_user_page_mappings ch s;
     let p = mm (vm_task s parent);
     let c = mm (vm_task s ch);
     let s = upd_mm c (\<lambda>m. m\<lparr>start_brk := start_brk (mms s p)\<rparr>) s;
     let s = upd_mm c (\<lambda>m. m\<lparr>brk := brk (mms s p)\<rparr>) s;
     let child_sp = stack (vm_task s ch) + IN_PAGE_OFFSET regs;
     let s = upd_task_vm ch
       (\<lambda>t. t\<lparr>cpu_context := (cpu_context t)\<lparr>ctx_pc := ret_from_fork, ctx_sp := child_sp\<rparr>\<rparr>) s;
     let s = set_pt_reg child_sp 0 0 s;
     let s = upd_task_vm ch (\<lambda>t. t\<lparr>state := RUNNING\<rparr>) s;
     Some (set_pt_reg regs 0 (of_int (pid (vm_task s ch))) s) }"

definition fork_fail :: "u64 \<Rightarrow> task_ptr \<Rightarrow> vmsys \<Rightarrow> vmsys option" where
  "fork_fail regs ch s = do {
     sc \<leftarrow> free_task_slot ch (vm_sched s);
     Some (set_pt_reg regs 0 (-1) (s\<lparr>vm_sched := sc\<rparr>)) }"

definition fork_fail_mm :: "u64 \<Rightarrow> task_ptr \<Rightarrow> vmsys \<Rightarrow> vmsys option" where
  "fork_fail_mm regs ch s = do { s \<leftarrow> exit_mm ch s; fork_fail regs ch s }"

definition sys_fork :: "u64 \<Rightarrow> u64 \<Rightarrow> vmsys \<Rightarrow> vmsys option" where
  "sys_fork ret_from_fork regs s = do {
     let parent = get_current_proc (vm_sched s);
     (ch, sc) \<leftarrow> get_task_slot (vm_sched s);
     let s = s\<lparr>vm_sched := sc\<rparr>;
     if ch = NoTask then fork_fail regs ch s
     else do {
       let s = fork_task parent ch s;
       (p, h) \<leftarrow> kzalloc (vm_heap s) sizeof_mm_struct;
       let s = set_heap h s;
       if p = NULL then fork_fail regs ch s
       else do {
         let s = upd_mm p (\<lambda>_. zero_mm) (upd_task_vm ch (\<lambda>t. t\<lparr>mm := p\<rparr>) s);
         (dir, u, m) \<leftarrow> get_zeroed_pages (usage s) (vmem s) 0;
         let s = s\<lparr>usage := u, vmem := m\<rparr>;
         if dir = NULL then fork_fail_mm regs ch s
         else do {
           let s = upd_task_vm ch (\<lambda>t. t\<lparr>pg_dir := dir\<rparr>) s;
           if mm (vm_task s parent) = NULL then None
           else do {
             (ok, s) \<leftarrow> fork_vmas_loop ch (mmap (mms s (mm (vm_task s parent)))) s;
             if ok then fork_finish ret_from_fork regs parent ch s
             else fork_fail_mm regs ch s } } } } }"

end
