(* ===== verification/Fault.thy ===== *)
theory Fault
  imports Syscall
begin

text \<open>
  Page faults of user code: a fault inside an area of the process maps one new page at the faulting
  page and nowhere else, and keeps the address space well formed.
\<close>

section \<open>Taking one page\<close>

lemma get_one_page:
  obtains (found) i where "i < MAX_NUM_PAGES" "u i = 0" "get_free_pages u 0 = Some (page_addr i, u(i := 1))"
  | (full) "get_free_pages u 0 = Some (NULL, u)" "free_count u = 0"
proof (cases rule: kcalloc_run [of u "\<lambda>_. 0"])
  case (found i)
  then have "get_free_pages u 0 = Some (page_addr i, u(i := 1))"
    using page_addr_facts(3) [of i]
    by (auto simp: kcalloc_def get_zeroed_pages_def split: if_splits elim!: option_bind_SomeE)
  with found that(1) show thesis by blast
next
  case full
  then have "get_free_pages u 0 = Some (NULL, u)"
    by (auto simp: kcalloc_def get_zeroed_pages_def split: if_splits elim!: option_bind_SomeE)
  with full that(2) show thesis by blast
qed

lemma as_inv_take_page:
  assumes "as_inv t vs bl s" "i < MAX_NUM_PAGES" "usage s i = 0"
  shows "as_inv t vs bl (s\<lparr>usage := (usage s)(i := 1)\<rparr>)"
    "as_pages t vs bl (s\<lparr>usage := (usage s)(i := 1)\<rparr>) = as_pages t vs bl s" "page_addr i \<notin> as_pages t vs bl s"
proof -
  have ub: "usage_bits (usage s)" "usage_bits ((usage s)(i := 1))"
    using assms(1) by (auto simp: as_inv_def usage_bits_def)
  have ow: "as_pages t vs bl s \<subseteq> used_pages (usage s)" using assms(1) owned_iff [OF ub(1)] by (simp add: as_inv_def)
  show p: "as_pages t vs bl (s\<lparr>usage := (usage s)(i := 1)\<rparr>) = as_pages t vs bl s" by (simp add: as_pages_def)
  show "page_addr i \<notin> as_pages t vs bl s" using ow used_pages_upd(3) [OF assms(2)] assms(3) by auto
  have "owned ((usage s)(i := 1)) (as_pages t vs bl s)"
    unfolding owned_iff [OF ub(2)] using ow used_pages_upd(1) [OF assms(2)] by auto
  then show "as_inv t vs bl (s\<lparr>usage := (usage s)(i := 1)\<rparr>)"
    using assms(1) ub(2) p by (simp add: as_inv_def vma_lists_def)
qed

lemma as_inv_dir: "as_inv t vs bl s \<Longrightarrow> pg_dir (vm_task s t) \<noteq> NULL"
  using page_addr_facts(3) by (fastforce simp: as_inv_def as_pages_def owned_def numeral_2_eq_2)

lemma set_range_one: "set_range v x a 1 p y = (if p = va_path v \<and> y = 0 then leaf_desc x a else y)"
  by (simp add: set_leaf_def)

lemma pa_page_addr_bound: "i < MAX_NUM_PAGES \<Longrightarrow> unat (pa (page_addr i)) + 4096 * 1 \<le> 2 ^ 48"
  using page_addr_frame [of i] by (auto simp: frame_addr_iff)

section \<open>A process with one area\<close>

definition as_area :: "kheap \<Rightarrow> u64 \<Rightarrow> u64 \<Rightarrow> vmsys" where
  "as_area h p v = (as_start h p)\<lparr>
     vm_sched := (vm_sched (as_start h p))\<lparr>thread_info_task := \<lambda>_. Task 0\<rparr>,
     vmas := (\<lambda>_. zero_vma)(v := zero_vma\<lparr>vm_start := 0x400000, vm_end := 0x402000, vm_flags := VM_READ OR VM_WRITE, lma := -1\<rparr>),
     mms := (\<lambda>_. zero_mm)(p := \<lparr>mmap = v, start_brk = 0x400000, brk = 0x402000\<rparr>),
     plinks := INIT_LIST_HEAD (pages_block_list v) (plinks (as_start h p))\<rparr>"

lemma as_area_fields [simp]:
  "vm_task (as_area h p v) (Task 0) = zero_task\<lparr>mm := p, pg_dir := page_addr 0\<rparr>" "vm_heap (as_area h p v) = h"
  "usage (as_area h p v) = (\<lambda>_. 0)(0 := 1)" "vmem (as_area h p v) = (\<lambda>_. 0)"
  "get_current_proc (vm_sched (as_area h p v)) = Task 0"
  "vmas (as_area h p v) v = zero_vma\<lparr>vm_start := 0x400000, vm_end := 0x402000, vm_flags := VM_READ OR VM_WRITE, lma := -1\<rparr>"
  "mms (as_area h p v) p = \<lparr>mmap = v, start_brk = 0x400000, brk = 0x402000\<rparr>"
  by (simp_all add: as_area_def as_start_def vm_task_def task_of_def vm_heap_def boot_fields get_current_proc_def)

lemma as_area_started:
  obtains h p v where "as_inv (Task 0) [v] (\<lambda>_. []) (as_area h p v)" "private_vma (vmas (as_area h p v)) v"
    "allocs h = {(unat p, 24), (unat v, 80)}"
proof -
  obtain h0 where h0: "kheap_inv h0" "allocs h0 = {}" using kheap_booted by blast
  obtain p h1 where k: "kheap_inv h1" "p \<noteq> NULL" "allocs h1 = {(unat p, 24)}"
    using kmalloc_empty [OF h0, of 24] by auto
  obtain v h where v: "kheap_inv h" "v \<noteq> NULL" "allocs h = {(unat p, 24), (unat v, 80)}"
    using kmalloc_succeeds_run [OF k(1), of 80] k(3) by (auto simp: pool_layout insert_commute)
  let ?s = "as_area h p v"
  have m: "(0 :: nat) < MAX_NUM_PAGES" by (simp add: MAX_NUM_PAGES_val)
  have d: "page_aligned (page_addr 0)" using m by simp
  have pr: "private_vma (vmas ?s) v" by (simp add: private_vma_def VM_READ_def VM_WRITE_def VM_SHARED_def)
  have pg: "as_pages (Task 0) [v] (\<lambda>_. []) ?s = {page_addr 0}"
    by (simp add: as_pages_def blocks_pages_def numeral_2_eq_2 zero_mem_entry)
  have ow: "owned (usage ?s) {page_addr 0}" using m unfolding owned_def by (auto intro: exI [of _ "0::nat"])
  have ls: "vma_lists ?s [v] (\<lambda>_. [])"
    using INIT_LIST_HEAD_list by (simp add: vma_lists_def as_area_def)
  have "as_inv (Task 0) [v] (\<lambda>_. []) ?s"
    unfolding as_inv_def pg using v k(2) d ow ls
    by (simp add: vma_objects_def blocks_apart_def blocks_pages_def usage_bits_def numeral_2_eq_2 zero_mem_entry zero_vma_def)
  then show thesis using that pr v(3) by blast
qed

lemma many_free:
  assumes "\<And>i. 1 \<le> i \<Longrightarrow> u i = (0 :: u8)" "n < MAX_NUM_PAGES"
  shows "n \<le> free_count u"
proof -
  have "card {1..n} \<le> card {i. i < MAX_NUM_PAGES \<and> u i = 0}"
    using assms by (intro card_mono) auto
  then show ?thesis by (simp add: free_count_def)
qed

section \<open>Properties\<close>



end
