(* ===== verification/Brk.thy ===== *)
theory Brk
  imports Fault
begin

text \<open>The system call \<^verbatim>\<open>brk\<close> on a well-formed address space.\<close>

section \<open>Updates outside the structure\<close>

lemma set_pt_reg_fields [simp]:
  "vm_heap (set_pt_reg r i x s) = vm_heap s" "usage (set_pt_reg r i x s) = usage s" "vmem (set_pt_reg r i x s) = vmem s"
  "vmas (set_pt_reg r i x s) = vmas s" "mms (set_pt_reg r i x s) = mms s" "pblocks (set_pt_reg r i x s) = pblocks s"
  "plinks (set_pt_reg r i x s) = plinks s" "tlb_log (set_pt_reg r i x s) = tlb_log s"
  "vm_task (set_pt_reg r i x s) t = vm_task s t" "pt_reg r i (set_pt_reg r i x s) = x"
  "get_current_proc (vm_sched (set_pt_reg r i x s)) = get_current_proc (vm_sched s)"
  by (simp_all add: set_pt_reg_def vm_heap_def vm_task_def task_of_def pt_reg_def get_current_proc_def
      current_thread_info_def split: task_ptr.splits)

lemma as_pages_set_pt_reg [simp]: "as_pages t vs bl (set_pt_reg r i x s) = as_pages t vs bl s"
  by (simp add: as_pages_def)

lemma as_inv_set_pt_reg [simp]: "as_inv t vs bl (set_pt_reg r i x s) = as_inv t vs bl s"
  by (simp add: as_inv_def vma_lists_def)

text \<open>Changing the end of an area or the break keeps the links and the kind of the areas.\<close>

lemma as_inv_vm_end:
  assumes "as_inv t vs bl s"
  shows "as_inv t vs bl (upd_vma v (\<lambda>x. x\<lparr>vm_end := e\<rparr>) s)"
    "as_pages t vs bl (upd_vma v (\<lambda>x. x\<lparr>vm_end := e\<rparr>) s) = as_pages t vs bl s"
proof -
  let ?f = "(vmas s)(v := (vmas s v)\<lparr>vm_end := e\<rparr>)"
  have c: "vchain ?f a vs = vchain (vmas s) a vs" for a by (rule vchain_cong) auto
  have p: "private_blocks ?f bl vs = private_blocks (vmas s) bl vs" by (rule private_blocks_cong) auto
  show a: "as_pages t vs bl (upd_vma v (\<lambda>x. x\<lparr>vm_end := e\<rparr>) s) = as_pages t vs bl s" by (simp add: as_pages_def p)
  show "as_inv t vs bl (upd_vma v (\<lambda>x. x\<lparr>vm_end := e\<rparr>) s)"
    using assms unfolding as_inv_def a by (simp add: c p vma_lists_def)
qed

lemma as_inv_brk:
  assumes "as_inv t vs bl s" "\<And>m. mmap (f m) = mmap m"
  shows "as_inv t vs bl (upd_mm q f s)" "as_pages t vs bl (upd_mm q f s) = as_pages t vs bl s"
  using assms by (auto simp: as_inv_def as_pages_def vma_lists_def)

lemma brk_ucast: "addr \<le> MAX_BRK_ADDR \<Longrightarrow> ucast (ucast addr :: u32) = (addr :: u64)"
proof -
  assume "addr \<le> MAX_BRK_ADDR"
  then have "unat addr < 2 ^ 32" by (simp add: MAX_BRK_ADDR_def word_le_nat_alt)
  then show ?thesis by (simp add: word_unat_eq_iff unsigned_ucast_eq unsigned_take_bit_eq take_bit_nat_eq_self)
qed

lemma brk_out_found:
  assumes "as_inv t vs bl s" "List.find (vma_covers (vmas s) (start_brk (mms s (mm (vm_task s t))))) vs = Some v"
  shows "brk_out t regs s = Some (set_pt_reg regs 0 (brk (mms s (mm (vm_task s t))))
    (upd_vma v (\<lambda>x. x\<lparr>vm_end := brk (mms s (mm (vm_task s t)))\<rparr>) s))"
proof -
  have "v \<noteq> NULL" using assms vchain_nonnull by (auto simp: as_inv_def find_Some_iff)
  then show ?thesis using find_vma_chain [OF assms(1)] assms(2) by (simp add: brk_out_def Let_def)
qed

section \<open>Properties\<close>

text \<open>C21. \<^verbatim>\<open>brk\<close> when the process has its heap area and the request does not give pages back: a request of
  0, below the start of the heap or above \<^verbatim>\<open>MAX_BRK_ADDR\<close> leaves the break where it is, any other moves it exactly
  there; the result register and the end of the heap area are the break afterwards, no page and no table is
  touched, and the address space stays well formed.\<close>

theorem sys_brk_grows:
  fixes s :: vmsys and t :: task_ptr and regs :: u64
  defines "addr \<equiv> pt_reg regs 0 s" and "p \<equiv> mm (vm_task s t)"
  defines "ok \<equiv> addr \<noteq> 0 \<and> start_brk (mms s p) \<le> addr \<and> addr \<le> MAX_BRK_ADDR"
  assumes "as_inv t vs bl s" "get_current_proc (vm_sched s) = t"
    "List.find (vma_covers (vmas s) (start_brk (mms s p))) vs = Some v"
    "ok \<longrightarrow> UPPER_PAGE_ADDR (brk (mms s p)) \<le> UPPER_PAGE_ADDR addr"
  shows "\<exists>s'. sys_brk regs s = Some s' \<and>
    brk (mms s' p) = (if ok then addr else brk (mms s p)) \<and> start_brk (mms s' p) = start_brk (mms s p) \<and>
    pt_reg regs 0 s' = brk (mms s' p) \<and> vm_end (vmas s' v) = brk (mms s' p) \<and>
    as_inv t vs bl s' \<and> usage s' = usage s \<and> vmem s' = vmem s"
proof -
  have p: "p \<noteq> NULL" using assms(4) by (simp add: as_inv_def p_def)
  show ?thesis
  proof (cases ok)
    case True
    let ?s = "upd_mm p (\<lambda>m. m\<lparr>brk := addr\<rparr>) s"
    have i: "as_inv t vs bl ?s" by (rule as_inv_brk [OF assms(4)]) simp
    have "brk_out t regs ?s = Some (set_pt_reg regs 0 addr (upd_vma v (\<lambda>x. x\<lparr>vm_end := addr\<rparr>) ?s))"
      using brk_out_found [OF i, of v regs] assms(6) by (simp add: p_def)
    moreover have "sys_brk regs s = brk_out t regs ?s"
      using True assms(5,7) p brk_ucast
      by (simp add: sys_brk_def Let_def ok_def p_def addr_def not_less [symmetric])
    ultimately show ?thesis using as_inv_vm_end(1) [OF i] True by (simp add: p_def)
  next
    case False
    then have "sys_brk regs s = brk_out t regs s"
      using assms(5) p by (auto simp: sys_brk_def Let_def ok_def p_def addr_def not_le)
    then show ?thesis
      using brk_out_found [OF assms(4), of v regs] assms(6) as_inv_vm_end(1) [OF assms(4)] False by (simp add: p_def)
  qed
qed

theorem sys_brk_grows_witness:
  "\<exists>h p v s'. sys_brk 0xFFFFFFC040100800 (set_pt_reg 0xFFFFFFC040100800 0 0x500010 (as_area h p v)) = Some s' \<and>
    brk (mms s' p) = 0x500010 \<and> vm_end (vmas s' v) = 0x500010"
proof -
  obtain h p v where a: "as_inv (Task 0) [v] (\<lambda>_. []) (as_area h p v)" by (rule as_area_started)
  let ?s = "set_pt_reg 0xFFFFFFC040100800 0 0x500010 (as_area h p v)"
  have f: "List.find (vma_covers (vmas ?s) (start_brk (mms ?s (mm (vm_task ?s (Task 0)))))) [v] = Some v"
    by (simp add: vma_covers_def zero_vma_def)
  have u: "UPPER_PAGE_ADDR (brk (mms ?s (mm (vm_task ?s (Task 0))))) \<le> UPPER_PAGE_ADDR (pt_reg 0xFFFFFFC040100800 0 ?s)"
    by (simp add: UPPER_PAGE_ADDR_def PAGE_SIZE_def)
  from sys_brk_grows [where t = "Task 0" and vs = "[v]" and bl = "\<lambda>_. []" and s = ?s and regs = "0xFFFFFFC040100800" and v = v] a f u
  have "\<exists>s'. sys_brk 0xFFFFFFC040100800 ?s = Some s' \<and> brk (mms s' p) = 0x500010 \<and> vm_end (vmas s' v) = 0x500010"
    by (auto simp: MAX_BRK_ADDR_def)
  then show ?thesis by blast
qed

end
