(* ===== verification/Wait.thy ===== *)
theory Wait
  imports Klist Sched_Inv
begin

text \<open>
  Wait queues: \<^verbatim>\<open>include/wait.h\<close> and \<^verbatim>\<open>kernel/wait.c\<close>. A queue is named by the address of its
  \<^verbatim>\<open>wait_queue_head\<close>, whose list head lies behind the 16 bytes of the lock, an entry by the address of its
  \<^verbatim>\<open>wait_queue_entry\<close>, whose list links lie behind the task pointer.
\<close>

record waitq =
  wq_links :: list_links
  wq_task :: "u64 \<Rightarrow> task_ptr"
  wq_lock :: "u64 \<Rightarrow> spinlock"

definition wq_list :: "u64 \<Rightarrow> u64" where "wq_list q = q + 16"
definition wq_node :: "u64 \<Rightarrow> u64" where "wq_node e = e + 8"
definition wq_entry :: "u64 \<Rightarrow> u64" where "wq_entry n = n - 8"

definition init_waitqueue_head :: "u64 \<Rightarrow> waitq \<Rightarrow> waitq" where
  "init_waitqueue_head q w =
    w\<lparr>wq_lock := (wq_lock w)(q := the (spin_lock_init (Some (wq_lock w q)))),
      wq_links := INIT_LIST_HEAD (wq_list q) (wq_links w)\<rparr>"

definition init_waitqueue_entry :: "u64 \<Rightarrow> task_ptr \<Rightarrow> waitq \<Rightarrow> waitq" where
  "init_waitqueue_entry e p w = w\<lparr>wq_task := (wq_task w)(e := p)\<rparr>"

text \<open>A critical section of a queue; the interrupt mask is that of the scheduler state.\<close>

definition wq_locked :: "u64 \<Rightarrow> (sched \<times> waitq \<Rightarrow> (sched \<times> waitq) option) \<Rightarrow> sched \<times> waitq \<Rightarrow> (sched \<times> waitq) option" where
  "wq_locked q f = (\<lambda>(sc, w). do {
     (flags, d, l) \<leftarrow> spin_lock_irqsave (daif sc) (Some (wq_lock w q));
     (sc, w) \<leftarrow> f (sc\<lparr>daif := d\<rparr>, w\<lparr>wq_lock := (wq_lock w)(q := the l)\<rparr>);
     (d, l) \<leftarrow> spin_unlock_irqrestore (daif sc) (Some (wq_lock w q)) flags;
     Some (sc\<lparr>daif := d\<rparr>, w\<lparr>wq_lock := (wq_lock w)(q := the l)\<rparr>) })"

definition add_wait_queue :: "u64 \<Rightarrow> u64 \<Rightarrow> sched \<times> waitq \<Rightarrow> (sched \<times> waitq) option" where
  "add_wait_queue q e = wq_locked q (\<lambda>(sc, w). Some (sc, w\<lparr>wq_links := list_add (wq_node e) (wq_list q) (wq_links w)\<rparr>))"

definition remove_wait_queue :: "u64 \<Rightarrow> u64 \<Rightarrow> sched \<times> waitq \<Rightarrow> (sched \<times> waitq) option" where
  "remove_wait_queue q e = wq_locked q (\<lambda>(sc, w). Some (sc, w\<lparr>wq_links := list_del (wq_node e) (wq_links w)\<rparr>))"

definition wake_one :: "u64 \<Rightarrow> sched \<times> waitq \<Rightarrow> (sched \<times> waitq) option" where
  "wake_one n = (\<lambda>(sc, w). do { sc \<leftarrow> set_task_state (wq_task w (wq_entry n)) RUNNING sc; Some (sc, w) })"

definition wake_up :: "u64 \<Rightarrow> sched \<times> waitq \<Rightarrow> (sched \<times> waitq) option" where
  "wake_up q = wq_locked q (\<lambda>(sc, w).
     list_for_each_entry (wq_links \<circ> snd) wake_one (wq_list q) (lnext (wq_links w) (wq_list q)) (sc, w))"

section \<open>The queue as a list of entries\<close>

definition on_queue :: "waitq \<Rightarrow> u64 \<Rightarrow> u64 list \<Rightarrow> bool" where
  "on_queue w q es \<longleftrightarrow> is_list (wq_links w) (wq_list q) (map wq_node es)"

definition wq_free :: "sched \<Rightarrow> waitq \<Rightarrow> u64 \<Rightarrow> bool" where
  "wq_free sc w q \<longleftrightarrow> daif_wf (daif sc) \<and> data0 (tasks_lock sc) = 0 \<and> data0 (wq_lock w q) = 0"

lemma wq_entry_node [simp]: "wq_entry (wq_node e) = e" "wq_node (wq_entry n) = n"
  by (simp_all add: wq_entry_def wq_node_def)

lemma daif_wf_disable: "daif_wf d \<Longrightarrow> daif_wf (disable_irq d)"
proof -
  assume "daif_wf d"
  then have "bit d n \<Longrightarrow> bit DAIF_BITS n" for n unfolding daif_wf_def by (metis bit_and_iff)
  moreover have "bit DAIF_BITS 7" by (simp add: DAIF_BITS_def)
  ultimately show ?thesis
    unfolding daif_wf_def disable_irq_def by (intro bit_eqI) (auto simp: bit_and_iff bit_set_bit_iff)
qed

text \<open>Inside the critical section the lock is held and interrupts are off; leaving it restores both.\<close>

lemma wq_locked_run:
  assumes free: "wq_free sc w q"
    and f: "\<And>d l. daif_wf d \<Longrightarrow> f (sc\<lparr>daif := d\<rparr>, w\<lparr>wq_lock := (wq_lock w)(q := l)\<rparr>) =
      Some (sc'\<lparr>daif := d\<rparr>, w'\<lparr>wq_lock := (wq_lock w)(q := l)\<rparr>)"
    and k: "daif sc' = daif sc" "wq_lock w' = wq_lock w"
  shows "wq_locked q f (sc, w) = Some (sc', w')"
proof -
  have l: "lock_free (Some (wq_lock w q))" "daif_wf (daif sc)" using free by (simp_all add: wq_free_def lock_free_def)
  obtain d1 l1 where r: "spin_lock_irqsave (daif sc) (Some (wq_lock w q)) = Some (daif sc, d1, Some l1)"
    "spin_unlock_irqrestore d1 (Some l1) (daif sc) = Some (daif sc, Some (wq_lock w q))" "d1 = disable_irq (daif sc)"
  proof (rule that)
    show "spin_lock_irqsave (daif sc) (Some (wq_lock w q)) =
        Some (daif sc, disable_irq (daif sc), Some ((wq_lock w q)\<lparr>data0 := 1\<rparr>))"
      using l(1) by (simp add: spin_lock_irqsave_def local_irq_save_def spin_lock_def lock_free_def)
    have "(wq_lock w q)\<lparr>data0 := 0\<rparr> = wq_lock w q" using l(1) by (simp add: lock_free_def)
    then show "spin_unlock_irqrestore (disable_irq (daif sc)) (Some ((wq_lock w q)\<lparr>data0 := 1\<rparr>)) (daif sc) =
        Some (daif sc, Some (wq_lock w q))"
      using local_irq_restore_save [OF l(2)] by (simp add: spin_unlock_irqrestore_def spin_unlock_def local_irq_save_def)
  qed simp
  have "(wq_lock w)(q := wq_lock w q) = wq_lock w" by simp
  then have e: "w'\<lparr>wq_lock := (wq_lock w)(q := wq_lock w q)\<rparr> = w'" "sc'\<lparr>daif := daif sc\<rparr> = sc'" using k by auto
  show ?thesis
    using r f [of d1 l1] daif_wf_disable [OF l(2)] e by (simp add: wq_locked_def)
qed

definition wake_task :: "task_ptr \<Rightarrow> sched \<Rightarrow> sched" where
  "wake_task t sc = upd_task t (\<lambda>t. t\<lparr>state := RUNNING\<rparr>) sc"

lemma wake_task_fields [simp]:
  "daif (wake_task t sc) = daif sc" "tasks_lock (wake_task t sc) = tasks_lock sc"
  "wake_task t (sc\<lparr>daif := d\<rparr>) = (wake_task t sc)\<lparr>daif := d\<rparr>"
  by (simp_all add: wake_task_def upd_task_def split: task_ptr.splits)

lemma set_task_state_wakes:
  assumes "daif_wf (daif sc)" "data0 (tasks_lock sc) = 0"
  shows "set_task_state t RUNNING sc = Some (wake_task t sc)"
proof (cases "t = NoTask")
  case False
  have "x\<lparr>daif := daif x, tasks_lock := tasks_lock x\<rparr> = x" for x :: sched by simp
  from this [of "wake_task t sc"] False show ?thesis
    by (simp add: set_task_state_def locked_irqsave_free [OF assms] wake_task_def)
qed (simp add: set_task_state_def wake_task_def upd_task_def)

lemma wake_loop:
  assumes "on_queue w q es" "daif_wf (daif sc)" "data0 (tasks_lock sc) = 0"
  shows "list_for_each_entry (wq_links \<circ> snd) wake_one (wq_list q) (lnext (wq_links w) (wq_list q)) (sc, w) =
    Some (fold (\<lambda>e. wake_task (wq_task w e)) es sc, w)"
proof -
  have "list_for_each_entry (wq_links \<circ> snd) wake_one (wq_list q) (lnext (wq_links w) (wq_list q)) (sc, w) =
      fold_opt wake_one (map wq_node es) (sc, w)"
    using assms(1) unfolding on_queue_def
    by (subst is_list_first) (auto intro!: list_for_each_entry_fold [where ys = "[]"] simp: wake_one_def elim!: option_bind_SomeE)
  also have "\<dots> = Some (fold (\<lambda>e. wake_task (wq_task w e)) es sc, w)"
    using assms(2,3) by (induction es arbitrary: sc) (simp_all add: wake_one_def set_task_state_wakes)
  finally show ?thesis .
qed

lemma fold_wake_daif: "fold (\<lambda>e. wake_task (f e)) es (sc\<lparr>daif := d\<rparr>) = (fold (\<lambda>e. wake_task (f e)) es sc)\<lparr>daif := d\<rparr>"
  by (induction es arbitrary: sc) simp_all

lemma fold_wake_fields: "daif (fold (\<lambda>e. wake_task (f e)) es sc) = daif sc"
  by (induction es arbitrary: sc) simp_all

lemma wake_up_run:
  assumes "wq_free sc w q" "on_queue w q es"
  shows "wake_up q (sc, w) = Some (fold (\<lambda>e. wake_task (wq_task w e)) es sc, w)"
  unfolding wake_up_def
proof (rule wq_locked_run [OF assms(1)])
  fix d l assume d: "daif_wf d"
  have "on_queue (w\<lparr>wq_lock := (wq_lock w)(q := l)\<rparr>) q es" using assms(2) by (simp add: on_queue_def)
  from wake_loop [OF this, of "sc\<lparr>daif := d\<rparr>"] d assms(1)
  show "(case (sc\<lparr>daif := d\<rparr>, w\<lparr>wq_lock := (wq_lock w)(q := l)\<rparr>) of (sc, w) \<Rightarrow>
      list_for_each_entry (wq_links \<circ> snd) wake_one (wq_list q) (lnext (wq_links w) (wq_list q)) (sc, w)) =
    Some ((fold (\<lambda>e. wake_task (wq_task w e)) es sc)\<lparr>daif := d\<rparr>, w\<lparr>wq_lock := (wq_lock w)(q := l)\<rparr>)"
    by (simp add: wq_free_def fold_wake_daif)
qed (simp_all add: fold_wake_fields)

lemma task_of_wake: "task_of (wake_task t sc) u =
    (if u = t \<and> t \<noteq> NoTask then (task_of sc u)\<lparr>state := RUNNING\<rparr> else task_of sc u)"
  by (simp add: wake_task_def task_of_def upd_task_def split: task_ptr.splits)

lemma task_of_fold_wake: "task_of (fold (\<lambda>e. wake_task (f e)) es sc) u =
    (if u \<in> f ` set es \<and> u \<noteq> NoTask then (task_of sc u)\<lparr>state := RUNNING\<rparr> else task_of sc u)"
  by (induction es arbitrary: sc) (auto simp: task_of_wake)

section \<open>Properties\<close>

text \<open>C26. A wait queue wakes whom it holds: adding an entry, waking the queue and removing the entry come back with
  all locks free; \<^verbatim>\<open>wake_up\<close> makes exactly the tasks of the entries on the queue runnable and changes nothing else, and after
  \<^verbatim>\<open>remove_wait_queue\<close> the queue holds the other entries as before.\<close>

theorem wait_queue_wakes:
  assumes "wq_free sc w q" "on_queue w q es" "wq_node e \<notin> set (wq_list q # map wq_node es)"
  shows "\<exists>w1 sc2 w2. add_wait_queue q e (sc, init_waitqueue_entry e t w) = Some (sc, w1) \<and> on_queue w1 q (e # es) \<and>
    wake_up q (sc, w1) = Some (sc2, w1) \<and> wq_free sc2 w1 q \<and>
    (\<forall>u. task_of sc2 u = (if u \<in> insert t (wq_task w1 ` set es) \<and> u \<noteq> NoTask
       then (task_of sc u)\<lparr>state := RUNNING\<rparr> else task_of sc u)) \<and>
    remove_wait_queue q e (sc2, w1) = Some (sc2, w2) \<and> on_queue w2 q es"
proof -
  define w0 where "w0 = init_waitqueue_entry e t w"
  define w1 where "w1 = w0\<lparr>wq_links := list_add (wq_node e) (wq_list q) (wq_links w0)\<rparr>"
  define sc2 where "sc2 = fold (\<lambda>e. wake_task (wq_task w1 e)) (e # es) sc"
  define w2 where "w2 = w1\<lparr>wq_links := list_del (wq_node e) (wq_links w1)\<rparr>"
  have f0: "wq_free sc w0 q" "wq_links w0 = wq_links w" "wq_lock w0 = wq_lock w" "wq_task w0 e = t"
    using assms(1) by (simp_all add: w0_def init_waitqueue_entry_def wq_free_def)
  have a: "add_wait_queue q e (sc, w0) = Some (sc, w1)"
    unfolding add_wait_queue_def by (rule wq_locked_run [OF f0(1)]) (simp_all add: w1_def)
  have q1: "on_queue w1 q (e # es)"
    using list_add_list [of "wq_links w" "wq_list q" "map wq_node es" "wq_node e"] assms(2,3)
    by (simp add: on_queue_def w1_def f0(2))
  have f1: "wq_free sc w1 q" using f0(1) by (simp add: wq_free_def w1_def)
  have u: "wake_up q (sc, w1) = Some (sc2, w1)" unfolding sc2_def by (rule wake_up_run [OF f1 q1])
  have "tasks_lock (fold (\<lambda>e. wake_task (wq_task w1 e)) xs s) = tasks_lock s" for xs s
    by (induction xs arbitrary: s) simp_all
  then have f2: "wq_free sc2 w1 q" using f1 unfolding wq_free_def sc2_def fold_wake_fields by simp
  have r: "remove_wait_queue q e (sc2, w1) = Some (sc2, w2)"
    unfolding remove_wait_queue_def by (rule wq_locked_run [OF f2]) (simp_all add: w2_def)
  have "on_queue w2 q es"
    using list_del_list [of "wq_links w1" "wq_list q" "[]" "wq_node e" "map wq_node es"] q1
    by (simp add: on_queue_def w2_def)
  moreover have "wq_task w1 ` set (e # es) = insert t (wq_task w1 ` set es)" using f0(4) by (simp add: w1_def)
  ultimately show ?thesis
    using a q1 u f2 r task_of_fold_wake [of "wq_task w1" "e # es" sc]
    by (auto simp: w0_def sc2_def)
qed

theorem wait_queue_wakes_witness:
  "\<exists>w1 sc2. add_wait_queue 4096 8192 (boot_sched (kheap_start (\<lambda>_. 0)),
      init_waitqueue_entry 8192 (Task 3) (init_waitqueue_head 4096
        \<lparr>wq_links = \<lparr>lnext = \<lambda>_. 0, lprev = \<lambda>_. 0\<rparr>, wq_task = \<lambda>_. NoTask, wq_lock = \<lambda>_. \<lparr>data0 = 9, data1 = 9\<rparr>\<rparr>)) =
      Some (boot_sched (kheap_start (\<lambda>_. 0)), w1) \<and>
    wake_up 4096 (boot_sched (kheap_start (\<lambda>_. 0)), w1) = Some (sc2, w1) \<and>
    state (task_of sc2 (Task 3)) = RUNNING \<and> state (task_of sc2 (Task 4)) = INITIALIZING"
proof -
  let ?w = "init_waitqueue_head 4096
    \<lparr>wq_links = \<lparr>lnext = \<lambda>_. 0, lprev = \<lambda>_. 0\<rparr>, wq_task = \<lambda>_. NoTask, wq_lock = \<lambda>_. \<lparr>data0 = 9, data1 = 9\<rparr>\<rparr>"
  let ?sc = "boot_sched (kheap_start (\<lambda>_. 0))"
  have f: "wq_free ?sc ?w 4096"
    by (simp add: wq_free_def boot_fields daif_wf_def init_waitqueue_head_def spin_lock_init_def)
  have q: "on_queue ?w 4096 []" using INIT_LIST_HEAD_list by (simp add: on_queue_def init_waitqueue_head_def)
  have n: "wq_node 8192 \<notin> set (wq_list 4096 # map wq_node [])" by (simp add: wq_node_def wq_list_def)
  have i: "state (task_of ?sc (Task 4)) = INITIALIZING" by (simp add: task_of_def boot_fields zero_task_def)
  from wait_queue_wakes [OF f q n, of "Task 3"] i show ?thesis by force
qed

end
