(* ===== verification/Print.thy ===== *)
theory Print
  imports Arch Cstring
begin

text \<open>
  \<^verbatim>\<open>include/print.h\<close>: the formatting code that \<^verbatim>\<open>printk\<close>, \<^verbatim>\<open>printf\<close> and \<^verbatim>\<open>print_early\<close> share. Every user of the
  header supplies its own \<^verbatim>\<open>print_char\<close>, so the functions take it as an argument \<open>pc\<close> that works
  on a state, together with the memory of that state, from which \<^verbatim>\<open>%s\<close> arguments are read. \<^verbatim>\<open>print_char\<close> always
  returns 1. The variable arguments are a list of 8-byte slots, as the \<^verbatim>\<open>va_arg\<close> macro of
  \<^verbatim>\<open>include/stddef.h\<close> reads them; reading past the last one is undefined. Counts of printed characters are
  natural numbers: they pass \<^verbatim>\<open>INT_MAX\<close> only after 2 GB of output.
\<close>

section \<open>Numbers\<close>

definition digits :: "u8 list" where
  "digits = [0x30, 0x31, 0x32, 0x33, 0x34, 0x35, 0x36, 0x37, 0x38, 0x39, 0x41, 0x42, 0x43, 0x44, 0x45, 0x46, 0]"

text \<open>The do-while loop that fills \<^verbatim>\<open>buf\<close>, least significant digit first; \<open>cap\<close> is the size of \<^verbatim>\<open>buf\<close>.\<close>

partial_function (option) digit_loop :: "nat \<Rightarrow> 'a::len word \<Rightarrow> 'a word \<Rightarrow> u8 list \<Rightarrow> u8 list option" where
  "digit_loop cap base d buf =
    (if base = 0 \<or> cap \<le> length buf \<or> length digits \<le> unat (d mod base) then None
     else let quotient = d div base; buf = buf @ [digits ! unat (d mod base)]
       in if quotient \<noteq> 0 then digit_loop cap base quotient buf else Some buf)"

definition print_chars :: "(u8 \<Rightarrow> 's \<Rightarrow> 's) \<Rightarrow> u8 list \<Rightarrow> 's \<Rightarrow> nat \<times> 's" where
  "print_chars pc xs s = (length xs, fold pc xs s)"

text \<open>Padding up to \<^verbatim>\<open>width\<close>, then the digits backwards.\<close>

definition print_digits :: "(u8 \<Rightarrow> 's \<Rightarrow> 's) \<Rightarrow> int \<Rightarrow> u8 \<Rightarrow> u8 list \<Rightarrow> 's \<Rightarrow> nat \<times> 's" where
  "print_digits pc width pad buf s =
    (let (j, s) = print_chars pc (replicate (nat (width - int (length buf))) pad) s;
         (i, s) = print_chars pc (rev buf) s
     in (j + i, s))"

definition print_uint64_t :: "(u8 \<Rightarrow> 's \<Rightarrow> 's) \<Rightarrow> u64 \<Rightarrow> int \<Rightarrow> int \<Rightarrow> u8 \<Rightarrow> 's \<Rightarrow> (nat \<times> 's) option" where
  "print_uint64_t pc d base width pad s = do {
     buf \<leftarrow> digit_loop 64 (word_of_int base) d [];
     Some (print_digits pc width pad buf s) }"

definition NUM_HEX_FOR_PTR :: int where
  "NUM_HEX_FOR_PTR = 16"

definition print_ptr :: "(u8 \<Rightarrow> 's \<Rightarrow> 's) \<Rightarrow> u64 \<Rightarrow> 's \<Rightarrow> (nat \<times> 's) option" where
  "print_ptr pc p s = print_uint64_t pc p 16 NUM_HEX_FOR_PTR 0x30 s"

text \<open>The negation of the smallest value of a signed type overflows.\<close>

definition print_int32_t :: "(u8 \<Rightarrow> 's \<Rightarrow> 's) \<Rightarrow> int \<Rightarrow> 's \<Rightarrow> (nat \<times> 's) option" where
  "print_int32_t pc d s =
    (if d = - (2 ^ 31) then None
     else do {
       let (n, s) = (if d < 0 then print_chars pc [0x2D] s else (0, s));
       (k, s) \<leftarrow> print_uint64_t pc (word_of_int \<bar>d\<bar>) 10 (-1) 0xFF s;
       Some (n + k, s) })"

definition print_hex :: "(u8 \<Rightarrow> 's \<Rightarrow> 's) \<Rightarrow> int \<Rightarrow> 's \<Rightarrow> (nat \<times> 's) option" where
  "print_hex pc d s =
    (if d = - (2 ^ 63) then None
     else do {
       let (n, s) = (if d < 0 then print_chars pc [0x2D] s else (0, s));
       (k, s) \<leftarrow> print_uint64_t pc (word_of_int \<bar>d\<bar>) 16 (-1) 0xFF s;
       Some (n + k, s) })"

definition print_unsigned_int :: "(u8 \<Rightarrow> 's \<Rightarrow> 's) \<Rightarrow> u32 \<Rightarrow> int \<Rightarrow> int \<Rightarrow> u8 \<Rightarrow> 's \<Rightarrow> (nat \<times> 's) option" where
  "print_unsigned_int pc d base width pad s =
    (if 16 < base then None
     else do {
       buf \<leftarrow> digit_loop 32 (word_of_int base) d [];
       Some (print_digits pc width pad buf s) })"

definition print_int :: "(u8 \<Rightarrow> 's \<Rightarrow> 's) \<Rightarrow> int \<Rightarrow> int \<Rightarrow> int \<Rightarrow> u8 \<Rightarrow> 's \<Rightarrow> (nat \<times> 's) option" where
  "print_int pc d base width pad s =
    (if 16 < base \<or> d = - (2 ^ 31) then None
     else do {
       let (n, s) = (if d < 0 then print_chars pc [0x2D] s else (0, s));
       (k, s) \<leftarrow> print_unsigned_int pc (word_of_int \<bar>d\<bar>) base width pad s;
       Some (n + k, s) })"

section \<open>Strings\<close>

function print_string_loop :: "(u8 \<Rightarrow> 's \<Rightarrow> 's) \<Rightarrow> ('s \<Rightarrow> mem) \<Rightarrow> u64 \<Rightarrow> nat \<Rightarrow> 's \<Rightarrow> (nat \<times> 's) option" where
  "print_string_loop pc bytes p i s =
    (if bytes s (p + of_nat i) = 0 then Some (i, s)
     else if int_max \<le> i then None
     else print_string_loop pc bytes p (i + 1) (pc (bytes s (p + of_nat i)) s))"
  by pat_completeness auto
termination
  by (relation "measure (\<lambda>(pc, bytes, p, i, s). int_max - i)") auto

declare print_string_loop.simps [simp del]

definition print_string :: "(u8 \<Rightarrow> 's \<Rightarrow> 's) \<Rightarrow> ('s \<Rightarrow> mem) \<Rightarrow> u64 \<Rightarrow> 's \<Rightarrow> (nat \<times> 's) option" where
  "print_string pc bytes p s = (if p = NULL then Some (0, s) else print_string_loop pc bytes p 0 s)"

section \<open>Formats\<close>

text \<open>One conversion, for the \<^verbatim>\<open>switch\<close> of the \<^verbatim>\<open>PRINT\<close> macro; an unknown one stops in the assertion.\<close>

definition print_arg ::
  "(u8 \<Rightarrow> 's \<Rightarrow> 's) \<Rightarrow> ('s \<Rightarrow> mem) \<Rightarrow> u8 \<Rightarrow> int \<Rightarrow> u8 \<Rightarrow> u64 \<Rightarrow> 's \<Rightarrow> (nat \<times> 's) option" where
  "print_arg pc bytes c width pad a s =
    (if c = 0x73 then print_string pc bytes a s
     else if c = 0x64 then print_int pc (sint (ucast a :: u32)) 10 width pad s
     else if c = 0x75 then print_unsigned_int pc (ucast a) 10 width pad s
     else if c = 0x78 then print_unsigned_int pc (ucast a) 16 width pad s
     else if c = 0x6F then print_unsigned_int pc (ucast a) 8 width pad s
     else if c = 0x70 then print_ptr pc a s
     else if c = 0x63 then Some (print_chars pc [ucast a] s)
     else None)"

definition spec_pad :: "u8 list \<Rightarrow> u8 \<times> u8 list" where
  "spec_pad fmt = (case fmt of c # r \<Rightarrow> if c = 0x30 then (0x30, r) else (0x20, fmt) | [] \<Rightarrow> (0x20, fmt))"

definition spec_width :: "u8 list \<Rightarrow> int \<times> u8 list" where
  "spec_width fmt = (case fmt of c # r \<Rightarrow> if 0x31 \<le> c \<and> c \<le> 0x39 then (int (unat c) - 0x30, r) else (-1, fmt)
     | [] \<Rightarrow> (-1, fmt))"

lemma spec_length:
  "(pad, f') = spec_pad f \<Longrightarrow> length f' \<le> length f" "(width, f') = spec_width f \<Longrightarrow> length f' \<le> length f"
  by (auto simp: spec_pad_def spec_width_def split: list.splits if_splits)

text \<open>The \<^verbatim>\<open>PRINT\<close> macro: \<open>fmt\<close> is what is left of the format, \<open>n\<close> is \<^verbatim>\<open>num_printed\<close>.\<close>

function PRINT ::
  "(u8 \<Rightarrow> 's \<Rightarrow> 's) \<Rightarrow> ('s \<Rightarrow> mem) \<Rightarrow> u8 list \<Rightarrow> u64 list \<Rightarrow> nat \<Rightarrow> 's \<Rightarrow> (nat \<times> 's) option" where
  "PRINT pc bytes [] ap n s = Some (n, s)"
| "PRINT pc bytes (c # fmt) ap n s =
    (if c \<noteq> 0x25 then PRINT pc bytes fmt ap (n + 1) (pc c s)
     else if fmt = [] then Some (n, s)
     else let (pad, fmt1) = spec_pad fmt
       in if fmt1 = [] then Some (n, s)
          else let (width, fmt2) = spec_width fmt1
            in (case fmt2 of [] \<Rightarrow> Some (n, s)
                | c' # fmt3 \<Rightarrow> (case ap of [] \<Rightarrow> None
                    | a # ap' \<Rightarrow> do {
                        (k, s') \<leftarrow> print_arg pc bytes c' width pad a s;
                        PRINT pc bytes fmt3 ap' (n + k) s' })))"
  by pat_completeness auto
termination
  by (relation "measure (\<lambda>(pc, bytes, fmt, ap, n, s). length fmt)") (auto dest!: spec_length)

section \<open>Numerals\<close>

text \<open>The numeral of a number, most significant digit first, and the value it denotes.\<close>

function digits_of :: "nat \<Rightarrow> nat \<Rightarrow> u8 list" where
  "digits_of b n = (if b < 2 \<or> n < b then [digits ! n] else digits_of b (n div b) @ [digits ! (n mod b)])"
  by pat_completeness auto
termination
  by (relation "measure snd") auto

declare digits_of.simps [simp del]

definition digit_value :: "u8 \<Rightarrow> nat" where
  "digit_value c = (if c \<le> 0x39 then unat c - 0x30 else unat c - 0x37)"

definition numeral_value :: "nat \<Rightarrow> u8 list \<Rightarrow> nat" where
  "numeral_value b xs = foldl (\<lambda>v c. b * v + digit_value c) 0 xs"

lemma digit_values: "n < 16 \<Longrightarrow> digit_value (digits ! n) = n \<and> (digits ! n = 0x30 \<longrightarrow> n = 0) \<and> digits ! n \<noteq> 0"
proof -
  assume "n < 16"
  then have "n \<in> set [0..<16]" by simp
  moreover have "\<forall>n \<in> set [0..<16]. digit_value (digits ! n) = n \<and> (digits ! n = 0x30 \<longrightarrow> n = 0) \<and> digits ! n \<noteq> 0"
    by (simp add: digit_value_def digits_def upt_rec)
  ultimately show ?thesis by blast
qed

lemma digits_of_value:
  assumes "2 \<le> b" "b \<le> 16"
  shows "numeral_value b (digits_of b n) = n \<and> digits_of b n \<noteq> [] \<and> (n \<noteq> 0 \<longrightarrow> hd (digits_of b n) \<noteq> 0x30)"
proof (induction n rule: less_induct)
  case (less n)
  show ?case
  proof (cases "n < b")
    case True
    then show ?thesis using digit_values [of n] assms by (auto simp: digits_of.simps [of b n] numeral_value_def)
  next
    case False
    have "n div b < n" "n div b \<noteq> 0" using False assms by (auto simp: div_eq_0_iff)
    moreover have "n mod b < 16" using assms mod_less_divisor [of b n] by linarith
    ultimately show ?thesis
      using less [of "n div b"] digit_values [of "n mod b"] False assms
      by (auto simp: digits_of.simps [of b n] numeral_value_def mult.commute)
  qed
qed

lemma digits_of_length:
  assumes "2 \<le> b" "n < 2 ^ k" "0 < k"
  shows "length (digits_of b n) \<le> k"
  using assms(2,3)
proof (induction k arbitrary: n)
  case (Suc k)
  show ?case
  proof (cases "n < b")
    case True
    then show ?thesis by (simp add: digits_of.simps [of b n])
  next
    case False
    have "n div b \<le> n div 2" using assms(1) by (simp add: div_le_mono2)
    then have "n div b < 2 ^ k" using Suc.prems by simp
    moreover have "0 < k" using False Suc.prems assms(1) by (cases k) auto
    ultimately show ?thesis using Suc.IH [of "n div b"] False assms(1) by (simp add: digits_of.simps [of b n])
  qed
qed simp

lemma digit_loop_spec:
  fixes d :: "'a::len word"
  assumes "2 \<le> b" "b \<le> 16" "unat base = b" "length buf + length (digits_of b (unat d)) \<le> cap"
  shows "digit_loop cap base d buf = Some (buf @ rev (digits_of b (unat d)))"
  using assms(4)
proof (induction "unat d" arbitrary: d buf rule: less_induct)
  case less
  have b0: "base \<noteq> 0" using assms(1,3) by auto
  have m: "unat (d mod base) = unat d mod b" "unat (d div base) = unat d div b"
    using assms(3) by (simp_all add: unat_mod_distrib unat_div_distrib)
  have lt: "unat d mod b < 17" using assms(1,2) mod_less_divisor [of b "unat d"] by linarith
  have ln: "length digits = 17" by (simp add: digits_def)
  show ?case
  proof (cases "unat d < b")
    case True
    then have "d div base = 0" using m(2) by (simp add: word_unat_eq_iff)
    then show ?thesis
      using True b0 lt less.prems m(1) ln
      by (subst digit_loop.simps) (simp add: digits_of.simps [of b "unat d"] Let_def)
  next
    case False
    have "d div base \<noteq> 0" using m(2) False assms(1) by (auto simp: word_unat_eq_iff div_eq_0_iff)
    moreover have "unat (d div base) < unat d" using m(2) False assms(1) by simp
    ultimately show ?thesis
      using less.hyps [of "d div base" "buf @ [digits ! (unat d mod b)]"] False b0 lt less.prems assms(1) m ln
      by (subst digit_loop.simps) (simp add: digits_of.simps [of b "unat d"] Let_def)
  qed
qed

definition num_text :: "nat \<Rightarrow> int \<Rightarrow> u8 \<Rightarrow> nat \<Rightarrow> u8 list" where
  "num_text b width pad n =
    replicate (nat (width - int (length (digits_of b n)))) pad @ digits_of b n"

lemma print_digits_text: "print_digits pc width pad (rev (digits_of b n)) s = (length (num_text b width pad n), fold pc (num_text b width pad n) s)"
  by (simp add: print_digits_def print_chars_def num_text_def)

lemma print_uint64_t_text:
  assumes "2 \<le> base" "base \<le> 16"
  shows "print_uint64_t pc d base width pad s =
    Some (length (num_text (nat base) width pad (unat d)), fold pc (num_text (nat base) width pad (unat d)) s)"
proof -
  have "unat (word_of_int base :: u64) = nat base" using assms by (simp add: unsigned_of_int take_bit_int_eq_self)
  moreover have "length (digits_of (nat base) (unat d)) \<le> 64"
    using assms unat_lt_64 [of d] by (intro digits_of_length) (auto simp del: unat_lt_64)
  ultimately show ?thesis
    using digit_loop_spec [of "nat base" "word_of_int base" "[]" d 64] assms
    by (simp add: print_uint64_t_def print_digits_text)
qed

lemma print_unsigned_int_text:
  assumes "2 \<le> base" "base \<le> 16"
  shows "print_unsigned_int pc d base width pad s =
    Some (length (num_text (nat base) width pad (unat d)), fold pc (num_text (nat base) width pad (unat d)) s)"
proof -
  have "unat (word_of_int base :: u32) = nat base" using assms by (simp add: unsigned_of_int take_bit_int_eq_self)
  moreover have "length (digits_of (nat base) (unat d)) \<le> 32"
    using assms less_le_trans [OF unsigned_less [of d], of "2 ^ 32"] by (intro digits_of_length) auto
  ultimately show ?thesis
    using digit_loop_spec [of "nat base" "word_of_int base" "[]" d 32] assms
    by (simp add: print_unsigned_int_def print_digits_text)
qed

section \<open>The text of a format\<close>

text \<open>What a conversion stands for; \<open>strs\<close> gives the strings that pointers point to.\<close>

definition arg_text :: "(u64 \<Rightarrow> u8 list option) \<Rightarrow> u8 \<Rightarrow> int \<Rightarrow> u8 \<Rightarrow> u64 \<Rightarrow> u8 list option" where
  "arg_text strs c width pad a =
    (if c = 0x73 then (if a = NULL then Some [] else strs a)
     else if c = 0x64 then
       (let d = sint (ucast a :: u32) in if d = - (2 ^ 31) then None
        else Some ((if d < 0 then [0x2D] else []) @ num_text 10 width pad (nat \<bar>d\<bar>)))
     else if c = 0x75 then Some (num_text 10 width pad (unat (ucast a :: u32)))
     else if c = 0x78 then Some (num_text 16 width pad (unat (ucast a :: u32)))
     else if c = 0x6F then Some (num_text 8 width pad (unat (ucast a :: u32)))
     else if c = 0x70 then Some (num_text 16 16 0x30 (unat a))
     else if c = 0x63 then Some [ucast a]
     else None)"

function fmt_text :: "(u64 \<Rightarrow> u8 list option) \<Rightarrow> u8 list \<Rightarrow> u64 list \<Rightarrow> u8 list option" where
  "fmt_text strs [] ap = Some []"
| "fmt_text strs (c # fmt) ap =
    (if c \<noteq> 0x25 then map_option (Cons c) (fmt_text strs fmt ap)
     else if fmt = [] then Some []
     else let (pad, fmt1) = spec_pad fmt
       in if fmt1 = [] then Some []
          else let (width, fmt2) = spec_width fmt1
            in (case fmt2 of [] \<Rightarrow> Some []
                | c' # fmt3 \<Rightarrow> (case ap of [] \<Rightarrow> None
                    | a # ap' \<Rightarrow> do {
                        t \<leftarrow> arg_text strs c' width pad a;
                        map_option (append t) (fmt_text strs fmt3 ap') })))"
  by pat_completeness auto
termination
  by (relation "measure (\<lambda>(strs, fmt, ap). length fmt)") (auto dest!: spec_length)

lemma string_at_cong:
  "(\<And>j. j \<le> length xs \<Longrightarrow> m' (a + of_nat j) = m (a + of_nat j)) \<Longrightarrow> string_at m' a xs = string_at m a xs"
proof (induction xs arbitrary: a)
  case Nil
  then show ?case using Nil [of 0] by simp
next
  case (Cons x xs)
  have "m' (a + 1 + of_nat j) = m (a + 1 + of_nat j)" if "j \<le> length xs" for j
    using Cons.prems [of "Suc j"] that by (simp add: add_ac)
  with Cons.IH [of "a + 1"] Cons.prems [of 0] show ?case by simp
qed

lemma sint_abs_word:
  "sint (x :: u32) \<noteq> - (2 ^ 31) \<Longrightarrow> unat (word_of_int \<bar>sint x\<bar> :: u32) = nat \<bar>sint x\<bar>"
proof -
  have "- 2147483648 \<le> sint x" "sint x < 2147483648" using sint_ge [of x] sint_lt [of x] by simp_all
  then have "\<bar>sint x\<bar> < 4294967296" by linarith
  then show ?thesis by (simp add: unsigned_of_int take_bit_int_eq_self)
qed

text \<open>The strings of \<open>strs\<close> are in memory, at safe addresses.\<close>

definition strings_ok :: "u64 set \<Rightarrow> (u64 \<Rightarrow> u8 list option) \<Rightarrow> mem \<Rightarrow> bool" where
  "strings_ok safe strs m \<longleftrightarrow> (\<forall>p xs. strs p = Some xs \<longrightarrow> string_at m p xs \<and> length xs \<le> int_max \<and>
     (\<forall>j \<le> length xs. p + of_nat j \<in> safe))"

text \<open>
  What the formatting code relies on: printing a character keeps an invariant of the printer's state and changes no
  byte at the addresses of \<open>safe\<close>, where the strings to be printed must lie.
\<close>

locale printer =
  fixes pc :: "u8 \<Rightarrow> 's \<Rightarrow> 's" and bytes :: "'s \<Rightarrow> mem" and safe :: "u64 set" and ok :: "'s \<Rightarrow> bool"
  assumes pc_ok: "ok s \<Longrightarrow> ok (pc c s)"
    and pc_safe: "ok s \<Longrightarrow> a \<in> safe \<Longrightarrow> bytes (pc c s) a = bytes s a"
begin

lemma fold_ok: "ok s \<Longrightarrow> ok (fold pc xs s)"
  by (induction xs arbitrary: s) (simp_all add: pc_ok)

lemma fold_safe: "ok s \<Longrightarrow> a \<in> safe \<Longrightarrow> bytes (fold pc xs s) a = bytes s a"
  by (induction xs arbitrary: s) (simp_all add: pc_safe pc_ok)

lemma print_string_loop_text:
  assumes "ok s" "string_at (bytes s) (p + of_nat i) xs" "i + length xs \<le> int_max"
    "\<And>j. j \<le> length xs \<Longrightarrow> p + of_nat (i + j) \<in> safe"
  shows "print_string_loop pc bytes p i s = Some (i + length xs, fold pc xs s)"
  using assms
proof (induction xs arbitrary: i s)
  case Nil
  then show ?case by (simp add: print_string_loop.simps)
next
  case (Cons x xs)
  have sf: "p + of_nat (Suc i + j) \<in> safe" if "j \<le> length xs" for j
    using Cons.prems(4) [of "Suc j"] that by simp
  moreover have "string_at (bytes (pc x s)) (p + of_nat (Suc i)) xs = string_at (bytes s) (p + of_nat (Suc i)) xs"
    using sf Cons.prems(1) by (intro string_at_cong pc_safe) (simp_all add: add_ac)
  ultimately show ?case
    using Cons.IH [of "pc x s" "Suc i"] Cons.prems pc_ok
    by (simp add: print_string_loop.simps [of pc bytes p i] add_ac)
qed

lemma strings_ok_fold: "ok s \<Longrightarrow> strings_ok safe strs (bytes s) \<Longrightarrow> strings_ok safe strs (bytes (fold pc xs s))"
  unfolding strings_ok_def using string_at_cong [of _ "bytes (fold pc xs s)" _ "bytes s"] fold_safe by blast

lemma print_arg_text:
  assumes "arg_text strs c width pad a = Some t" "strings_ok safe strs (bytes s)" "ok s"
  shows "print_arg pc bytes c width pad a s = Some (length t, fold pc t s)"
proof -
  have "print_string pc bytes a s = Some (length t, fold pc t s)" if "c = 0x73"
  proof (cases "a = NULL")
    case False
    then have "strs a = Some t" using that assms(1) by (simp add: arg_text_def)
    then have "string_at (bytes s) a t" "length t \<le> int_max" "\<forall>j \<le> length t. a + of_nat j \<in> safe"
      using assms(2) by (auto simp: strings_ok_def)
    then show ?thesis using False print_string_loop_text [of s a 0 t] assms(3) by (simp add: print_string_def)
  qed (use that assms(1) in \<open>simp add: arg_text_def print_string_def\<close>)
  then show ?thesis
    using assms(1)
    by (auto simp: arg_text_def print_arg_def print_int_def print_unsigned_int_text print_ptr_def print_uint64_t_text
        NUM_HEX_FOR_PTR_def print_chars_def sint_abs_word Let_def split: if_splits)
qed

lemma PRINT_text:
  "fmt_text strs fmt ap = Some t \<Longrightarrow> strings_ok safe strs (bytes s) \<Longrightarrow> ok s \<Longrightarrow>
   PRINT pc bytes fmt ap n s = Some (n + length t, fold pc t s)"
proof (induction "length fmt" arbitrary: fmt ap n s t rule: less_induct)
  case less
  show ?case
  proof (cases fmt)
    case (Cons c r)
    obtain pad r1 where p: "spec_pad r = (pad, r1)" by force
    obtain width r2 where w: "spec_width r1 = (width, r2)" by force
    note split = Cons p w
    show ?thesis
    proof (cases "c \<noteq> 0x25 \<or> r = [] \<or> r1 = [] \<or> r2 = []")
      case True
      have ok: "strings_ok safe strs (bytes (pc c s))" using strings_ok_fold [OF less.prems(3,2), of "[c]"] by simp
      show ?thesis
      proof (cases "c \<noteq> 0x25")
        case True
        then obtain t' where "fmt_text strs r ap = Some t'" "t = c # t'" using less.prems(1) by (auto simp: Cons)
        then show ?thesis using less.hyps [of r ap t' "pc c s" "n + 1"] ok True pc_ok [OF less.prems(3)] by (simp add: Cons)
      next
        case False
        then show ?thesis using True less.prems by (auto simp: split Let_def split: if_splits list.splits)
      qed
    next
      case False
      then obtain c' r3 where r2: "r2 = c' # r3" by (cases r2) auto
      obtain a ap' t1 t2 where t: "ap = a # ap'" "arg_text strs c' width pad a = Some t1"
        "fmt_text strs r3 ap' = Some t2" "t = t1 @ t2"
        using less.prems(1) False by (auto simp: split r2 Let_def split: if_splits list.splits elim!: option_bind_SomeE)
      have "length r3 < length fmt" using spec_length(1) [OF p [symmetric]] spec_length(2) [OF w [symmetric]] by (simp add: Cons r2)
      then show ?thesis
        using less.hyps [of r3 ap' t2 "fold pc t1 s" "n + length t1"] t strings_ok_fold [OF less.prems(3,2)] fold_ok [OF less.prems(3)]
          print_arg_text [OF t(2) less.prems(2,3)] False
        by (simp add: split r2)
    qed
  qed (use less.prems in simp)
qed

end

end
