(* ===== verification/Printk.thy ===== *)
theory Printk
  imports Print Pages Circular_Buffer
begin

text \<open>
  The three users of the formatting code: \<^verbatim>\<open>kernel/printk.c\<close>, which collects a message in a buffer of its
  CPU and appends it to the kernel log, \<^verbatim>\<open>usr/stdio.c\<close> and \<^verbatim>\<open>boot/print_early.c\<close>, which write each character to
  the data register of the UART. Each interprets the locale \<open>printer\<close> on its own \<^verbatim>\<open>print_char\<close>.
\<close>

section \<open>The kernel log\<close>

definition TMP_PRINTK_BUF_LEN :: nat where "TMP_PRINTK_BUF_LEN = 1024"

definition LOG_BUF_SIZE :: u64 where "LOG_BUF_SIZE = 0x1000000"

text \<open>The state \<^verbatim>\<open>printk\<close> works on; \<open>tmp\<close> below is the address of \<^verbatim>\<open>tmp_printk_buf\<close>.\<close>

record klog =
  klog_mem :: mem
  tmp_printk_offset :: "nat \<Rightarrow> nat"
  kernel_log :: concurrent_cbuf
  klog_daif :: u64

definition init_printk :: "pages_usage \<Rightarrow> klog \<Rightarrow> (pages_usage \<times> klog) option" where
  "init_printk u s = do {
     (log_buf, u) \<leftarrow> get_free_pages u (get_order LOG_BUF_SIZE);
     if log_buf = NULL then Some (u, s)
     else do {
       l \<leftarrow> init_concurrent_cbuf (Some (kernel_log s)) log_buf LOG_BUF_SIZE;
       Some (u, s\<lparr>kernel_log := l\<rparr>) } }"

definition tmp_printk_buf :: "u64 \<Rightarrow> nat \<Rightarrow> u64" where
  "tmp_printk_buf tmp core = tmp + of_nat (TMP_PRINTK_BUF_LEN * core)"

definition log_print_char :: "u64 \<Rightarrow> nat \<Rightarrow> u8 \<Rightarrow> klog \<Rightarrow> klog" where
  "log_print_char tmp core c s =
    (let off = tmp_printk_offset s core;
         s = s\<lparr>klog_mem := (klog_mem s)(tmp_printk_buf tmp core + of_nat off := c)\<rparr>;
         off = off + 1;
         off = (if TMP_PRINTK_BUF_LEN \<le> off then 0 else off)
     in s\<lparr>tmp_printk_offset := (tmp_printk_offset s)(core := off)\<rparr>)"

text \<open>The time stamp of a message; \<open>cnt\<close> is the value of the counter register.\<close>

definition print_stamp :: "u64 \<Rightarrow> nat \<Rightarrow> u64 \<Rightarrow> klog \<Rightarrow> (nat \<times> klog) option" where
  "print_stamp tmp core cnt s = do {
     let pc = log_print_char tmp core;
     let cur_ts = get_timestamp cnt;
     let (n1, s) = print_chars pc [0x5B] s;
     (n2, s) \<leftarrow> print_unsigned_int pc (ucast (sec cur_ts)) 10 5 0x20 s;
     let (n3, s) = print_chars pc [0x2E] s;
     (n4, s) \<leftarrow> print_unsigned_int pc (ucast (usec cur_ts)) 10 6 0x30 s;
     let (n5, s) = print_chars pc [0x40, 0x63, 0x70, 0x75] s;
     (n6, s) \<leftarrow> print_int32_t pc (int core) s;
     let (n7, s) = print_chars pc [0x5D, 0x20] s;
     Some (n1 + n2 + n3 + n4 + n5 + n6 + n7, s) }"

text \<open>A message longer than the buffer wraps in it, and the write to the log reads past its end.\<close>

definition printk :: "u64 \<Rightarrow> nat \<Rightarrow> u64 \<Rightarrow> u8 list option \<Rightarrow> u64 list \<Rightarrow> klog \<Rightarrow> (int \<times> klog) option" where
  "printk tmp core cnt fmt ap s =
    (case fmt of None \<Rightarrow> Some (0, s)
     | Some fmt \<Rightarrow> do {
         let s = s\<lparr>tmp_printk_offset := (tmp_printk_offset s)(core := 0)\<rparr>;
         (num_ts_printed, s) \<leftarrow> print_stamp tmp core cnt s;
         (num_printed, s) \<leftarrow> PRINT (log_print_char tmp core) klog_mem fmt ap 0 s;
         if TMP_PRINTK_BUF_LEN < num_ts_printed + num_printed then None
         else do {
           (ret, d, m, l) \<leftarrow> write_concurrent_cbuf (klog_daif s) (klog_mem s) (Some (kernel_log s))
             (tmp_printk_buf tmp core) (of_nat (num_ts_printed + num_printed));
           let s = s\<lparr>klog_daif := d, klog_mem := m, kernel_log := the l\<rparr>;
           Some (if ret = 0 then int num_printed else -1, s) } })"

section \<open>Printing to the UART\<close>

record console =
  con_mem :: mem
  con_tx :: "u32 list"

definition uart_print_char :: "u8 \<Rightarrow> console \<Rightarrow> console" where
  "uart_print_char c s = s\<lparr>con_tx := con_tx s @ [ucast c]\<rparr>"

definition printf :: "u8 list option \<Rightarrow> u64 list \<Rightarrow> console \<Rightarrow> (nat \<times> console) option" where
  "printf fmt ap s = (case fmt of None \<Rightarrow> None | Some fmt \<Rightarrow> PRINT uart_print_char con_mem fmt ap 0 s)"

definition print_early :: "u8 list option \<Rightarrow> u64 list \<Rightarrow> console \<Rightarrow> (nat \<times> console) option" where
  "print_early fmt ap s = (case fmt of None \<Rightarrow> Some (0, s) | Some fmt \<Rightarrow> PRINT uart_print_char con_mem fmt ap 0 s)"

section \<open>The printers\<close>

interpretation uart: printer uart_print_char con_mem UNIV "\<lambda>_. True"
  by unfold_locales (simp_all add: uart_print_char_def)

definition tmp_range :: "u64 \<Rightarrow> nat \<Rightarrow> u64 set" where
  "tmp_range tmp core = (\<lambda>i. tmp_printk_buf tmp core + of_nat i) ` {..<TMP_PRINTK_BUF_LEN}"

interpretation log: printer "log_print_char tmp core" klog_mem "- tmp_range tmp core"
    "\<lambda>s. tmp_printk_offset s core < TMP_PRINTK_BUF_LEN" for tmp core
  by unfold_locales (auto simp: log_print_char_def Let_def TMP_PRINTK_BUF_LEN_def tmp_range_def)

lemma fold_uart: "fold uart_print_char xs s = s\<lparr>con_tx := con_tx s @ map ucast xs\<rparr>"
  by (induction xs arbitrary: s) (simp_all add: uart_print_char_def)

lemma store_bytes_snoc: "store_bytes m a (xs @ [c]) = (store_bytes m a xs)(a + of_nat (length xs) := c)"
  by (induction xs arbitrary: m a) (simp_all add: add_ac)

text \<open>The buffer of the CPU holds what was printed since the offset was reset.\<close>

definition buffered :: "u64 \<Rightarrow> nat \<Rightarrow> klog \<Rightarrow> u8 list \<Rightarrow> klog \<Rightarrow> bool" where
  "buffered tmp core s xs s' \<longleftrightarrow>
    klog_mem s' = store_bytes (klog_mem s) (tmp_printk_buf tmp core) xs \<and>
    (length xs < TMP_PRINTK_BUF_LEN \<longrightarrow> tmp_printk_offset s' core = length xs) \<and>
    kernel_log s' = kernel_log s \<and> klog_daif s' = klog_daif s"

lemma buffered_fold:
  assumes "tmp_printk_offset s core = 0" "length xs \<le> TMP_PRINTK_BUF_LEN"
  shows "buffered tmp core s xs (fold (log_print_char tmp core) xs s)"
  using assms(2)
proof (induction xs rule: rev_induct)
  case Nil
  then show ?case using assms(1) by (simp add: buffered_def)
next
  case (snoc c xs)
  then show ?case by (simp add: buffered_def store_bytes_snoc log_print_char_def Let_def)
qed

text \<open>The text of a time stamp.\<close>

definition stamp_text :: "nat \<Rightarrow> u64 \<Rightarrow> u8 list" where
  "stamp_text core cnt =
    [0x5B] @ num_text 10 5 0x20 (unat (ucast (sec (get_timestamp cnt)) :: u32)) @ [0x2E] @
    num_text 10 6 0x30 (unat (ucast (usec (get_timestamp cnt)) :: u32)) @ [0x40, 0x63, 0x70, 0x75] @
    num_text 10 (-1) 0xFF core @ [0x5D, 0x20]"

lemma print_stamp_text:
  assumes "core < 2 ^ 31"
  shows "print_stamp tmp core cnt s =
    Some (length (stamp_text core cnt), fold (log_print_char tmp core) (stamp_text core cnt) s)"
proof -
  have "unat (word_of_int (int core) :: u64) = core" using assms unat_wd [of core] by (simp add: wd_def)
  then show ?thesis
    by (simp add: print_stamp_def stamp_text_def print_chars_def print_unsigned_int_text print_int32_t_def
        print_uint64_t_text Let_def)
qed

lemma printk_run:
  assumes "core < 2 ^ 31" "fmt_text strs fmt ap = Some t" "strings_ok (- tmp_range tmp core) strs (klog_mem s)"
    "length (stamp_text core cnt @ t) \<le> TMP_PRINTK_BUF_LEN"
  obtains s1 where "buffered tmp core s (stamp_text core cnt @ t) s1"
    "printk tmp core cnt (Some fmt) ap s = do {
       (ret, d, m, l) \<leftarrow> write_concurrent_cbuf (klog_daif s1) (klog_mem s1) (Some (kernel_log s1))
         (tmp_printk_buf tmp core) (of_nat (length (stamp_text core cnt @ t)));
       let s = s1\<lparr>klog_daif := d, klog_mem := m, kernel_log := the l\<rparr>;
       Some (if ret = 0 then int (length t) else -1, s) }"
proof -
  let ?pc = "log_print_char tmp core" and ?st = "stamp_text core cnt"
  define s0 where "s0 = s\<lparr>tmp_printk_offset := (tmp_printk_offset s)(core := 0)\<rparr>"
  have ok0: "tmp_printk_offset s0 core < TMP_PRINTK_BUF_LEN" by (simp add: s0_def TMP_PRINTK_BUF_LEN_def)
  have "strings_ok (- tmp_range tmp core) strs (klog_mem s0)" using assms(3) by (simp add: s0_def)
  from log.strings_ok_fold [OF ok0 this, of ?st] log.fold_ok [OF ok0, of tmp ?st]
  have P: "PRINT ?pc klog_mem fmt ap 0 (fold ?pc ?st s0) = Some (length t, fold ?pc (?st @ t) s0)"
    using log.PRINT_text [OF assms(2), of tmp core "fold ?pc ?st s0" 0] by simp
  have b: "buffered tmp core s0 (?st @ t) (fold ?pc (?st @ t) s0)"
    by (rule buffered_fold) (use assms(4) in \<open>simp_all add: s0_def\<close>)
  show thesis
  proof (rule that)
    show "buffered tmp core s (?st @ t) (fold ?pc (?st @ t) s0)" using b by (simp add: buffered_def s0_def)
    show "printk tmp core cnt (Some fmt) ap s = do {
       (ret, d, m, l) \<leftarrow> write_concurrent_cbuf (klog_daif (fold ?pc (?st @ t) s0)) (klog_mem (fold ?pc (?st @ t) s0))
         (Some (kernel_log (fold ?pc (?st @ t) s0)))
         (tmp_printk_buf tmp core) (of_nat (length (stamp_text core cnt @ t)));
       let s = (fold ?pc (?st @ t) s0)\<lparr>klog_daif := d, klog_mem := m, kernel_log := the l\<rparr>;
       Some (if ret = 0 then int (length t) else -1, s) }"
      using assms(4) P print_stamp_text [OF assms(1), of tmp cnt s0]
      by (simp add: printk_def s0_def [symmetric] Let_def)
  qed
qed

section \<open>Properties\<close>

text \<open>C23. Numbers can be read back: for a base of 2 to 16, \<^verbatim>\<open>print_unsigned_int\<close> prints the padding and then digits
  whose value in that base is the number, with no leading zero unless the number is 0; it pads exactly up to the width,
  and returns the number of characters printed.\<close>

theorem print_unsigned_int_reads_back:
  assumes "2 \<le> base" "base \<le> 16"
  shows "\<exists>ps ds. print_unsigned_int uart_print_char d base width pad s =
      Some (length (ps @ ds), s\<lparr>con_tx := con_tx s @ map ucast (ps @ ds)\<rparr>) \<and>
    numeral_value (nat base) ds = unat d \<and> ds \<noteq> [] \<and> (d \<noteq> 0 \<longrightarrow> hd ds \<noteq> 0x30) \<and> set ps \<subseteq> {pad} \<and>
    int (length (ps @ ds)) = max width (int (length ds))"
proof -
  let ?ds = "digits_of (nat base) (unat d)"
  let ?ps = "replicate (nat (width - int (length ?ds))) pad"
  have b: "2 \<le> nat base" "nat base \<le> 16" using assms by auto
  have "numeral_value (nat base) ?ds = unat d" "?ds \<noteq> []" "d \<noteq> 0 \<longrightarrow> hd ?ds \<noteq> 0x30"
    using digits_of_value [OF b] by (auto simp: unat_gt_0)
  moreover have "print_unsigned_int uart_print_char d base width pad s =
      Some (length (?ps @ ?ds), s\<lparr>con_tx := con_tx s @ map ucast (?ps @ ?ds)\<rparr>)"
    unfolding print_unsigned_int_text [OF assms] num_text_def fold_uart ..
  moreover have "int (length (?ps @ ?ds)) = max width (int (length ?ds))" "set ?ps \<subseteq> {pad}" by auto
  ultimately show ?thesis by blast
qed

theorem print_unsigned_int_reads_back_witness:
  "\<exists>s' ds. print_unsigned_int uart_print_char 4294967295 10 (-1) 0x20 \<lparr>con_mem = \<lambda>_. 0, con_tx = []\<rparr> = Some (length ds, s') \<and>
    numeral_value 10 ds = 4294967295 \<and> con_tx s' = map ucast ds"
  using print_unsigned_int_reads_back [of 10 4294967295 "-1" "0x20" "\<lparr>con_mem = \<lambda>_. 0, con_tx = []\<rparr>"]
  by (auto simp: max_def split: if_splits)

text \<open>C24. \<^verbatim>\<open>printf\<close> prints exactly the text its format stands for, one UART write per character and in
  order, and returns its length.\<close>

theorem printf_prints_text:
  assumes "fmt_text strs fmt ap = Some t" "strings_ok UNIV strs (con_mem s)"
  shows "printf (Some fmt) ap s = Some (length t, s\<lparr>con_tx := con_tx s @ map ucast t\<rparr>)"
  using uart.PRINT_text [OF assms TrueI, of 0] by (simp add: printf_def fold_uart)

theorem printf_prints_text_witness:
  "printf (Some [0x25, 0x30, 0x35, 0x78, 0x3A, 0x25, 0x64, 0x25, 0x63]) [255, 0xFFFFFFFF, 0x0A] \<lparr>con_mem = \<lambda>_. 0, con_tx = []\<rparr> =
    Some (9, \<lparr>con_mem = \<lambda>_. 0, con_tx = [0x30, 0x30, 0x30, 0x46, 0x46, 0x3A, 0x2D, 0x31, 0x0A]\<rparr>)"
proof -
  have d: "digits_of 16 255 = [0x46, 0x46]" "digits_of 10 (Suc 0) = [0x31]"
    by (subst digits_of.simps, simp add: digits_of.simps [of _ 15] digits_def)+
  have "fmt_text (\<lambda>_. None) [0x25, 0x30, 0x35, 0x78, 0x3A, 0x25, 0x64, 0x25, 0x63] [255, 0xFFFFFFFF, 0x0A] =
      Some [0x30, 0x30, 0x30, 0x46, 0x46, 0x3A, 0x2D, 0x31, 0x0A]"
    by (simp add: spec_pad_def spec_width_def arg_text_def num_text_def d numeral_3_eq_3)
  from printf_prints_text [OF this, of "\<lparr>con_mem = \<lambda>_. 0, con_tx = []\<rparr>"] show ?thesis
    by (simp add: strings_ok_def)
qed

text \<open>C25. \<^verbatim>\<open>printk\<close> appends a message to the kernel log as a whole: for a message that fits the buffer of the
  CPU, the log afterwards is the log before followed by the time stamp and the text, and the result is the length of the text;
  when the log has no room the log is unchanged, the overflow flag is set, and the result is -1.\<close>

theorem printk_logs:
  fixes s :: klog and tmp :: u64 and core :: nat
  defines "buf \<equiv> unat (tmp_printk_buf tmp core)"
  assumes "core < 2 ^ 31" "fmt_text strs fmt ap = Some t" "strings_ok (- tmp_range tmp core) strs (klog_mem s)"
    "length (stamp_text core cnt @ t) \<le> TMP_PRINTK_BUF_LEN" "cc_wf (klog_daif s, kernel_log s)"
    "0 < buf" "buf + TMP_PRINTK_BUF_LEN < 2 ^ 64"
    "apart (cb_base (cbuf (kernel_log s))) (cb_room (cbuf (kernel_log s))) buf TMP_PRINTK_BUF_LEN"
  shows "\<exists>r s'. printk tmp core cnt (Some fmt) ap s = Some (r, s') \<and> cc_wf (klog_daif s', kernel_log s') \<and>
    (if length (cb_content (klog_mem s) (cbuf (kernel_log s))) + length (stamp_text core cnt @ t) < cb_room (cbuf (kernel_log s))
     then r = int (length t) \<and> write_overflow (kernel_log s') = write_overflow (kernel_log s) \<and>
       cb_content (klog_mem s') (cbuf (kernel_log s')) =
         cb_content (klog_mem s) (cbuf (kernel_log s)) @ stamp_text core cnt @ t
     else r = -1 \<and> write_overflow (kernel_log s') \<and>
       cb_content (klog_mem s') (cbuf (kernel_log s')) = cb_content (klog_mem s) (cbuf (kernel_log s)))"
proof -
  define xs where "xs = stamp_text core cnt @ t"
  obtain s1 where b: "buffered tmp core s xs s1" and run:
    "printk tmp core cnt (Some fmt) ap s = do {
       (ret, d, m, l) \<leftarrow> write_concurrent_cbuf (klog_daif s1) (klog_mem s1) (Some (kernel_log s1))
         (tmp_printk_buf tmp core) (of_nat (length xs));
       let s = s1\<lparr>klog_daif := d, klog_mem := m, kernel_log := the l\<rparr>;
       Some (if ret = 0 then int (length t) else -1, s) }"
    using printk_run [OF assms(2-5)] unfolding xs_def by metis
  let ?l = "kernel_log s" and ?c = "cbuf (kernel_log s)" and ?k = "length xs"
  have k: "?k \<le> TMP_PRINTK_BUF_LEN" using assms(5) by (simp add: xs_def)
  have bw: "tmp_printk_buf tmp core = wd buf" by (simp add: buf_def)
  have m1: "klog_mem s1 = store_bytes (klog_mem s) (wd buf) xs" "kernel_log s1 = ?l" "klog_daif s1 = klog_daif s"
    using b by (simp_all add: buffered_def bw)
  have wf: "cb_wf ?c" "daif_wf (klog_daif s)" "data0 (cbuf_wlock ?l) = 0" "data0 (cbuf_rlock ?l) = 0"
    using assms(6) by (simp_all add: cc_wf_def)
  have ap: "apart (cb_base ?c) (cb_room ?c) buf ?k" using assms(9) k by (auto simp: apart_def)
  have len: "buf + ?k < 2 ^ 64" using assms(8) k by simp
  have "mem_eq_on (cb_base ?c) (cb_base ?c + cb_room ?c) (klog_mem s) (klog_mem s1)"
    unfolding m1(1) mem_eq_on_def using ap len wf(1)
    by (auto simp: store_bytes_wd apart_def cb_wf_def)
  then have cc: "cb_content (klog_mem s1) ?c = cb_content (klog_mem s) ?c" by (rule cb_content_frame [OF wf(1)])
  have ld: "load_bytes (klog_mem s1) (wd buf) ?k = xs"
    unfolding m1(1) using k by (intro load_bytes_store_bytes) (simp add: TMP_PRINTK_BUF_LEN_def)
  have nz: "wd buf \<noteq> NULL" "unat (wd ?k) = ?k" using assms(7,8) k by (simp_all add: wd_eq_0_iff unat_wd)
  show ?thesis
  proof (cases "cb_count ?c + ?k < cb_room ?c")
    case True
    obtain m' c' where w: "write_circular_buffer (klog_mem s1) (Some ?c) (wd buf) (wd ?k) = Some (0, m', Some c')" "cb_wf c'"
      "cb_content m' c' = cb_content (klog_mem s) ?c @ xs"
      using write_circular_buffer_ok [OF wf(1) assms(7) len True ap, of "klog_mem s1"] cc ld by auto
    from write_concurrent_eq [OF wf(2,3) nz(1) w(1)] run w True wf show ?thesis
      by (auto simp: m1(2,3) bw wd_def [symmetric] cc_wf_def xs_def)
  next
    case False
    have "write_circular_buffer (klog_mem s1) (Some ?c) (wd buf) (wd ?k) = Some (-1, klog_mem s1, Some ?c)"
      using write_circular_buffer_full [OF wf(1) nz(1)] nz(2) False by simp
    from write_concurrent_eq [OF wf(2,3) nz(1) this] run False wf cc show ?thesis
      by (auto simp: m1(2,3) bw wd_def [symmetric] cc_wf_def xs_def)
  qed
qed

theorem printk_logs_witness:
  "\<exists>c r s'. init_concurrent_cbuf (Some \<lparr>cbuf = \<lparr>cb_buffer = 0, cb_length = 0, cb_rp = 0, cb_wp = 0\<rparr>,
      cbuf_rlock = \<lparr>data0 = 9, data1 = 9\<rparr>, cbuf_wlock = \<lparr>data0 = 9, data1 = 9\<rparr>, write_overflow = True\<rparr>) 4096 64 = Some c \<and>
    printk 8192 0 0 (Some [0x68, 0x69]) [] \<lparr>klog_mem = \<lambda>_. 0, tmp_printk_offset = \<lambda>_. 7, kernel_log = c, klog_daif = 0\<rparr> = Some (r, s') \<and>
    r = 2 \<and> cb_content (klog_mem s') (cbuf (kernel_log s')) = stamp_text 0 0 @ [0x68, 0x69]"
proof -
  let ?c0 = "\<lparr>cbuf = \<lparr>cb_buffer = 0, cb_length = 0, cb_rp = 0, cb_wp = 0\<rparr>,
      cbuf_rlock = \<lparr>data0 = 9, data1 = 9\<rparr>, cbuf_wlock = \<lparr>data0 = 9, data1 = 9\<rparr>, write_overflow = True\<rparr>"
  have "daif_wf 0" by (simp add: daif_wf_def)
  then obtain c where c: "init_concurrent_cbuf (Some ?c0) 4096 64 = Some c" "cc_wf (0, c)"
    "cb_content (\<lambda>_. 0) (cbuf c) = []" "cb_base (cbuf c) = 4096" "cb_room (cbuf c) = 64"
    using init_concurrent_cbuf_wf [of 4096 64 0 ?c0 "\<lambda>_. 0"] by (auto simp: wd_eq_numeral)
  let ?s = "\<lparr>klog_mem = \<lambda>_. 0, tmp_printk_offset = \<lambda>_. 7, kernel_log = c, klog_daif = 0\<rparr>"
  have "digits_of 10 0 = [0x30]" by (subst digits_of.simps) (simp add: digits_def)
  then have l: "length (stamp_text 0 0) = 20"
    by (simp add: stamp_text_def num_text_def get_timestamp_def)
  have t: "fmt_text (\<lambda>_. None) [0x68, 0x69] [] = Some [0x68, 0x69]" by simp
  have b: "tmp_printk_buf 8192 0 = 8192" by (simp add: tmp_printk_buf_def)
  from printk_logs [where s = ?s and tmp = 8192 and core = 0 and cnt = 0, OF _ t] c l show ?thesis
    by (auto simp: b strings_ok_def TMP_PRINTK_BUF_LEN_def apart_def)
qed

end
