(* ===== verification/Uart.thy ===== *)
theory Uart
  imports Wait Printk
begin

text \<open>
  \<^verbatim>\<open>kernel/uart.c\<close>: the line discipline that turns received characters into lines for \<^verbatim>\<open>read\<close>, and the transmission of the kernel
  log. The data register is the list of the values written to it; the other registers are a store. The functions work on the scheduler
  (for the interrupt mask and for waking tasks) and on the state of the driver. Local variables whose address is passed on
  (\<^verbatim>\<open>c\<close>, \<^verbatim>\<open>read_buf\<close>) are arguments with their addresses, as is the wait queue \<^verbatim>\<open>uib_wq_head\<close>.
\<close>

unbundle bit_operations_syntax

section \<open>The driver\<close>

definition UART_BASE :: u64 where "UART_BASE = 0x09000000"
definition UART_UARTIBRD :: u64 where "UART_UARTIBRD = UART_BASE + 0x24"
definition UART_UARTFBRD :: u64 where "UART_UARTFBRD = UART_BASE + 0x28"
definition UART_UARTLCR_H :: u64 where "UART_UARTLCR_H = UART_BASE + 0x2C"
definition UART_UARTCR :: u64 where "UART_UARTCR = UART_BASE + 0x30"
definition UART_UARTIFLS :: u64 where "UART_UARTIFLS = UART_BASE + 0x34"
definition UART_UARTIMSC :: u64 where "UART_UARTIMSC = UART_BASE + 0x38"
definition UART_UARTICR :: u64 where "UART_UARTICR = UART_BASE + 0x44"

definition UART_IN_BUF_LEN :: nat where "UART_IN_BUF_LEN = 256"

record uart =
  uq :: waitq
  uart_in_buf :: "u8 list"
  uib_index :: nat
  uib_lock :: spinlock
  uart_busy :: bool
  uart_fifo_size :: nat
  uart_tx_fifo_one_write_len :: nat
  uart_tx :: "u32 list"
  uart_regs :: "u64 \<Rightarrow> u32"
  is_in_magic :: bool
  ulog :: klog

definition write_char_uart :: "u8 \<Rightarrow> uart \<Rightarrow> uart" where
  "write_char_uart c u = u\<lparr>uart_tx := uart_tx u @ [ucast c]\<rparr>"

definition set_uart_reg :: "u64 \<Rightarrow> (u32 \<Rightarrow> u32) \<Rightarrow> uart \<Rightarrow> uart" where
  "set_uart_reg a f u = u\<lparr>uart_regs := (uart_regs u)(a := f (uart_regs u a))\<rparr>"

text \<open>The registers written as \<^verbatim>\<open>char\<close> keep their upper bytes.\<close>

definition low_byte :: "(u8 \<Rightarrow> u8) \<Rightarrow> u32 \<Rightarrow> u32" where
  "low_byte f r = (r AND NOT 0xFF) OR ucast (f (ucast r))"

definition config_uart :: "uart \<Rightarrow> uart" where
  "config_uart u =
    (let u = set_uart_reg UART_UARTCR (\<lambda>_. 0) u;
         u = set_uart_reg UART_UARTIBRD (\<lambda>_. 0x0D) u;
         u = set_uart_reg UART_UARTFBRD (\<lambda>_. 0x02) u;
         u = set_uart_reg UART_UARTIMSC (\<lambda>r. r OR push_bit 4 1) u;
         u = set_uart_reg UART_UARTIMSC (\<lambda>r. r OR push_bit 5 1) u;
         u = set_uart_reg UART_UARTLCR_H (low_byte (\<lambda>r. r OR push_bit 4 1)) u;
         u = set_uart_reg UART_UARTIFLS (low_byte (\<lambda>_. 0)) u
     in set_uart_reg UART_UARTCR (\<lambda>_. 0x0301) u)"

definition init_uart :: "u64 \<Rightarrow> u32 \<Rightarrow> uart \<Rightarrow> uart" where
  "init_uart uib_wq_head uart_periph_id2 u =
    (let u = u\<lparr>uart_fifo_size := if drop_bit 4 (uart_periph_id2 AND 0xFF) < 3 then 16 else 32\<rparr>;
         u = u\<lparr>uart_tx_fifo_one_write_len := uart_fifo_size u * 7 div 8\<rparr>;
         u = config_uart u;
         u = u\<lparr>uq := init_waitqueue_head uib_wq_head (uq u)\<rparr>
     in u\<lparr>uib_lock := the (spin_lock_init (Some (uib_lock u)))\<rparr>)"

section \<open>Transmission\<close>

definition read_klog :: "u64 \<Rightarrow> nat \<Rightarrow> sched \<times> uart \<Rightarrow> (int \<times> sched \<times> uart) option" where
  "read_klog p len = (\<lambda>(sc, u). do {
     (ret, d, m, l) \<leftarrow> read_concurrent_cbuf (daif sc) (klog_mem (ulog u)) (Some (kernel_log (ulog u))) p (of_nat len);
     Some (ret, sc\<lparr>daif := d\<rparr>, u\<lparr>ulog := (ulog u)\<lparr>klog_mem := m, kernel_log := the l\<rparr>\<rparr>) })"

definition start_uart_tx :: "u64 \<Rightarrow> sched \<times> uart \<Rightarrow> (sched \<times> uart) option" where
  "start_uart_tx c_addr = (\<lambda>(sc, u).
     if \<not> uart_busy u then do {
       (ret, sc, u) \<leftarrow> read_klog c_addr 1 (sc, u);
       if ret = 1 then Some (sc, (write_char_uart (klog_mem (ulog u) c_addr) u)\<lparr>uart_busy := True\<rparr>)
       else Some (sc, u) }
     else Some (sc, u))"

text \<open>The transmit half of \<^verbatim>\<open>handle_uart_irq\<close>.\<close>

definition uart_tx_irq :: "u64 \<Rightarrow> sched \<times> uart \<Rightarrow> (sched \<times> uart) option" where
  "uart_tx_irq read_buf = (\<lambda>(sc, u). do {
     (ret, sc, u) \<leftarrow> read_klog read_buf (uart_tx_fifo_one_write_len u) (sc, u);
     if 0 < ret then Some (sc, fold (\<lambda>i u. write_char_uart (klog_mem (ulog u) (read_buf + of_nat i)) u) [0..<nat ret] u)
     else Some (sc, set_uart_reg UART_UARTICR (\<lambda>_. push_bit 5 1) (u\<lparr>uart_busy := False\<rparr>)) })"

section \<open>Reception\<close>

text \<open>\<open>report\<close> stands for the messages that the keys behind ctrl-y print.\<close>

definition handle_magic_keys :: "(u8 \<Rightarrow> sched \<times> uart \<Rightarrow> (sched \<times> uart) option) \<Rightarrow> u8 \<Rightarrow> sched \<times> uart \<Rightarrow> (sched \<times> uart) option" where
  "handle_magic_keys report c = (\<lambda>(sc, u). do {
     (sc, u) \<leftarrow> (if is_in_magic u \<and> (c = 0x67 \<or> c = 0x70) then report c (sc, u) else Some (sc, u));
     Some (sc, u\<lparr>is_in_magic := (c = 0x19)\<rparr>) })"

text \<open>What happens under the lock: the character to echo, unless it was an erase.\<close>

definition discipline_edit :: "u8 \<Rightarrow> uart \<Rightarrow> u8 option \<times> uart" where
  "discipline_edit c u =
    (if c = 0x08 \<or> c = 0x7F then
       (None, if 0 < uib_index u
          then write_char_uart 0x08 (write_char_uart 0x20 (write_char_uart 0x08 (u\<lparr>uib_index := uib_index u - 1\<rparr>)))
          else u)
     else let c = (if c = 0x0D then 0x0A else c)
       in (Some c, if uib_index u < UART_IN_BUF_LEN - 1
            then u\<lparr>uart_in_buf := (uart_in_buf u)[uib_index u := c], uib_index := uib_index u + 1\<rparr>
            else u))"

definition to_line_discipline :: "u64 \<Rightarrow> u8 \<Rightarrow> sched \<times> uart \<Rightarrow> (sched \<times> uart) option" where
  "to_line_discipline uib_wq_head c = (\<lambda>(sc, u). do {
     ((echo, u), d, l) \<leftarrow> locked_irqsave (daif sc) (uib_lock u) (Some (discipline_edit c u));
     let sc = sc\<lparr>daif := d\<rparr>;
     let u = u\<lparr>uib_lock := l\<rparr>;
     case echo of None \<Rightarrow> Some (sc, u)
     | Some c \<Rightarrow> do {
         (sc, w) \<leftarrow> (if c = 0x0A then wake_up uib_wq_head (sc, uq u) else Some (sc, uq u));
         Some (sc, write_char_uart c (u\<lparr>uq := w\<rparr>)) } })"

text \<open>\<open>mis\<close> and \<open>mis'\<close> are the two reads of the interrupt status, \<open>dr\<close> the read of the data register.\<close>

definition handle_uart_irq ::
  "(u8 \<Rightarrow> sched \<times> uart \<Rightarrow> (sched \<times> uart) option) \<Rightarrow> u64 \<Rightarrow> u64 \<Rightarrow> u32 \<Rightarrow> u32 \<Rightarrow> u32 \<Rightarrow> sched \<times> uart \<Rightarrow>
   (sched \<times> uart) option" where
  "handle_uart_irq report uib_wq_head read_buf mis dr mis' s = do {
     s \<leftarrow> (if mis AND push_bit 4 1 = push_bit 4 1 then do {
             s \<leftarrow> handle_magic_keys report (ucast dr) s;
             to_line_discipline uib_wq_head (ucast dr) s }
           else Some s);
     if mis' AND push_bit 5 1 = push_bit 5 1 then uart_tx_irq read_buf s else Some s }"

text \<open>The test of \<^verbatim>\<open>read_stdin\<close>: a complete line is in the buffer.\<close>

definition line_ready :: "uart \<Rightarrow> bool" where
  "line_ready u \<longleftrightarrow> 0 < uib_index u \<and> uart_in_buf u ! (uib_index u - 1) = 0x0A"

section \<open>The line being typed\<close>

definition typed :: "uart \<Rightarrow> u8 list" where
  "typed u = take (uib_index u) (uart_in_buf u)"

definition uart_wf :: "uart \<Rightarrow> bool" where
  "uart_wf u \<longleftrightarrow> length (uart_in_buf u) = UART_IN_BUF_LEN \<and> uib_index u < UART_IN_BUF_LEN \<and> data0 (uib_lock u) = 0"

definition erases :: "u8 \<Rightarrow> bool" where "erases c \<longleftrightarrow> c = 0x08 \<or> c = 0x7F"

definition cooked :: "u8 \<Rightarrow> u8" where "cooked c = (if c = 0x0D then 0x0A else c)"

definition edit_line :: "u8 list \<Rightarrow> u8 \<Rightarrow> u8 list" where
  "edit_line xs c = (if erases c then butlast xs else if length xs < 255 then xs @ [cooked c] else xs)"

definition echo_of :: "u8 list \<Rightarrow> u8 \<Rightarrow> u8 list" where
  "echo_of xs c = (if erases c then (if xs = [] then [] else [0x08, 0x20, 0x08]) else [cooked c])"

definition ends_line :: "u8 \<Rightarrow> bool" where "ends_line c \<longleftrightarrow> c = 0x0A \<or> c = 0x0D"

lemma discipline_edit_spec:
  assumes "uart_wf u" "discipline_edit c u = (e, u')"
  shows "uart_wf u' \<and> typed u' = edit_line (typed u) c \<and> uq u' = uq u \<and> ulog u' = ulog u \<and> uib_lock u' = uib_lock u \<and>
    e = (if erases c then None else Some (cooked c)) \<and>
    uart_tx u' = uart_tx u @ (if erases c then map ucast (echo_of (typed u) c) else [])"
proof -
  have l: "length (typed u) = uib_index u" using assms(1) by (simp add: typed_def uart_wf_def)
  have ne: "typed u = [] \<longleftrightarrow> uib_index u = 0" using l by auto
  have app: "take (Suc (uib_index u)) ((uart_in_buf u)[uib_index u := x]) = typed u @ [x]" for x
    using assms(1) by (simp add: typed_def uart_wf_def take_Suc_conv_app_nth)
  have bl: "take (uib_index u - 1) (uart_in_buf u) = butlast (typed u)"
    using assms(1) by (simp add: typed_def butlast_take uart_wf_def)
  show ?thesis
  proof (cases "erases c")
    case True
    then have d: "discipline_edit c u = (None, if 0 < uib_index u
        then write_char_uart 0x08 (write_char_uart 0x20 (write_char_uart 0x08 (u\<lparr>uib_index := uib_index u - 1\<rparr>))) else u)"
      by (simp add: discipline_edit_def erases_def)
    show ?thesis
      using True assms bl ne unfolding d
      by (auto simp: edit_line_def echo_of_def write_char_uart_def uart_wf_def typed_def)
  next
    case False
    then have d: "discipline_edit c u = (Some (cooked c), if uib_index u < 255
        then u\<lparr>uart_in_buf := (uart_in_buf u)[uib_index u := cooked c], uib_index := uib_index u + 1\<rparr> else u)"
      by (simp add: discipline_edit_def erases_def cooked_def UART_IN_BUF_LEN_def)
    have "typed u' = edit_line (typed u) c" "uart_wf u'"
      using False assms l app unfolding d
      by (auto simp: edit_line_def uart_wf_def typed_def UART_IN_BUF_LEN_def)
    then show ?thesis using False assms(2) unfolding d by auto
  qed
qed

text \<open>Waking the readers, which is idempotent.\<close>

definition woken :: "task_ptr set \<Rightarrow> sched \<Rightarrow> sched \<Rightarrow> bool" where
  "woken T sc sc' \<longleftrightarrow> daif sc' = daif sc \<and> tasks_lock sc' = tasks_lock sc \<and>
    (\<forall>t. task_of sc' t = (if t \<in> T \<and> t \<noteq> NoTask then (task_of sc t)\<lparr>state := RUNNING\<rparr> else task_of sc t))"

lemma woken_empty [simp]: "woken {} sc sc" by (simp add: woken_def)

lemma woken_trans: "woken S sc sc' \<Longrightarrow> woken T sc' sc'' \<Longrightarrow> woken (S \<union> T) sc sc''"
  by (auto simp: woken_def)

lemma woken_fold: "woken (f ` set es) sc (fold (\<lambda>e. wake_task (f e)) es sc)"
proof -
  have "tasks_lock (fold (\<lambda>e. wake_task (f e)) es sc) = tasks_lock sc" by (induction es arbitrary: sc) simp_all
  then show ?thesis using fold_wake_fields [of f es sc] task_of_fold_wake [of f es sc] by (simp add: woken_def)
qed

lemma wq_free_woken: "woken T sc sc' \<Longrightarrow> wq_free sc w q \<Longrightarrow> wq_free sc' w q"
  by (simp add: woken_def wq_free_def)

lemma to_line_discipline_run:
  assumes "uart_wf u" "wq_free sc (uq u) q" "on_queue (uq u) q es"
  shows "\<exists>sc' u'. to_line_discipline q c (sc, u) = Some (sc', u') \<and> uart_wf u' \<and> uq u' = uq u \<and> ulog u' = ulog u \<and>
    typed u' = edit_line (typed u) c \<and> uart_tx u' = uart_tx u @ map ucast (echo_of (typed u) c) \<and>
    woken (if ends_line c then wq_task (uq u) ` set es else {}) sc sc'"
proof -
  obtain e u1 where d: "discipline_edit c u = (e, u1)" by force
  have s: "uart_wf u1" "typed u1 = edit_line (typed u) c" "uq u1 = uq u" "ulog u1 = ulog u" "uib_lock u1 = uib_lock u"
    "e = (if erases c then None else Some (cooked c))"
    "uart_tx u1 = uart_tx u @ (if erases c then map ucast (echo_of (typed u) c) else [])"
    using discipline_edit_spec [OF assms(1) d] by blast+
  have l: "locked_irqsave (daif sc) (uib_lock u) (Some (e, u1)) = Some ((e, u1), daif sc, uib_lock u)"
    using assms(1,2) by (simp add: locked_irqsave_free wq_free_def uart_wf_def)
  have id: "sc\<lparr>daif := daif sc\<rparr> = sc" "u1\<lparr>uib_lock := uib_lock u\<rparr> = u1" using s by auto
  show ?thesis
  proof (cases "erases c")
    case True
    then have "\<not> ends_line c" by (auto simp: erases_def ends_line_def)
    then show ?thesis using True s l d by (simp add: to_line_discipline_def id)
  next
    case False
    have nl: "cooked c = 0x0A \<longleftrightarrow> ends_line c" by (auto simp: cooked_def ends_line_def)
    have wk: "wake_up q (sc, uq u) = Some (fold (\<lambda>e. wake_task (wq_task (uq u) e)) es sc, uq u)"
      by (rule wake_up_run [OF assms(2,3)])
    let ?sc = "if ends_line c then fold (\<lambda>e. wake_task (wq_task (uq u) e)) es sc else sc"
    have w1: "u1\<lparr>uq := uq u\<rparr> = u1" using s by auto
    have "to_line_discipline q c (sc, u) = Some (?sc, write_char_uart (cooked c) u1)"
      using False s(3,6) l d wk nl by (simp add: to_line_discipline_def id w1)
    moreover have "woken (if ends_line c then wq_task (uq u) ` set es else {}) sc ?sc" by (simp add: woken_fold)
    ultimately show ?thesis using False s by (auto simp: write_char_uart_def uart_wf_def typed_def echo_of_def)
  qed
qed

lemma type_chars_run:
  assumes "uart_wf u" "wq_free sc (uq u) q" "on_queue (uq u) q es"
  shows "\<exists>sc' u'. fold_opt (to_line_discipline q) cs (sc, u) = Some (sc', u') \<and> uart_wf u' \<and> uq u' = uq u \<and>
    typed u' = foldl edit_line (typed u) cs \<and>
    woken (if \<exists>c \<in> set cs. ends_line c then wq_task (uq u) ` set es else {}) sc sc'"
  using assms
proof (induction cs arbitrary: sc u)
  case (Cons c cs)
  obtain sc1 u1 where s: "to_line_discipline q c (sc, u) = Some (sc1, u1)" "uart_wf u1" "uq u1 = uq u"
    "typed u1 = edit_line (typed u) c" "woken (if ends_line c then wq_task (uq u) ` set es else {}) sc sc1"
    using to_line_discipline_run [OF Cons.prems, of c] by blast
  have q: "wq_free sc1 (uq u1) q" "on_queue (uq u1) q es"
    using wq_free_woken [OF s(5) Cons.prems(2)] Cons.prems(3) by (simp_all only: s(3))
  obtain sc2 u2 where r:
    "fold_opt (to_line_discipline q) cs (sc1, u1) = Some (sc2, u2)" "uart_wf u2" "uq u2 = uq u"
    "typed u2 = foldl edit_line (typed u1) cs"
    "woken (if \<exists>c \<in> set cs. ends_line c then wq_task (uq u) ` set es else {}) sc1 sc2"
    using Cons.IH [OF s(2) q] unfolding s(3) by blast
  have "(if \<exists>c \<in> set (c # cs). ends_line c then wq_task (uq u) ` set es else {}) =
    (if ends_line c then wq_task (uq u) ` set es else {}) \<union>
    (if \<exists>c \<in> set cs. ends_line c then wq_task (uq u) ` set es else {})" by auto
  then show ?case using woken_trans [OF s(5) r(5)] s(1,4) r(1-4) by simp
qed simp

section \<open>Draining the log\<close>

definition pending_log :: "uart \<Rightarrow> u8 list" where
  "pending_log u = cb_content (klog_mem (ulog u)) (cbuf (kernel_log (ulog u)))"

definition tx_buffer :: "sched \<Rightarrow> uart \<Rightarrow> nat \<Rightarrow> nat \<Rightarrow> bool" where
  "tx_buffer sc u d k \<longleftrightarrow> cc_wf (daif sc, kernel_log (ulog u)) \<and> 0 < d \<and> d + k < 2 ^ 64 \<and>
    apart (cb_base (cbuf (kernel_log (ulog u)))) (cb_room (cbuf (kernel_log (ulog u)))) d k"

lemma read_klog_run:
  assumes "tx_buffer sc u d k" "j = min k (length (pending_log u))"
  shows "\<exists>u'. read_klog (wd d) k (sc, u) = Some (int j, sc, u') \<and> u' = u\<lparr>ulog := ulog u'\<rparr> \<and>
    (\<forall>d k. tx_buffer sc u d k \<longrightarrow> tx_buffer sc u' d k) \<and> pending_log u' = drop j (pending_log u) \<and> load_bytes (klog_mem (ulog u')) (wd d) j = take j (pending_log u)"
proof -
  let ?l = "kernel_log (ulog u)" and ?m = "klog_mem (ulog u)"
  have wf: "cb_wf (cbuf ?l)" "daif_wf (daif sc)" "data0 (cbuf_rlock ?l) = 0" "data0 (cbuf_wlock ?l) = 0" "0 < d" "d + k < 2 ^ 64"
    "apart (cb_base (cbuf ?l)) (cb_room (cbuf ?l)) d k"
    using assms(1) by (simp_all add: tx_buffer_def cc_wf_def)
  obtain m' c' where r: "read_circular_buffer ?m (Some (cbuf ?l)) (wd d) (wd k) = Some (int j, m', Some c')" "cb_wf c'"
    "cb_buffer c' = cb_buffer (cbuf ?l)" "cb_length c' = cb_length (cbuf ?l)"
    "cb_content m' c' = drop j (cb_content ?m (cbuf ?l))" "load_bytes m' (wd d) j = take j (cb_content ?m (cbuf ?l))"
    using read_circular_buffer_ok [OF wf(1,5,6,7), of j ?m] assms(2) by (auto simp: pending_log_def)
  have "wd d \<noteq> NULL" using wf(5,6) by (simp add: wd_eq_0_iff)
  from read_concurrent_eq [OF wf(2,3) this r(1)] r wf show ?thesis
    by (simp add: read_klog_def pending_log_def tx_buffer_def cc_wf_def wd_def [symmetric])
qed

lemma fold_write_char:
  "fold (\<lambda>i u. write_char_uart (klog_mem (ulog u) (a + of_nat i)) u) is u =
    u\<lparr>uart_tx := uart_tx u @ map (\<lambda>i. ucast (klog_mem (ulog u) (a + of_nat i))) is\<rparr>"
  by (induction "is" arbitrary: u) (simp_all add: write_char_uart_def)

lemma uart_tx_irq_run:
  assumes "tx_buffer sc u d (uart_tx_fifo_one_write_len u)"
  shows "\<exists>u'. uart_tx_irq (wd d) (sc, u) = Some (sc, u') \<and>
    uart_tx u' = uart_tx u @ map ucast (take (uart_tx_fifo_one_write_len u) (pending_log u)) \<and>
    pending_log u' = drop (uart_tx_fifo_one_write_len u) (pending_log u) \<and>
    tx_buffer sc u' d (uart_tx_fifo_one_write_len u) \<and> uart_tx_fifo_one_write_len u' = uart_tx_fifo_one_write_len u \<and>
    (0 < uart_tx_fifo_one_write_len u \<longrightarrow> uart_busy u' = (uart_busy u \<and> pending_log u \<noteq> []))"
proof -
  let ?k = "uart_tx_fifo_one_write_len u"
  define j where "j = min ?k (length (pending_log u))"
  obtain u1 where r: "read_klog (wd d) ?k (sc, u) = Some (int j, sc, u1)" "u1 = u\<lparr>ulog := ulog u1\<rparr>"
    "tx_buffer sc u1 d ?k"
    "pending_log u1 = drop j (pending_log u)" "load_bytes (klog_mem (ulog u1)) (wd d) j = take j (pending_log u)"
    using read_klog_run [OF assms j_def] assms by blast
  have tk: "take j (pending_log u) = take ?k (pending_log u)" "drop j (pending_log u) = drop ?k (pending_log u)"
    by (auto simp: j_def min_def)
  have f: "uart_tx u1 = uart_tx u" "uart_busy u1 = uart_busy u" "uart_tx_fifo_one_write_len u1 = ?k"
    by (subst r(2), simp)+
  show ?thesis
  proof (cases "0 < j")
    case True
    then have "pending_log u \<noteq> []" by (auto simp: j_def)
    then show ?thesis using True r(1,3,4) f tk r(5) [symmetric]
      by (simp add: uart_tx_irq_def fold_write_char pending_log_def tx_buffer_def load_bytes_def)
  next
    case False
    then have "take ?k (pending_log u) = []" "0 < ?k \<longrightarrow> pending_log u = []" by (auto simp: j_def)
    then show ?thesis using False r(1,3,4) f tk
      by (simp add: uart_tx_irq_def pending_log_def tx_buffer_def set_uart_reg_def)
  qed
qed

text \<open>The driver as the loader leaves it (with the log and the lock words as given), before \<^verbatim>\<open>init_uart\<close>.\<close>

definition raw_uart :: "concurrent_cbuf \<Rightarrow> uart" where
  "raw_uart l = \<lparr>uq = \<lparr>wq_links = \<lparr>lnext = \<lambda>_. 0, lprev = \<lambda>_. 0\<rparr>, wq_task = \<lambda>_. NoTask, wq_lock = \<lambda>_. \<lparr>data0 = 9, data1 = 9\<rparr>\<rparr>,
     uart_in_buf = replicate 256 0, uib_index = 0, uib_lock = \<lparr>data0 = 9, data1 = 9\<rparr>, uart_busy = False, uart_fifo_size = 16,
     uart_tx_fifo_one_write_len = 14, uart_tx = [], uart_regs = \<lambda>_. 0, is_in_magic = False,
     ulog = \<lparr>klog_mem = \<lambda>_. 0, tmp_printk_offset = \<lambda>_. 0, kernel_log = l, klog_daif = 0\<rparr>\<rparr>"

lemmas raw_uart_defs = raw_uart_def init_uart_def config_uart_def set_uart_reg_def Let_def init_waitqueue_head_def spin_lock_init_def

lemma raw_uart_fields:
  "ulog (init_uart q i (raw_uart l)) = ulog (raw_uart l)" "uart_busy (init_uart q i (raw_uart l)) = False"
  "uart_tx (init_uart q i (raw_uart l)) = []" "typed (init_uart q i (raw_uart l)) = []"
  "uart_tx_fifo_one_write_len (init_uart q i (raw_uart l)) = (if drop_bit 4 (i AND 0xFF) < 3 then 14 else 28)"
  by (simp_all add: raw_uart_defs typed_def)

lemma raw_uart_ready:
  "uart_wf (init_uart q i (raw_uart l))" "on_queue (uq (init_uart q i (raw_uart l))) q []"
  "wq_free (boot_sched (kheap_start (\<lambda>_. 0))) (uq (init_uart q i (raw_uart l))) q"
  using INIT_LIST_HEAD_list
  by (simp_all add: uart_wf_def raw_uart_defs UART_IN_BUF_LEN_def wq_free_def boot_fields daif_wf_def on_queue_def)

lemma drain_run:
  assumes "tx_buffer sc u d w" "w = uart_tx_fifo_one_write_len u" "0 < w"
  shows "\<exists>u'. fold_opt (\<lambda>_. uart_tx_irq (wd d)) (replicate n ()) (sc, u) = Some (sc, u') \<and>
    uart_tx u' = uart_tx u @ map ucast (take (n * w) (pending_log u)) \<and> pending_log u' = drop (n * w) (pending_log u) \<and>
    (length (pending_log u) + w \<le> n * w \<longrightarrow> \<not> uart_busy u')"
  using assms(1,2)
proof (induction n arbitrary: u)
  case 0
  then show ?case using assms(3) by simp
next
  case (Suc n)
  obtain u1 where r: "uart_tx_irq (wd d) (sc, u) = Some (sc, u1)"
    "uart_tx u1 = uart_tx u @ map ucast (take w (pending_log u))" "pending_log u1 = drop w (pending_log u)"
    "tx_buffer sc u1 d w" "w = uart_tx_fifo_one_write_len u1" "uart_busy u1 = (uart_busy u \<and> pending_log u \<noteq> [])"
    using uart_tx_irq_run [of sc u d] Suc.prems assms(3) by metis
  obtain u2 where i: "fold_opt (\<lambda>_. uart_tx_irq (wd d)) (replicate n ()) (sc, u1) = Some (sc, u2)"
    "uart_tx u2 = uart_tx u1 @ map ucast (take (n * w) (pending_log u1))" "pending_log u2 = drop (n * w) (pending_log u1)"
    "length (pending_log u1) + w \<le> n * w \<longrightarrow> \<not> uart_busy u2"
    using Suc.IH [OF r(4,5)] by blast
  have "\<not> uart_busy u2" if "length (pending_log u) + w \<le> Suc n * w"
  proof (cases "n = 0")
    case True
    with that i(1) r(6) show ?thesis by simp
  next
    case False
    then have "w \<le> n * w" "length (pending_log u) \<le> n * w" using that by simp_all
    then have "length (pending_log u1) + w \<le> n * w" unfolding r(3) length_drop by linarith
    with i(4) show ?thesis by blast
  qed
  then show ?case using r i by (simp add: take_add add.commute)
qed

section \<open>Properties\<close>

text \<open>C28. The line discipline edits a line: for any sequence of received characters, the driver ends with the line that results from
  them, with backspace and DEL erasing the last character, a carriage return stored as a newline, and characters beyond the 255th dropped; the
  readers waiting on the queue are runnable exactly if a line end was among the characters, and no other task changes.\<close>

theorem line_discipline_edits:
  assumes "uart_wf u" "wq_free sc (uq u) q" "on_queue (uq u) q es"
  shows "\<exists>sc' u'. fold_opt (to_line_discipline q) cs (sc, u) = Some (sc', u') \<and> uart_wf u' \<and> uq u' = uq u \<and>
    typed u' = foldl edit_line (typed u) cs \<and>
    (\<forall>t. task_of sc' t = (if (\<exists>c \<in> set cs. ends_line c) \<and> t \<in> wq_task (uq u) ` set es \<and> t \<noteq> NoTask
       then (task_of sc t)\<lparr>state := RUNNING\<rparr> else task_of sc t))"
proof -
  obtain sc' u' where r: "fold_opt (to_line_discipline q) cs (sc, u) = Some (sc', u')" "uart_wf u'" "uq u' = uq u"
    "typed u' = foldl edit_line (typed u) cs"
    "woken (if \<exists>c \<in> set cs. ends_line c then wq_task (uq u) ` set es else {}) sc sc'"
    using type_chars_run [OF assms, of cs] by blast
  have "\<forall>t. task_of sc' t = (if (\<exists>c \<in> set cs. ends_line c) \<and> t \<in> wq_task (uq u) ` set es \<and> t \<noteq> NoTask
       then (task_of sc t)\<lparr>state := RUNNING\<rparr> else task_of sc t)"
    using r(5) by (cases "\<exists>c \<in> set cs. ends_line c") (simp_all add: woken_def)
  then show ?thesis using r(1-4) by blast
qed

text \<open>When 255 characters are in the buffer the line end itself is dropped: the readers are woken, but \<^verbatim>\<open>read\<close> finds no complete
  line and sleeps again, until something is erased.\<close>

lemma full_line_never_ready:
  assumes "uart_wf u" "uib_index u = 255" "\<not> line_ready u" "\<not> erases c" "discipline_edit c u = (e, u')"
  shows "\<not> line_ready u' \<and> uib_index u' = 255"
  using assms by (auto simp: discipline_edit_def erases_def Let_def UART_IN_BUF_LEN_def)


theorem line_discipline_edits_witness:
  "\<exists>sc' u'. fold_opt (to_line_discipline 4096) [0x68, 0x08, 0x69, 0x0D]
      (boot_sched (kheap_start (\<lambda>_. 0)), init_uart 4096 0 (raw_uart \<lparr>cbuf = \<lparr>cb_buffer = 0, cb_length = 0, cb_rp = 0, cb_wp = 0\<rparr>,
        cbuf_rlock = \<lparr>data0 = 0, data1 = 0\<rparr>, cbuf_wlock = \<lparr>data0 = 0, data1 = 0\<rparr>, write_overflow = False\<rparr>)) = Some (sc', u') \<and>
    typed u' = [0x69, 0x0A]"
proof -
  have "foldl edit_line [] [0x68, 0x08, 0x69, 0x0D] = [0x69, 0x0A]"
    by (simp add: edit_line_def erases_def cooked_def)
  then show ?thesis
    using line_discipline_edits [OF raw_uart_ready(1,3,2), where cs = "[0x68, 0x08, 0x69, 0x0D]"] raw_uart_fields(4) by metis
qed

text \<open>C29. The log is transmitted in order and completely: starting the idle driver sends the first pending character, every
  transmit interrupt sends the next ones, as many as the FIFO takes, and once all are sent the driver is idle again. Nothing is lost
  or repeated on the way.\<close>

theorem uart_drains_log:
  assumes "tx_buffer sc u c 1" "tx_buffer sc u d w" "w = uart_tx_fifo_one_write_len u" "0 < w" "\<not> uart_busy u" "pending_log u \<noteq> []"
  shows "\<exists>u1 u2. start_uart_tx (wd c) (sc, u) = Some (sc, u1) \<and> uart_busy u1 \<and> uart_tx u1 = uart_tx u @ [ucast (hd (pending_log u))] \<and>
    fold_opt (\<lambda>_. uart_tx_irq (wd d)) (replicate n ()) (sc, u1) = Some (sc, u2) \<and>
    uart_tx u2 @ map ucast (pending_log u2) = uart_tx u @ map ucast (pending_log u) \<and>
    length (pending_log u2) = length (pending_log u) - 1 - n * w \<and>
    (length (pending_log u) - 1 + w \<le> n * w \<longrightarrow> \<not> uart_busy u2)"
proof -
  have j: "(1 :: nat) = min 1 (length (pending_log u))" using assms(6) by (cases "pending_log u") auto
  obtain u0 where r: "read_klog (wd c) 1 (sc, u) = Some (1, sc, u0)" "u0 = u\<lparr>ulog := ulog u0\<rparr>" "tx_buffer sc u0 d w"
    "pending_log u0 = drop 1 (pending_log u)" "load_bytes (klog_mem (ulog u0)) (wd c) 1 = take 1 (pending_log u)"
    using read_klog_run [OF assms(1) j] assms(2) by auto
  have h: "klog_mem (ulog u0) (wd c) = hd (pending_log u)"
    using r(5) assms(6) by (cases "pending_log u") (auto simp: load_bytes_def)
  define u1 where "u1 = (write_char_uart (hd (pending_log u)) u0)\<lparr>uart_busy := True\<rparr>"
  have s: "start_uart_tx (wd c) (sc, u) = Some (sc, u1)" using r(1) assms(5) by (simp add: start_uart_tx_def h u1_def)
  have f: "uart_tx u0 = uart_tx u" "uart_tx_fifo_one_write_len u0 = w" using assms(3) by (subst r(2), simp)+
  have p: "pending_log u1 = tl (pending_log u)" "uart_tx_fifo_one_write_len u1 = w"
    using r(4) f(2) by (simp_all add: u1_def write_char_uart_def pending_log_def drop_Suc)
  have "tx_buffer sc u1 d w" using r(3) by (simp add: tx_buffer_def u1_def write_char_uart_def)
  from drain_run [OF this p(2) [symmetric] assms(4), of n] obtain u2 where e:
    "fold_opt (\<lambda>_. uart_tx_irq (wd d)) (replicate n ()) (sc, u1) = Some (sc, u2)"
    "uart_tx u2 = uart_tx u1 @ map ucast (take (n * w) (tl (pending_log u)))"
    "pending_log u2 = drop (n * w) (tl (pending_log u))"
    "length (tl (pending_log u)) + w \<le> n * w \<longrightarrow> \<not> uart_busy u2"
    unfolding p(1) by blast
  have t: "uart_tx u1 = uart_tx u @ [ucast (hd (pending_log u))]" "uart_busy u1"
    using f(1) by (simp_all add: u1_def write_char_uart_def)
  have "uart_tx u2 @ map ucast (pending_log u2) = uart_tx u @ map ucast (pending_log u)"
    using assms(6) by (cases "pending_log u") (simp_all add: e(2,3) t(1) map_append [symmetric] del: map_append)
  moreover have "length (pending_log u2) = length (pending_log u) - 1 - n * w" by (simp add: e(3))
  moreover have "length (pending_log u) - 1 + w \<le> n * w \<longrightarrow> \<not> uart_busy u2" using e(4) by simp
  ultimately show ?thesis using s t e(1) by blast
qed

theorem uart_drains_log_witness:
  "\<exists>u1 u2. start_uart_tx 8192 (boot_sched (kheap_start (\<lambda>_. 0)), init_uart 4096 0 (raw_uart
      \<lparr>cbuf = \<lparr>cb_buffer = 16384, cb_length = 64, cb_rp = 16384, cb_wp = 16387\<rparr>, cbuf_rlock = \<lparr>data0 = 0, data1 = 0\<rparr>,
       cbuf_wlock = \<lparr>data0 = 0, data1 = 0\<rparr>, write_overflow = False\<rparr>)) = Some (boot_sched (kheap_start (\<lambda>_. 0)), u1) \<and>
    fold_opt (\<lambda>_. uart_tx_irq 8192) (replicate 2 ()) (boot_sched (kheap_start (\<lambda>_. 0)), u1) =
      Some (boot_sched (kheap_start (\<lambda>_. 0)), u2) \<and> length (uart_tx u2) = 3 \<and> \<not> uart_busy u2"
proof -
  let ?sc = "boot_sched (kheap_start (\<lambda>_. 0))"
  let ?b = "\<lparr>cb_buffer = 16384, cb_length = 64, cb_rp = 16384, cb_wp = 16387\<rparr> :: circular_buffer"
  let ?l = "\<lparr>cbuf = ?b, cbuf_rlock = \<lparr>data0 = 0, data1 = 0\<rparr>, cbuf_wlock = \<lparr>data0 = 0, data1 = 0\<rparr>, write_overflow = False\<rparr>"
  let ?u = "init_uart 4096 0 (raw_uart ?l)"
  have b: "cb_wf ?b" "cb_count ?b = 3" by (simp_all add: cb_wf_def cb_count_def)
  have lg: "kernel_log (ulog ?u) = ?l" using raw_uart_fields(1) by (simp add: raw_uart_def)
  have tb: "tx_buffer ?sc ?u 8192 k" if "k \<le> 14" for k
    using that b(1) unfolding tx_buffer_def lg by (simp add: cc_wf_def boot_fields daif_wf_def apart_def)
  have w: "uart_tx_fifo_one_write_len ?u = 14" by (simp add: raw_uart_fields)
  have n: "length (pending_log ?u) = 3" unfolding pending_log_def lg using b(2) by simp
  have ne: "pending_log ?u \<noteq> []" using n by auto
  have "(1 :: nat) \<le> 14" "(14 :: nat) \<le> 14" "(0 :: nat) < 14" "\<not> uart_busy ?u" by (simp_all add: raw_uart_fields)
  note d = uart_drains_log [OF tb tb w [symmetric] this(3,4) ne, OF this(1,2), of 2]
  then obtain u1 u2 where r:
    "start_uart_tx (wd 8192) (?sc, ?u) = Some (?sc, u1)"
    "fold_opt (\<lambda>_. uart_tx_irq (wd 8192)) (replicate 2 ()) (?sc, u1) = Some (?sc, u2)"
    "uart_tx u2 @ map ucast (pending_log u2) = uart_tx ?u @ map ucast (pending_log ?u)"
    "length (pending_log u2) = length (pending_log ?u) - 1 - 2 * 14"
    "length (pending_log ?u) - 1 + 14 \<le> 2 * 14 \<longrightarrow> \<not> uart_busy u2"
    by blast
  then have "uart_tx u2 = map ucast (pending_log ?u)" by (simp add: raw_uart_fields n)
  then have "length (uart_tx u2) = 3" using n by simp
  moreover have "\<not> uart_busy u2" using r(5) by (simp add: n)
  ultimately show ?thesis using r(1,2) unfolding wd_eq_numeral by blast
qed

end
