(* ===== verification/Loader.thy ===== *)
theory Loader
  imports Brk Uart
begin

text \<open>
  Loading the user program: \<^verbatim>\<open>user_test\<close> of \<^verbatim>\<open>kernel/main.c\<close>, the body of the kernel thread that becomes the first
  process. It makes a page directory, describes the six parts of the address space (text, read-only data, data,
  bss, stack, the UART), maps those that have a load address, switches to the tables and clears the bss.

  The symbols of the linker script are the fields of \<open>user_image\<close>, with the values the C code sees: they are biased by
  \<^verbatim>\<open>PAGE_OFFSET\<close>. The messages are left out, but not the read of the first instruction that one of them prints.
\<close>

unbundle bit_operations_syntax

section \<open>Definitions\<close>

record user_image =
  lma_user_sym :: u64
  vma_user_sym :: u64
  user_text_start_sym :: u64
  user_text_end_sym :: u64
  user_rodata_start_sym :: u64
  user_rodata_end_sym :: u64
  user_data_start_sym :: u64
  user_data_end_sym :: u64
  user_bss_start_sym :: u64
  user_bss_end_sym :: u64
  user_init_addr :: u64

definition USER_STACK_START :: u64 where "USER_STACK_START = 0x20000000"
definition USER_STACK_SIZE :: u64 where "USER_STACK_SIZE = 0x800000"

text \<open>The difference of two pointers to \<^verbatim>\<open>int\<close>, and the sum of a pointer and a number of \<^verbatim>\<open>int\<close>s.\<close>

definition int_ptr_diff :: "u64 \<Rightarrow> u64 \<Rightarrow> int" where
  "int_ptr_diff p q = sint (p - q) div 4"

definition int_ptr_add :: "u64 \<Rightarrow> int \<Rightarrow> u64" where
  "int_ptr_add p n = p + of_int (4 * n)"

definition section_bounds :: "user_image \<Rightarrow> u64 list" where
  "section_bounds ui = map pa [user_text_start_sym ui, user_text_end_sym ui, user_rodata_start_sym ui, user_rodata_end_sym ui,
     user_data_start_sym ui, user_data_end_sym ui, user_bss_start_sym ui, user_bss_end_sym ui]"

text \<open>The arguments of the six calls of \<^verbatim>\<open>setup_vma\<close>: start, end, flags, load address.\<close>

definition user_areas :: "user_image \<Rightarrow> (u64 \<times> u64 \<times> u64 \<times> u64) list" where
  "user_areas ui =
    (let lma_user = pa (lma_user_sym ui); text = pa (user_text_start_sym ui)
     in [(text, pa (user_text_end_sym ui), VM_READ OR VM_EXEC OR VM_SHARED, lma_user),
         (pa (user_rodata_start_sym ui), pa (user_rodata_end_sym ui), VM_READ OR VM_SHARED,
          int_ptr_add lma_user (int_ptr_diff (pa (user_rodata_start_sym ui)) text)),
         (pa (user_data_start_sym ui), pa (user_data_end_sym ui), VM_READ OR VM_WRITE,
          int_ptr_add lma_user (int_ptr_diff (pa (user_data_start_sym ui)) text)),
         (pa (user_bss_start_sym ui), pa (user_bss_end_sym ui), VM_READ OR VM_WRITE,
          int_ptr_add lma_user (int_ptr_diff (pa (user_bss_start_sym ui)) text)),
         (USER_STACK_START, USER_STACK_START + USER_STACK_SIZE, VM_READ OR VM_WRITE, -1),
         (uva UART_BASE, uva UART_BASE + PAGE_SIZE, VM_READ OR VM_WRITE OR VM_SHARED, UART_BASE)])"

text \<open>A failing \<^verbatim>\<open>setup_vma\<close> is only reported.\<close>

fun setup_areas :: "task_ptr \<Rightarrow> (u64 \<times> u64 \<times> u64 \<times> u64) list \<Rightarrow> vmsys \<Rightarrow> vmsys option" where
  "setup_areas t [] s = Some s"
| "setup_areas t ((a, e, fl, l) # as) s = do { (ret, s) \<leftarrow> setup_vma t a e fl l s; setup_areas t as s }"

text \<open>The result is the program counter and stack pointer passed to \<^verbatim>\<open>switch_to_user_mode\<close>, if it gets there.\<close>

definition user_test :: "user_image \<Rightarrow> vmsys \<Rightarrow> ((u64 \<times> u64) option \<times> vmsys) option" where
  "user_test ui s = do {
     let current = get_current_proc (vm_sched s);
     (pg_dir_user_map, u, m) \<leftarrow> get_zeroed_pages (usage s) (vmem s) 0;
     let s = s\<lparr>usage := u, vmem := m\<rparr>;
     if pg_dir_user_map = NULL then Some (None, s)
     else if current = NoTask then None
     else do {
       let s = upd_task_vm current (\<lambda>t. t\<lparr>pg_dir := pg_dir_user_map\<rparr>) s;
       if \<not> list_all (\<lambda>p. is_pointer_aligned p (NOT (PAGE_SIZE - 1))) (section_bounds ui) then None
       else do {
         s \<leftarrow> setup_areas current (user_areas ui) s;
         let mmp = mm (vm_task s current);
         if mmp = NULL then None
         else do {
           let s = upd_mm mmp (\<lambda>x. x\<lparr>start_brk := pa (user_bss_end_sym ui)\<rparr>) s;
           let s = upd_mm mmp (\<lambda>x. x\<lparr>brk := start_brk x + PAGE_SIZE\<rparr>) s;
           s \<leftarrow> setup_user_page_mappings current s;
           let s = s\<lparr>vm_sched := (vm_sched s)\<lparr>ttbr0 := (pa (pg_dir (vm_task s current)), pid (vm_task s current))\<rparr>\<rparr>;
           _ \<leftarrow> copy_from_user (pa (vma_user_sym ui)) 4 s;
           let bss_len = (of_int (int_ptr_diff (pa (user_bss_end_sym ui)) (pa (user_bss_start_sym ui))) :: u64);
           s \<leftarrow> copy_to_user (pa (user_bss_start_sym ui)) (replicate (unat bss_len) 0) s;
           Some (Some (user_init_addr ui, USER_STACK_START + USER_STACK_SIZE), s) } } } }"

section \<open>Making the areas\<close>

definition area_of :: "vm_area_struct \<Rightarrow> u64 \<times> u64 \<times> u64 \<times> u64" where
  "area_of v = (vm_start v, vm_end v, vm_flags v, lma v)"

text \<open>The heap has room for \<open>k\<close> more area descriptors.\<close>

definition vma_room :: "kheap \<Rightarrow> nat \<Rightarrow> bool" where
  "vma_room h k \<longleftrightarrow>
    2 * ((\<Sum>(p, u) \<in> allocs h. u) + 80 * k + 87 * (card (allocs h) + k) + (card (allocs h) + k + 1) * 126) \<le> unat MEM_POOL_SIZE"

lemma setup_vma_room:
  assumes inv: "as_inv t vs bl s" and room: "vma_room (vm_heap s) (Suc k)"
  obtains v s' where "setup_vma t a e fl l s = Some (0, s')" "usage s' = usage s" "vmem s' = vmem s"
    "v \<notin> set vs" "as_inv t (v # vs) (bl(v := [])) s'" "area_of (vmas s' v) = (a, e, fl, l)"
    "\<And>w. w \<in> set vs \<Longrightarrow> area_of (vmas s' w) = area_of (vmas s w)" "vma_room (vm_heap s') k"
    "vm_sched s' = (vm_sched s)\<lparr>kernel_heap := vm_heap s'\<rparr>"
proof -
  have kh: "kheap_inv (vm_heap s)" using inv by (simp add: as_inv_def)
  have fin: "finite (allocs (vm_heap s))" by (simp add: allocs_def)
  have "2 * ((\<Sum>(p, u) \<in> allocs (vm_heap s). u) + 87 * card (allocs (vm_heap s)) + (card (allocs (vm_heap s)) + 1) * (unat sizeof_vma + 46)) \<le> unat MEM_POOL_SIZE"
  proof -
    have "unat sizeof_vma = 80" by (simp add: sizeof_vma_def)
    then show ?thesis using room by (simp only: vma_room_def) (simp add: algebra_simps)
  qed
  from kmalloc_succeeds_run [OF kh _ this] have nz: "kzalloc (vm_heap s) sizeof_vma \<noteq> Some (NULL, h)" for h
    by (auto simp: sizeof_vma_def kzalloc_def)
  obtain v s' where v: "setup_vma t a e fl l s = Some (0, s')" "usage s' = usage s" "vmem s' = vmem s"
    "v \<notin> set vs" "as_inv t (v # vs) (bl(v := [])) s'"
    "same_area (vmas s' v) (zero_vma\<lparr>vm_start := a, vm_end := e, vm_flags := fl, lma := l\<rparr>)"
    "\<forall>w \<in> set vs. same_area (vmas s' w) (vmas s w)" "unat v \<notin> fst ` allocs (vm_heap s)"
    "allocs (vm_heap s') = insert (unat v, 80) (allocs (vm_heap s))" "vm_sched s' = (vm_sched s)\<lparr>kernel_heap := vm_heap s'\<rparr>"
    using setup_vma_inv [OF inv, of a e fl l] nz by blast
  have "(unat v, 80) \<notin> allocs (vm_heap s)" using v(8) by force
  then have "vma_room (vm_heap s') k" using room fin by (simp add: vma_room_def v(9) algebra_simps)
  then show thesis using that v by (auto simp: area_of_def same_area_def)
qed

lemma setup_areas_run:
  assumes "as_inv t vs bl s" "vma_room (vm_heap s) (length as)" "\<forall>v \<in> set vs. bl v = []"
  shows "\<exists>vs' bl' s'. setup_areas t as s = Some s' \<and> as_inv t (vs' @ vs) bl' s' \<and> usage s' = usage s \<and> vmem s' = vmem s \<and>
    map (\<lambda>v. area_of (vmas s' v)) vs' = rev as \<and> (\<forall>w \<in> set vs. area_of (vmas s' w) = area_of (vmas s w)) \<and>
    (\<forall>v \<in> set (vs' @ vs). bl' v = []) \<and> vm_sched s' = (vm_sched s)\<lparr>kernel_heap := vm_heap s'\<rparr>"
  using assms
proof (induction as arbitrary: vs bl s)
  case Nil
  then show ?case by (intro exI [of _ "[]"] exI [of _ bl] exI [of _ s]) (simp add: vm_heap_def)
next
  case (Cons x as)
  obtain a e fl l where x: "x = (a, e, fl, l)" by (cases x)
  have room: "vma_room (vm_heap s) (Suc (length as))" using Cons.prems(2) by simp
  obtain v s1 where s1: "setup_vma t a e fl l s = Some (0, s1)" "usage s1 = usage s" "vmem s1 = vmem s"
    "v \<notin> set vs" "as_inv t (v # vs) (bl(v := [])) s1" "area_of (vmas s1 v) = (a, e, fl, l)"
    "\<And>w. w \<in> set vs \<Longrightarrow> area_of (vmas s1 w) = area_of (vmas s w)" "vma_room (vm_heap s1) (length as)"
    "vm_sched s1 = (vm_sched s)\<lparr>kernel_heap := vm_heap s1\<rparr>"
    using setup_vma_room [OF Cons.prems(1) room, of a e fl l] by blast
  have "\<forall>w \<in> set (v # vs). (bl(v := [])) w = []" using Cons.prems(3) by simp
  from Cons.IH [OF s1(5,8) this] obtain vs' bl' s' where r: "setup_areas t as s1 = Some s'" "as_inv t (vs' @ v # vs) bl' s'"
    "usage s' = usage s1" "vmem s' = vmem s1" "map (\<lambda>v. area_of (vmas s' v)) vs' = rev as"
    "\<forall>w \<in> set (v # vs). area_of (vmas s' w) = area_of (vmas s1 w)" "\<forall>w \<in> set (vs' @ v # vs). bl' w = []"
    "vm_sched s' = (vm_sched s1)\<lparr>kernel_heap := vm_heap s'\<rparr>" by blast
  have "setup_areas t (x # as) s = Some s'" using s1(1) r(1) by (simp add: x)
  moreover have "map (\<lambda>v. area_of (vmas s' v)) (vs' @ [v]) = rev (x # as)" using r(5,6) s1(6) by (simp add: x)
  moreover have "as_inv t ((vs' @ [v]) @ vs) bl' s'" using r(2) by simp
  moreover have "\<forall>w \<in> set vs. area_of (vmas s' w) = area_of (vmas s w)" using r(6) s1(7) by simp
  moreover have "vm_sched s' = (vm_sched s)\<lparr>kernel_heap := vm_heap s'\<rparr>" unfolding r(8) s1(9) by simp
  ultimately show ?case using r(3,4,7) s1(2,3) by (intro exI [of _ "vs' @ [v]"] exI [of _ bl'] exI [of _ s']) auto
qed


section \<open>Mapping the areas\<close>

text \<open>Areas with a load address can be mapped if they consist of whole pages of physical memory.\<close>

fun area_ok :: "u64 \<times> u64 \<times> u64 \<times> u64 \<Rightarrow> bool" where
  "area_ok (a, e, fl, l) \<longleftrightarrow> 4096 dvd unat a \<and> unat a \<le> unat e \<and> unat e \<le> 2 ^ 39 \<and>
     (l \<noteq> -1 \<longrightarrow> 4096 dvd unat e \<and> frame_addr l \<and> unat l + (unat e - unat a) \<le> 2 ^ 48)"

fun area_pages :: "u64 \<times> u64 \<times> u64 \<times> u64 \<Rightarrow> nat" where
  "area_pages (a, e, fl, l) = (if l = -1 then 0 else (unat e - unat a) div 4096)"

fun set_areas :: "(u64 \<times> u64 \<times> u64 \<times> u64) list \<Rightarrow> nat list \<Rightarrow> u64 \<Rightarrow> u64" where
  "set_areas [] p x = x"
| "set_areas ((a, e, fl, l) # as) p x =
    set_areas as p (set_range a l (user_attrs (fl AND VM_WRITE = 0)) (area_pages (a, e, fl, l)) p x)"

declare area_ok.simps [simp del] area_pages.simps [simp del]

lemma page_mappings_run:
  assumes "as_inv t ws bl s" "pg_dir (vm_task s t) = dir" "dir \<noteq> NULL" "vchain (vmas s) v vs"
    "map (\<lambda>v. area_of (vmas s v)) vs = as" "\<forall>x \<in> set as. area_ok x" "2 * sum_list (map area_pages as) \<le> free_count (usage s)"
  shows "\<exists>u m. page_mappings_loop dir v s = Some (s\<lparr>usage := u, vmem := m\<rparr>) \<and> as_inv t ws bl (s\<lparr>usage := u, vmem := m\<rparr>) \<and>
    used_pages (usage s) \<subseteq> used_pages u \<and>
    (\<forall>p. path_ok 2 p \<longrightarrow> lookup True m dir p = set_areas as p (lookup True (vmem s) dir p)) \<and>
    (\<forall>x. page_aligned x \<longrightarrow> x \<notin> used_pages u \<longrightarrow> page_eq x (vmem s) m)"
  using assms
proof (induction vs arbitrary: v as s)
  case Nil
  then have "page_mappings_loop dir v s = Some s" by (subst page_mappings_loop.simps) simp
  then show ?case using Nil by (intro exI [of _ "usage s"] exI [of _ "vmem s"]) simp
next
  case (Cons w vs)
  obtain a e fl l where x: "area_of (vmas s w) = (a, e, fl, l)" by (cases "area_of (vmas s w)")
  then have f: "vm_start (vmas s w) = a" "vm_end (vmas s w) = e" "vm_flags (vmas s w) = fl" "lma (vmas s w) = l" by (auto simp: area_of_def)
  obtain as' where as: "as = (a, e, fl, l) # as'" "map (\<lambda>v. area_of (vmas s v)) vs = as'" using Cons.prems(5) x by auto
  have ok: "area_ok (a, e, fl, l)" using Cons.prems(6) as(1) by simp
  let ?n = "area_pages (a, e, fl, l)"
  have w: "v = w" "w \<noteq> NULL" "vchain (vmas s) (vm_next (vmas s w)) vs" using Cons.prems(4) by auto
  have inv: "usage_bits (usage s)" "pt_wf True 2 (vmem s) dir" "tables True 2 (vmem s) dir \<subseteq> used_pages (usage s)"
    using Cons.prems(1,2) owned_iff by (auto simp: as_inv_def as_pages_def)
  have fr: "2 * ?n + 2 * sum_list (map area_pages as') \<le> free_count (usage s)" using Cons.prems(7) as(1) by simp
  obtain u1 m1 where m1: "setup_user_page_mapping dir a l (e - a) (fl AND VM_WRITE = 0) s = Some (s\<lparr>usage := u1, vmem := m1\<rparr>)"
    "as_inv t ws bl (s\<lparr>usage := u1, vmem := m1\<rparr>)" "used_pages (usage s) \<subseteq> used_pages u1"
    "free_count (usage s) \<le> free_count u1 + 2 * ?n"
    "\<forall>p. path_ok 2 p \<longrightarrow> lookup True m1 dir p = set_range a l (user_attrs (fl AND VM_WRITE = 0)) ?n p (lookup True (vmem s) dir p)"
    "\<forall>x. page_aligned x \<longrightarrow> x \<notin> used_pages u1 \<longrightarrow> page_eq x (vmem s) m1"
  proof (cases "l = -1")
    case True
    then have "setup_user_page_mapping dir a l (e - a) (fl AND VM_WRITE = 0) s = Some (s\<lparr>usage := usage s, vmem := vmem s\<rparr>)"
      using Cons.prems(3) by (simp add: setup_user_page_mapping_def)
    then show ?thesis using that [of "vmem s" "usage s"] Cons.prems(1) True by (simp add: area_pages.simps)
  next
    case False
    have n: "e - a = 4096 * of_nat ?n" "unat l + 4096 * ?n \<le> 2 ^ 48"
    proof -
      have d: "4096 * ?n = unat e - unat a" using ok False by (simp add: area_ok.simps area_pages.simps dvd_diff_nat)
      have "unat (e - a) = unat e - unat a" using ok by (simp add: area_ok.simps unat_sub word_le_nat_alt)
      then have "e - a = of_nat (4096 * ?n)" unfolding d by (metis wd_def wd_unat)
      then show "e - a = 4096 * of_nat ?n" by simp
      show "unat l + 4096 * ?n \<le> 2 ^ 48" using ok False unfolding d area_ok.simps by blast
    qed
    have "2 * ?n \<le> free_count (usage s)" using fr by simp
    from setup_user_page_mapping_run [OF Cons.prems(3) inv this _ n(2,1)] ok [unfolded area_ok.simps] False obtain s1 where
      s1: "setup_user_page_mapping dir a l (e - a) (fl AND VM_WRITE = 0) s = Some s1"
        "user_mapped dir a l ?n (fl AND VM_WRITE = 0) s s1" by auto
    obtain u m where s1e: "s1 = s\<lparr>usage := u, vmem := m\<rparr>" using s1(2) by (auto simp: user_mapped_def)
    have "as_inv t ws bl s1" using user_mapped_inv(1) [OF Cons.prems(1)] s1(2) Cons.prems(2) by simp
    moreover have "page_eq x (vmem s) m" if "page_aligned x" "x \<notin> used_pages u" for x
      using s1(2) inv(3) that by (auto simp: user_mapped_def edits_def s1e)
    ultimately show ?thesis using that [of m u] s1 by (simp add: user_mapped_def edits_def s1e)
  qed
  let ?s = "s\<lparr>usage := u1, vmem := m1\<rparr>"
  have "vm_task ?s t = vm_task s t" by (simp add: vm_task_def)
  then obtain u m where r: "page_mappings_loop dir (vm_next (vmas s w)) ?s = Some (?s\<lparr>usage := u, vmem := m\<rparr>)"
    "as_inv t ws bl (?s\<lparr>usage := u, vmem := m\<rparr>)" "used_pages u1 \<subseteq> used_pages u"
    "\<forall>p. path_ok 2 p \<longrightarrow> lookup True m dir p = set_areas as' p (lookup True m1 dir p)"
    "\<forall>x. page_aligned x \<longrightarrow> x \<notin> used_pages u \<longrightarrow> page_eq x m1 m"
    using Cons.IH [OF m1(2), of "vm_next (vmas s w)" as'] Cons.prems(2,3,6) w(3) as fr m1(4) by auto
  have "page_mappings_loop dir v s = Some (s\<lparr>usage := u, vmem := m\<rparr>)"
    using m1(1) r(1) w(1,2) f by (subst page_mappings_loop.simps) simp
  moreover have "page_eq x (vmem s) m" if "page_aligned x" "x \<notin> used_pages u" for x
    using r(3,5) m1(6) that page_eq_trans [of x "vmem s" m1 m] by blast
  moreover have "as_inv t ws bl (s\<lparr>usage := u, vmem := m\<rparr>)" using r(2) by simp
  ultimately show ?case using m1(3,5) r(3,4) as(1) by (intro exI [of _ u] exI [of _ m]) auto
qed

text \<open>Areas that do not overlap.\<close>

fun apart_areas :: "u64 \<times> u64 \<times> u64 \<times> u64 \<Rightarrow> u64 \<times> u64 \<times> u64 \<times> u64 \<Rightarrow> bool" where
  "apart_areas (a, e, _, _) (b, d, _, _) \<longleftrightarrow> unat e \<le> unat b \<or> unat d \<le> unat a"

lemma set_areas_kept: "x \<noteq> 0 \<Longrightarrow> set_areas as p x = x"
  by (induction as p x rule: set_areas.induct) (auto simp: set_range_kept)

lemma vpn_low: "unat x < 2 ^ 39 \<Longrightarrow> vpn x = unat x div 4096"
  by (simp add: vpn_def)

lemma set_range_outside:
  assumes "area_ok (a, e, fl, l)" "unat v < 2 ^ 39" "\<not> (a \<le> v \<and> v < e)"
  shows "set_range a l attrs (area_pages (a, e, fl, l)) (va_path v) x = x"
proof (rule set_range_other)
  fix j assume j: "j < area_pages (a, e, fl, l)"
  then have l: "l \<noteq> -1" by (auto simp: area_pages.simps split: if_splits)
  obtain b where b: "unat a = 4096 * b" using assms(1) by (auto simp: area_ok.simps dvd_def)
  obtain d where d: "unat e = 4096 * d" using assms(1) l by (auto simp: area_ok.simps dvd_def)
  have bd: "b + j < d" "d \<le> 2 ^ 27" using j l assms(1) b d by (auto simp: area_pages.simps area_ok.simps)
  have "vpn (a + PAGE_SIZE * of_nat j) = b + j" unfolding vpn_add vpn_def [of a] b using bd by simp
  moreover have "vpn v = unat v div 4096" by (rule vpn_low [OF assms(2)])
  moreover have "unat v div 4096 < b \<or> d \<le> unat v div 4096" using assms(3) b d
    by (auto simp: word_le_nat_alt word_less_nat_alt div_less_iff_less_mult less_eq_div_iff_mult_less_eq)
  ultimately show "va_path v \<noteq> va_path (a + PAGE_SIZE * of_nat j)" unfolding va_path_eq_iff using bd(1) by auto
qed

lemma set_range_inside:
  assumes "area_ok (a, e, fl, l)" "l \<noteq> -1" "a \<le> v" "v < e"
  shows "set_range a l attrs (area_pages (a, e, fl, l)) (va_path v) 0 = leaf_desc (l + (PAGE_ADDR v - a)) attrs"
proof -
  define j where "j = (unat v - unat a) div 4096"
  obtain b where b: "unat a = 4096 * b" using assms(1) by (auto simp: area_ok.simps dvd_def)
  obtain d where d: "unat e = 4096 * d" using assms(1,2) by (auto simp: area_ok.simps dvd_def)
  have v: "unat a \<le> unat v" "unat v < unat e" using assms(3,4) by (simp_all add: word_le_nat_alt word_less_nat_alt)
  have "unat v = 4096 * b + (unat v - unat a)" using v(1) b by simp
  then have jd: "unat v div 4096 = b + j" unfolding j_def by (metis add.commute div_mult_self2 zero_neq_numeral)
  have n: "area_pages (a, e, fl, l) = d - b" "d \<le> 2 ^ 27" using assms(1,2) b d by (auto simp: area_pages.simps area_ok.simps)
  have "b + j < d" using v(2) unfolding d jd [symmetric] by (simp add: div_less_iff_less_mult)
  then have j: "j < area_pages (a, e, fl, l)" "area_pages (a, e, fl, l) \<le> 2 ^ 27" using n by auto
  have p: "va_path v = va_path (a + PAGE_SIZE * of_nat j)"
  proof -
    have "vpn v = b + j" using v(2) assms(1) by (subst vpn_low) (auto simp: jd area_ok.simps)
    moreover have "vpn (a + PAGE_SIZE * of_nat j) = b + j" unfolding vpn_add vpn_def [of a] b using \<open>b + j < d\<close> n(2) by simp
    ultimately show ?thesis by (simp add: va_path_eq_iff)
  qed
  have "PAGE_ADDR v - a = PAGE_SIZE * of_nat j"
  proof -
    have "unat (PAGE_ADDR v) = 4096 * (b + j)" by (simp add: unat_PAGE_ADDR jd)
    then have "PAGE_ADDR v = wd (4096 * (b + j))" by (metis wd_unat)
    moreover have "a = wd (4096 * b)" using b by (metis wd_unat)
    ultimately show ?thesis by (simp add: wd_def PAGE_SIZE_def algebra_simps)
  qed
  then show ?thesis using set_range_at [OF j, of a l attrs 0] by (simp add: p)
qed

lemma set_areas_at:
  assumes "sorted_wrt apart_areas as" "\<forall>x \<in> set as. area_ok x" "(a, e, fl, l) \<in> set as" "l \<noteq> -1" "a \<le> v" "v < e"
  shows "set_areas as (va_path v) 0 = leaf_desc (l + (PAGE_ADDR v - a)) (user_attrs (fl AND VM_WRITE = 0))"
  using assms(1-3)
proof (induction as)
  case (Cons x as)
  obtain b d g k where x: "x = (b, d, g, k)" by (cases x)
  have ok: "area_ok (a, e, fl, l)" using Cons.prems(2,3) by blast
  have v: "unat a \<le> unat v" "unat v < unat e" "unat v < 2 ^ 39"
    using assms(5,6) ok by (auto simp: word_le_nat_alt word_less_nat_alt area_ok.simps)
  show ?case
  proof (cases "x = (a, e, fl, l)")
    case True
    then show ?thesis using set_range_inside [OF ok assms(4-6)] by (simp add: set_areas_kept leaf_desc_def desc_not_0)
  next
    case False
    then have m: "(a, e, fl, l) \<in> set as" using Cons.prems(3) by auto
    then have "apart_areas (b, d, g, k) (a, e, fl, l)" using Cons.prems(1) x by auto
    then have "\<not> (b \<le> v \<and> v < d)" using v by (auto simp: word_le_nat_alt word_less_nat_alt)
    moreover have "area_ok (b, d, g, k)" using Cons.prems(2) x by simp
    ultimately show ?thesis using set_range_outside [OF _ v(3)] Cons.IH Cons.prems m x by simp
  qed
qed simp

lemma set_areas_outside:
  assumes "\<forall>x \<in> set as. area_ok x" "unat v < 2 ^ 39" "\<forall>(a, e, fl, l) \<in> set as. l \<noteq> -1 \<longrightarrow> \<not> (a \<le> v \<and> v < e)"
  shows "set_areas as (va_path v) x = x"
  using assms(1,3)
proof (induction as)
  case (Cons y as)
  obtain b d g k where y: "y = (b, d, g, k)" by (cases y)
  show ?case
  proof (cases "k = -1")
    case True
    then show ?thesis using Cons y by (simp add: area_pages.simps)
  next
    case False
    then have "set_range b k attrs (area_pages (b, d, g, k)) (va_path v) x = x" for attrs
      using set_range_outside [OF _ assms(2)] Cons.prems y by auto
    then show ?thesis using Cons y by simp
  qed
qed simp


section \<open>The layout of the image\<close>

definition user_layout :: "user_image \<Rightarrow> bool" where
  "user_layout ui \<longleftrightarrow>
    (let b = section_bounds ui
     in (\<forall>x \<in> set b. 4096 dvd unat x) \<and> sorted (map unat b) \<and> unat (b ! 0) < unat (b ! 1) \<and> unat (b ! 7) \<le> unat USER_STACK_START \<and>
       pa (vma_user_sym ui) = b ! 0 \<and> frame_addr (pa (lma_user_sym ui)) \<and>
       unat (pa (lma_user_sym ui)) + (unat (b ! 7) - unat (b ! 0)) \<le> unat (pa PAGE_POOL_START))"

lemma int_ptr_offset:
  assumes "4096 dvd unat p" "4096 dvd unat q" "unat q \<le> unat p" "unat p < 2 ^ 63"
  shows "int_ptr_diff p q = int (unat p - unat q) div 4" "int_ptr_add l (int_ptr_diff p q) = l + (p - q)"
proof -
  have u: "unat (p - q) = unat p - unat q" using assms(3) by (simp add: unat_sub word_le_nat_alt)
  have s: "sint (p - q) = int (unat p - unat q)"
    using assms(4) u by (simp add: sint_uint signed_take_bit_int_eq_self uint_nat)
  then show "int_ptr_diff p q = int (unat p - unat q) div 4" by (simp add: int_ptr_diff_def)
  have "4096 dvd unat p - unat q" using assms(1,2) by (rule dvd_diff_nat)
  then have "4 dvd int (unat p - unat q)" by (simp add: int_dvd_int_iff [of 4, simplified] dvd_trans [of 4 4096])
  then have "4 * (sint (p - q) div 4) = sint (p - q)" unfolding s by simp
  then show "int_ptr_add l (int_ptr_diff p q) = l + (p - q)" by (simp add: int_ptr_add_def int_ptr_diff_def)
qed

lemma user_areas_layout:
  assumes "user_layout ui"
  defines "b \<equiv> section_bounds ui" and "l \<equiv> pa (lma_user_sym ui)"
  shows "user_areas ui =
      [(b ! 0, b ! 1, VM_READ OR VM_EXEC OR VM_SHARED, l), (b ! 2, b ! 3, VM_READ OR VM_SHARED, l + (b ! 2 - b ! 0)),
       (b ! 4, b ! 5, VM_READ OR VM_WRITE, l + (b ! 4 - b ! 0)), (b ! 6, b ! 7, VM_READ OR VM_WRITE, l + (b ! 6 - b ! 0)),
       (0x20000000, 0x20800000, VM_READ OR VM_WRITE, -1), (0x109000000, 0x109001000, VM_READ OR VM_WRITE OR VM_SHARED, 0x09000000)]"
    "\<forall>x \<in> set (user_areas ui). area_ok x" "sorted_wrt apart_areas (rev (user_areas ui))"
proof -
  obtain t0 t1 r0 r1 d0 d1 b0 b1 where b: "section_bounds ui = [t0, t1, r0, r1, d0, d1, b0, b1]" by (simp add: section_bounds_def)
  note sb = b [unfolded section_bounds_def list.map, simplified list.inject]
  have al: "4096 dvd unat t0" "4096 dvd unat t1" "4096 dvd unat r0" "4096 dvd unat r1" "4096 dvd unat d0" "4096 dvd unat d1"
      "4096 dvd unat b0" "4096 dvd unat b1" and l: "frame_addr l" "unat l + (unat b1 - unat t0) \<le> unat (pa PAGE_POOL_START)"
    using assms(1) by (auto simp: user_layout_def b Let_def l_def)
  have le: "unat t0 < unat t1" "unat t1 \<le> unat r0" "unat r0 \<le> unat r1" "unat r1 \<le> unat d0" "unat d0 \<le> unat d1"
      "unat d1 \<le> unat b0" "unat b0 \<le> unat b1" "unat b1 \<le> unat USER_STACK_START"
    using assms(1) by (auto simp: user_layout_def b Let_def)
  have st: "unat USER_STACK_START = 0x20000000" "unat (pa PAGE_POOL_START) = 0x70000000"
    by (simp_all add: USER_STACK_START_def pa_def pool_layout PAGE_OFFSET_val)
  have off: "int_ptr_add l (int_ptr_diff x t0) = l + (x - t0)" if "x \<in> {r0, d0, b0}" for x
    using that le st by (intro int_ptr_offset(2)) (auto simp: al)
  show ua: "user_areas ui =
      [(b ! 0, b ! 1, VM_READ OR VM_EXEC OR VM_SHARED, l), (b ! 2, b ! 3, VM_READ OR VM_SHARED, l + (b ! 2 - b ! 0)),
       (b ! 4, b ! 5, VM_READ OR VM_WRITE, l + (b ! 4 - b ! 0)), (b ! 6, b ! 7, VM_READ OR VM_WRITE, l + (b ! 6 - b ! 0)),
       (0x20000000, 0x20800000, VM_READ OR VM_WRITE, -1), (0x109000000, 0x109001000, VM_READ OR VM_WRITE OR VM_SHARED, 0x09000000)]"
    using sb off by (simp add: user_areas_def Let_def b_def b l_def USER_STACK_START_def USER_STACK_SIZE_def uva_def UART_BASE_def
        USER_DEVICE_MAP_START_def PAGE_SIZE_def)
  have fr: "area_ok (x, y, fl, l + (x - t0))"
    if "unat t0 \<le> unat x" "unat x \<le> unat y" "unat y \<le> unat b1" "4096 dvd unat x" "4096 dvd unat y" for x y fl
  proof -
    have "unat (x - t0) = unat x - unat t0" using that(1) by (simp add: unat_sub word_le_nat_alt)
    then have "l + (x - t0) = wd (unat l + (unat x - unat t0))" by (metis wd_add wd_unat)
    moreover have lt: "unat l + (unat x - unat t0) \<le> 0x70000000" using l(2) that le st by linarith
    ultimately have u: "unat (l + (x - t0)) = unat l + (unat x - unat t0)" using unat_wd [of "unat l + (unat x - unat t0)"] by simp
    have "4096 dvd unat l + (unat x - unat t0)" using l(1) that(4) al(1) by (intro dvd_add dvd_diff_nat) (auto simp: frame_addr_iff)
    then have "frame_addr (l + (x - t0))" using lt unfolding frame_addr_iff u by simp
    moreover have "unat (l + (x - t0)) + (unat y - unat x) \<le> 2 ^ 48" unfolding u using l(2) that le st by simp
    ultimately show ?thesis using that le st unfolding area_ok.simps by simp
  qed
  have "area_ok (t0, t1, fl, l)" for fl using fr [of t0 t1 fl] le al by simp
  moreover have "area_ok (r0, r1, fl, l + (r0 - t0))" "area_ok (d0, d1, fl, l + (d0 - t0))" "area_ok (b0, b1, fl, l + (b0 - t0))" for fl
    using le al by (auto intro!: fr)
  moreover have "area_ok (0x20000000, 0x20800000, fl, -1)" "area_ok (0x109000000, 0x109001000, fl, 0x09000000)" for fl
    by (simp_all add: area_ok.simps frame_addr_iff)
  ultimately show "\<forall>x \<in> set (user_areas ui). area_ok x" by (simp add: ua b_def b)
  show "sorted_wrt apart_areas (rev (user_areas ui))" using le st by (simp add: ua b_def b)
qed

text \<open>Where the bytes of a mapped area are, and that they are not in the page pool.\<close>

lemma page_split: "PAGE_ADDR v + IN_PAGE_OFFSET v = v"
proof -
  have "unat (PAGE_ADDR v) + unat (IN_PAGE_OFFSET v) = unat v" by (simp add: unat_PAGE_ADDR unat_IN_PAGE_OFFSET)
  then show ?thesis by (metis wd_add wd_unat)
qed

section \<open>The directory of a new process\<close>

definition task_fresh :: "task_ptr \<Rightarrow> vmsys \<Rightarrow> bool" where
  "task_fresh t s \<longleftrightarrow> t \<noteq> NoTask \<and> kheap_inv (vm_heap s) \<and> usage_bits (usage s) \<and> mm (vm_task s t) \<noteq> NULL \<and>
     (unat (mm (vm_task s t)), 24) \<in> allocs (vm_heap s) \<and> mmap (mms s (mm (vm_task s t))) = NULL"

lemma upd_task_vm_fields:
  "t \<noteq> NoTask \<Longrightarrow> vm_task (upd_task_vm t g s) t = g (vm_task s t)" "vm_heap (upd_task_vm t g s) = vm_heap s"
  "get_current_proc (vm_sched (upd_task_vm t g s)) = get_current_proc (vm_sched s)"
  "usage (upd_task_vm t g s) = usage s" "vmem (upd_task_vm t g s) = vmem s" "mms (upd_task_vm t g s) = mms s"
  by (cases t; simp add: upd_task_vm_def vm_task_def vm_heap_def upd_task_def task_of_def get_current_proc_def current_thread_info_def)+

lemma fresh_directory:
  assumes "task_fresh t s" "0 < free_count (usage s)"
  obtains p u m where "get_zeroed_pages (usage s) (vmem s) 0 = Some (p, u, m)" "p \<noteq> NULL" "zero_page p m"
    "as_inv t [] (\<lambda>_. []) (upd_task_vm t (\<lambda>k. k\<lparr>pg_dir := p\<rparr>) (s\<lparr>usage := u, vmem := m\<rparr>))"
    "free_count u = free_count (usage s) - 1" "used_pages u = insert p (used_pages (usage s))"
    "\<And>x. page_aligned x \<Longrightarrow> x \<noteq> p \<Longrightarrow> page_eq x (vmem s) m"
proof -
  obtain p u m where k: "kcalloc (usage s) (vmem s) = Some (p, u, m)" "p \<noteq> NULL" "page_aligned p" "used_pages u = insert p (used_pages (usage s))"
    "free_count u = free_count (usage s) - 1" "usage_bits u" "zero_page p m" "\<forall>x. page_aligned x \<longrightarrow> x \<noteq> p \<longrightarrow> page_eq x (vmem s) m"
    using kcalloc_law [OF assms(2), of "vmem s"] assms(1) by (auto simp: task_fresh_def)
  let ?s = "upd_task_vm t (\<lambda>k. k\<lparr>pg_dir := p\<rparr>) (s\<lparr>usage := u, vmem := m\<rparr>)"
  have "as_inv t [] (\<lambda>_. []) ?s"
    using assms(1) k(3,4,6) pt_wf_zero [OF k(7,3)] tables_zero [OF k(7)] owned_iff [OF k(6)]
    by (simp add: as_inv_def task_fresh_def upd_task_vm_fields vm_heap_def [of "_\<lparr>usage := _, vmem := _\<rparr>"] vma_objects_def vma_lists_def
        as_pages_def blocks_pages_def blocks_apart_def)
  then show thesis using that k by (simp add: kcalloc_def)
qed

lemma as_inv_vmem:
  assumes "as_inv t vs bl s" "\<And>x. x \<in> tables True 2 (vmem s) (pg_dir (vm_task s t)) \<Longrightarrow> page_eq x (vmem s) m"
  shows "as_inv t vs bl (s\<lparr>vmem := m\<rparr>)"
  using assms(1) pt_wf_cong [OF assms(2)] tables_cong [OF assms(2)]
  by (simp add: as_inv_def as_pages_def vma_lists_def vm_heap_def)

lemma copy_from_user_ok:
  "(\<And>i. i < n \<Longrightarrow> user_load s (a + of_nat i) \<noteq> None) \<Longrightarrow> \<exists>bs. copy_from_user a n s = Some bs"
proof (induction n arbitrary: a)
  case (Suc n)
  have "user_load s (a + 1 + of_nat i) \<noteq> None" if "i < n" for i using Suc.prems [of "Suc i"] that by (simp add: algebra_simps)
  then show ?case using Suc.IH [of "a + 1"] Suc.prems [of 0] by auto
qed simp


section \<open>The steps up to the switch of tables\<close>

text \<open>The process is ready to be run: its address space describes and maps the image.\<close>

definition image_loaded :: "user_image \<Rightarrow> task_ptr \<Rightarrow> u64 list \<Rightarrow> (u64 \<Rightarrow> u64 list) \<Rightarrow> vmsys \<Rightarrow> bool" where
  "image_loaded ui t vs bl s \<longleftrightarrow> as_inv t vs bl s \<and> map (\<lambda>v. area_of (vmas s v)) vs = rev (user_areas ui) \<and>
    fst (ttbr0 (vm_sched s)) = pa (pg_dir (vm_task s t)) \<and> snd (ttbr0 (vm_sched s)) = pid (vm_task s t) \<and>
    start_brk (mms s (mm (vm_task s t))) = section_bounds ui ! 7 \<and> brk (mms s (mm (vm_task s t))) = section_bounds ui ! 7 + PAGE_SIZE \<and>
    (\<forall>(a, e, fl, l) \<in> set (user_areas ui). l \<noteq> -1 \<longrightarrow> (\<forall>v. a \<le> v \<and> v < e \<longrightarrow>
       user_leaf s v = leaf_desc (l + (PAGE_ADDR v - a)) (user_attrs (fl AND VM_WRITE = 0)))) \<and>
    (\<forall>v. unat v < 2 ^ 39 \<longrightarrow> (\<forall>(a, e, fl, l) \<in> set (user_areas ui). l \<noteq> -1 \<longrightarrow> \<not> (a \<le> v \<and> v < e)) \<longrightarrow> user_leaf s v = 0)"

lemma load_image:
  assumes ly: "user_layout ui" and tf: "task_fresh t s" and room: "vma_room (vm_heap s) 6"
    and fr: "1 + 2 * sum_list (map area_pages (user_areas ui)) \<le> free_count (usage s)"
  obtains p u m s2 s4 vs bl where "get_zeroed_pages (usage s) (vmem s) 0 = Some (p, u, m)" "p \<noteq> NULL"
    "setup_areas t (user_areas ui) (upd_task_vm t (\<lambda>k. k\<lparr>pg_dir := p\<rparr>) (s\<lparr>usage := u, vmem := m\<rparr>)) = Some s2"
    "mm (vm_task s2 t) \<noteq> NULL"
    "setup_user_page_mappings t (upd_mm (mm (vm_task s2 t)) (\<lambda>x. x\<lparr>brk := start_brk x + PAGE_SIZE\<rparr>)
       (upd_mm (mm (vm_task s2 t)) (\<lambda>x. x\<lparr>start_brk := pa (user_bss_end_sym ui)\<rparr>) s2)) = Some s4"
    "image_loaded ui t vs bl (s4\<lparr>vm_sched := (vm_sched s4)\<lparr>ttbr0 := (pa (pg_dir (vm_task s4 t)), pid (vm_task s4 t))\<rparr>\<rparr>)"
    "used_pages (usage s) \<subseteq> used_pages (usage s4)"
    "\<And>x. page_aligned x \<Longrightarrow> x \<notin> used_pages (usage s4) \<Longrightarrow> page_eq x (vmem s) (vmem s4)"
proof -
  have tn: "t \<noteq> NoTask" using tf by (simp add: task_fresh_def)
  obtain p u m where d: "get_zeroed_pages (usage s) (vmem s) 0 = Some (p, u, m)" "p \<noteq> NULL" "zero_page p m"
    "as_inv t [] (\<lambda>_. []) (upd_task_vm t (\<lambda>k. k\<lparr>pg_dir := p\<rparr>) (s\<lparr>usage := u, vmem := m\<rparr>))"
    "free_count u = free_count (usage s) - 1" "used_pages u = insert p (used_pages (usage s))"
    "\<And>x. page_aligned x \<Longrightarrow> x \<noteq> p \<Longrightarrow> page_eq x (vmem s) m"
    using fresh_directory [OF tf] fr by (metis add_leD1 less_eq_Suc_le One_nat_def)
  define s1 where "s1 = upd_task_vm t (\<lambda>k. k\<lparr>pg_dir := p\<rparr>) (s\<lparr>usage := u, vmem := m\<rparr>)"
  have f1: "vm_heap s1 = vm_heap s" "usage s1 = u" "vmem s1 = m" "pg_dir (vm_task s1 t) = p"
    using upd_task_vm_fields [of t "\<lambda>k. k\<lparr>pg_dir := p\<rparr>" "s\<lparr>usage := u, vmem := m\<rparr>"] tn by (simp_all add: s1_def vm_heap_def)
  have "length (user_areas ui) = 6" by (simp add: user_areas_def Let_def)
  then have "vma_room (vm_heap s1) (length (user_areas ui))" using room f1(1) by simp
  from setup_areas_run [OF d(4) [folded s1_def] this] obtain vs bl s2 where
    s2: "setup_areas t (user_areas ui) s1 = Some s2" "as_inv t vs bl s2" "usage s2 = u" "vmem s2 = m"
      "map (\<lambda>v. area_of (vmas s2 v)) vs = rev (user_areas ui)" "vm_sched s2 = (vm_sched s1)\<lparr>kernel_heap := vm_heap s2\<rparr>"
    using f1 by auto
  define q where "q = mm (vm_task s2 t)"
  define s3 where "s3 = upd_mm q (\<lambda>x. x\<lparr>brk := start_brk x + PAGE_SIZE\<rparr>) (upd_mm q (\<lambda>x. x\<lparr>start_brk := pa (user_bss_end_sym ui)\<rparr>) s2)"
  have t2: "pg_dir (vm_task s2 t) = p" using f1(4) s2(6) by (simp add: vm_task_def task_of_def split: task_ptr.splits)
  have f3: "vmas s3 = vmas s2" "usage s3 = u" "vmem s3 = m" "vm_sched s3 = vm_sched s2" "vm_task s3 t = vm_task s2 t"
    using s2(3,4) by (simp_all add: s3_def upd_mm_def vm_task_def)
  have i3: "as_inv t vs bl s3" unfolding s3_def by (intro as_inv_brk(1) s2(2)) simp_all
  have q: "q \<noteq> NULL" using s2(2) by (simp add: q_def as_inv_def)
  have ch: "vchain (vmas s3) (mmap (mms s3 (mm (vm_task s3 t)))) vs" using i3 by (simp add: as_inv_def)
  have "2 * sum_list (map area_pages (rev (user_areas ui))) \<le> free_count (usage s3)"
    using fr d(5) f3(2) by (simp add: rev_map [symmetric] sum_list_rev)
  moreover have "\<forall>x \<in> set (rev (user_areas ui)). area_ok x" using user_areas_layout(2) [OF ly] by simp
  moreover have "map (\<lambda>v. area_of (vmas s3 v)) vs = rev (user_areas ui)" using s2(5) f3(1) by simp
  ultimately obtain u' m' where r: "page_mappings_loop p (mmap (mms s3 (mm (vm_task s3 t)))) s3 = Some (s3\<lparr>usage := u', vmem := m'\<rparr>)"
    "as_inv t vs bl (s3\<lparr>usage := u', vmem := m'\<rparr>)" "used_pages u \<subseteq> used_pages u'"
    "\<forall>x. path_ok 2 x \<longrightarrow> lookup True m' p x = set_areas (rev (user_areas ui)) x (lookup True m p x)"
    "\<forall>x. page_aligned x \<longrightarrow> x \<notin> used_pages u' \<longrightarrow> page_eq x m m'"
    using page_mappings_run [OF i3 _ d(2) ch] t2 f3 by auto
  define s4 where "s4 = s3\<lparr>usage := u', vmem := m'\<rparr>"
  have run4: "setup_user_page_mappings t s3 = Some s4"
    using r(1) tn q t2 f3(5) by (simp add: setup_user_page_mappings_def s4_def q_def)
  define s5 where "s5 = s4\<lparr>vm_sched := (vm_sched s4)\<lparr>ttbr0 := (pa (pg_dir (vm_task s4 t)), pid (vm_task s4 t))\<rparr>\<rparr>"
  have f5: "vm_task s5 t = vm_task s4 t" "vm_task s4 t = vm_task s2 t" "vmas s5 = vmas s2" "vmem s5 = m'" "mms s5 = mms s3"
    using f3 by (simp_all add: s5_def s4_def vm_task_def task_of_def split: task_ptr.splits)
  have "as_inv t vs bl s5"
    using r(2) f5(1) by (simp add: as_inv_def as_pages_def vma_lists_def vm_heap_def s5_def s4_def)
  moreover have lk: "user_leaf s5 v = set_areas (rev (user_areas ui)) (va_path v) 0" for v
    using r(4) lookup_zero [OF d(3) path_ok_va_path, of True v] f5 t2 by (simp add: user_leaf_def s5_def)
  moreover have "user_leaf s5 v = leaf_desc (l + (PAGE_ADDR v - a)) (user_attrs (fl AND VM_WRITE = 0))"
    if "(a, e, fl, l) \<in> set (user_areas ui)" "l \<noteq> -1" "a \<le> v" "v < e" for a e fl l v
    unfolding lk using set_areas_at [of "rev (user_areas ui)" a e fl l v] user_areas_layout(2,3) [OF ly] that by simp
  moreover have "user_leaf s5 v = 0" if "unat v < 2 ^ 39" "\<forall>(a, e, fl, l) \<in> set (user_areas ui). l \<noteq> -1 \<longrightarrow> \<not> (a \<le> v \<and> v < e)" for v
    unfolding lk using set_areas_outside [of "rev (user_areas ui)" v 0] user_areas_layout(2) [OF ly] that by simp
  moreover have "section_bounds ui ! 7 = pa (user_bss_end_sym ui)" by (simp add: section_bounds_def)
  moreover have "start_brk (mms s3 q) = pa (user_bss_end_sym ui)" "brk (mms s3 q) = pa (user_bss_end_sym ui) + PAGE_SIZE"
    by (simp_all add: s3_def upd_mm_def)
  ultimately have "image_loaded ui t vs bl s5"
    using s2(5) f5 by (auto simp: image_loaded_def q_def s5_def)
  moreover have "page_eq x (vmem s) (vmem s4)" if "page_aligned x" "x \<notin> used_pages (usage s4)" for x
  proof -
    have "x \<noteq> p" using that r(3) d(6) by (auto simp: s4_def)
    then show ?thesis using d(7) [OF that(1)] r(5) that page_eq_trans by (auto simp: s4_def)
  qed
  moreover have "used_pages (usage s) \<subseteq> used_pages (usage s4)" using r(3) d(6) by (auto simp: s4_def)
  ultimately show thesis using that d(1,2) s2(1) q run4 unfolding s1_def s3_def q_def s5_def by blast
qed


section \<open>The bytes of a mapped area\<close>

lemma rdonly_clear:
  assumes "frame_addr f"
  shows "leaf_desc f (user_attrs False) AND PTE_RDONLY = 0"
proof -
  have "\<not> bit f 7" using assms bit_get_phy_addr [of f 7] by (simp add: frame_addr_def)
  moreover have "\<not> bit (user_attrs False OR PTE_TYPE_TABLE OR PTE_BLOCK_AF) 7"
    by (simp add: user_attrs_def PTE_BLOCK_MEMTYPE_def MT_NORMAL_def PTE_USER_def PTE_BLOCK_INNER_SHARE_def PTE_BLOCK_NG_def
        PTE_TYPE_TABLE_def PTE_BLOCK_AF_def)
  ultimately have "\<not> bit (leaf_desc f (user_attrs False)) 7" by (simp add: leaf_desc_def bit_or_iff)
  moreover have "bit PTE_RDONLY n \<longleftrightarrow> n = 7" for n unfolding PTE_RDONLY_def bit_push_bit_iff bit_1_iff by auto
  ultimately show ?thesis by (intro bit_word_eqI) (auto simp: bit_and_iff)
qed

lemma area_frame:
  assumes "area_ok (a, e, fl, l)" "l \<noteq> -1" "a \<le> v" "v < e"
  shows "frame_addr (l + (PAGE_ADDR v - a))" "unat (l + (PAGE_ADDR v - a)) < unat l + (unat e - unat a)"
proof -
  have v: "unat a \<le> unat v" "unat v < unat e" using assms(3,4) by (simp_all add: word_le_nat_alt word_less_nat_alt)
  obtain b where b: "unat a = 4096 * b" using assms(1) by (auto simp: area_ok.simps dvd_def)
  have pv: "unat a \<le> unat (PAGE_ADDR v)" "unat (PAGE_ADDR v) \<le> unat v" using v(1) unfolding unat_PAGE_ADDR b
    by (auto simp: less_eq_div_iff_mult_less_eq mult.commute)
  have d: "unat (PAGE_ADDR v - a) = unat (PAGE_ADDR v) - unat a" using pv(1) by (simp add: unat_sub word_le_nat_alt)
  have lt: "unat l + (unat (PAGE_ADDR v) - unat a) < unat l + (unat e - unat a)" using pv v by linarith
  have b48: "unat l + (unat e - unat a) \<le> 2 ^ 48" using assms(1,2) unfolding area_ok.simps by blast
  have "unat l + (unat (PAGE_ADDR v) - unat a) < 2 ^ 64" using less_le_trans [OF lt b48] by simp
  moreover have "l + (PAGE_ADDR v - a) = wd (unat l + (unat (PAGE_ADDR v) - unat a))" using d by (metis wd_add wd_unat)
  ultimately have u: "unat (l + (PAGE_ADDR v - a)) = unat l + (unat (PAGE_ADDR v) - unat a)" using unat_wd by simp
  then show "unat (l + (PAGE_ADDR v - a)) < unat l + (unat e - unat a)" using lt by simp
  have "4096 dvd unat l + (unat (PAGE_ADDR v) - unat a)"
    using assms(1,2) by (intro dvd_add dvd_diff_nat) (auto simp: area_ok.simps frame_addr_iff unat_PAGE_ADDR)
  then show "frame_addr (l + (PAGE_ADDR v - a))" unfolding frame_addr_iff u using less_le_trans [OF lt b48] by blast
qed

lemma va_below_pool:
  assumes "unat f < unat (pa PAGE_POOL_START)"
  shows "unat (va f) = unat f + 0xFFFFFFC000000000" "unat (va f) < unat PAGE_POOL_START"
  using assms unat_wd [of "unat f + 0xFFFFFFC000000000"] by (simp_all add: va_def PAGE_OFFSET_val pa_def pool_layout wd_def)

lemma below_pool:
  assumes "unat f < unat (pa PAGE_POOL_START)"
  shows "va f \<notin> used_pages u"
proof
  assume "va f \<in> used_pages u"
  then obtain i where "i < MAX_NUM_PAGES" "va f = page_addr i" by (auto simp: used_pages_def)
  then show False using page_addr_facts(1) [of i] va_below_pool(2) [OF assms] by (simp add: word_less_nat_alt)
qed

lemma low_address: "unat v < 2 ^ 39 \<Longrightarrow> drop_bit VA_BITS v = (0 :: u64)"
  by (simp add: word_unat_eq_iff VA_BITS_def drop_bit_eq_div unat_div_distrib)

lemma loaded_byte:
  assumes "image_loaded ui t vs bl s" "(a, e, fl, l) \<in> set (user_areas ui)" "area_ok (a, e, fl, l)" "l \<noteq> -1" "a \<le> v" "v < e"
  shows "user_load s v = Some (vmem s (va (l + (v - a))))" "user_addr s v = va (l + (v - a))"
    "fl AND VM_WRITE \<noteq> 0 \<Longrightarrow> unat l + (unat e - unat a) \<le> unat (pa PAGE_POOL_START) \<Longrightarrow> writable_at s v"
proof -
  have leaf: "user_leaf s v = leaf_desc (l + (PAGE_ADDR v - a)) (user_attrs (fl AND VM_WRITE = 0))"
    using assms(1,2,4-6) unfolding image_loaded_def by blast
  note af = area_frame [OF assms(3-6)]
  have ph: "get_phy_addr (user_leaf s v) = l + (PAGE_ADDR v - a)"
    using af(1) unfolding leaf leaf_desc_def get_phy_addr_desc [OF user_attrs_low] by (simp add: frame_addr_def)
  have nz: "user_leaf s v \<noteq> 0" by (simp add: leaf leaf_desc_def desc_not_0)
  have "l + (PAGE_ADDR v - a) + IN_PAGE_OFFSET v = l + (v - a)"
    using page_split [of v] by (metis (no_types, opaque_lifting) add.assoc add.commute diff_add_eq)
  then show ua: "user_addr s v = va (l + (v - a))" unfolding user_addr_def ph by (simp add: va_def algebra_simps)
  have "unat v < 2 ^ 39" using assms(3,6) by (auto simp: area_ok.simps word_less_nat_alt)
  note lo = low_address [OF this]
  show "user_load s v = Some (vmem s (va (l + (v - a))))" using lo nz ua by (simp add: user_load_def)
  show "writable_at s v" if "fl AND VM_WRITE \<noteq> 0" "unat l + (unat e - unat a) \<le> unat (pa PAGE_POOL_START)"
  proof -
    have "va (l + (PAGE_ADDR v - a)) \<notin> used_pages (usage s)" by (rule below_pool) (use af(2) that(2) in linarith)
    moreover have "tables True 2 (vmem s) (pg_dir (vm_task s t)) \<subseteq> used_pages (usage s)"
      using assms(1) owned_iff by (auto simp: image_loaded_def as_inv_def as_pages_def)
    moreover have "va (fst (ttbr0 (vm_sched s))) = pg_dir (vm_task s t)" using assms(1) by (simp add: image_loaded_def)
    ultimately show ?thesis using lo nz rdonly_clear [OF af(1)] that(1) ph unfolding writable_at_def by (auto simp: leaf)
  qed
qed


section \<open>The text and the bss of a loaded image\<close>

lemma layout_facts:
  fixes ui :: user_image
  defines "b \<equiv> section_bounds ui" and "lm \<equiv> pa (lma_user_sym ui)"
  assumes ly: "user_layout ui"
  shows "unat (b ! 0) + 4096 \<le> unat (b ! 1)" "unat (b ! 6) \<le> unat (b ! 7)" "unat (b ! 7) \<le> 0x20000000" "unat (b ! 1) \<le> 0x20000000"
    "4096 dvd unat (b ! 6)" "4096 dvd unat (b ! 7)" "pa (vma_user_sym ui) = b ! 0" "lm \<noteq> -1" "lm + (b ! 6 - b ! 0) \<noteq> -1"
    "unat (lm + (b ! 6 - b ! 0)) + (unat (b ! 7) - unat (b ! 6)) \<le> unat (pa PAGE_POOL_START)"
    "(b ! 6, b ! 7, VM_READ OR VM_WRITE, lm + (b ! 6 - b ! 0)) \<in> set (user_areas ui)" "area_ok (b ! 6, b ! 7, VM_READ OR VM_WRITE, lm + (b ! 6 - b ! 0))"
    "(b ! 0, b ! 1, VM_READ OR VM_EXEC OR VM_SHARED, lm) \<in> set (user_areas ui)" "area_ok (b ! 0, b ! 1, VM_READ OR VM_EXEC OR VM_SHARED, lm)"
proof -
  note ua = user_areas_layout [OF ly, folded b_def lm_def]
  have bl8: "length b = 8" by (simp add: b_def section_bounds_def)
  have lay: "\<forall>x \<in> set b. 4096 dvd unat x" "unat (b ! 0) < unat (b ! 1)" "unat (b ! 7) \<le> 0x20000000" "pa (vma_user_sym ui) = b ! 0"
      "unat lm + (unat (b ! 7) - unat (b ! 0)) \<le> 0x70000000" and srt: "sorted (map unat b)"
    using ly by (simp_all add: user_layout_def b_def lm_def Let_def USER_STACK_START_def pa_def pool_layout PAGE_OFFSET_val)
  have ord: "unat (b ! 6) \<le> unat (b ! 7)" "unat (b ! 0) \<le> unat (b ! 6)" "unat (b ! 1) \<le> unat (b ! 7)"
    using sorted_nth_mono [OF srt, of 6 7] sorted_nth_mono [OF srt, of 0 6] sorted_nth_mono [OF srt, of 1 7] bl8 by simp_all
  have al: "4096 dvd unat (b ! 0)" "4096 dvd unat (b ! 1)" "4096 dvd unat (b ! 6)" "4096 dvd unat (b ! 7)" using lay(1) bl8 by simp_all
  define L where "L = lm + (b ! 6 - b ! 0)"
  have "unat (b ! 6 - b ! 0) = unat (b ! 6) - unat (b ! 0)" using ord(2) by (simp add: unat_sub word_le_nat_alt)
  then have "L = wd (unat lm + (unat (b ! 6) - unat (b ! 0)))" unfolding L_def by (metis wd_add wd_unat)
  then have uL: "unat L = unat lm + (unat (b ! 6) - unat (b ! 0))" using unat_wd [of "unat lm + (unat (b ! 6) - unat (b ! 0))"] lay(5) ord by simp
  have m1: "unat (-1 :: u64) = 2 ^ 64 - 1" by (simp add: unsigned_minus_1_eq_mask mask_eq_exp_minus_1)
  have lm1: "L \<noteq> -1" "lm \<noteq> -1" using uL lay(5) ord m1 by auto
  have ba: "(b ! 6, b ! 7, VM_READ OR VM_WRITE, L) \<in> set (user_areas ui)" and ta: "(b ! 0, b ! 1, VM_READ OR VM_EXEC OR VM_SHARED, lm) \<in> set (user_areas ui)"
    unfolding ua(1) L_def by simp_all
  have bok: "area_ok (b ! 6, b ! 7, VM_READ OR VM_WRITE, L)" and tok: "area_ok (b ! 0, b ! 1, VM_READ OR VM_EXEC OR VM_SHARED, lm)"
    using ua(2) ba ta by blast+
  have "4096 dvd unat (b ! 1) - unat (b ! 0)" using al by (intro dvd_diff_nat)
  then show "unat (b ! 0) + 4096 \<le> unat (b ! 1)" using lay(2) by (auto dest!: dvd_imp_le)
  show "unat (lm + (b ! 6 - b ! 0)) + (unat (b ! 7) - unat (b ! 6)) \<le> unat (pa PAGE_POOL_START)"
    using uL lay(5) ord unfolding L_def by (simp add: pa_def pool_layout PAGE_OFFSET_val)
  show "unat (b ! 1) \<le> 0x20000000" using ord(3) lay(3) by linarith
  show "unat (b ! 6) \<le> unat (b ! 7)" "unat (b ! 7) \<le> 0x20000000" "4096 dvd unat (b ! 6)" "4096 dvd unat (b ! 7)"
    "pa (vma_user_sym ui) = b ! 0" "lm \<noteq> -1" "lm + (b ! 6 - b ! 0) \<noteq> -1" using lay ord al lm1 by (simp_all add: L_def)
  show "(b ! 6, b ! 7, VM_READ OR VM_WRITE, lm + (b ! 6 - b ! 0)) \<in> set (user_areas ui)" "area_ok (b ! 6, b ! 7, VM_READ OR VM_WRITE, lm + (b ! 6 - b ! 0))"
    "(b ! 0, b ! 1, VM_READ OR VM_EXEC OR VM_SHARED, lm) \<in> set (user_areas ui)" "area_ok (b ! 0, b ! 1, VM_READ OR VM_EXEC OR VM_SHARED, lm)"
    using ba bok ta tok unfolding L_def by blast+
qed

lemma in_area:
  fixes a e :: u64
  assumes "i < unat e - unat a" "unat e \<le> 0x20000000"
  shows "a \<le> a + of_nat i" "a + of_nat i < e"
proof -
  have "a + of_nat i = wd (unat a + i)" by (simp add: wd_def)
  then have "unat (a + of_nat i) = unat a + i" using unat_wd [of "unat a + i"] assms by simp
  then show "a \<le> a + of_nat i" "a + of_nat i < e" using assms by (simp_all add: word_le_nat_alt word_less_nat_alt)
qed

lemma first_instruction:
  assumes "user_layout ui" "image_loaded ui t vs bl s"
  shows "\<exists>bs. copy_from_user (pa (vma_user_sym ui)) 4 s = Some bs"
proof -
  note ly = layout_facts [OF assms(1)]
  let ?a = "section_bounds ui ! 0"
  have "user_load s (?a + of_nat i) \<noteq> None" if "i < 4" for i
  proof -
    have "i < unat (section_bounds ui ! 1) - unat ?a" using that ly(1) by linarith
    from in_area [OF this ly(4)] show ?thesis using loaded_byte(1) [OF assms(2) ly(13,14,8)] by simp
  qed
  then show ?thesis unfolding ly(7) by (rule copy_from_user_ok)
qed

text \<open>Clearing \<open>n\<close> bytes of the bss.\<close>

lemma clear_user_bss:
  fixes ui :: user_image
  defines "b \<equiv> section_bounds ui"
  defines "L \<equiv> pa (lma_user_sym ui) + (b ! 6 - b ! 0)"
  assumes lyo: "user_layout ui" and il: "image_loaded ui t vs bl s5" and n: "n \<le> unat (b ! 7) - unat (b ! 6)"
  obtains m' where "copy_to_user (b ! 6) (replicate n 0) s5 = Some (s5\<lparr>vmem := m'\<rparr>)" "image_loaded ui t vs bl (s5\<lparr>vmem := m'\<rparr>)"
    "\<And>i. i < n \<Longrightarrow> user_load (s5\<lparr>vmem := m'\<rparr>) (b ! 6 + of_nat i) = Some 0"
    "\<And>y. \<forall>i < n. y \<noteq> va (L + of_nat i) \<Longrightarrow> m' y = vmem s5 y"
proof -
  note ly = layout_facts [OF lyo, folded b_def, folded L_def]
  note ba = ly(11) and bok = ly(12) and pool = ly(10) and L1 = ly(9)
  have ib: "b ! 6 \<le> b ! 6 + of_nat i" "b ! 6 + of_nat i < b ! 7" if "i < n" for i
    using in_area [of i "b ! 7" "b ! 6"] that n ly(3) by simp_all
  have wr: "(VM_READ OR VM_WRITE) AND VM_WRITE \<noteq> 0" by (simp add: VM_READ_def VM_WRITE_def)
  have dir: "va (fst (ttbr0 (vm_sched s5))) = pg_dir (vm_task s5 t)" using il by (simp add: image_loaded_def)
  have inv5: "as_inv t vs bl s5" using il by (simp add: image_loaded_def)
  have ut: "user_tables s5" using inv5 by (simp add: user_tables_def dir as_inv_def)
  have w: "writable_at s5 (b ! 6 + of_nat i)" if "i < n" for i
    using loaded_byte(3) [OF il ba bok L1 ib [OF that] wr pool] .
  have adr: "user_addr s5 (b ! 6 + of_nat i) = va (L + of_nat i)" if "i < n" for i
    using loaded_byte(2) [OF il ba bok L1 ib [OF that]] by simp
  obtain m' where cp: "copy_to_user (b ! 6) (replicate n 0) s5 = Some (s5\<lparr>vmem := m'\<rparr>)"
    "\<forall>x. user_leaf (s5\<lparr>vmem := m'\<rparr>) x = user_leaf s5 x"
    "\<forall>x. (\<forall>i < n. x \<noteq> user_addr s5 (b ! 6 + of_nat i)) \<longrightarrow> m' x = vmem s5 x"
    "inj_on (\<lambda>i. user_addr s5 (b ! 6 + of_nat i)) {..<n} \<longrightarrow> (\<forall>i < n. m' (user_addr s5 (b ! 6 + of_nat i)) = 0)"
    using copy_to_user_ok [OF ut, of "replicate n 0" "b ! 6"] w by auto
  define s' where "s' = s5\<lparr>vmem := m'\<rparr>"
  have uLi: "unat (L + of_nat i) = unat L + i" "unat L + i < unat (pa PAGE_POOL_START)" if "i < n" for i
  proof -
    have "i < unat (b ! 7) - unat (b ! 6)" using that n by simp
    then show lt: "unat L + i < unat (pa PAGE_POOL_START)" using pool by linarith
    then show "unat (L + of_nat i) = unat L + i" using unat_wd [of "unat L + i"] by (simp add: wd_def pa_def pool_layout PAGE_OFFSET_val)
  qed
  have inj: "inj_on (\<lambda>i. user_addr s5 (b ! 6 + of_nat i)) {..<n}"
  proof (rule inj_onI)
    fix i j assume ij: "i \<in> {..<n}" "j \<in> {..<n}" "user_addr s5 (b ! 6 + of_nat i) = user_addr s5 (b ! 6 + of_nat j)"
    then have "L + of_nat i = L + of_nat j" using adr by (simp add: va_def)
    then have "unat (L + of_nat i) = unat (L + of_nat j)" by simp
    then show "i = j" using uLi(1) ij(1,2) by simp
  qed
  have pt: "page_eq x (vmem s5) m'" if "x \<in> tables True 2 (vmem s5) (pg_dir (vm_task s5 t))" for x
  proof -
    have "x \<in> used_pages (usage s5)" using that inv5 owned_iff by (auto simp: as_inv_def as_pages_def)
    then have x: "unat PAGE_POOL_START \<le> unat x" "page_aligned x"
      using page_addr_facts(1) page_addr_aligned by (auto simp: used_pages_def word_less_nat_alt not_less)
    have "wd k \<noteq> user_addr s5 (b ! 6 + of_nat i)" if "unat x \<le> k" "k < unat x + 4096" "i < n" for k i
    proof -
      have "unat (wd k) = k" using unat_wd [of k] page_aligned_bound [OF x(2)] that(2) by simp
      moreover have "unat (va (L + of_nat i)) < unat PAGE_POOL_START" by (rule va_below_pool(2)) (use uLi that(3) in simp)
      ultimately show ?thesis using adr [OF that(3)] x(1) that(1) by auto
    qed
    then show ?thesis using cp(3) by (auto simp: page_eq_def mem_eq_on_def)
  qed
  have il': "image_loaded ui t vs bl s'"
    using il as_inv_vmem [OF inv5 pt] cp(2) unfolding image_loaded_def s'_def by simp
  have "user_load s' (b ! 6 + of_nat i) = Some 0" if "i < n" for i
    using loaded_byte(1) [OF il' ba bok L1 ib [OF that]] cp(4) inj adr that by (simp add: s'_def)
  moreover have "m' y = vmem s5 y" if "\<forall>i < n. y \<noteq> va (L + of_nat i)" for y using cp(3) that adr by auto
  ultimately show thesis using that cp(1) il' unfolding s'_def by blast
qed

section \<open>Properties\<close>



definition demo_program :: user_image where
  "demo_program = \<lparr>lma_user_sym = va 0x42000000, vma_user_sym = va 0x400000, user_text_start_sym = va 0x400000, user_text_end_sym = va 0x404000,
     user_rodata_start_sym = va 0x404000, user_rodata_end_sym = va 0x405000, user_data_start_sym = va 0x405000, user_data_end_sym = va 0x406000,
     user_bss_start_sym = va 0x406000, user_bss_end_sym = va 0x408000, user_init_addr = 0x400120\<rparr>"


end
