(* ===== verification/Softirq.thy ===== *)
theory Softirq
  imports Spinlock
begin

text \<open>
  Deferred interrupt work: \<^verbatim>\<open>kernel/softirq.c\<close>, and the tick of \<^verbatim>\<open>kernel/hw_timer.c\<close> that raises it. The per-CPU variables are
  functions of the CPU number. A handler is named by the address of its function; \<open>call\<close> gives the effect of calling a function on the
  soft interrupt state and on the rest of the kernel, so that a handler may itself raise soft interrupts.
\<close>

unbundle bit_operations_syntax

definition MAX_NUM_SOFTIRQ :: nat where "MAX_NUM_SOFTIRQ = 1"
definition SOFTIRQ_TIMER :: nat where "SOFTIRQ_TIMER = 0"

record softirq =
  softirq_vec :: "nat \<Rightarrow> u64"
  nested_softirq_count :: "nat \<Rightarrow> int"
  softirq_pending :: "nat \<Rightarrow> u32"
  si_core :: nat
  si_daif :: u64

definition open_softirq :: "int \<Rightarrow> u64 \<Rightarrow> softirq \<Rightarrow> softirq" where
  "open_softirq nr action s =
    (if \<not> (0 \<le> nr \<and> nr < int MAX_NUM_SOFTIRQ) then s
     else if action = NULL then s
     else s\<lparr>softirq_vec := (softirq_vec s)(nat nr := action)\<rparr>)"

definition raise_softirq_irqoff :: "nat \<Rightarrow> softirq \<Rightarrow> softirq" where
  "raise_softirq_irqoff nr s =
    (if \<not> nr < MAX_NUM_SOFTIRQ then s
     else s\<lparr>softirq_pending := (softirq_pending s)(si_core s := softirq_pending s (si_core s) OR push_bit nr 1)\<rparr>)"

definition raise_softirq :: "nat \<Rightarrow> softirq \<Rightarrow> softirq" where
  "raise_softirq nr s =
    (if \<not> nr < MAX_NUM_SOFTIRQ then s
     else let (flags, d) = local_irq_save (si_daif s);
              s = raise_softirq_irqoff nr (s\<lparr>si_daif := d\<rparr>)
       in s\<lparr>si_daif := local_irq_restore flags (si_daif s)\<rparr>)"

definition is_softirq_pending :: "u32 \<Rightarrow> nat \<Rightarrow> bool" where
  "is_softirq_pending pending nr \<longleftrightarrow> pending AND push_bit nr 1 \<noteq> 0"

text \<open>Calling a handler that was never installed is a jump to the null pointer.\<close>

function softirq_loop ::
  "(u64 \<Rightarrow> softirq \<times> 'r \<Rightarrow> (softirq \<times> 'r) option) \<Rightarrow> u32 \<Rightarrow> nat \<Rightarrow> softirq \<times> 'r \<Rightarrow> (softirq \<times> 'r) option" where
  "softirq_loop call pending i s =
    (if i < MAX_NUM_SOFTIRQ then
       (if is_softirq_pending pending i then
          (if softirq_vec (fst s) i = NULL then None
           else do { s \<leftarrow> call (softirq_vec (fst s) i) s; softirq_loop call pending (i + 1) s })
        else softirq_loop call pending (i + 1) s)
     else Some s)"
  by pat_completeness auto
termination
  by (relation "measure (\<lambda>(call, pending, i, s). MAX_NUM_SOFTIRQ - i)") auto

declare softirq_loop.simps [simp del]

definition do_softirq ::
  "(u64 \<Rightarrow> softirq \<times> 'r \<Rightarrow> (softirq \<times> 'r) option) \<Rightarrow> softirq \<times> 'r \<Rightarrow> (softirq \<times> 'r) option" where
  "do_softirq call = (\<lambda>(s, r). do {
     let (flags, d) = local_irq_save (si_daif s);
     let s = s\<lparr>si_daif := d\<rparr>;
     if nested_softirq_count s (si_core s) \<noteq> 0 then
       Some (s\<lparr>si_daif := local_irq_restore flags (si_daif s)\<rparr>, r)
     else do {
       let s = s\<lparr>nested_softirq_count := (nested_softirq_count s)(si_core s := nested_softirq_count s (si_core s) + 1)\<rparr>;
       let pending = softirq_pending s (si_core s);
       let s = s\<lparr>softirq_pending := (softirq_pending s)(si_core s := 0)\<rparr>;
       let s = s\<lparr>si_daif := local_irq_restore flags (si_daif s)\<rparr>;
       (s, r) \<leftarrow> softirq_loop call pending 0 (s, r);
       let (flags, d) = local_irq_save (si_daif s);
       let s = s\<lparr>si_daif := d\<rparr>;
       let s = s\<lparr>nested_softirq_count := (nested_softirq_count s)(si_core s := nested_softirq_count s (si_core s) - 1)\<rparr>;
       Some (s\<lparr>si_daif := local_irq_restore flags (si_daif s)\<rparr>, r) } })"

section \<open>The tick\<close>

definition TICK :: nat where "TICK = 10"
definition HZ :: nat where "HZ = 1000 div TICK"
definition TICK_TIMER_COUNT :: u64 where "TICK_TIMER_COUNT = 62500000 div (1000 div of_nat TICK)"

record hw_timer =
  tick :: u64
  cntp_tval :: u64
  cntp_ctl :: u64

text \<open>\<open>run_timer\<close> is the address of \<^verbatim>\<open>run_timer_softirq\<close>.\<close>

definition config_hw_timer :: "u64 \<Rightarrow> hw_timer \<times> softirq \<Rightarrow> hw_timer \<times> softirq" where
  "config_hw_timer run_timer = (\<lambda>(h, s).
     (h\<lparr>cntp_tval := TICK_TIMER_COUNT, cntp_ctl := 1\<rparr>, open_softirq (int SOFTIRQ_TIMER) run_timer s))"

definition handle_timer_irq :: "hw_timer \<times> softirq \<Rightarrow> hw_timer \<times> softirq" where
  "handle_timer_irq = (\<lambda>(h, s).
     let h = h\<lparr>cntp_tval := TICK_TIMER_COUNT\<rparr>;
         h = (if si_core s = 0 then h\<lparr>tick := tick h + 1\<rparr> else h)
     in (h, raise_softirq SOFTIRQ_TIMER s))"

definition get_tick :: "hw_timer \<Rightarrow> u64" where
  "get_tick h = tick h"

section \<open>One round of soft interrupts\<close>

lemma irq_save_restore: "daif_wf d \<Longrightarrow> local_irq_restore d (disable_irq d) = d"
  using local_irq_restore_save [of d] by (simp add: local_irq_save_def)

lemma raise_softirq_timer:
  assumes "daif_wf (si_daif s)"
  shows "raise_softirq SOFTIRQ_TIMER s =
    s\<lparr>softirq_pending := (softirq_pending s)(si_core s := softirq_pending s (si_core s) OR 1)\<rparr>"
  using irq_save_restore [OF assms]
  by (simp add: raise_softirq_def SOFTIRQ_TIMER_def MAX_NUM_SOFTIRQ_def raise_softirq_irqoff_def local_irq_save_def Let_def)

text \<open>The state a handler sees: nothing pending, and the nesting count taken.\<close>

definition softirq_entered :: "softirq \<Rightarrow> softirq" where
  "softirq_entered s = s\<lparr>softirq_pending := (softirq_pending s)(si_core s := 0),
     nested_softirq_count := (nested_softirq_count s)(si_core s := 1)\<rparr>"

definition softirq_left :: "softirq \<Rightarrow> softirq" where
  "softirq_left s = s\<lparr>nested_softirq_count := (nested_softirq_count s)(si_core s := nested_softirq_count s (si_core s) - 1)\<rparr>"

lemma do_softirq_run:
  assumes "daif_wf (si_daif s)" "nested_softirq_count s (si_core s) = 0"
  shows "do_softirq call (s, r) = do {
      (s', r') \<leftarrow> (if bit (softirq_pending s (si_core s)) 0
        then (if softirq_vec s 0 = NULL then None else call (softirq_vec s 0) (softirq_entered s, r))
        else Some (softirq_entered s, r));
      Some ((softirq_left s')\<lparr>si_daif := local_irq_restore (si_daif s') (disable_irq (si_daif s'))\<rparr>, r') }"
proof -
  have "is_softirq_pending p 0 \<longleftrightarrow> bit p 0" for p
    by (simp add: is_softirq_pending_def and_one_eq odd_iff_mod_2_eq_one bit_0)
  moreover have "softirq_loop call p (Suc 0) = Some" for p
    by (rule ext) (simp add: softirq_loop.simps MAX_NUM_SOFTIRQ_def)
  ultimately have l: "softirq_loop call p 0 x = (if bit p 0
      then (if softirq_vec (fst x) 0 = NULL then None else call (softirq_vec (fst x) 0) x) else Some x)" for p x
    by (simp add: softirq_loop.simps [of _ _ 0] MAX_NUM_SOFTIRQ_def)
  have d: "si_daif (softirq_entered s) = si_daif s" "softirq_vec (softirq_entered s) = softirq_vec s" by (simp_all add: softirq_entered_def)
  have e: "s\<lparr>nested_softirq_count := (nested_softirq_count s)(si_core s := 1),
      softirq_pending := (softirq_pending s)(si_core s := 0)\<rparr> = softirq_entered s"
    by (simp add: softirq_entered_def)
  show ?thesis
    using assms irq_save_restore [OF assms(1)]
    by (simp add: do_softirq_def local_irq_save_def Let_def l e d softirq_left_def split: if_splits)
qed

section \<open>Properties\<close>

text \<open>C27. A round of soft interrupts on a CPU that is not inside one: a pending timer soft interrupt runs its handler exactly
  once, with the request cleared beforehand, so that a request raised by the handler or by an interrupt during it is kept for the next round;
  afterwards the nesting count is 0 and the interrupt mask is as the handler left it. A round started from inside the handler does nothing.\<close>

theorem do_softirq_once:
  fixes s :: softirq
  assumes "daif_wf (si_daif s)" "nested_softirq_count s (si_core s) = 0" "softirq_vec s 0 \<noteq> NULL"
    "call (softirq_vec s 0) (softirq_entered s, r) = Some (s', r')"
    "si_core s' = si_core s" "daif_wf (si_daif s')" "nested_softirq_count s' = nested_softirq_count (softirq_entered s)"
  shows "do_softirq call (s, r) =
      (if bit (softirq_pending s (si_core s)) 0
       then Some (s'\<lparr>nested_softirq_count := nested_softirq_count s\<rparr>, r')
       else Some (s\<lparr>softirq_pending := (softirq_pending s)(si_core s := 0)\<rparr>, r)) \<and>
    do_softirq call (softirq_entered s, x) = Some (softirq_entered s, x)"
proof
  have n: "(nested_softirq_count s)(si_core s := 0) = nested_softirq_count s" using assms(2) by auto
  then have l: "softirq_left s' = s'\<lparr>nested_softirq_count := nested_softirq_count s\<rparr>"
    "softirq_left (softirq_entered s) = s\<lparr>softirq_pending := (softirq_pending s)(si_core s := 0)\<rparr>"
    using assms(5,7) by (simp_all add: softirq_left_def softirq_entered_def)
  have d: "si_daif (softirq_entered s) = si_daif s" by (simp add: softirq_entered_def)
  show "do_softirq call (s, r) =
      (if bit (softirq_pending s (si_core s)) 0
       then Some (s'\<lparr>nested_softirq_count := nested_softirq_count s\<rparr>, r')
       else Some (s\<lparr>softirq_pending := (softirq_pending s)(si_core s := 0)\<rparr>, r))"
    using assms(3,4) irq_save_restore [OF assms(1)] irq_save_restore [OF assms(6)]
    by (simp add: do_softirq_run [OF assms(1,2)] l d)
  show "do_softirq call (softirq_entered s, x) = Some (softirq_entered s, x)"
    using irq_save_restore [OF assms(1)] by (simp add: do_softirq_def local_irq_save_def Let_def softirq_entered_def)
qed

theorem do_softirq_once_witness:
  "do_softirq (\<lambda>f (s, n). Some (raise_softirq SOFTIRQ_TIMER s, n + 1))
     (snd (handle_timer_irq (config_hw_timer 4096 (\<lparr>tick = 0, cntp_tval = 0, cntp_ctl = 0\<rparr>,
        \<lparr>softirq_vec = \<lambda>_. 0, nested_softirq_count = \<lambda>_. 0, softirq_pending = \<lambda>_. 0, si_core = 0, si_daif = 0\<rparr>))), 5 :: nat) =
   Some (\<lparr>softirq_vec = (\<lambda>_. 0)(0 := 4096), nested_softirq_count = \<lambda>_. 0, softirq_pending = (\<lambda>_. 0)(0 := 1), si_core = 0, si_daif = 0\<rparr>, 6)"
proof -
  let ?s = "\<lparr>softirq_vec = (\<lambda>_. 0)(0 := 4096), nested_softirq_count = \<lambda>_. 0, softirq_pending = (\<lambda>_. 0)(0 := 1), si_core = 0, si_daif = 0\<rparr>"
  let ?call = "\<lambda>(f :: u64) (s, n). Some (raise_softirq SOFTIRQ_TIMER s, n + (1 :: nat))"
  have d: "daif_wf 0" by (simp add: daif_wf_def)
  have s: "snd (handle_timer_irq (config_hw_timer 4096 (\<lparr>tick = 0, cntp_tval = 0, cntp_ctl = 0\<rparr>,
      \<lparr>softirq_vec = \<lambda>_. 0, nested_softirq_count = \<lambda>_. 0, softirq_pending = \<lambda>_. 0, si_core = 0, si_daif = 0\<rparr>))) = ?s"
    using d by (simp add: handle_timer_irq_def config_hw_timer_def open_softirq_def SOFTIRQ_TIMER_def MAX_NUM_SOFTIRQ_def
        raise_softirq_timer [unfolded SOFTIRQ_TIMER_def] Let_def)
  have c: "?call (softirq_vec ?s 0) (softirq_entered ?s, 5) =
      Some (\<lparr>softirq_vec = (\<lambda>_. 0)(0 := 4096), nested_softirq_count = (\<lambda>_. 0)(0 := 1), softirq_pending = (\<lambda>_. 0)(0 := 1),
        si_core = 0, si_daif = 0\<rparr>, 6)"
    using d by (simp add: raise_softirq_timer softirq_entered_def)
  from do_softirq_once [of ?s ?call 5, OF _ _ _ c] d show ?thesis
    unfolding s by (simp add: softirq_entered_def bit_0)
qed

end
