(* ===== verification/Timer.thy ===== *)
theory Timer
  imports Spinlock Klist
begin

text \<open>
  The software timers of \<^verbatim>\<open>kernel/timer.c\<close>: a singly linked list of \<^verbatim>\<open>struct timer\<close> objects,
  named by their addresses. Timer functions are called through an argument \<open>call\<close> that takes
  the function pointer, its data and the whole state, whose last field is the rest of the
  kernel. \<open>tlist s xs\<close> says that the list holds exactly the timers \<open>xs\<close>, in order.
\<close>

section \<open>Definitions\<close>

record timer =
  tnext :: u64
  expires :: u64
  tfunction :: u64
  tdata :: u64

record 'r tsys =
  timers :: "u64 \<Rightarrow> timer"
  thead :: u64
  timerlist_lock :: spinlock
  tdaif :: u64
  trest :: 'r

definition init_timer_module :: "'r tsys \<Rightarrow> 'r tsys" where
  "init_timer_module s = s\<lparr>timerlist_lock := the (spin_lock_init (Some (timerlist_lock s)))\<rparr>"

definition upd_timer :: "u64 \<Rightarrow> (timer \<Rightarrow> timer) \<Rightarrow> 'r tsys \<Rightarrow> 'r tsys" where
  "upd_timer p f s = s\<lparr>timers := (timers s)(p := f (timers s p))\<rparr>"

definition init_timer :: "u64 \<Rightarrow> 'r tsys \<Rightarrow> 'r tsys" where
  "init_timer p s =
    (if p = NULL then s
     else upd_timer p (\<lambda>_. \<lparr>tnext = 0, expires = 0, tfunction = 0, tdata = 0\<rparr>) s)"

definition add_timer_unlocked :: "u64 \<Rightarrow> 'r tsys \<Rightarrow> 'r tsys" where
  "add_timer_unlocked p s = (upd_timer p (\<lambda>t. t\<lparr>tnext := thead s\<rparr>) s)\<lparr>thead := p\<rparr>"

partial_function (option) del_loop :: "u64 \<Rightarrow> u64 \<Rightarrow> u64 \<Rightarrow> 'r tsys \<Rightarrow> 'r tsys option" where
  "del_loop p prev cur s =
    (if cur = NULL then Some s
     else if cur = p then
       let s = (if prev \<noteq> NULL then upd_timer prev (\<lambda>t. t\<lparr>tnext := tnext (timers s cur)\<rparr>) s else s);
           s = (if thead s = cur then s\<lparr>thead := tnext (timers s cur)\<rparr> else s)
       in Some (upd_timer cur (\<lambda>t. t\<lparr>tnext := NULL\<rparr>) s)
     else del_loop p cur (tnext (timers s cur)) s)"

definition del_timer_unlocked :: "u64 \<Rightarrow> 'r tsys \<Rightarrow> 'r tsys option" where
  "del_timer_unlocked p s = del_loop p NULL (thead s) s"

definition mod_timer_unlocked :: "u64 \<Rightarrow> u64 \<Rightarrow> 'r tsys \<Rightarrow> 'r tsys option" where
  "mod_timer_unlocked p ex s = do {
     s \<leftarrow> del_timer_unlocked p s;
     Some (add_timer_unlocked p (upd_timer p (\<lambda>t. t\<lparr>expires := ex\<rparr>) s)) }"

text \<open>A critical section of the timer list.\<close>

definition timer_locked :: "('r tsys \<Rightarrow> 'r tsys option) \<Rightarrow> 'r tsys \<Rightarrow> 'r tsys option" where
  "timer_locked f s = do {
     (s, d, l) \<leftarrow> locked_irqsave (tdaif s) (timerlist_lock s) (f s);
     Some (s\<lparr>tdaif := d, timerlist_lock := l\<rparr>) }"

definition add_timer :: "u64 \<Rightarrow> 'r tsys \<Rightarrow> 'r tsys option" where
  "add_timer p s =
    (if p = NULL then Some s else timer_locked (\<lambda>s. Some (add_timer_unlocked p s)) s)"

definition del_timer :: "u64 \<Rightarrow> 'r tsys \<Rightarrow> 'r tsys option" where
  "del_timer p s = (if p = NULL then Some s else timer_locked (del_timer_unlocked p) s)"

definition mod_timer :: "u64 \<Rightarrow> u64 \<Rightarrow> 'r tsys \<Rightarrow> 'r tsys option" where
  "mod_timer p ex s = (if p = NULL then Some s else timer_locked (mod_timer_unlocked p ex) s)"

definition timer_lock :: "'r tsys \<Rightarrow> (u64 \<times> 'r tsys) option" where
  "timer_lock s = do {
     (flags, d, l) \<leftarrow> spin_lock_irqsave (tdaif s) (Some (timerlist_lock s));
     Some (flags, s\<lparr>tdaif := d, timerlist_lock := the l\<rparr>) }"

definition timer_unlock :: "u64 \<Rightarrow> 'r tsys \<Rightarrow> 'r tsys option" where
  "timer_unlock flags s = do {
     (d, l) \<leftarrow> spin_unlock_irqrestore (tdaif s) (Some (timerlist_lock s)) flags;
     Some (s\<lparr>tdaif := d, timerlist_lock := the l\<rparr>) }"

partial_function (option) timer_loop ::
  "(u64 \<Rightarrow> u64 \<Rightarrow> 'r tsys \<Rightarrow> 'r tsys option) \<Rightarrow> u64 \<Rightarrow> u64 \<Rightarrow> u64 \<Rightarrow> 'r tsys \<Rightarrow> (u64 \<times> 'r tsys) option" where
  "timer_loop call tick flags cur s =
    (if cur = NULL then Some (flags, s)
     else if expires (timers s cur) = tick then do {
       s \<leftarrow> del_timer_unlocked cur s;
       s \<leftarrow> timer_unlock flags s;
       s \<leftarrow> call (tfunction (timers s cur)) (tdata (timers s cur)) s;
       r \<leftarrow> timer_lock s;
       timer_loop call tick (fst r) (thead (snd r)) (snd r) }
     else timer_loop call tick flags (tnext (timers s cur)) s)"

definition run_timer_softirq ::
  "(u64 \<Rightarrow> u64 \<Rightarrow> 'r tsys \<Rightarrow> 'r tsys option) \<Rightarrow> u64 \<Rightarrow> 'r tsys \<Rightarrow> 'r tsys option" where
  "run_timer_softirq call tick s = do {
     (flags, s) \<leftarrow> timer_lock s;
     (flags, s) \<leftarrow> timer_loop call tick flags (thead s) s;
     timer_unlock flags s }"

section \<open>The list of timers\<close>

fun tchain :: "(u64 \<Rightarrow> timer) \<Rightarrow> u64 \<Rightarrow> u64 list \<Rightarrow> bool" where
  "tchain t a [] \<longleftrightarrow> a = NULL"
| "tchain t a (x # xs) \<longleftrightarrow> a = x \<and> x \<noteq> NULL \<and> tchain t (tnext (t x)) xs"

definition tlist :: "'r tsys \<Rightarrow> u64 list \<Rightarrow> bool" where
  "tlist s xs \<longleftrightarrow> tchain (timers s) (thead s) xs \<and> distinct xs"

lemma tchain_cong: "(\<And>x. x \<in> set xs \<Longrightarrow> tnext (t' x) = tnext (t x)) \<Longrightarrow> tchain t' a xs = tchain t a xs"
  by (induction xs arbitrary: a) auto

lemma upd_timer_simps [simp]:
  "thead (upd_timer p f s) = thead s" "timerlist_lock (upd_timer p f s) = timerlist_lock s"
  "tdaif (upd_timer p f s) = tdaif s" "trest (upd_timer p f s) = trest s"
  "timers (upd_timer p f s) = (timers s)(p := f (timers s p))"
  by (simp_all add: upd_timer_def)

lemma add_timer_list:
  assumes "tlist s xs" "p \<notin> set xs" "p \<noteq> NULL"
  shows "tlist (add_timer_unlocked p s) (p # xs)"
proof -
  have "tchain ((timers s)(p := (timers s p)\<lparr>tnext := thead s\<rparr>)) (thead s) xs = tchain (timers s) (thead s) xs"
    by (rule tchain_cong) (use assms in auto)
  then show ?thesis using assms by (simp add: tlist_def add_timer_unlocked_def)
qed

lemma chain_at:
  "tchain t a (ys @ zs) \<Longrightarrow> ys \<noteq> [] \<Longrightarrow> tchain t (tnext (t (last ys))) zs"
  by (induction ys arbitrary: a) (auto split: if_splits)

lemma tchain_start: "tchain t a xs \<Longrightarrow> a = (if xs = [] then NULL else hd xs)"
  by (cases xs) auto

text \<open>Taking the timer \<open>p\<close> out behind the timers \<open>ys\<close>.\<close>

lemma tchain_del:
  assumes "tchain t a (ys @ p # zs)" "distinct (ys @ p # zs)" "ys \<noteq> []" "last ys = l"
    and t': "t' = t(l := (t l)\<lparr>tnext := tnext (t p)\<rparr>, p := (t p)\<lparr>tnext := NULL\<rparr>)"
  shows "tchain t' a (ys @ zs)"
  using assms(1-4)
proof (induction ys arbitrary: a)
  case (Cons y ys)
  show ?case
  proof (cases "ys = []")
    case True
    have "tchain t' (tnext (t p)) zs = tchain t (tnext (t p)) zs"
      by (rule tchain_cong) (use Cons.prems True in \<open>auto simp: t'\<close>)
    moreover have "tnext (t' y) = tnext (t p)" using Cons.prems True by (auto simp: t')
    ultimately show ?thesis using Cons.prems True by auto
  next
    case False
    then have "y \<noteq> l" "y \<noteq> p" using Cons.prems(2,4) by auto
    then show ?thesis using Cons False by (simp add: t')
  qed
qed simp

lemma del_loop_absent:
  "tchain (timers s) cur xs \<Longrightarrow> p \<notin> set xs \<Longrightarrow> del_loop p prev cur s = Some s"
proof (induction xs arbitrary: prev cur)
  case Nil
  then show ?case by (simp add: del_loop.simps)
next
  case (Cons x xs)
  then show ?case by (subst del_loop.simps) auto
qed

definition removed :: "u64 \<Rightarrow> u64 list \<Rightarrow> 'r tsys \<Rightarrow> 'r tsys \<Rightarrow> bool" where
  "removed p xs s s' \<longleftrightarrow> tlist s' (remove1 p xs) \<and> timerlist_lock s' = timerlist_lock s \<and>
    tdaif s' = tdaif s \<and> trest s' = trest s \<and>
    (\<forall>q. expires (timers s' q) = expires (timers s q) \<and> tfunction (timers s' q) = tfunction (timers s q) \<and>
       tdata (timers s' q) = tdata (timers s q))"

lemma del_loop_found:
  assumes "tlist s (xs @ ys @ p # zs)" "prev = (if xs = [] then NULL else last xs)"
  shows "\<exists>s'. del_loop p prev (hd (ys @ [p])) s = Some s' \<and> removed p (xs @ ys @ p # zs) s s'"
  using assms
proof (induction ys arbitrary: xs prev)
  case Nil
  have ch: "tchain (timers s) (thead s) (xs @ p # zs)" "distinct (xs @ p # zs)" "p \<noteq> NULL"
    using Nil.prems(1) chain_at [of "timers s" "thead s" xs "p # zs"]
    by (cases "xs = []"; auto simp: tlist_def)+
  show ?case
  proof (cases "xs = []")
    case True
    let ?s = "upd_timer p (\<lambda>t. t\<lparr>tnext := NULL\<rparr>) (s\<lparr>thead := tnext (timers s p)\<rparr>)"
    have "del_loop p prev p s = Some ?s"
      using Nil.prems(2) True ch by (subst del_loop.simps) (simp add: Let_def)
    moreover have "tchain (timers ?s) (tnext (timers s p)) zs = tchain (timers s) (tnext (timers s p)) zs"
      by (rule tchain_cong) (use ch True in auto)
    ultimately show ?thesis using ch True by (auto simp: removed_def tlist_def)
  next
    case False
    let ?s = "upd_timer p (\<lambda>t. t\<lparr>tnext := NULL\<rparr>) (upd_timer (last xs) (\<lambda>t. t\<lparr>tnext := tnext (timers s p)\<rparr>) s)"
    have l: "last xs \<noteq> NULL" "last xs \<noteq> p" "thead s \<noteq> p"
    proof -
      have "tchain (timers s) (thead s) (butlast xs @ last xs # p # zs)" using ch(1) False
        by (metis append_butlast_last_id append_Cons append_Nil append_assoc)
      then show "last xs \<noteq> NULL"
        using chain_at [of "timers s" "thead s" "butlast xs" "last xs # p # zs"] by (cases "butlast xs = []") auto
      show "last xs \<noteq> p" "thead s \<noteq> p" using ch False by (cases xs; auto)+
    qed
    have "del_loop p prev p s = Some ?s"
      using Nil.prems(2) False ch(3) l by (subst del_loop.simps) (simp add: Let_def)
    moreover have "tchain (timers ?s) (thead s) (xs @ zs)"
      by (rule tchain_del [OF ch(1,2) False refl]) (use l in \<open>simp add: fun_upd_twist\<close>)
    ultimately show ?thesis using ch by (auto simp: removed_def tlist_def remove1_append)
  qed
next
  case (Cons y ys)
  have y: "y \<noteq> NULL" "y \<noteq> p" "tnext (timers s y) = hd (ys @ [p])"
  proof -
    have t: "tchain (timers s) (thead s) ((xs @ [y]) @ ys @ p # zs)" "distinct ((xs @ [y]) @ ys @ p # zs)"
      using Cons.prems(1) by (auto simp: tlist_def)
    show "y \<noteq> p" using t(2) by auto
    show "y \<noteq> NULL"
      using t(1) chain_at [of "timers s" "thead s" xs "y # ys @ p # zs"] by (cases "xs = []") auto
    show "tnext (timers s y) = hd (ys @ [p])"
      using chain_at [OF t(1)] tchain_start by (fastforce simp: hd_append)
  qed
  have "tlist s ((xs @ [y]) @ ys @ p # zs)" using Cons.prems(1) by simp
  from Cons.IH [OF this, of y] y show ?case by (subst del_loop.simps) simp
qed

lemma del_timer_list:
  assumes "tlist s xs"
  shows "\<exists>s'. del_timer_unlocked p s = Some s' \<and> removed p xs s s'"
proof (cases "p \<in> set xs")
  case False
  then show ?thesis
    using assms del_loop_absent [of s "thead s" xs p NULL]
    by (auto simp: del_timer_unlocked_def removed_def tlist_def remove1_idem)
next
  case True
  then obtain ys zs where x: "xs = ys @ p # zs" by (meson split_list)
  have "thead s = hd (ys @ [p])"
    using assms tchain_start [of "timers s" "thead s" xs] x by (auto simp: tlist_def hd_append)
  then show ?thesis
    using del_loop_found [of s "[]" ys p zs NULL] assms by (simp add: del_timer_unlocked_def x)
qed

section \<open>The operations on a free lock\<close>

definition timers_ready :: "'r tsys \<Rightarrow> u64 list \<Rightarrow> bool" where
  "timers_ready s xs \<longleftrightarrow> tlist s xs \<and> data0 (timerlist_lock s) = 0 \<and> daif_wf (tdaif s)"

lemma removed_ready: "removed p xs s s' \<Longrightarrow> timers_ready s xs \<Longrightarrow> timers_ready s' (remove1 p xs)"
  by (simp add: removed_def timers_ready_def)

lemma removed_locks: "removed p xs s s' \<Longrightarrow> tdaif s' = tdaif s \<and> timerlist_lock s' = timerlist_lock s"
  by (simp add: removed_def)

lemma timer_locked_free:
  assumes "timers_ready s xs" "f s = Some s'" "tdaif s' = tdaif s" "timerlist_lock s' = timerlist_lock s"
  shows "timer_locked f s = Some s'"
  using assms by (simp add: timer_locked_def timers_ready_def locked_irqsave_free)

definition timer_held :: "'r tsys \<Rightarrow> 'r tsys" where
  "timer_held s = s\<lparr>tdaif := disable_irq (tdaif s), timerlist_lock := (timerlist_lock s)\<lparr>data0 := 1\<rparr>\<rparr>"

lemma timer_held_simps [simp]:
  "timers (timer_held s) = timers s" "thead (timer_held s) = thead s"
  by (simp_all add: timer_held_def)

lemma timer_lock_free:
  "data0 (timerlist_lock s) = 0 \<Longrightarrow> timer_lock s = Some (tdaif s, timer_held s)"
  by (simp add: timer_lock_def spin_lock_irqsave_def local_irq_save_def spin_lock_def timer_held_def)

lemma timer_unlock_held:
  assumes "data0 (timerlist_lock s) = 0" "daif_wf (tdaif s)"
  shows "timer_unlock (tdaif s) (timer_held s) = Some s"
proof -
  have "local_irq_restore (tdaif s) (disable_irq (tdaif s)) = tdaif s"
    using local_irq_restore_save [OF assms(2)] by (simp add: local_irq_save_def)
  then show ?thesis
    using assms(1) by (simp add: timer_unlock_def spin_unlock_irqrestore_def spin_unlock_def timer_held_def)
qed

lemma del_loop_held:
  assumes "tchain (timers s) cur xs"
  shows "del_loop p prev cur (timer_held s) = map_option timer_held (del_loop p prev cur s)"
  using assms
proof (induction xs arbitrary: prev cur)
  case Nil
  then show ?case by (simp add: del_loop.simps)
next
  case (Cons x xs)
  have u: "upd_timer q f (timer_held r) = timer_held (upd_timer q f r)"
    "(timer_held r)\<lparr>thead := a\<rparr> = timer_held (r\<lparr>thead := a\<rparr>)" for q f r and a :: u64
    by (simp_all add: timer_held_def upd_timer_def)
  from Cons show ?case by (subst (1 2) del_loop.simps) (auto simp: Let_def u)
qed

lemma add_timer_spec:
  assumes "timers_ready s xs" "p \<notin> set xs" "p \<noteq> NULL"
  shows "add_timer p s = Some (add_timer_unlocked p s) \<and> timers_ready (add_timer_unlocked p s) (p # xs)"
  using assms add_timer_list [of s xs p] timer_locked_free [OF assms(1), of "\<lambda>s. Some (add_timer_unlocked p s)"]
  by (simp add: add_timer_def timers_ready_def add_timer_unlocked_def)

lemma del_timer_spec:
  assumes "timers_ready s xs" "p \<noteq> NULL"
  shows "\<exists>s'. del_timer p s = Some s' \<and> removed p xs s s'"
proof -
  obtain s' where s: "del_timer_unlocked p s = Some s'" "removed p xs s s'"
    using assms(1) del_timer_list by (fastforce simp: timers_ready_def)
  then show ?thesis
    using timer_locked_free [OF assms(1), of "del_timer_unlocked p" s'] removed_locks [OF s(2)] assms(2)
    by (auto simp: del_timer_def)
qed

lemma mod_timer_spec:
  assumes "timers_ready s xs" "p \<noteq> NULL"
  shows "\<exists>s'. mod_timer p ex s = Some s' \<and> timers_ready s' (p # remove1 p xs) \<and> expires (timers s' p) = ex \<and>
    trest s' = trest s \<and>
    (\<forall>q. q \<noteq> p \<longrightarrow> expires (timers s' q) = expires (timers s q)) \<and>
    (\<forall>q. tfunction (timers s' q) = tfunction (timers s q) \<and> tdata (timers s' q) = tdata (timers s q))"
proof -
  obtain s1 where s: "del_timer_unlocked p s = Some s1" "removed p xs s s1"
    using assms(1) del_timer_list by (fastforce simp: timers_ready_def)
  define s2 where "s2 = upd_timer p (\<lambda>t. t\<lparr>expires := ex\<rparr>) s1"
  define s' where "s' = add_timer_unlocked p s2"
  have l1: "timers_ready s1 (remove1 p xs)" "p \<notin> set (remove1 p xs)"
    using removed_ready [OF s(2) assms(1)] assms(1) by (auto simp: timers_ready_def tlist_def)
  then have "tlist s2 (remove1 p xs)"
    using tchain_cong [of "remove1 p xs" "timers s2" "timers s1" "thead s1"]
    by (auto simp: s2_def timers_ready_def tlist_def)
  then have "tlist s' (p # remove1 p xs)" unfolding s'_def by (rule add_timer_list [OF _ l1(2) assms(2)])
  moreover have "mod_timer_unlocked p ex s = Some s'" by (simp add: mod_timer_unlocked_def s s'_def s2_def)
  moreover have f: "tdaif s' = tdaif s" "timerlist_lock s' = timerlist_lock s" "trest s' = trest s"
    using s(2) by (simp_all add: s'_def s2_def add_timer_unlocked_def removed_def)
  ultimately show ?thesis
    using timer_locked_free [OF assms(1), of "mod_timer_unlocked p ex" s'] assms s(2)
    by (simp add: mod_timer_def timers_ready_def)
      (auto simp: s'_def s2_def add_timer_unlocked_def removed_def)
qed

section \<open>Expiry\<close>

definition due :: "u64 \<Rightarrow> 'r tsys \<Rightarrow> u64 list \<Rightarrow> u64 list" where
  "due tick s xs = filter (\<lambda>p. expires (timers s p) = tick) xs"

text \<open>Expiring one timer: it leaves the list, then its function runs.\<close>

definition fire :: "(u64 \<Rightarrow> u64 \<Rightarrow> 'r tsys \<Rightarrow> 'r tsys option) \<Rightarrow> u64 \<Rightarrow> 'r tsys \<Rightarrow> 'r tsys option" where
  "fire call p s = do {
     s \<leftarrow> del_timer_unlocked p s;
     call (tfunction (timers s p)) (tdata (timers s p)) s }"

text \<open>A timer function that comes back with the lock free and the timers due at \<open>tick\<close> as they were;
  it may add, delete and re-arm timers of other ticks.\<close>

definition quiet :: "(u64 \<Rightarrow> u64 \<Rightarrow> 'r tsys \<Rightarrow> 'r tsys option) \<Rightarrow> u64 \<Rightarrow> bool" where
  "quiet call tick \<longleftrightarrow> (\<forall>f d s xs. timers_ready s xs \<longrightarrow>
     (\<exists>s' ys. call f d s = Some s' \<and> timers_ready s' ys \<and> due tick s' ys = due tick s xs))"

text \<open>The same with an invariant \<open>P\<close> of the state and the pending timers, and for the due timers of the list only.\<close>

definition quiet_on :: "('r tsys \<Rightarrow> u64 list \<Rightarrow> bool) \<Rightarrow> (u64 \<Rightarrow> u64 \<Rightarrow> 'r tsys \<Rightarrow> 'r tsys option) \<Rightarrow> u64 \<Rightarrow> bool" where
  "quiet_on P call tick \<longleftrightarrow> (\<forall>s xs p s1. timers_ready s xs \<longrightarrow> P s xs \<longrightarrow> p \<in> set xs \<longrightarrow>
     expires (timers s p) = tick \<longrightarrow> removed p xs s s1 \<longrightarrow>
     (\<exists>s' ys. call (tfunction (timers s1 p)) (tdata (timers s1 p)) s1 = Some s' \<and> timers_ready s' ys \<and> P s' ys \<and>
        due tick s' ys = due tick s1 (remove1 p xs)))"

lemma quiet_quiet_on:
  assumes "quiet call tick"
  shows "quiet_on (\<lambda>_ _. True) call tick"
  using assms removed_ready unfolding quiet_def quiet_on_def by metis

lemma timer_loop_skip:
  assumes "tchain (timers s) cur (ys @ zs)" "\<forall>y \<in> set ys. expires (timers s y) \<noteq> tick"
  shows "timer_loop call tick flags cur s = timer_loop call tick flags (if zs = [] then NULL else hd zs) s"
  using assms
proof (induction ys arbitrary: cur)
  case Nil
  then show ?case using tchain_start by fastforce
next
  case (Cons y ys)
  then show ?case by (subst timer_loop.simps) auto
qed

lemma due_split:
  assumes "due tick s xs = p # ps"
  obtains ys zs where "xs = ys @ p # zs" "\<forall>y \<in> set ys. expires (timers s y) \<noteq> tick"
    "expires (timers s p) = tick"
  using assms unfolding due_def filter_eq_Cons_iff by blast

lemma timer_loop_fire:
  assumes "quiet_on P call tick" "timers_ready s xs" "P s xs" "due tick s xs = ps"
  shows "\<exists>s' ys. timer_loop call tick (tdaif s) (thead s) (timer_held s) = Some (tdaif s', timer_held s') \<and>
    fold_opt (fire call) ps s = Some s' \<and> timers_ready s' ys \<and> P s' ys \<and> due tick s' ys = []"
  using assms(2-4)
proof (induction ps arbitrary: s xs)
  case Nil
  then have "\<forall>y \<in> set xs. expires (timers (timer_held s) y) \<noteq> tick" by (auto simp: due_def filter_empty_conv)
  then show ?case
    using Nil timer_loop_skip [of "timer_held s" "thead s" xs "[]" tick call "tdaif s"]
    by (auto simp: timers_ready_def tlist_def timer_loop.simps [of _ _ _ NULL])
next
  case (Cons p ps)
  obtain ys zs where xs: "xs = ys @ p # zs" "\<forall>y \<in> set ys. expires (timers s y) \<noteq> tick" "expires (timers s p) = tick"
    using due_split Cons.prems(3) .
  have ch: "tchain (timers s) (thead s) (ys @ p # zs)" "distinct (ys @ p # zs)"
    "data0 (timerlist_lock s) = 0" "daif_wf (tdaif s)"
    using Cons.prems(1) by (simp_all add: xs timers_ready_def tlist_def)
  have "p \<noteq> NULL" using ch(1) chain_at [OF ch(1)] by (cases "ys = []") auto
  obtain s1 where s1: "del_timer_unlocked p s = Some s1" "removed p xs s s1"
    using Cons.prems(1) del_timer_list by (fastforce simp: timers_ready_def)
  have r1: "timers_ready s1 (remove1 p xs)" using removed_ready [OF s1(2) Cons.prems(1)] .
  have "remove1 p xs = ys @ zs" using ch(2) by (simp add: xs remove1_append)
  moreover have "due tick s1 q = due tick s q" for q
    using s1(2) by (simp add: due_def removed_def)
  ultimately have d1: "due tick s1 (remove1 p xs) = ps" using Cons.prems(3) xs by (simp add: due_def)
  have "p \<in> set xs" by (simp add: xs(1))
  then obtain s2 qs where s2: "call (tfunction (timers s1 p)) (tdata (timers s1 p)) s1 = Some s2"
    "timers_ready s2 qs" "due tick s2 qs = ps" "P s2 qs"
    using assms(1) Cons.prems(1,2) xs(3) s1(2) unfolding quiet_on_def d1 [symmetric] by metis
  obtain s' rs where s': "timer_loop call tick (tdaif s2) (thead s2) (timer_held s2) = Some (tdaif s', timer_held s')"
    "fold_opt (fire call) ps s2 = Some s'" "timers_ready s' rs" "P s' rs" "due tick s' rs = []"
    using Cons.IH [OF s2(2,4,3)] by blast
  have l: "tdaif s = tdaif s1" "data0 (timerlist_lock s1) = 0" "daif_wf (tdaif s1)" "data0 (timerlist_lock s2) = 0"
    using s1(2) ch(3,4) s2(2) by (simp_all add: removed_def timers_ready_def)
  have "timer_loop call tick (tdaif s) (thead s) (timer_held s) = timer_loop call tick (tdaif s) p (timer_held s)"
    using timer_loop_skip [of "timer_held s" "thead s" ys "p # zs"] ch(1) xs(2) by simp
  moreover have "\<dots> = Some (tdaif s', timer_held s')"
    using \<open>p \<noteq> NULL\<close> xs(3) s1(1) s2(1) s'(1) del_loop_held [OF ch(1)] timer_unlock_held [OF l(2,3)]
    by (subst timer_loop.simps) (simp add: del_timer_unlocked_def l(1) timer_lock_free [OF l(4)])
  moreover have "fire call p s = Some s2" using s1(1) s2(1) by (simp add: fire_def)
  ultimately show ?case using s'(2-) by auto
qed

lemma run_timer_softirq_on:
  assumes "timers_ready s xs" "P s xs" "quiet_on P call tick"
  shows "\<exists>s' ys. run_timer_softirq call tick s = Some s' \<and>
    fold_opt (fire call) (due tick s xs) s = Some s' \<and> timers_ready s' ys \<and> P s' ys \<and> due tick s' ys = []"
proof -
  obtain s' ys where s': "timer_loop call tick (tdaif s) (thead s) (timer_held s) = Some (tdaif s', timer_held s')"
    "fold_opt (fire call) (due tick s xs) s = Some s'" "timers_ready s' ys" "P s' ys" "due tick s' ys = []"
    using timer_loop_fire [OF assms(3,1,2) refl] by blast
  then have "timer_unlock (tdaif s') (timer_held s') = Some s'"
    by (intro timer_unlock_held) (auto simp: timers_ready_def)
  then show ?thesis
    using s' assms(1) by (auto simp: run_timer_softirq_def timers_ready_def timer_lock_free)
qed

text \<open>C16. At a tick, the timer soft interrupt expires exactly the timers of the list whose
  expiry equals the tick, each once, in list order: each is first taken off the list, then its
  function is called with its data and the lock released. With timer functions that leave the
  other timers due at this tick alone, the loop ends, no timer due at this tick is left, and
  the lock and the interrupt mask are as before.\<close>

theorem run_timer_softirq_expires:
  assumes "timers_ready s xs" "quiet call tick"
  shows "\<exists>s' ys. run_timer_softirq call tick s = Some s' \<and>
    fold_opt (fire call) (due tick s xs) s = Some s' \<and> timers_ready s' ys \<and> due tick s' ys = []"
  using run_timer_softirq_on [OF assms(1) TrueI quiet_quiet_on [OF assms(2)]] by blast

text \<open>A timer whose tick has been missed is not due at any later tick: it stays on the list.\<close>

lemma overdue_timer_kept:
  assumes "timers_ready s xs" "\<forall>p \<in> set xs. expires (timers s p) < tick"
  shows "run_timer_softirq call tick s = Some s"
proof -
  have ne: "\<forall>y \<in> set xs. expires (timers (timer_held s) y) \<noteq> tick" using assms(2) by auto
  have "timer_loop call tick (tdaif s) (thead s) (timer_held s) = Some (tdaif s, timer_held s)"
    using timer_loop_skip [of "timer_held s" "thead s" xs "[]" tick call "tdaif s"] ne assms(1)
    by (auto simp: timers_ready_def tlist_def timer_loop.simps [of _ _ _ NULL])
  then show ?thesis
    using assms(1) by (simp add: run_timer_softirq_def timers_ready_def timer_lock_free timer_unlock_held)
qed

definition demo_timers :: "(u64 \<times> u64) list tsys" where
  "demo_timers = \<lparr>timers = (\<lambda>p. if p = 100 then \<lparr>tnext = 200, expires = 5, tfunction = 1, tdata = 11\<rparr>
       else if p = 200 then \<lparr>tnext = 300, expires = 6, tfunction = 2, tdata = 22\<rparr>
       else \<lparr>tnext = 0, expires = 5, tfunction = 3, tdata = 33\<rparr>),
     thead = 100, timerlist_lock = \<lparr>data0 = 0, data1 = 0\<rparr>, tdaif = 0, trest = []\<rparr>"

definition note_call :: "u64 \<Rightarrow> u64 \<Rightarrow> (u64 \<times> u64) list tsys \<Rightarrow> (u64 \<times> u64) list tsys option" where
  "note_call f d s = Some (s\<lparr>trest := trest s @ [(f, d)]\<rparr>)"

theorem run_timer_softirq_expires_witness:
  "\<exists>s' ys. run_timer_softirq note_call 5 demo_timers = Some s' \<and> timers_ready s' ys \<and>
    fold_opt (fire note_call) [100, 300] demo_timers = Some s' \<and> due 5 s' ys = []"
proof -
  have r: "timers_ready demo_timers [100, 200, 300]"
    by (simp add: timers_ready_def tlist_def demo_timers_def daif_wf_def)
  have q: "quiet note_call 5"
    by (auto simp: quiet_def note_call_def timers_ready_def tlist_def due_def)
  have d: "due 5 demo_timers [100, 200, 300] = [100, 300]" by (simp add: due_def demo_timers_def)
  show ?thesis using run_timer_softirq_expires [OF r q] unfolding d by blast
qed

text \<open>\<^verbatim>\<open>mod_timer\<close> on a timer that may or may not be pending leaves it pending exactly once
  with the new expiry, and \<^verbatim>\<open>del_timer\<close> takes a timer off the list wherever it stands and is
  harmless when it is not pending; every other timer keeps its place, expiry, function and data.\<close>

theorem timer_list_ops:
  assumes "timers_ready s xs" "p \<noteq> NULL"
  shows "(\<exists>s'. del_timer p s = Some s' \<and> timers_ready s' (remove1 p xs) \<and> trest s' = trest s \<and>
      (\<forall>q. expires (timers s' q) = expires (timers s q))) \<and>
    (\<exists>s'. mod_timer p ex s = Some s' \<and> timers_ready s' (p # remove1 p xs) \<and> trest s' = trest s \<and>
      expires (timers s' p) = ex \<and>
      (\<forall>q. q \<noteq> p \<longrightarrow> expires (timers s' q) = expires (timers s q)))"
proof -
  obtain s' where "del_timer p s = Some s'" "removed p xs s s'" using del_timer_spec [OF assms] by blast
  then have "del_timer p s = Some s' \<and> timers_ready s' (remove1 p xs) \<and> trest s' = trest s \<and>
      (\<forall>q. expires (timers s' q) = expires (timers s q))"
    using removed_ready assms(1) by (auto simp: removed_def)
  then show ?thesis using mod_timer_spec [OF assms, of ex] by blast
qed

theorem timer_list_ops_witness:
  "\<exists>s'. mod_timer 200 9 demo_timers = Some s' \<and> timers_ready s' [200, 100, 300] \<and> expires (timers s' 200) = 9"
proof -
  have r: "timers_ready demo_timers [100, 200, 300]" "(200 :: u64) \<noteq> NULL"
    by (simp_all add: timers_ready_def tlist_def demo_timers_def daif_wf_def)
  from timer_list_ops [OF r, of 9] show ?thesis by auto
qed

end
