(* ===== verification/Kernel.thy ===== *)
theory Kernel
  imports Brk Uart Softirq Timer
begin

text \<open>
  The kernel as a whole, as one CPU runs it: the interrupt handler, the dispatch of exceptions and system calls, and the system
  calls that sleep (\<^verbatim>\<open>kernel/isr.c\<close>, with \<^verbatim>\<open>schedule_timeout\<close> and \<^verbatim>\<open>msleep\<close> of \<^verbatim>\<open>kernel/sched.c\<close>). The state joins the components;
  the interrupt mask of the CPU is \<open>tdaif\<close>, and every component works on that one.

  A call of \<^verbatim>\<open>schedule()\<close> in the middle of a function returns only when the scheduler has chosen the calling task again. What the CPU
  does in between, for other tasks and for interrupts, is the argument \<open>env\<close> of the functions that call it.
\<close>

unbundle bit_operations_syntax

section \<open>State\<close>

text \<open>Addresses that the linker or the kernel stack provides: functions named by pointers, the wait queue of the UART, the local
  objects whose address is passed on, and the task structures.\<close>

record kimage =
  ki_run_timer :: u64
  ki_process_timeout :: u64
  ki_ret_from_fork :: u64
  ki_uib_wq_head :: u64
  ki_read_buf :: u64
  ki_timer :: u64
  ki_wq_entry :: u64
  ki_task_addr :: "task_ptr \<Rightarrow> u64"
  ki_task_at :: "u64 \<Rightarrow> task_ptr"

record kern =
  kvm :: vmsys
  kuart :: uart
  ksoft :: softirq
  khw :: hw_timer
  irq_trigger_count :: "nat \<Rightarrow> nat \<Rightarrow> u64"
  gicc_eoir :: "u32 list"
  rtc_icr :: "u32 list"

type_synonym ksys = "kern tsys"

type_synonym kenv = "ksys \<Rightarrow> ksys option"

definition ksched :: "ksys \<Rightarrow> sched" where
  "ksched s = vm_sched (kvm (trest s))"

definition current :: "ksys \<Rightarrow> task_ptr" where
  "current s = get_current_proc (ksched s)"

definition upd_kern :: "(kern \<Rightarrow> kern) \<Rightarrow> ksys \<Rightarrow> ksys" where
  "upd_kern f s = s\<lparr>trest := f (trest s)\<rparr>"

text \<open>Running an operation of a component.\<close>

definition with_vm :: "(vmsys \<Rightarrow> ('a \<times> vmsys) option) \<Rightarrow> ksys \<Rightarrow> ('a \<times> ksys) option" where
  "with_vm f s = do {
     let v = kvm (trest s);
     (r, v) \<leftarrow> f (v\<lparr>vm_sched := (vm_sched v)\<lparr>daif := tdaif s\<rparr>\<rparr>);
     Some (r, upd_kern (\<lambda>k. k\<lparr>kvm := v\<rparr>) (s\<lparr>tdaif := daif (vm_sched v)\<rparr>)) }"

definition do_vm :: "(vmsys \<Rightarrow> vmsys option) \<Rightarrow> ksys \<Rightarrow> ksys option" where
  "do_vm f s = do { (r, s) \<leftarrow> with_vm (\<lambda>v. map_option (\<lambda>v. ((), v)) (f v)) s; Some s }"

definition do_sched :: "(sched \<Rightarrow> sched option) \<Rightarrow> ksys \<Rightarrow> ksys option" where
  "do_sched f = do_vm (\<lambda>v. map_option (\<lambda>sc. v\<lparr>vm_sched := sc\<rparr>) (f (vm_sched v)))"

definition do_uart :: "(sched \<times> uart \<Rightarrow> (sched \<times> uart) option) \<Rightarrow> ksys \<Rightarrow> ksys option" where
  "do_uart f s = do {
     (sc, u) \<leftarrow> f ((ksched s)\<lparr>daif := tdaif s\<rparr>, kuart (trest s));
     Some (upd_kern (\<lambda>k. k\<lparr>kvm := (kvm k)\<lparr>vm_sched := sc\<rparr>, kuart := u\<rparr>) (s\<lparr>tdaif := daif sc\<rparr>)) }"

definition do_wait :: "(sched \<times> waitq \<Rightarrow> (sched \<times> waitq) option) \<Rightarrow> ksys \<Rightarrow> ksys option" where
  "do_wait f = do_uart (\<lambda>(sc, u). map_option (\<lambda>(sc, w). (sc, u\<lparr>uq := w\<rparr>)) (f (sc, uq u)))"

definition k_set_state :: "task_ptr \<Rightarrow> process_state \<Rightarrow> ksys \<Rightarrow> ksys option" where
  "k_set_state t st = do_sched (set_task_state t st)"

definition resched :: "kenv \<Rightarrow> ksys \<Rightarrow> ksys option" where
  "resched env s = do { s \<leftarrow> do_sched schedule s; env s }"

definition ktick :: "ksys \<Rightarrow> u64" where
  "ktick s = get_tick (khw (trest s))"

definition kreg :: "u64 \<Rightarrow> nat \<Rightarrow> ksys \<Rightarrow> u64" where
  "kreg regs i s = pt_reg regs i (kvm (trest s))"

definition set_kreg :: "u64 \<Rightarrow> nat \<Rightarrow> u64 \<Rightarrow> ksys \<Rightarrow> ksys" where
  "set_kreg regs i v = upd_kern (\<lambda>k. k\<lparr>kvm := set_pt_reg regs i v (kvm k)\<rparr>)"

section \<open>Timeouts\<close>

definition process_timeout :: "kimage \<Rightarrow> u64 \<Rightarrow> ksys \<Rightarrow> ksys option" where
  "process_timeout ki d = k_set_state (ki_task_at ki d) RUNNING"

text \<open>The call of a timer function; \<^verbatim>\<open>process_timeout\<close> is the only one of the kernel outside its test code.\<close>

definition timer_call :: "kimage \<Rightarrow> u64 \<Rightarrow> u64 \<Rightarrow> ksys \<Rightarrow> ksys option" where
  "timer_call ki f d s = (if f = ki_process_timeout ki then process_timeout ki d s else None)"

text \<open>\<^verbatim>\<open>expires\<close> has 32 bits, the tick 64; the result is the low half of the difference as an \<^verbatim>\<open>int\<close>, or 0.\<close>

definition timeout_expires :: "u32 \<Rightarrow> u64 \<Rightarrow> u32" where
  "timeout_expires timeout t = ucast (ucast timeout + t)"

definition arm_timeout :: "kimage \<Rightarrow> u32 \<Rightarrow> ksys \<Rightarrow> ksys option" where
  "arm_timeout ki timeout s = do {
     let ex = timeout_expires timeout (ktick s);
     let p = ki_timer ki;
     let s = init_timer p s;
     let s = upd_timer p (\<lambda>t. t\<lparr>expires := ucast ex, tfunction := ki_process_timeout ki,
                                tdata := ki_task_addr ki (current s)\<rparr>) s;
     add_timer p s }"

definition schedule_timeout :: "kimage \<Rightarrow> kenv \<Rightarrow> u32 \<Rightarrow> ksys \<Rightarrow> (int \<times> ksys) option" where
  "schedule_timeout ki env timeout s = do {
     let ex = timeout_expires timeout (ktick s);
     s \<leftarrow> arm_timeout ki timeout s;
     s \<leftarrow> resched env s;
     s \<leftarrow> del_timer (ki_timer ki) s;
     let delta = sint (ucast (ucast ex - ktick s) :: u32);
     Some (if delta < 0 then 0 else delta, s) }"

partial_function (option) msleep_loop :: "kimage \<Rightarrow> kenv \<Rightarrow> int \<Rightarrow> ksys \<Rightarrow> ksys option" where
  "msleep_loop ki env timeout s =
    (if timeout \<noteq> 0 then do {
       s \<leftarrow> k_set_state (current s) SLEEPING s;
       (timeout, s) \<leftarrow> schedule_timeout ki env (of_int timeout) s;
       msleep_loop ki env timeout s }
     else Some s)"

definition msleep :: "kimage \<Rightarrow> kenv \<Rightarrow> u32 \<Rightarrow> ksys \<Rightarrow> ksys option" where
  "msleep ki env msecs = msleep_loop ki env (sint ((msecs + of_nat TICK - 1) div of_nat TICK))"


section \<open>Interrupts\<close>

definition MAX_NUM_INTERRUPTS :: nat where "MAX_NUM_INTERRUPTS = 64"
definition IRQ_TIMER :: nat where "IRQ_TIMER = 30"
definition IRQ_UART :: nat where "IRQ_UART = 33"
definition IRQ_RTC :: nat where "IRQ_RTC = 34"
definition IRQ_SPURIOUS :: nat where "IRQ_SPURIOUS = 1023"

text \<open>What the handler reads from the devices: the acknowledge register of the GIC, and the status (twice) and data registers of the UART.\<close>

record irq_input =
  gicc_iar :: u32
  uart_mis :: u32
  uart_dr :: u32
  uart_mis' :: u32

datatype isr = Handle_timer_irq | Handle_uart_irq | Handle_rtc_irq

definition isr_func :: "nat \<Rightarrow> isr option" where
  "isr_func irq = (if irq = IRQ_TIMER then Some Handle_timer_irq else if irq = IRQ_UART then Some Handle_uart_irq
     else if irq = IRQ_RTC then Some Handle_rtc_irq else None)"

definition handle_rtc_irq :: "ksys \<Rightarrow> ksys" where
  "handle_rtc_irq = upd_kern (\<lambda>k. k\<lparr>rtc_icr := rtc_icr k @ [1]\<rparr>)"

text \<open>The tick, on the soft interrupt state of this CPU.\<close>

definition on_this_cpu :: "ksys \<Rightarrow> softirq" where
  "on_this_cpu s = (ksoft (trest s))\<lparr>si_core := core_id (ksched s), si_daif := tdaif s\<rparr>"

definition k_timer_irq :: "ksys \<Rightarrow> ksys" where
  "k_timer_irq s =
    (let (h, so) = handle_timer_irq (khw (trest s), on_this_cpu s)
     in upd_kern (\<lambda>k. k\<lparr>khw := h, ksoft := so\<rparr>) (s\<lparr>tdaif := si_daif so\<rparr>))"

definition run_isr :: "kimage \<Rightarrow> (u8 \<Rightarrow> sched \<times> uart \<Rightarrow> (sched \<times> uart) option) \<Rightarrow> irq_input \<Rightarrow> isr \<Rightarrow> ksys \<Rightarrow> ksys option" where
  "run_isr ki report i f s =
    (case f of Handle_timer_irq \<Rightarrow> Some (k_timer_irq s)
     | Handle_uart_irq \<Rightarrow>
         do_uart (handle_uart_irq report (ki_uib_wq_head ki) (ki_read_buf ki) (uart_mis i) (uart_dr i) (uart_mis' i)) s
     | Handle_rtc_irq \<Rightarrow> Some (handle_rtc_irq s))"

text \<open>\<^verbatim>\<open>do_softirq\<close> with the one soft interrupt of the kernel, \<^verbatim>\<open>run_timer_softirq\<close>.\<close>

definition softirq_call :: "kimage \<Rightarrow> u64 \<Rightarrow> softirq \<times> ksys \<Rightarrow> (softirq \<times> ksys) option" where
  "softirq_call ki f = (\<lambda>(so, s).
     if f = ki_run_timer ki then do {
       s \<leftarrow> run_timer_softirq (timer_call ki) (ktick s) (s\<lparr>tdaif := si_daif so\<rparr>);
       Some (so\<lparr>si_daif := tdaif s\<rparr>, s) }
     else None)"

definition k_do_softirq :: "kimage \<Rightarrow> ksys \<Rightarrow> ksys option" where
  "k_do_softirq ki s = do {
     (so, s) \<leftarrow> do_softirq (softirq_call ki) (on_this_cpu s, s);
     Some (upd_kern (\<lambda>k. k\<lparr>ksoft := so\<rparr>) (s\<lparr>tdaif := si_daif so\<rparr>)) }"

definition count_irq :: "nat \<Rightarrow> ksys \<Rightarrow> ksys" where
  "count_irq irq s = upd_kern (\<lambda>k. k\<lparr>irq_trigger_count := (irq_trigger_count k)(core_id (ksched s) :=
     (irq_trigger_count k (core_id (ksched s)))(irq := irq_trigger_count k (core_id (ksched s)) irq + 1))\<rparr>) s"

text \<open>The accounting of a tick, and the round of the scheduler after it, for user code and for the idle task.\<close>

definition account_tick :: "u64 \<Rightarrow> ksys \<Rightarrow> ksys" where
  "account_tick regs s =
    (let upd = (if user_mode regs (kvm (trest s)) then (\<lambda>t. t\<lparr>utime := utime t + 1\<rparr>) else (\<lambda>t. t\<lparr>stime := stime t + 1\<rparr>))
     in upd_kern (\<lambda>k. k\<lparr>kvm := upd_task_vm (current s) upd (kvm k)\<rparr>) s)"

definition tick_resched :: "kenv \<Rightarrow> u64 \<Rightarrow> ksys \<Rightarrow> ksys option" where
  "tick_resched env regs s =
    (let cur = current s; in_user_mode = user_mode regs (kvm (trest s)); s = account_tick regs s
     in if in_user_mode \<or> pid (task_of (ksched s) cur) = 0 then do {
          s \<leftarrow> resched env (s\<lparr>tdaif := enable_irq (tdaif s)\<rparr>);
          Some (s\<lparr>tdaif := disable_irq (tdaif s)\<rparr>) }
        else Some s)"

definition irq_handler ::
  "kimage \<Rightarrow> kenv \<Rightarrow> (u8 \<Rightarrow> sched \<times> uart \<Rightarrow> (sched \<times> uart) option) \<Rightarrow> irq_input \<Rightarrow> u64 \<Rightarrow> ksys \<Rightarrow> ksys option" where
  "irq_handler ki env report i regs s =
    (let irq = unat (gicc_iar i)
     in if irq = IRQ_SPURIOUS then Some s
        else do {
          s \<leftarrow> (if irq < MAX_NUM_INTERRUPTS then
                  (case isr_func irq of Some f \<Rightarrow> run_isr ki report i f (count_irq irq s) | None \<Rightarrow> Some s)
                else Some s);
          let s = upd_kern (\<lambda>k. k\<lparr>gicc_eoir := gicc_eoir k @ [gicc_iar i]\<rparr>) s;
          s \<leftarrow> (if irq = IRQ_TIMER then tick_resched env regs s else Some s);
          k_do_softirq ki s })"

section \<open>System calls that sleep or do input and output\<close>

definition sys_pause :: "kenv \<Rightarrow> u64 \<Rightarrow> ksys \<Rightarrow> ksys option" where
  "sys_pause env regs s = do {
     s \<leftarrow> k_set_state (current s) SLEEPING s;
     s \<leftarrow> resched env s;
     Some (set_kreg regs 0 (-1) s) }"

text \<open>\<^verbatim>\<open>long\<close> arithmetic, then 32 bits; an overflow of the \<^verbatim>\<open>long\<close> is undefined.\<close>

definition timespec_to_jiffies :: "int \<Rightarrow> int \<Rightarrow> u32 option" where
  "timespec_to_jiffies tv_sec tv_nsec =
    (let n = tv_nsec + int TICK * 1000000 - 1; ticks = tv_sec * int HZ + sgn n * (\<bar>n\<bar> * int HZ div 1000000000)
     in if \<bar>tv_sec * int HZ\<bar> < 2 ^ 63 \<and> \<bar>n * int HZ\<bar> < 2 ^ 63 \<and> \<bar>ticks\<bar> < 2 ^ 63 then Some (of_int ticks) else None)"

definition user_long :: "u64 \<Rightarrow> vmsys \<Rightarrow> int option" where
  "user_long a v = map_option (\<lambda>bs. sint (of_le bs :: u64)) (copy_from_user a 8 v)"

partial_function (option) nanosleep_loop :: "kimage \<Rightarrow> kenv \<Rightarrow> u32 \<Rightarrow> int \<Rightarrow> int \<Rightarrow> ksys \<Rightarrow> ksys option" where
  "nanosleep_loop ki env end_tick ret timeout s =
    (if ret \<noteq> 0 \<and> 0 < timeout then do {
       (ret, s) \<leftarrow> schedule_timeout ki env (of_int timeout) s;
       let timeout = sint (ucast (scast end_tick - ktick s) :: u32);
       nanosleep_loop ki env end_tick ret timeout s }
     else Some s)"

definition sys_nanosleep :: "kimage \<Rightarrow> kenv \<Rightarrow> u64 \<Rightarrow> ksys \<Rightarrow> ksys option" where
  "sys_nanosleep ki env regs s = do {
     let req = kreg regs 0 s;
     let rem = kreg regs 1 s;
     tv_sec \<leftarrow> user_long req (kvm (trest s));
     tv_nsec \<leftarrow> user_long (req + 8) (kvm (trest s));
     timeout \<leftarrow> timespec_to_jiffies tv_sec tv_nsec;
     if sint timeout \<le> 0 then Some (set_kreg regs 0 (-1) s)
     else do {
       let end_tick = ucast (scast timeout + ktick s);
       s \<leftarrow> k_set_state (current s) SLEEPING s;
       s \<leftarrow> nanosleep_loop ki env end_tick (-1) (sint timeout) s;
       s \<leftarrow> do_vm (copy_to_user rem (replicate 16 0)) s;
       Some (set_kreg regs 0 0 s) } }"


text \<open>The lock of the input buffer.\<close>

definition lock_input :: "ksys \<Rightarrow> (u64 \<times> ksys) option" where
  "lock_input s = do {
     (flags, d, l) \<leftarrow> spin_lock_irqsave (tdaif s) (Some (uib_lock (kuart (trest s))));
     Some (flags, upd_kern (\<lambda>k. k\<lparr>kuart := (kuart k)\<lparr>uib_lock := the l\<rparr>\<rparr>) (s\<lparr>tdaif := d\<rparr>)) }"

definition unlock_input :: "u64 \<Rightarrow> ksys \<Rightarrow> ksys option" where
  "unlock_input flags s = do {
     (d, l) \<leftarrow> spin_unlock_irqrestore (tdaif s) (Some (uib_lock (kuart (trest s)))) flags;
     Some (upd_kern (\<lambda>k. k\<lparr>kuart := (kuart k)\<lparr>uib_lock := the l\<rparr>\<rparr>) (s\<lparr>tdaif := d\<rparr>)) }"

partial_function (option) read_wait_loop :: "kenv \<Rightarrow> task_ptr \<Rightarrow> u64 \<Rightarrow> ksys \<Rightarrow> (u64 \<times> ksys) option" where
  "read_wait_loop env cur flags s =
    (if line_ready (kuart (trest s)) then Some (flags, s)
     else do {
       s \<leftarrow> unlock_input flags s;
       s \<leftarrow> k_set_state cur SLEEPING s;
       s \<leftarrow> resched env s;
       r \<leftarrow> lock_input s;
       read_wait_loop env cur (fst r) (snd r) })"

definition wait_for_line :: "kimage \<Rightarrow> kenv \<Rightarrow> task_ptr \<Rightarrow> u64 \<Rightarrow> ksys \<Rightarrow> (u64 \<times> ksys) option" where
  "wait_for_line ki env cur flags s = do {
     s \<leftarrow> do_wait (\<lambda>(sc, w). add_wait_queue (ki_uib_wq_head ki) (ki_wq_entry ki)
             (sc, init_waitqueue_entry (ki_wq_entry ki) cur w)) s;
     s \<leftarrow> k_set_state cur SLEEPING s;
     (flags, s) \<leftarrow> read_wait_loop env cur flags s;
     s \<leftarrow> k_set_state cur RUNNING s;
     s \<leftarrow> do_wait (remove_wait_queue (ki_uib_wq_head ki) (ki_wq_entry ki)) s;
     Some (flags, s) }"

definition read_stdin :: "kimage \<Rightarrow> kenv \<Rightarrow> u64 \<Rightarrow> u64 \<Rightarrow> ksys \<Rightarrow> (int \<times> ksys) option" where
  "read_stdin ki env buf count s = do {
     let cur = current s;
     (flags, s) \<leftarrow> lock_input s;
     (flags, s) \<leftarrow> (if \<not> line_ready (kuart (trest s)) then wait_for_line ki env cur flags s else Some (flags, s));
     let u = kuart (trest s);
     if count < of_nat (uib_index u) then do { s \<leftarrow> unlock_input flags s; Some (-1, s) }
     else do {
       let copy_len = uib_index u;
       s \<leftarrow> do_vm (copy_to_user buf (take copy_len (uart_in_buf u))) s;
       let s = upd_kern (\<lambda>k. k\<lparr>kuart := (kuart k)\<lparr>uib_index := 0\<rparr>\<rparr>) s;
       s \<leftarrow> unlock_input flags s;
       Some (int copy_len, s) } }"

definition sys_read :: "kimage \<Rightarrow> kenv \<Rightarrow> u64 \<Rightarrow> ksys \<Rightarrow> ksys option" where
  "sys_read ki env regs s = do {
     let fd = (ucast (kreg regs 0 s) :: u32);
     (ret, s) \<leftarrow> (if fd = 0 then read_stdin ki env (kreg regs 1 s) (kreg regs 2 s) s else Some (-1, s));
     Some (set_kreg regs 0 (of_int ret) s) }"

text \<open>The counter of the loop is an \<^verbatim>\<open>int\<close>: more than \<^verbatim>\<open>INT_MAX\<close> bytes overflow it.\<close>

function write_stdout_loop :: "u64 \<Rightarrow> nat \<Rightarrow> nat \<Rightarrow> ksys \<Rightarrow> ksys option" where
  "write_stdout_loop buf i count s =
    (if i < count then
       (if i = 2 ^ 31 then None
        else do {
          b \<leftarrow> user_load (kvm (trest s)) (buf + of_nat i);
          write_stdout_loop buf (i + 1) count (upd_kern (\<lambda>k. k\<lparr>kuart := write_char_uart b (kuart k)\<rparr>) s) })
     else Some s)"
  by pat_completeness auto
termination
  by (relation "measure (\<lambda>(buf, i, count, s). count - i)") auto

declare write_stdout_loop.simps [simp del]

definition write_stdout :: "u64 \<Rightarrow> u64 \<Rightarrow> ksys \<Rightarrow> (u64 \<times> ksys) option" where
  "write_stdout buf count s = map_option (\<lambda>s. (count, s)) (write_stdout_loop buf 0 (unat count) s)"

definition sys_write :: "u64 \<Rightarrow> ksys \<Rightarrow> ksys option" where
  "sys_write regs s = do {
     let fd = (ucast (kreg regs 0 s) :: u32);
     (ret, s) \<leftarrow> (if fd = 1 then write_stdout (kreg regs 1 s) (kreg regs 2 s) s else Some (-1, s));
     Some (set_kreg regs 0 (scast (ucast ret :: u32)) s) }"

section \<open>Exceptions\<close>

definition MAX_NUM_SYSCALLS :: u64 where "MAX_NUM_SYSCALLS = 64"
definition ENOSYS :: u64 where "ENOSYS = 38"

definition syscall_func :: "kimage \<Rightarrow> kenv \<Rightarrow> u64 \<Rightarrow> (u64 \<Rightarrow> ksys \<Rightarrow> ksys option) option" where
  "syscall_func ki env n =
    (if n = 0 then Some (\<lambda>regs. do_vm (sys_fork (ki_ret_from_fork ki) regs))
     else if n = 1 then Some (\<lambda>regs. do_vm (sys_brk regs))
     else if n = 2 then Some (\<lambda>regs. do_vm (sys_exit regs))
     else if n = 3 then Some (sys_nanosleep ki env)
     else if n = 4 then Some (sys_pause env)
     else if n = 5 then Some (sys_read ki env)
     else if n = 6 then Some sys_write
     else None)"

definition do_el0_sync :: "kimage \<Rightarrow> kenv \<Rightarrow> u64 \<Rightarrow> u64 \<Rightarrow> u64 \<Rightarrow> ksys \<Rightarrow> ksys option" where
  "do_el0_sync ki env addr esr regs s =
    (if is_svc esr then
       let s = set_kreg regs PT_ORIG_X0 (kreg regs 0 s) s;
           s = set_kreg regs PT_SYSCALLNO (kreg regs 8 s) s
       in if MAX_NUM_SYSCALLS \<le> kreg regs PT_SYSCALLNO s then Some (set_kreg regs 0 (- ENOSYS) s)
          else (case syscall_func ki env (kreg regs PT_SYSCALLNO s) of
              None \<Rightarrow> Some (set_kreg regs 0 (- ENOSYS) s)
            | Some f \<Rightarrow> f regs s)
     else do_vm (el0_fault addr) s)"

text \<open>Apart from its messages, the handler for exceptions of the kernel returns to the faulting instruction, or panics.\<close>

definition do_el1_sync :: "u64 \<Rightarrow> ksys \<Rightarrow> ksys option" where
  "do_el1_sync esr s = (if is_kernel_inst_abort esr \<or> is_kernel_data_abort esr then None else Some s)"


section \<open>A small kernel\<close>

text \<open>An instance for examples: process 1 runs, and process 4 sleeps until tick 1.\<close>

definition demo_image :: kimage where
  "demo_image = \<lparr>ki_run_timer = 0x1000, ki_process_timeout = 0x2000, ki_ret_from_fork = 0x3000, ki_uib_wq_head = 0x4000,
     ki_read_buf = 0x5000, ki_timer = 0x6000, ki_wq_entry = 0x7000,
     ki_task_addr = (\<lambda>t. case t of NoTask \<Rightarrow> 0 | Task i \<Rightarrow> 2 * of_nat i + 1 | Swapper i \<Rightarrow> 2 * of_nat i + 2),
     ki_task_at = (\<lambda>a. if a = 0 then NoTask else if odd (unat a) then Task (unat a div 2) else Swapper (unat a div 2 - 1))\<rparr>"

definition demo_sched :: sched where
  "demo_sched = (boot_sched (kheap_start (\<lambda>_. 0)))\<lparr>thread_info_task := \<lambda>_. Task 0, stack_words := \<lambda>_. 5,
     tasks := (\<lambda>_. zero_task)(0 := zero_task\<lparr>pid := 1, task_in_use := True, state := RUNNING\<rparr>,
       3 := zero_task\<lparr>pid := 4, task_in_use := True, state := SLEEPING\<rparr>)\<rparr>"

definition demo_uart :: uart where
  "demo_uart = init_uart 0x4000 0 (raw_uart \<lparr>cbuf = \<lparr>cb_buffer = 0, cb_length = 0, cb_rp = 0, cb_wp = 0\<rparr>,
     cbuf_rlock = \<lparr>data0 = 0, data1 = 0\<rparr>, cbuf_wlock = \<lparr>data0 = 0, data1 = 0\<rparr>, write_overflow = False\<rparr>)"

definition demo_kernel :: ksys where
  "demo_kernel = \<lparr>timers = \<lambda>_. \<lparr>tnext = 0, expires = 1, tfunction = 0x2000, tdata = 7\<rparr>, thead = 0x6000,
     timerlist_lock = \<lparr>data0 = 0, data1 = 0\<rparr>, tdaif = 0,
     trest = \<lparr>kvm = (as_start (kheap_start (\<lambda>_. 0)) 0)\<lparr>vm_sched := demo_sched\<rparr>, kuart = demo_uart,
       ksoft = \<lparr>softirq_vec = \<lambda>_. 0x1000, nested_softirq_count = \<lambda>_. 0, softirq_pending = \<lambda>_. 0, si_core = 0, si_daif = 0\<rparr>,
       khw = \<lparr>tick = 0, cntp_tval = 0, cntp_ctl = 0\<rparr>, irq_trigger_count = \<lambda>_ _. 0, gicc_eoir = [], rtc_icr = []\<rparr>\<rparr>"

lemma demo_kernel_fields:
  "ksched demo_kernel = demo_sched" "current demo_kernel = Task 0" "ktick demo_kernel = 0" "kuart (trest demo_kernel) = demo_uart"
  "task_of demo_sched (Task 0) = zero_task\<lparr>pid := 1, task_in_use := True, state := RUNNING\<rparr>"
  "task_of demo_sched (Task 3) = zero_task\<lparr>pid := 4, task_in_use := True, state := SLEEPING\<rparr>"
  "core_id demo_sched = 0" "data0 (tasks_lock demo_sched) = 0" "stack_words demo_sched = (\<lambda>_. 5)"
  "timers_ready demo_kernel [0x6000]"
  by (simp_all add: demo_kernel_def demo_sched_def ksched_def current_def get_current_proc_def ktick_def get_tick_def task_of_def
      boot_fields timers_ready_def tlist_def daif_wf_def)

end
