(* ===== verification/Wakeup.thy ===== *)
theory Wakeup
  imports Kernel
begin

text \<open>
  What a timer interrupt does to the kernel as a whole: the tick, the accounting, and the timers of sleeping tasks that are due.
\<close>

section \<open>Changing the state of tasks\<close>

lemma do_sched_eq:
  "do_sched f s = do {
     sc \<leftarrow> f ((ksched s)\<lparr>daif := tdaif s\<rparr>);
     Some (upd_kern (\<lambda>k. k\<lparr>kvm := (kvm k)\<lparr>vm_sched := sc\<rparr>\<rparr>) (s\<lparr>tdaif := daif sc\<rparr>)) }"
  by (cases "f ((ksched s)\<lparr>daif := tdaif s\<rparr>)")
    (simp_all add: do_sched_def do_vm_def with_vm_def ksched_def upd_kern_def Let_def)

text \<open>The two states differ only in the state of the tasks of \<open>T\<close>.\<close>

definition task_states :: "process_state \<Rightarrow> task_ptr set \<Rightarrow> ksys \<Rightarrow> ksys \<Rightarrow> bool" where
  "task_states st T s s' \<longleftrightarrow>
    (\<exists>d f g. ksched s' = (ksched s)\<lparr>daif := d, tasks := f, swapper_task_struct := g\<rparr>) \<and>
    trest s' = (trest s)\<lparr>kvm := (kvm (trest s))\<lparr>vm_sched := ksched s'\<rparr>\<rparr> \<and> tdaif s' = tdaif s \<and>
    (\<forall>t. task_of (ksched s') t = (if t \<in> T \<and> t \<noteq> NoTask then (task_of (ksched s) t)\<lparr>state := st\<rparr> else task_of (ksched s) t))"

lemma task_states_refl:
  assumes "trest s' = trest s" "tdaif s' = tdaif s"
  shows "task_states st {} s s'"
proof -
  have "ksched s' = (ksched s)\<lparr>daif := daif (ksched s), tasks := tasks (ksched s), swapper_task_struct := swapper_task_struct (ksched s)\<rparr>"
    using assms by (simp add: ksched_def)
  then have "\<exists>d f g. ksched s' = (ksched s)\<lparr>daif := d, tasks := f, swapper_task_struct := g\<rparr>" by blast
  then show ?thesis unfolding task_states_def using assms by (simp add: ksched_def)
qed

lemma task_states_trans:
  assumes "task_states st S s s'" "task_states st T s' s''"
  shows "task_states st (S \<union> T) s s''"
proof -
  obtain d f g where a: "ksched s' = (ksched s)\<lparr>daif := d, tasks := f, swapper_task_struct := g\<rparr>"
    using assms(1) unfolding task_states_def by blast
  obtain d' f' g' where b: "ksched s'' = (ksched s')\<lparr>daif := d', tasks := f', swapper_task_struct := g'\<rparr>"
    using assms(2) unfolding task_states_def by blast
  have "ksched s'' = (ksched s)\<lparr>daif := d', tasks := f', swapper_task_struct := g'\<rparr>" unfolding b a by simp
  then have "\<exists>d f g. ksched s'' = (ksched s)\<lparr>daif := d, tasks := f, swapper_task_struct := g\<rparr>" by blast
  moreover have "trest s'' = (trest s)\<lparr>kvm := (kvm (trest s))\<lparr>vm_sched := ksched s''\<rparr>\<rparr>" "tdaif s'' = tdaif s"
    using assms by (simp_all add: task_states_def)
  moreover have "task_of (ksched s'') t =
      (if t \<in> S \<union> T \<and> t \<noteq> NoTask then (task_of (ksched s) t)\<lparr>state := st\<rparr> else task_of (ksched s) t)" for t
    using assms by (auto simp: task_states_def)
  ultimately show ?thesis unfolding task_states_def by blast
qed

lemma task_states_fields:
  assumes "task_states st T s s'"
  shows "tasks_lock (ksched s') = tasks_lock (ksched s)" "core_id (ksched s') = core_id (ksched s)" "current s' = current s"
    "khw (trest s') = khw (trest s)" "ksoft (trest s') = ksoft (trest s)" "kuart (trest s') = kuart (trest s)"
    "gicc_eoir (trest s') = gicc_eoir (trest s)" "stack_words (ksched s') = stack_words (ksched s)" "tdaif s' = tdaif s"
    "irq_trigger_count (trest s') = irq_trigger_count (trest s)"
proof -
  obtain d f g where a: "ksched s' = (ksched s)\<lparr>daif := d, tasks := f, swapper_task_struct := g\<rparr>"
    using assms unfolding task_states_def by blast
  then show "tasks_lock (ksched s') = tasks_lock (ksched s)" "core_id (ksched s') = core_id (ksched s)" "current s' = current s"
    "stack_words (ksched s') = stack_words (ksched s)"
    by (simp_all add: current_def get_current_proc_def current_thread_info_def)
  show "khw (trest s') = khw (trest s)" "ksoft (trest s') = ksoft (trest s)" "kuart (trest s') = kuart (trest s)"
    "gicc_eoir (trest s') = gicc_eoir (trest s)" "tdaif s' = tdaif s" "irq_trigger_count (trest s') = irq_trigger_count (trest s)"
    using assms by (simp_all add: task_states_def)
qed

lemma k_set_state_run:
  assumes "daif_wf (tdaif s)" "data0 (tasks_lock (ksched s)) = 0" "st \<noteq> NUM_PROC_STATES"
  shows "\<exists>s'. k_set_state t st s = Some s' \<and> task_states st {t} s s' \<and>
    timers s' = timers s \<and> thead s' = thead s \<and> timerlist_lock s' = timerlist_lock s"
proof -
  let ?sc = "upd_task t (\<lambda>k. k\<lparr>state := st\<rparr>) ((ksched s)\<lparr>daif := tdaif s\<rparr>)"
  let ?s = "upd_kern (\<lambda>k. k\<lparr>kvm := (kvm k)\<lparr>vm_sched := ?sc\<rparr>\<rparr>) s"
  have d: "daif ?sc = tdaif s" "tasks_lock ?sc = tasks_lock (ksched s)"
    by (simp_all add: upd_task_def split: task_ptr.splits)
  have "?sc\<lparr>daif := tdaif s, tasks_lock := tasks_lock (ksched s)\<rparr> = ?sc" using d by (metis sched.surjective sched.update_convs(2,6))
  then have "set_task_state t st ((ksched s)\<lparr>daif := tdaif s\<rparr>) = Some ?sc"
    using assms by (cases t) (simp_all add: set_task_state_def locked_irqsave_free upd_task_def)
  then have run: "k_set_state t st s = Some ?s" using d(1) by (simp add: k_set_state_def do_sched_eq)
  have ks: "ksched ?s = ?sc" by (simp add: ksched_def upd_kern_def)
  have "\<exists>d f g. ?sc = (ksched s)\<lparr>daif := d, tasks := f, swapper_task_struct := g\<rparr>"
  proof (cases t)
    case NoTask
    then have "?sc = (ksched s)\<lparr>daif := tdaif s, tasks := tasks (ksched s), swapper_task_struct := swapper_task_struct (ksched s)\<rparr>"
      by (simp add: upd_task_def)
    then show ?thesis by blast
  next
    case (Task i)
    then have "?sc = (ksched s)\<lparr>daif := tdaif s, tasks := (tasks (ksched s))(i := (tasks (ksched s) i)\<lparr>state := st\<rparr>),
        swapper_task_struct := swapper_task_struct (ksched s)\<rparr>" by (simp add: upd_task_def)
    then show ?thesis by blast
  next
    case (Swapper i)
    then have "?sc = (ksched s)\<lparr>daif := tdaif s, tasks := tasks (ksched s),
        swapper_task_struct := (swapper_task_struct (ksched s))(i := (swapper_task_struct (ksched s) i)\<lparr>state := st\<rparr>)\<rparr>"
      by (simp add: upd_task_def)
    then show ?thesis by blast
  qed
  moreover have "task_of ?sc u = (if u \<in> {t} \<and> u \<noteq> NoTask then (task_of (ksched s) u)\<lparr>state := st\<rparr> else task_of (ksched s) u)" for u
    by (simp add: task_of_def upd_task_def split: task_ptr.splits)
  ultimately have "task_states st {t} s ?s" unfolding task_states_def ks by (simp add: upd_kern_def)
  then show ?thesis using run by (auto simp: upd_kern_def)
qed


section \<open>Timers of sleeping tasks\<close>

definition sleeper :: "kimage \<Rightarrow> ksys \<Rightarrow> u64 \<Rightarrow> task_ptr" where
  "sleeper ki s p = ki_task_at ki (tdata (timers s p))"

text \<open>The state in the middle of a round of expiries that started in \<open>s\<^sub>0\<close> with the timers \<open>xs\<^sub>0\<close>: the timers that are gone were due, and
  their tasks are runnable.\<close>

definition wake_run :: "kimage \<Rightarrow> u64 \<Rightarrow> ksys \<Rightarrow> u64 list \<Rightarrow> ksys \<Rightarrow> u64 list \<Rightarrow> bool" where
  "wake_run ki tk s\<^sub>0 xs\<^sub>0 s xs \<longleftrightarrow> data0 (tasks_lock (ksched s)) = 0 \<and> daif_wf (tdaif s) \<and>
    (\<forall>p. tfunction (timers s p) = tfunction (timers s\<^sub>0 p) \<and> tdata (timers s p) = tdata (timers s\<^sub>0 p) \<and>
       expires (timers s p) = expires (timers s\<^sub>0 p)) \<and>
    set xs \<subseteq> set xs\<^sub>0 \<and> (\<forall>p \<in> set xs\<^sub>0 - set xs. expires (timers s\<^sub>0 p) = tk) \<and>
    task_states RUNNING (sleeper ki s\<^sub>0 ` (set xs\<^sub>0 - set xs)) s\<^sub>0 s"

lemma wake_quiet:
  assumes "\<forall>p \<in> set xs\<^sub>0. tfunction (timers s\<^sub>0 p) = ki_process_timeout ki"
  shows "quiet_on (wake_run ki tk s\<^sub>0 xs\<^sub>0) (timer_call ki) tk"
  unfolding quiet_on_def
proof (intro allI impI)
  fix s xs p s1
  assume r: "timers_ready s xs" and w: "wake_run ki tk s\<^sub>0 xs\<^sub>0 s xs" and p: "p \<in> set xs" "expires (timers s p) = tk"
    and rm: "removed p xs s s1"
  have f1: "tdata (timers s1 q) = tdata (timers s\<^sub>0 q)" "tfunction (timers s1 q) = tfunction (timers s\<^sub>0 q)"
    "expires (timers s1 q) = expires (timers s\<^sub>0 q)" for q
    using w rm by (auto simp: wake_run_def removed_def)
  have t1: "trest s1 = trest s" "tdaif s1 = tdaif s" using rm by (simp_all add: removed_def)
  have p0: "p \<in> set xs\<^sub>0" using w p(1) by (auto simp: wake_run_def)
  have "daif_wf (tdaif s1)" "data0 (tasks_lock (ksched s1)) = 0" using w t1 by (simp_all add: wake_run_def ksched_def)
  then obtain s2 where s2: "k_set_state (sleeper ki s\<^sub>0 p) RUNNING s1 = Some s2" "task_states RUNNING {sleeper ki s\<^sub>0 p} s1 s2"
    "timers s2 = timers s1" "thead s2 = thead s1" "timerlist_lock s2 = timerlist_lock s1"
    using k_set_state_run [of s1 RUNNING "sleeper ki s\<^sub>0 p"] by auto
  have call: "timer_call ki (tfunction (timers s1 p)) (tdata (timers s1 p)) s1 = Some s2"
    using assms p0 s2(1) by (simp add: timer_call_def process_timeout_def f1 sleeper_def)
  have rd: "timers_ready s2 (remove1 p xs)"
    using removed_ready [OF rm r] s2(3-5) task_states_fields(9) [OF s2(2)] by (simp add: timers_ready_def tlist_def)
  have ds: "distinct xs" using r by (simp add: timers_ready_def tlist_def)
  then have st: "set xs\<^sub>0 - set (remove1 p xs) = (set xs\<^sub>0 - set xs) \<union> {p}" using p0 by auto
  have "task_states RUNNING (sleeper ki s\<^sub>0 ` (set xs\<^sub>0 - set xs) \<union> {}) s\<^sub>0 s1"
    using task_states_trans [OF _ task_states_refl [OF t1]] w by (auto simp: wake_run_def)
  from task_states_trans [OF this s2(2)]
  have ts: "task_states RUNNING (sleeper ki s\<^sub>0 ` (set xs\<^sub>0 - set (remove1 p xs))) s\<^sub>0 s2"
    unfolding st by (simp add: Un_commute)
  have "wake_run ki tk s\<^sub>0 xs\<^sub>0 s2 (remove1 p xs)"
    using w ts f1 s2(3) p(2) ds t1 task_states_fields(1,9) [OF s2(2)] rm
    by (auto simp: wake_run_def removed_def ksched_def)
  then show "\<exists>s' ys. timer_call ki (tfunction (timers s1 p)) (tdata (timers s1 p)) s1 = Some s' \<and> timers_ready s' ys \<and>
      wake_run ki tk s\<^sub>0 xs\<^sub>0 s' ys \<and> due tk s' ys = due tk s1 (remove1 p xs)"
    using call rd s2(3) by (auto simp: due_def)
qed

lemma run_timers:
  assumes "timers_ready s xs" "data0 (tasks_lock (ksched s)) = 0" "\<forall>p \<in> set xs. tfunction (timers s p) = ki_process_timeout ki"
  shows "\<exists>s' ys. run_timer_softirq (timer_call ki) tk s = Some s' \<and> timers_ready s' ys \<and>
    set ys = {p \<in> set xs. expires (timers s p) \<noteq> tk} \<and>
    task_states RUNNING (sleeper ki s ` {p \<in> set xs. expires (timers s p) = tk}) s s'"
proof -
  have "wake_run ki tk s xs s xs"
    using assms task_states_refl by (simp add: wake_run_def timers_ready_def)
  from run_timer_softirq_on [OF assms(1) this wake_quiet [OF assms(3)]] obtain s' ys where
    s': "run_timer_softirq (timer_call ki) tk s = Some s'" "timers_ready s' ys" "wake_run ki tk s xs s' ys" "due tk s' ys = []"
    by blast
  have "set ys = {p \<in> set xs. expires (timers s p) \<noteq> tk}"
    using s'(3,4) by (auto simp: wake_run_def due_def filter_empty_conv)
  moreover from this have "set xs - set ys = {p \<in> set xs. expires (timers s p) = tk}" by auto
  ultimately show ?thesis using s' by (auto simp: wake_run_def)
qed


section \<open>The soft interrupt and the timer interrupt\<close>

lemma k_do_softirq_run:
  fixes s :: ksys
  defines "so \<equiv> on_this_cpu s"
  assumes "timers_ready s xs" "data0 (tasks_lock (ksched s)) = 0" "\<forall>p \<in> set xs. tfunction (timers s p) = ki_process_timeout ki"
    "nested_softirq_count so (si_core so) = 0" "softirq_vec so 0 = ki_run_timer ki" "ki_run_timer ki \<noteq> NULL"
    "bit (softirq_pending so (si_core so)) 0"
  shows "\<exists>s' s1 ys. k_do_softirq ki s = Some s' \<and> timers_ready s' ys \<and> set ys = {p \<in> set xs. expires (timers s p) \<noteq> ktick s} \<and>
    task_states RUNNING (sleeper ki s ` {p \<in> set xs. expires (timers s p) = ktick s}) s s1 \<and> timers s' = timers s1 \<and>
    s' = upd_kern (\<lambda>k. k\<lparr>ksoft := so\<lparr>softirq_pending := (softirq_pending so)(si_core so := 0)\<rparr>\<rparr>) s1"
proof -
  have d: "daif_wf (si_daif so)" "si_daif so = tdaif s" using assms(2) by (simp_all add: so_def on_this_cpu_def timers_ready_def)
  obtain s1 ys where s1: "run_timer_softirq (timer_call ki) (ktick s) s = Some s1" "timers_ready s1 ys"
    "set ys = {p \<in> set xs. expires (timers s p) \<noteq> ktick s}"
    "task_states RUNNING (sleeper ki s ` {p \<in> set xs. expires (timers s p) = ktick s}) s s1"
    using run_timers [OF assms(2-4)] by blast
  have e: "si_daif (softirq_entered so) = tdaif s" "(softirq_entered so)\<lparr>si_daif := tdaif s\<rparr> = softirq_entered so"
    using d(2) by (simp_all add: softirq_entered_def)
  have c: "softirq_call ki (softirq_vec so 0) (softirq_entered so, s) = Some (softirq_entered so, s1)"
    using s1(1) task_states_fields(9) [OF s1(4)] e by (simp add: softirq_call_def assms(6))
  have n: "(nested_softirq_count so)(si_core so := 0) = nested_softirq_count so" using assms(5) by auto
  then have l: "softirq_left (softirq_entered so) = so\<lparr>softirq_pending := (softirq_pending so)(si_core so := 0)\<rparr>"
    by (simp add: softirq_left_def softirq_entered_def)
  have "do_softirq (softirq_call ki) (so, s) = Some (so\<lparr>softirq_pending := (softirq_pending so)(si_core so := 0)\<rparr>, s1)"
    unfolding do_softirq_run [OF d(1) assms(5)] using c assms(6-8) irq_save_restore [OF d(1)] d(2) e by (simp add: l)
  moreover have "s1\<lparr>tdaif := tdaif s\<rparr> = s1" unfolding task_states_fields(9) [OF s1(4), symmetric] by simp
  ultimately have "k_do_softirq ki s =
      Some (upd_kern (\<lambda>k. k\<lparr>ksoft := so\<lparr>softirq_pending := (softirq_pending so)(si_core so := 0)\<rparr>\<rparr>) s1)"
    using d(2) by (simp add: k_do_softirq_def so_def)
  moreover have "timers_ready (upd_kern f s1) ys" "timers (upd_kern f s1) = timers s1" for f
    using s1(2) by (simp_all add: timers_ready_def tlist_def upd_kern_def)
  ultimately show ?thesis using s1 by blast
qed

text \<open>The part of the handler before the soft interrupt, when it does not reschedule.\<close>

definition ticked :: "u64 \<Rightarrow> irq_input \<Rightarrow> ksys \<Rightarrow> ksys" where
  "ticked regs i s = account_tick regs (upd_kern (\<lambda>k. k\<lparr>gicc_eoir := gicc_eoir k @ [gicc_iar i]\<rparr>) (k_timer_irq (count_irq IRQ_TIMER s)))"

lemma irq_handler_ticked:
  assumes "gicc_iar i = 30" "\<not> user_mode regs (kvm (trest s))" "pid (task_of (ksched s) (current s)) \<noteq> 0"
  shows "irq_handler ki env report i regs s = k_do_softirq ki (ticked regs i s)"
proof -
  let ?s = "upd_kern (\<lambda>k. k\<lparr>gicc_eoir := gicc_eoir k @ [gicc_iar i]\<rparr>) (k_timer_irq (count_irq IRQ_TIMER s))"
  have k: "kvm (trest ?s) = kvm (trest s)"
    by (simp add: upd_kern_def k_timer_irq_def count_irq_def case_prod_beta)
  then have "current ?s = current s" by (simp add: current_def ksched_def)
  moreover have "pid (task_of (ksched (account_tick regs ?s)) (current s)) = pid (task_of (ksched s) (current s))"
    using assms(2) k by (simp add: account_tick_def ksched_def upd_kern_def upd_task_vm_def task_of_def upd_task_def Let_def
        split: task_ptr.splits)
  ultimately have "tick_resched env regs ?s = Some (account_tick regs ?s)"
    using assms(2,3) k by (simp add: tick_resched_def Let_def)
  then show ?thesis
    using assms(1) by (simp add: irq_handler_def IRQ_SPURIOUS_def IRQ_TIMER_def MAX_NUM_INTERRUPTS_def isr_func_def run_isr_def ticked_def)
qed


lemma ticked_fields:
  fixes s :: ksys
  defines "c \<equiv> core_id (ksched s)" and "so \<equiv> ksoft (trest s)"
  assumes "daif_wf (tdaif s)" "\<not> user_mode regs (kvm (trest s))"
  shows "timers (ticked regs i s) = timers s" "thead (ticked regs i s) = thead s" "timerlist_lock (ticked regs i s) = timerlist_lock s"
    "tdaif (ticked regs i s) = tdaif s" "ktick (ticked regs i s) = (if c = 0 then ktick s + 1 else ktick s)"
    "ksched (ticked regs i s) = upd_task (current s) (\<lambda>t. t\<lparr>stime := stime t + 1\<rparr>) (ksched s)"
    "gicc_eoir (trest (ticked regs i s)) = gicc_eoir (trest s) @ [gicc_iar i]"
    "irq_trigger_count (trest (ticked regs i s)) c IRQ_TIMER = irq_trigger_count (trest s) c IRQ_TIMER + 1"
    "on_this_cpu (ticked regs i s) = so\<lparr>si_core := c, si_daif := tdaif s, softirq_pending := (softirq_pending so)(c := softirq_pending so c OR 1)\<rparr>"
proof -
  let ?r = "\<lambda>s. raise_softirq SOFTIRQ_TIMER (on_this_cpu s)"
  have r: "?r (count_irq IRQ_TIMER s) =
      (on_this_cpu s)\<lparr>softirq_pending := (softirq_pending so)(c := softirq_pending so c OR 1)\<rparr>"
    using assms(3) raise_softirq_timer [of "on_this_cpu (count_irq IRQ_TIMER s)"]
    by (simp add: on_this_cpu_def count_irq_def upd_kern_def ksched_def c_def so_def)
  have k: "ticked regs i s = upd_kern (\<lambda>k. k\<lparr>kvm := upd_task_vm (current s) (\<lambda>t. t\<lparr>stime := stime t + 1\<rparr>) (kvm k)\<rparr>)
     (upd_kern (\<lambda>k. k\<lparr>gicc_eoir := gicc_eoir k @ [gicc_iar i]\<rparr>) (k_timer_irq (count_irq IRQ_TIMER s)))"
    using assms(4) by (simp add: ticked_def account_tick_def upd_kern_def k_timer_irq_def count_irq_def case_prod_beta current_def ksched_def)
  show "timers (ticked regs i s) = timers s" "thead (ticked regs i s) = thead s" "timerlist_lock (ticked regs i s) = timerlist_lock s"
    by (simp_all add: k upd_kern_def k_timer_irq_def count_irq_def case_prod_beta)
  show "tdaif (ticked regs i s) = tdaif s"
    unfolding k upd_kern_def k_timer_irq_def handle_timer_irq_def Let_def case_prod_conv r by (simp add: on_this_cpu_def)
  show "ktick (ticked regs i s) = (if c = 0 then ktick s + 1 else ktick s)"
    unfolding k upd_kern_def k_timer_irq_def handle_timer_irq_def Let_def case_prod_conv r
    by (simp add: ktick_def get_tick_def on_this_cpu_def count_irq_def upd_kern_def ksched_def c_def)
  show "ksched (ticked regs i s) = upd_task (current s) (\<lambda>t. t\<lparr>stime := stime t + 1\<rparr>) (ksched s)"
    by (simp add: k upd_kern_def k_timer_irq_def count_irq_def case_prod_beta ksched_def upd_task_vm_def)
  show "gicc_eoir (trest (ticked regs i s)) = gicc_eoir (trest s) @ [gicc_iar i]"
    "irq_trigger_count (trest (ticked regs i s)) c IRQ_TIMER = irq_trigger_count (trest s) c IRQ_TIMER + 1"
    by (simp_all add: k upd_kern_def k_timer_irq_def count_irq_def case_prod_beta c_def)
  have "core_id (ksched (ticked regs i s)) = c"
    by (simp add: k upd_kern_def k_timer_irq_def count_irq_def case_prod_beta ksched_def upd_task_vm_def c_def upd_task_def split: task_ptr.splits)
  then show "on_this_cpu (ticked regs i s) =
      so\<lparr>si_core := c, si_daif := tdaif s, softirq_pending := (softirq_pending so)(c := softirq_pending so c OR 1)\<rparr>"
    using \<open>tdaif (ticked regs i s) = tdaif s\<close>
    unfolding on_this_cpu_def [of "ticked regs i s"] k upd_kern_def k_timer_irq_def handle_timer_irq_def Let_def case_prod_conv r
    by (simp add: on_this_cpu_def c_def so_def)
qed

section \<open>Properties\<close>

text \<open>C30. A timer interrupt while the kernel runs for a process, on the CPU that keeps the time: the tick advances by one; the
  running task is charged one tick of system time; the tasks whose timers expire at the new tick are made runnable, their timers
  leave the list and all others stay; no other task changes; the interrupt is acknowledged, the soft interrupt is no longer
  pending, and the interrupt mask and the running task are as before.\<close>

theorem timer_irq_wakes:
  fixes s :: ksys and xs :: "u64 list"
  defines "due_now \<equiv> {p \<in> set xs. expires (timers s p) = ktick s + 1}"
  assumes "gicc_iar i = 30" "\<not> user_mode regs (kvm (trest s))" "pid (task_of (ksched s) (current s)) \<noteq> 0" "core_id (ksched s) = 0"
    "data0 (tasks_lock (ksched s)) = 0" "timers_ready s xs" "\<forall>p \<in> set xs. tfunction (timers s p) = ki_process_timeout ki"
    "nested_softirq_count (ksoft (trest s)) 0 = 0" "softirq_vec (ksoft (trest s)) 0 = ki_run_timer ki" "ki_run_timer ki \<noteq> NULL"
  shows "\<exists>s' ys. irq_handler ki env report i regs s = Some s' \<and> ktick s' = ktick s + 1 \<and>
    timers_ready s' ys \<and> set ys = set xs - due_now \<and>
    (\<forall>t. task_of (ksched s') t =
      (let k = (if t = current s then (task_of (ksched s) t)\<lparr>stime := stime (task_of (ksched s) t) + 1\<rparr> else task_of (ksched s) t)
       in if t \<in> sleeper ki s ` due_now \<and> t \<noteq> NoTask then k\<lparr>state := RUNNING\<rparr> else k)) \<and>
    current s' = current s \<and> tdaif s' = tdaif s \<and> gicc_eoir (trest s') = gicc_eoir (trest s) @ [30] \<and>
    \<not> bit (softirq_pending (ksoft (trest s')) 0) 0 \<and> nested_softirq_count (ksoft (trest s')) 0 = 0"
proof -
  have dw: "daif_wf (tdaif s)" using assms(7) by (simp add: timers_ready_def)
  define s0 where "s0 = ticked regs i s"
  note f = ticked_fields [OF dw assms(3), of i, folded s0_def]
  have cn: "current s \<noteq> NoTask" using assms(4) by (auto simp: task_of_def zero_task_def)
  have kf: "tasks_lock (ksched s0) = tasks_lock (ksched s)" "current s0 = current s"
    unfolding f(6) current_def [of s0] by (simp_all add: upd_task_def current_def get_current_proc_def current_thread_info_def split: task_ptr.splits)
  have ready: "timers_ready s0 xs" using assms(7) f(1-4) by (simp add: timers_ready_def tlist_def)
  have tk: "ktick s0 = ktick s + 1" using f(5) assms(5) by simp
  have "bit (softirq_pending (on_this_cpu s0) (si_core (on_this_cpu s0))) 0" unfolding f(9) by (simp add: bit_or_iff)
  moreover have "nested_softirq_count (on_this_cpu s0) (si_core (on_this_cpu s0)) = 0" "softirq_vec (on_this_cpu s0) 0 = ki_run_timer ki"
    unfolding f(9) using assms(5,9,10) by simp_all
  ultimately obtain s' s1 ys where r: "k_do_softirq ki s0 = Some s'" "timers_ready s' ys"
    "set ys = {p \<in> set xs. expires (timers s0 p) \<noteq> ktick s0}"
    "task_states RUNNING (sleeper ki s0 ` {p \<in> set xs. expires (timers s0 p) = ktick s0}) s0 s1" "timers s' = timers s1"
    "s' = upd_kern (\<lambda>k. k\<lparr>ksoft := (on_this_cpu s0)\<lparr>softirq_pending := (softirq_pending (on_this_cpu s0))(si_core (on_this_cpu s0) := 0)\<rparr>\<rparr>) s1"
    using k_do_softirq_run [OF ready] assms(6,8,11) kf(1) f(1) by force
  have du: "{p \<in> set xs. expires (timers s0 p) = ktick s0} = due_now" "sleeper ki s0 = sleeper ki s"
    using f(1) tk by (auto simp: due_now_def sleeper_def)
  have ks: "ksched s' = ksched s1" "ktick s' = ktick s1" "tdaif s' = tdaif s1" "gicc_eoir (trest s') = gicc_eoir (trest s1)"
    by (simp_all add: r(6) upd_kern_def ksched_def ktick_def)
  note g = task_states_fields [OF r(4)]
  have "current s' = current s1" using ks(1) by (simp add: current_def)
  then have "current s' = current s" "tdaif s' = tdaif s" "gicc_eoir (trest s') = gicc_eoir (trest s) @ [30]" "ktick s' = ktick s + 1"
    using g(3,4,7,9) kf(2) f(4,7) ks tk assms(2) by (simp_all add: ktick_def)
  moreover have "task_of (ksched s0) t =
      (if t = current s then (task_of (ksched s) t)\<lparr>stime := stime (task_of (ksched s) t) + 1\<rparr> else task_of (ksched s) t)" for t
    unfolding f(6) using cn by (auto simp: task_of_def upd_task_def split: task_ptr.splits)
  then have "task_of (ksched s') t =
      (let k = (if t = current s then (task_of (ksched s) t)\<lparr>stime := stime (task_of (ksched s) t) + 1\<rparr> else task_of (ksched s) t)
       in if t \<in> sleeper ki s ` due_now \<and> t \<noteq> NoTask then k\<lparr>state := RUNNING\<rparr> else k)" for t
    using r(4) unfolding task_states_def du ks(1) Let_def by presburger
  moreover have "set ys = set xs - due_now" using r(3) f(1) tk by (auto simp: due_now_def)
  moreover have "\<not> bit (softirq_pending (ksoft (trest s')) 0) 0" "nested_softirq_count (ksoft (trest s')) 0 = 0"
    unfolding r(6) f(9) using assms(5,9) by (simp_all add: upd_kern_def)
  moreover have "irq_handler ki env report i regs s = Some s'"
    unfolding irq_handler_ticked [OF assms(2-4)] using r(1) by (simp add: s0_def)
  ultimately show ?thesis using r(2) by blast
qed


theorem timer_irq_wakes_witness:
  "\<exists>s'. irq_handler demo_image Some (\<lambda>_. Some) \<lparr>gicc_iar = 30, uart_mis = 0, uart_dr = 0, uart_mis' = 0\<rparr> 0x8000 demo_kernel = Some s' \<and>
    ktick s' = 1 \<and> state (task_of (ksched s') (Task 3)) = RUNNING \<and> stime (task_of (ksched s') (Task 0)) = 1"
proof -
  let ?i = "\<lparr>gicc_iar = 30, uart_mis = 0, uart_dr = 0, uart_mis' = 0\<rparr>"
  note d = demo_kernel_fields
  have u: "\<not> user_mode 0x8000 (kvm (trest demo_kernel))"
    using d(9) by (simp add: user_mode_def pt_reg_def ksched_def [of demo_kernel, unfolded d(1), symmetric] PSR_MODE_MASK_def PSR_MODE_EL0t_def)
  have t: "\<forall>p \<in> set [0x6000]. tfunction (timers demo_kernel p) = ki_process_timeout demo_image"
    by (simp add: demo_kernel_def demo_image_def)
  have so: "nested_softirq_count (ksoft (trest demo_kernel)) 0 = 0" "softirq_vec (ksoft (trest demo_kernel)) 0 = ki_run_timer demo_image"
    "ki_run_timer demo_image \<noteq> NULL" by (simp_all add: demo_kernel_def demo_image_def)
  have w: "sleeper demo_image demo_kernel ` {p \<in> set [0x6000]. expires (timers demo_kernel p) = ktick demo_kernel + 1} = {Task 3}"
    by (auto simp: sleeper_def demo_kernel_def demo_image_def ktick_def get_tick_def)
  have "pid (task_of (ksched demo_kernel) (current demo_kernel)) \<noteq> 0" "gicc_iar ?i = 30" by (simp_all add: d)
  from timer_irq_wakes [OF this(2) u this(1) _ _ d(10) t so, of Some "\<lambda>_. Some"]
  obtain s' where s': "irq_handler demo_image Some (\<lambda>_. Some) ?i 0x8000 demo_kernel = Some s'" "ktick s' = ktick demo_kernel + 1"
    "\<forall>t. task_of (ksched s') t =
      (let k = (if t = current demo_kernel then (task_of (ksched demo_kernel) t)\<lparr>stime := stime (task_of (ksched demo_kernel) t) + 1\<rparr>
                else task_of (ksched demo_kernel) t)
       in if t \<in> {Task 3} \<and> t \<noteq> NoTask then k\<lparr>state := RUNNING\<rparr> else k)"
    unfolding w using d(1,7,8) by auto
  have "state (task_of (ksched s') (Task 3)) = RUNNING" "stime (task_of (ksched s') (Task 0)) = 1"
    using s'(3) by (simp_all add: d zero_task_def)
  then show ?thesis using s'(1,2) by (auto simp: d)
qed

end
