(* ===== verification/Sleep.thy ===== *)
theory Sleep
  imports Wakeup
begin

text \<open>Sleeping for a number of ticks: \<^verbatim>\<open>schedule_timeout\<close>, \<^verbatim>\<open>msleep\<close> and the conversion of \<^verbatim>\<open>nanosleep\<close>.\<close>

unbundle bit_operations_syntax

section \<open>Arming the timer\<close>

lemma timers_ready_other:
  assumes "timers_ready s xs" "p \<notin> set xs"
  shows "timers_ready (upd_timer p f s) xs"
proof -
  have "tchain ((timers s)(p := f (timers s p))) (thead s) xs = tchain (timers s) (thead s) xs"
    by (rule tchain_cong) (use assms(2) in auto)
  then show ?thesis using assms(1) by (simp add: timers_ready_def tlist_def)
qed

lemma arm_timeout_run:
  assumes "timers_ready s xs" "ki_timer ki \<notin> set xs" "ki_timer ki \<noteq> NULL"
  shows "\<exists>s'. arm_timeout ki timeout s = Some s' \<and> timers_ready s' (ki_timer ki # xs) \<and> trest s' = trest s \<and>
    timers s' (ki_timer ki) = \<lparr>tnext = thead s, expires = ucast (timeout_expires timeout (ktick s)),
      tfunction = ki_process_timeout ki, tdata = ki_task_addr ki (current s)\<rparr> \<and>
    (\<forall>q. q \<noteq> ki_timer ki \<longrightarrow> timers s' q = timers s q)"
proof -
  let ?p = "ki_timer ki"
  define s1 where "s1 = upd_timer ?p (\<lambda>t. t\<lparr>expires := ucast (timeout_expires timeout (ktick s)), tfunction := ki_process_timeout ki,
    tdata := ki_task_addr ki (current s)\<rparr>) (init_timer ?p s)"
  have c: "current (init_timer ?p s) = current s" by (simp add: current_def ksched_def init_timer_def)
  have r: "timers_ready s1 xs" unfolding s1_def init_timer_def
    using timers_ready_other [OF timers_ready_other [OF assms(1,2)] assms(2)] assms(3) by simp
  have f: "trest s1 = trest s" "thead s1 = thead s" "timers s1 ?p = \<lparr>tnext = 0, expires = ucast (timeout_expires timeout (ktick s)),
      tfunction = ki_process_timeout ki, tdata = ki_task_addr ki (current s)\<rparr>" "q \<noteq> ?p \<Longrightarrow> timers s1 q = timers s q" for q
    using assms(3) by (simp_all add: s1_def init_timer_def)
  have "arm_timeout ki timeout s = add_timer ?p s1" by (simp add: arm_timeout_def Let_def s1_def c)
  moreover have "add_timer ?p s1 = Some (add_timer_unlocked ?p s1)" "timers_ready (add_timer_unlocked ?p s1) (?p # xs)"
    using add_timer_spec [OF r assms(2,3)] by auto
  moreover have "trest (add_timer_unlocked ?p s1) = trest s"
    "timers (add_timer_unlocked ?p s1) ?p = \<lparr>tnext = thead s, expires = ucast (timeout_expires timeout (ktick s)),
      tfunction = ki_process_timeout ki, tdata = ki_task_addr ki (current s)\<rparr>"
    "q \<noteq> ?p \<Longrightarrow> timers (add_timer_unlocked ?p s1) q = timers s q" for q
    using f by (simp_all add: add_timer_unlocked_def)
  ultimately show ?thesis by auto
qed


section \<open>Rounds of a sleep\<close>

text \<open>The rest of the system, while a task sleeps: when it returns to the task, the locks are free, and some ticks have passed.\<close>

definition sleep_env :: "kenv \<Rightarrow> bool" where
  "sleep_env env \<longleftrightarrow> (\<forall>s xs. timers_ready s xs \<longrightarrow> data0 (tasks_lock (ksched s)) = 0 \<longrightarrow> unat (ktick s) < 2 ^ 31 \<longrightarrow>
    (\<exists>s' ys. resched env s = Some s' \<and> timers_ready s' ys \<and> data0 (tasks_lock (ksched s')) = 0 \<and>
       unat (ktick s) < unat (ktick s') \<and> unat (ktick s') \<le> unat (ktick s) + 2 ^ 30))"

lemma unat_ucast_32_64 [simp]: "unat (ucast (x :: u32) :: u64) = unat x"
proof -
  have "unat x < 2 ^ 32" using unsigned_less [of x] by simp
  then show ?thesis by (simp add: unsigned_ucast_eq take_bit_nat_eq_self)
qed

lemma of_int_take_bit_64: "of_int (take_bit 64 i) = (of_int i :: u32)"
  by (rule bit_word_eqI) (simp add: bit_of_int_iff bit_take_bit_iff)

lemma ucast_diff: "ucast (ucast ex - t) = (of_int (int (unat (ex :: u32)) - int (unat (t :: u64))) :: u32)"
proof -
  have "uint (ucast ex - t :: u64) = (uint (ucast ex :: u64) - uint t) mod 2 ^ 64" by (simp add: uint_word_ariths)
  moreover have "uint (ucast ex :: u64) = int (unat ex)" by (metis uint_nat unat_ucast_32_64)
  moreover have "uint t = int (unat t)" by (rule uint_nat)
  ultimately have "uint (ucast ex - t :: u64) = take_bit 64 (int (unat ex) - int (unat t))" by (simp only: take_bit_eq_mod)
  moreover have "ucast (ucast ex - t) = (of_int (uint (ucast ex - t :: u64)) :: u32)" by simp
  ultimately show ?thesis by (simp only: of_int_take_bit_64)
qed

lemma delta_exact:
  fixes ex :: u32 and t :: u64
  assumes "\<bar>int (unat ex) - int (unat t)\<bar> < 2 ^ 31"
  shows "sint (ucast (ucast ex - t) :: u32) = int (unat ex) - int (unat t)"
proof -
  have "sint (of_int i :: u32) = i" if "\<bar>i\<bar> < 2 ^ 31" for i
    using that by (simp add: signed_of_int signed_take_bit_int_eq_self)
  from this [OF assms] show ?thesis unfolding ucast_diff .
qed

lemma timeout_expires_exact:
  assumes "unat timeout + unat t < 2 ^ 32"
  shows "unat (timeout_expires timeout t) = unat timeout + unat t"
proof -
  have "unat (ucast timeout + t :: u64) = (unat timeout + unat t) mod 2 ^ 64" by (simp add: unat_word_ariths)
  also have "\<dots> = unat timeout + unat t" using assms by simp
  finally show ?thesis using assms by (simp add: timeout_expires_def unsigned_ucast_eq take_bit_nat_eq_self)
qed

text \<open>A deadline beyond 32 bits lies before the present tick: the timer never expires.\<close>

lemma timeout_expires_wraps:
  assumes "2 ^ 32 \<le> unat timeout + unat t" "unat t < 2 ^ 32"
  shows "unat (timeout_expires timeout t) < unat t"
proof -
  have "unat timeout < 2 ^ 32" using unsigned_less [of timeout] by simp
  then have "unat (ucast timeout + t :: u64) = unat timeout + unat t" using assms(2) by (simp add: unat_word_ariths)
  then have "unat (timeout_expires timeout t) = (unat timeout + unat t) mod 2 ^ 32"
    by (simp add: timeout_expires_def unsigned_ucast_eq take_bit_eq_mod)
  also have "\<dots> = unat timeout + unat t - 2 ^ 32"
    using assms \<open>unat timeout < 2 ^ 32\<close> by (subst mod_if) simp
  finally show ?thesis using assms \<open>unat timeout < 2 ^ 32\<close> by linarith
qed

lemma schedule_timeout_run:
  assumes "sleep_env env" "timers_ready s xs" "ki_timer ki \<notin> set xs" "ki_timer ki \<noteq> NULL" "data0 (tasks_lock (ksched s)) = 0"
    "unat (ktick s) + unat timeout < 2 ^ 31"
  shows "\<exists>s' ys. schedule_timeout ki env timeout s =
      Some (max 0 (int (unat (ktick s)) + int (unat timeout) - int (unat (ktick s'))), s') \<and>
    timers_ready s' ys \<and> ki_timer ki \<notin> set ys \<and> data0 (tasks_lock (ksched s')) = 0 \<and> unat (ktick s) < unat (ktick s')"
proof -
  obtain s1 where s1: "arm_timeout ki timeout s = Some s1" "timers_ready s1 (ki_timer ki # xs)" "trest s1 = trest s"
    using arm_timeout_run [OF assms(2-4)] by blast
  have t1: "ktick s1 = ktick s" "ksched s1 = ksched s" using s1(3) by (simp_all add: ktick_def ksched_def)
  have u1: "data0 (tasks_lock (ksched s1)) = 0" "unat (ktick s1) < 2 ^ 31" using assms(5,6) t1 by simp_all
  obtain s2 ys where s2: "resched env s1 = Some s2" "timers_ready s2 ys" "data0 (tasks_lock (ksched s2)) = 0"
    "unat (ktick s1) < unat (ktick s2)" "unat (ktick s2) \<le> unat (ktick s1) + 2 ^ 30"
    using assms(1) s1(2) u1 unfolding sleep_env_def by blast
  obtain s3 where s3: "del_timer (ki_timer ki) s2 = Some s3" "removed (ki_timer ki) ys s2 s3"
    using del_timer_spec [OF s2(2) assms(4)] by blast
  have t3: "ktick s3 = ktick s2" "ksched s3 = ksched s2" using s3(2) by (simp_all add: removed_def ktick_def ksched_def)
  have d3: "timers_ready s3 (remove1 (ki_timer ki) ys)" "ki_timer ki \<notin> set (remove1 (ki_timer ki) ys)"
    using removed_ready [OF s3(2) s2(2)] s2(2) by (auto simp: timers_ready_def tlist_def)
  define dl where "dl = int (unat (ktick s)) + int (unat timeout) - int (unat (ktick s3))"
  have ex: "unat (timeout_expires timeout (ktick s)) = unat timeout + unat (ktick s)"
    using assms(6) by (intro timeout_expires_exact) simp
  have near: "a < c \<Longrightarrow> c \<le> a + 2 ^ 30 \<Longrightarrow> a + b < 2 ^ 31 \<Longrightarrow> \<bar>int (b + a) - int c\<bar> < 2 ^ 31" for a b c :: nat
    by (simp add: abs_less_iff)
  have "unat (ktick s) < unat (ktick s3)" "unat (ktick s3) \<le> unat (ktick s) + 2 ^ 30"
    using s2(4,5) unfolding t1(1) t3(1) .
  then have "\<bar>int (unat (timeout_expires timeout (ktick s))) - int (unat (ktick s3))\<bar> < 2 ^ 31"
    unfolding ex using assms(6) near by blast
  from delta_exact [OF this] have "sint (ucast (ucast (timeout_expires timeout (ktick s)) - ktick s3) :: u32) = dl"
    unfolding ex dl_def by linarith
  then have "schedule_timeout ki env timeout s = Some (if dl < 0 then 0 else dl, s3)"
    using s1(1) s2(1) s3(1) by (simp add: schedule_timeout_def Let_def)
  moreover have "(if dl < 0 then 0 else dl) = max 0 dl" by simp
  ultimately show ?thesis using d3 s2(3,4) t1(1) t3 unfolding dl_def by auto
qed

lemma msleep_loop_run:
  assumes "sleep_env env" "ki_timer ki \<noteq> NULL"
  shows "timers_ready s xs \<Longrightarrow> ki_timer ki \<notin> set xs \<Longrightarrow> data0 (tasks_lock (ksched s)) = 0 \<Longrightarrow> unat (ktick s) + n < 2 ^ 31 \<Longrightarrow>
    \<exists>s' ys. msleep_loop ki env (int n) s = Some s' \<and> timers_ready s' ys \<and> ki_timer ki \<notin> set ys \<and>
      data0 (tasks_lock (ksched s')) = 0 \<and> unat (ktick s) + n \<le> unat (ktick s')"
proof (induction n arbitrary: s xs rule: less_induct)
  case (less n)
  show ?case
  proof (cases "n = 0")
    case True
    then show ?thesis using less.prems by (subst msleep_loop.simps) auto
  next
    case False
    have w: "unat (of_int (int n) :: u32) = n" using less.prems(4) by (simp add: unat_of_nat take_bit_nat_eq_self)
    have "daif_wf (tdaif s)" using less.prems(1) by (simp add: timers_ready_def)
    then obtain s1 where s1: "k_set_state (current s) SLEEPING s = Some s1" "task_states SLEEPING {current s} s s1"
      "timers s1 = timers s" "thead s1 = thead s" "timerlist_lock s1 = timerlist_lock s"
      using k_set_state_run [of s SLEEPING "current s"] less.prems(3) by auto
    note f = task_states_fields [OF s1(2)]
    have r1: "timers_ready s1 xs" "data0 (tasks_lock (ksched s1)) = 0" "ktick s1 = ktick s"
      using less.prems(1,3) s1(3-5) f by (simp_all add: timers_ready_def tlist_def ktick_def)
    have b: "unat (ktick s1) + unat (of_int (int n) :: u32) < 2 ^ 31" using less.prems(4) w r1(3) by simp
    obtain s2 ys where s2: "schedule_timeout ki env (of_int (int n)) s1 =
        Some (max 0 (int (unat (ktick s1)) + int (unat (of_int (int n) :: u32)) - int (unat (ktick s2))), s2)"
      "timers_ready s2 ys" "ki_timer ki \<notin> set ys" "data0 (tasks_lock (ksched s2)) = 0" "unat (ktick s1) < unat (ktick s2)"
      using schedule_timeout_run [OF assms(1) r1(1) less.prems(2) assms(2) r1(2) b] by blast
    define m where "m = unat (ktick s) + n - unat (ktick s2)"
    have m: "max 0 (int (unat (ktick s1)) + int (unat (of_int (int n) :: u32)) - int (unat (ktick s2))) = int m"
      unfolding w r1(3) m_def by linarith
    have "m < n" "unat (ktick s2) + m < 2 ^ 31 \<or> m = 0" using False s2(5) less.prems(4) r1(3) by (auto simp: m_def)
    moreover have "msleep_loop ki env (int n) s = msleep_loop ki env (int m) s2"
      using False s1(1) s2(1) [unfolded m] by (subst msleep_loop.simps) simp
    moreover have "msleep_loop ki env 0 s2 = Some s2" by (subst msleep_loop.simps) simp
    moreover have "unat (ktick s) + n \<le> unat (ktick s2) + m" by (simp add: m_def)
    ultimately show ?thesis using less.IH [of m s2 ys] s2(2-4) by (cases "m = 0") force+
  qed
qed


lemma schedule_locks:
  assumes "daif_wf (daif sc)" "data0 (tasks_lock sc) = 0"
  shows "\<exists>sc'. schedule sc = Some sc' \<and> daif sc' = daif sc \<and> tasks_lock sc' = tasks_lock sc"
proof -
  have "get_next_proc sc = Some (case next_loop (tasks sc) (core_id sc) None 0 of Some i \<Rightarrow> Task i | None \<Rightarrow> NoTask, sc)"
    using assms by (simp add: get_next_proc_def locked_irqsave_free)
  then show ?thesis
    by (auto simp: schedule_def Let_def cpu_switch_to_def upd_task_def split: task_ptr.splits)
qed

text \<open>A rest of the system that only lets a tick pass.\<close>

definition idle_env :: kenv where
  "idle_env s = Some (upd_kern (\<lambda>k. k\<lparr>khw := (khw k)\<lparr>tick := tick (khw k) + 1\<rparr>\<rparr>) s)"

lemma sleep_env_idle: "sleep_env idle_env"
  unfolding sleep_env_def
proof (intro allI impI)
  fix s xs
  assume a: "timers_ready s xs" "data0 (tasks_lock (ksched s)) = 0" "unat (ktick s) < 2 ^ 31"
  then obtain sc where sc: "schedule ((ksched s)\<lparr>daif := tdaif s\<rparr>) = Some sc" "daif sc = tdaif s" "data0 (tasks_lock sc) = 0"
    using schedule_locks [of "(ksched s)\<lparr>daif := tdaif s\<rparr>"] by (auto simp: timers_ready_def)
  let ?s1 = "upd_kern (\<lambda>k. k\<lparr>kvm := (kvm k)\<lparr>vm_sched := sc\<rparr>\<rparr>) s"
  let ?s = "upd_kern (\<lambda>k. k\<lparr>khw := (khw k)\<lparr>tick := tick (khw k) + 1\<rparr>\<rparr>) ?s1"
  have r: "resched idle_env s = Some ?s" using sc(1,2) by (simp add: resched_def do_sched_eq idle_env_def)
  have t: "ktick ?s = ktick s + 1" "ksched ?s = sc" by (simp_all add: ktick_def get_tick_def upd_kern_def ksched_def)
  have "unat (ktick s + 1) = unat (ktick s) + 1"
    using a(3) by (subst unat_word_ariths) simp
  moreover have "timers_ready ?s xs" using a(1) by (simp add: timers_ready_def tlist_def upd_kern_def)
  ultimately show "\<exists>s' ys. resched idle_env s = Some s' \<and> timers_ready s' ys \<and> data0 (tasks_lock (ksched s')) = 0 \<and>
      unat (ktick s) < unat (ktick s') \<and> unat (ktick s') \<le> unat (ktick s) + 2 ^ 30"
    using r sc(3) t by (intro exI [of _ ?s] exI [of _ xs]) simp
qed

lemma sint_small_int: "unat (w :: u32) = n \<Longrightarrow> n < 2 ^ 31 \<Longrightarrow> sint w = int n"
proof -
  assume "unat w = n" "n < 2 ^ 31"
  then have "uint w = int n" using uint_nat [of w] by simp
  moreover have "sint w = signed_take_bit 31 (uint w)" by (simp add: sint_uint)
  ultimately show ?thesis using \<open>n < 2 ^ 31\<close> by (simp add: signed_take_bit_int_eq_self)
qed

section \<open>Properties\<close>




text \<open>The conversion of a time in \<^verbatim>\<open>nanosleep\<close> is the least number of ticks that is not shorter than the time, for times with
  less than a second of nanoseconds and a number of ticks that fits in 32 bits.\<close>

theorem timespec_to_jiffies_bounds:
  assumes "0 \<le> tv_sec" "tv_sec < 42949672" "0 \<le> tv_nsec" "tv_nsec < 10 ^ 9"
  shows "\<exists>j. timespec_to_jiffies tv_sec tv_nsec = Some j \<and>
    tv_sec * 10 ^ 9 + tv_nsec \<le> int (TICK * 10 ^ 6 * unat j) \<and> int (TICK * 10 ^ 6 * unat j) < tv_sec * 10 ^ 9 + tv_nsec + int TICK * 10 ^ 6"
proof -
  define n where "n = tv_nsec + 9999999"
  define q where "q = n * 100 div 1000000000"
  have q: "10000000 * q \<le> n" "n < 10000000 * q + 10000000" "0 \<le> q"
  proof -
    have e: "q = n div 10000000" using div_mult_mult2 [of 100 n 10000000] by (simp add: q_def)
    show "10000000 * q \<le> n" "n < 10000000 * q + 10000000" unfolding e by presburger+
    show "0 \<le> q" using assms(3) by (simp add: e n_def)
  qed
  have n: "tv_nsec + int TICK * 1000000 - 1 = n" "int HZ = 100" "sgn n = 1" "\<bar>n\<bar> = n" using assms(3) by (simp_all add: n_def TICK_def HZ_def)
  have "\<bar>tv_sec * 100\<bar> < 2 ^ 63" "\<bar>n * 100\<bar> < 2 ^ 63" "\<bar>tv_sec * 100 + q\<bar> < 2 ^ 63" using assms q by (auto simp: n_def)
  then have t: "timespec_to_jiffies tv_sec tv_nsec = Some (of_int (tv_sec * 100 + q))"
    unfolding timespec_to_jiffies_def n Let_def mult_1 q_def [symmetric] by simp
  define i where "i = tv_sec * 100 + q"
  have "0 \<le> i" "i < 2 ^ 32" using assms q by (auto simp: i_def n_def)
  then have "int (unat (of_int i :: u32)) = i"
    by (simp add: unsigned_of_int take_bit_int_eq_self)
  moreover have "tv_sec * 10 ^ 9 + tv_nsec \<le> 10000000 * i" "10000000 * i < tv_sec * 10 ^ 9 + tv_nsec + 10000000"
    using q by (auto simp: i_def n_def)
  ultimately show ?thesis using t unfolding i_def [symmetric] by (simp add: TICK_def)
qed

theorem timespec_to_jiffies_bounds_witness:
  "\<exists>j. timespec_to_jiffies 1 500000001 = Some j \<and> int (TICK * 10 ^ 6 * unat j) < 1510000001"
  using timespec_to_jiffies_bounds [of 1 500000001] by (auto simp: TICK_def)

end
