(* ===== verification/Console.thy ===== *)
theory Console
  imports Wakeup
begin

text \<open>System calls of a user process: the dispatch, reading a line and writing to the console.\<close>

unbundle bit_operations_syntax

section \<open>Saved registers\<close>

lemma pt_reg_set_pt_reg:
  assumes "i < 36" "j < 36"
  shows "pt_reg regs i (set_pt_reg regs j v s) = (if i = j then v else pt_reg regs i s)"
proof -
  have "8 * (of_nat i :: u64) = 8 * of_nat j \<longleftrightarrow> i = j" using assms
    by (simp add: word_unat_eq_iff unat_word_ariths unat_of_nat take_bit_nat_eq_self)
  then show ?thesis by (simp add: pt_reg_def set_pt_reg_def)
qed

lemma kreg_set_kreg: "i < 36 \<Longrightarrow> j < 36 \<Longrightarrow> kreg regs i (set_kreg regs j v s) = (if i = j then v else kreg regs i s)"
  using pt_reg_set_pt_reg by (simp add: kreg_def set_kreg_def upd_kern_def)

section \<open>Access to the console\<close>

lemma user_mask_fields [simp]:
  "user_leaf (v\<lparr>vm_sched := (vm_sched v)\<lparr>daif := d\<rparr>\<rparr>) a = user_leaf v a"
  "user_addr (v\<lparr>vm_sched := (vm_sched v)\<lparr>daif := d\<rparr>\<rparr>) a = user_addr v a"
  "user_tables (v\<lparr>vm_sched := (vm_sched v)\<lparr>daif := d\<rparr>\<rparr>) = user_tables v"
  "writable_at (v\<lparr>vm_sched := (vm_sched v)\<lparr>daif := d\<rparr>\<rparr>) a = writable_at v a"
  by (simp_all add: user_leaf_def user_addr_def user_tables_def writable_at_def)

text \<open>Reading a line that is there.\<close>

lemma read_stdin_run:
  fixes s :: ksys and buf count :: u64
  defines "u \<equiv> kuart (trest s)" and "v \<equiv> kvm (trest s)"
  assumes "daif_wf (tdaif s)" "uart_wf u" "line_ready u"
    "of_nat (uib_index u) \<le> count \<longrightarrow> user_tables v \<and> (\<forall>i < uib_index u. writable_at v (buf + of_nat i))"
  shows "\<exists>m d. read_stdin ki env buf count s =
      (if count < of_nat (uib_index u) then Some (-1, s)
       else Some (int (uib_index u), upd_kern (\<lambda>k. k\<lparr>kvm := v\<lparr>vm_sched := (vm_sched v)\<lparr>daif := d\<rparr>, vmem := m\<rparr>, kuart := u\<lparr>uib_index := 0\<rparr>\<rparr>) s)) \<and>
    (\<not> count < of_nat (uib_index u) \<longrightarrow>
      (\<forall>x. user_leaf (v\<lparr>vmem := m\<rparr>) x = user_leaf v x) \<and>
      (\<forall>x. (\<forall>i < uib_index u. x \<noteq> user_addr v (buf + of_nat i)) \<longrightarrow> m x = vmem v x) \<and>
      (inj_on (\<lambda>i. user_addr v (buf + of_nat i)) {..<uib_index u} \<longrightarrow>
        (\<forall>i < uib_index u. m (user_addr v (buf + of_nat i)) = typed u ! i)))"
proof -
  have l0: "data0 (uib_lock u) = 0" using assms(4) by (simp add: uart_wf_def)
  obtain d l where dl: "spin_lock_irqsave (tdaif s) (Some (uib_lock u)) = Some (tdaif s, d, Some l)"
    "spin_unlock_irqrestore d (Some l) (tdaif s) = Some (tdaif s, Some (uib_lock u))"
  proof -
    obtain d l' where a: "spin_lock_irqsave (tdaif s) (Some (uib_lock u)) = Some (tdaif s, d, l')"
      "spin_unlock_irqrestore d l' (tdaif s) = Some (tdaif s, Some (uib_lock u))" using lock_pair [OF assms(3) l0] by metis
    from a(2) have "l' \<noteq> None" by (cases l') (auto simp: spin_unlock_irqrestore_def)
    then show thesis using that a by auto
  qed
  define s1 where "s1 = upd_kern (\<lambda>k. k\<lparr>kuart := (kuart k)\<lparr>uib_lock := l\<rparr>\<rparr>) (s\<lparr>tdaif := d\<rparr>)"
  have lk: "lock_input s = Some (tdaif s, s1)" using dl(1) by (simp add: lock_input_def s1_def u_def)
  have f1: "kuart (trest s1) = u\<lparr>uib_lock := l\<rparr>" "kvm (trest s1) = v" "tdaif s1 = d" by (simp_all add: s1_def upd_kern_def u_def v_def)
  have lr: "line_ready (kuart (trest s1))" using assms(5) by (simp add: line_ready_def f1)
  show ?thesis
  proof (cases "count < of_nat (uib_index u)")
    case True
    have "unlock_input (tdaif s) s1 = Some s" using dl(2) by (simp add: unlock_input_def f1 s1_def upd_kern_def u_def)
    then have "read_stdin ki env buf count s = Some (-1, s)"
      using True lk lr by (simp add: read_stdin_def Let_def f1)
    then show ?thesis using True by simp
  next
    case False
    then have w: "user_tables v" "\<forall>i < uib_index u. writable_at v (buf + of_nat i)" using assms(6) by (auto simp: not_less)
    have ln: "length (typed u) = uib_index u" using assms(4) by (simp add: typed_def uart_wf_def)
    let ?v = "v\<lparr>vm_sched := (vm_sched v)\<lparr>daif := d\<rparr>\<rparr>"
    obtain m where m: "copy_to_user buf (typed u) ?v = Some (?v\<lparr>vmem := m\<rparr>)" "\<forall>x. user_leaf (?v\<lparr>vmem := m\<rparr>) x = user_leaf v x"
      "\<forall>x. (\<forall>i < uib_index u. x \<noteq> user_addr v (buf + of_nat i)) \<longrightarrow> m x = vmem v x"
      "inj_on (\<lambda>i. user_addr v (buf + of_nat i)) {..<uib_index u} \<longrightarrow> (\<forall>i < uib_index u. m (user_addr v (buf + of_nat i)) = typed u ! i)"
      using copy_to_user_ok [of ?v "typed u" buf] w unfolding ln by (auto simp: user_mask_fields)
    have "do_vm (copy_to_user buf (take (uib_index u) (uart_in_buf u))) s1 = Some (upd_kern (\<lambda>k. k\<lparr>kvm := ?v\<lparr>vmem := m\<rparr>\<rparr>) s1)"
      using m(1) by (simp add: do_vm_def with_vm_def f1 typed_def upd_kern_def)
    moreover have "unlock_input (tdaif s) (upd_kern (\<lambda>k. k\<lparr>kuart := (kuart k)\<lparr>uib_index := 0\<rparr>\<rparr>) (upd_kern (\<lambda>k. k\<lparr>kvm := ?v\<lparr>vmem := m\<rparr>\<rparr>) s1)) =
        Some (upd_kern (\<lambda>k. k\<lparr>kvm := ?v\<lparr>vmem := m\<rparr>, kuart := u\<lparr>uib_index := 0\<rparr>\<rparr>) s)"
      using dl(2) by (simp add: unlock_input_def upd_kern_def f1 s1_def u_def v_def)
    ultimately have "read_stdin ki env buf count s =
        Some (int (uib_index u), upd_kern (\<lambda>k. k\<lparr>kvm := ?v\<lparr>vmem := m\<rparr>, kuart := u\<lparr>uib_index := 0\<rparr>\<rparr>) s)"
      using False lk lr by (simp add: read_stdin_def Let_def f1)
    moreover have "user_leaf (v\<lparr>vmem := m\<rparr>) x = user_leaf v x" for x using m(2) by (simp add: user_leaf_def)
    ultimately show ?thesis using False m(3,4) by (intro exI [of _ m] exI [of _ d]) simp
  qed
qed


text \<open>Updates of saved registers do not concern user memory.\<close>

lemma set_kreg_fields [simp]:
  "kuart (trest (set_kreg regs i x s)) = kuart (trest s)" "tdaif (set_kreg regs i x s) = tdaif s"
  "user_leaf (kvm (trest (set_kreg regs i x s))) a = user_leaf (kvm (trest s)) a"
  "user_addr (kvm (trest (set_kreg regs i x s))) a = user_addr (kvm (trest s)) a"
  "user_tables (kvm (trest (set_kreg regs i x s))) = user_tables (kvm (trest s))"
  "writable_at (kvm (trest (set_kreg regs i x s))) a = writable_at (kvm (trest s)) a"
  "user_load (kvm (trest (set_kreg regs i x s))) a = user_load (kvm (trest s)) a"
  "vmem (kvm (trest (set_kreg regs i x s))) = vmem (kvm (trest s))"
  by (simp_all add: set_kreg_def upd_kern_def set_pt_reg_def user_leaf_def user_addr_def user_tables_def writable_at_def user_load_def)

text \<open>The state in which the handler of a system call starts.\<close>

definition svc_entry :: "u64 \<Rightarrow> ksys \<Rightarrow> ksys" where
  "svc_entry regs s = set_kreg regs PT_SYSCALLNO (kreg regs 8 s) (set_kreg regs PT_ORIG_X0 (kreg regs 0 s) s)"

lemma kreg_svc_entry: "i < 34 \<Longrightarrow> kreg regs i (svc_entry regs s) = kreg regs i s" "kreg regs PT_SYSCALLNO (svc_entry regs s) = kreg regs 8 s"
  by (simp_all add: svc_entry_def kreg_set_kreg PT_SYSCALLNO_def PT_ORIG_X0_def)

lemma do_el0_sync_svc:
  assumes "is_svc esr"
  shows "do_el0_sync ki env addr esr regs s =
    (if MAX_NUM_SYSCALLS \<le> kreg regs 8 s then Some (set_kreg regs 0 (- ENOSYS) (svc_entry regs s))
     else case syscall_func ki env (kreg regs 8 s) of
         None \<Rightarrow> Some (set_kreg regs 0 (- ENOSYS) (svc_entry regs s))
       | Some f \<Rightarrow> f regs (svc_entry regs s))"
proof -
  have e: "kreg regs 8 (set_kreg regs PT_ORIG_X0 (kreg regs 0 s) s) = kreg regs 8 s" by (simp add: kreg_set_kreg PT_ORIG_X0_def)
  show ?thesis using assms unfolding do_el0_sync_def Let_def e svc_entry_def [symmetric] kreg_svc_entry(2) by simp
qed

lemma write_stdout_loop_run:
  assumes "\<And>j. j < length bs \<Longrightarrow> user_load (kvm (trest s)) (buf + of_nat (i + j)) = Some (bs ! j)" "i + length bs \<le> 2 ^ 31"
  shows "write_stdout_loop buf i (i + length bs) s =
    Some (upd_kern (\<lambda>k. k\<lparr>kuart := (kuart k)\<lparr>uart_tx := uart_tx (kuart k) @ map ucast bs\<rparr>\<rparr>) s)"
  using assms
proof (induction bs arbitrary: i s)
  case Nil
  then show ?case by (simp add: write_stdout_loop.simps upd_kern_def)
next
  case (Cons b bs)
  let ?s = "upd_kern (\<lambda>k. k\<lparr>kuart := write_char_uart b (kuart k)\<rparr>) s"
  have b: "user_load (kvm (trest s)) (buf + of_nat i) = Some b" using Cons.prems(1) [of 0] by simp
  have "user_load (kvm (trest ?s)) (buf + of_nat (Suc i + j)) = Some (bs ! j)" if "j < length bs" for j
    using Cons.prems(1) [of "Suc j"] that by (simp add: upd_kern_def)
  from Cons.IH [OF this] Cons.prems(2)
  have "write_stdout_loop buf (Suc i) (Suc i + length bs) ?s =
      Some (upd_kern (\<lambda>k. k\<lparr>kuart := (kuart k)\<lparr>uart_tx := uart_tx (kuart k) @ map ucast bs\<rparr>\<rparr>) ?s)" by simp
  then show ?case
    using b Cons.prems(2) by (subst write_stdout_loop.simps) (simp add: upd_kern_def write_char_uart_def)
qed

section \<open>A process with one mapped page\<close>

definition demo_user :: "mem \<Rightarrow> u8 list \<Rightarrow> ksys" where
  "demo_user m line = upd_kern (\<lambda>k. k\<lparr>kvm := (kvm k)\<lparr>vm_sched := demo_sched\<lparr>ttbr0 := (pa (page_addr 0), 1)\<rparr>, vmem := m\<rparr>,
     kuart := demo_uart\<lparr>uart_in_buf := line @ replicate (256 - length line) 0, uib_index := length line\<rparr>\<rparr>) demo_kernel"

lemma demo_user_page:
  obtains m where "\<And>line. user_tables (kvm (trest (demo_user m line)))"
    "\<And>line i. i < 4096 \<Longrightarrow> writable_at (kvm (trest (demo_user m line))) (0x400000 + of_nat i)"
    "\<And>line i. i < 4096 \<Longrightarrow> user_addr (kvm (trest (demo_user m line))) (0x400000 + of_nat i) = wd (0xFFFFFFC050000000 + i)"
proof -
  define s where "s = as_start (kheap_start (\<lambda>_. 0)) 0"
  have d: "page_aligned (page_addr 0)" "page_addr 0 \<noteq> NULL" using page_addr_facts(3) [of 0] by (simp_all add: MAX_NUM_PAGES_val)
  have z: "zero_page x (\<lambda>_. 0)" for x by (simp add: zero_page_def zero_mem_entry)
  have u: "usage_bits (usage s)" by (simp add: s_def usage_bits_def)
  have w: "pt_wf True 2 (vmem s) (page_addr 0)" "tables True 2 (vmem s) (page_addr 0) \<subseteq> used_pages (usage s)"
    using pt_wf_zero [OF z d(1)] tables_zero [OF z, of True 2] by (auto simp: s_def used_pages_def MAX_NUM_PAGES_val)
  have fr: "2 * 1 \<le> free_count (usage s)" using two_free by (simp add: s_def)
  have "frame_addr 0x50000000" "unat (0x50000000 :: u64) + 4096 * 1 \<le> 2 ^ 48" by (simp_all add: frame_addr_iff)
  from setup_user_page_mapping_run [OF d(2) u w fr this, of 4096 "0x400000" False] obtain s' where
    s': "user_mapped (page_addr 0) 0x400000 0x50000000 1 False s s'" by auto
  define m where "m = vmem s'"
  have tb: "pt_wf True 2 m (page_addr 0)" "tables True 2 m (page_addr 0) \<subseteq> used_pages (usage s')"
    and lk: "lookup True m (page_addr 0) (va_path 0x400000) = leaf_desc 0x50000000 (user_attrs False)"
    using s' w(2) lookup_zero [OF z path_ok_va_path, of True]
    by (auto simp: user_mapped_def edits_def m_def s_def set_leaf_def)
  have un: "unat (0x400000 + of_nat i :: u64) = 0x400000 + i" if "i < 4096" for i
    using that unat_wd [of "0x400000 + i"] by (simp add: wd_def)
  have vp: "va_path (0x400000 + of_nat i) = va_path 0x400000" if "i < 4096" for i
    using that unfolding va_path_eq_iff vpn_def un [OF that] by simp
  have lf: "user_leaf (kvm (trest (demo_user m line))) (0x400000 + of_nat i) = leaf_desc 0x50000000 (user_attrs False)" if "i < 4096" for i line
    using lk vp [OF that] by (simp add: user_leaf_def demo_user_def upd_kern_def)
  have ph: "get_phy_addr (leaf_desc 0x50000000 (user_attrs False)) = 0x50000000"
    using get_phy_addr_desc [OF user_attrs_low] by (simp add: leaf_desc_def get_phy_addr_def PAGE_SIZE_def)
  have ro: "leaf_desc 0x50000000 (user_attrs False) AND PTE_RDONLY = 0" "leaf_desc 0x50000000 (user_attrs False) \<noteq> 0"
    by (simp_all add: leaf_desc_def desc_not_0 user_attrs_def PTE_BLOCK_MEMTYPE_def MT_NORMAL_def PTE_USER_def PTE_BLOCK_INNER_SHARE_def
        PTE_BLOCK_NG_def PTE_RDONLY_def PTE_TYPE_TABLE_def PTE_BLOCK_AF_def)
  have out: "va 0x50000000 \<notin> used_pages u" for u
  proof
    assume "va 0x50000000 \<in> used_pages u"
    then obtain i where "i < MAX_NUM_PAGES" "va 0x50000000 = page_addr i" by (auto simp: used_pages_def)
    then show False using page_addr_facts(1) [of i] by (simp add: va_def PAGE_OFFSET_val pool_layout)
  qed
  have lo: "drop_bit VA_BITS (0x400000 + of_nat i :: u64) = 0" if "i < 4096" for i
    using that un [OF that] by (simp add: word_unat_eq_iff unat_div_distrib drop_bit_eq_div VA_BITS_def)
  show thesis
  proof (rule that)
    show "user_tables (kvm (trest (demo_user m line)))" for line
      using tb(1) by (simp add: user_tables_def demo_user_def upd_kern_def)
    show "writable_at (kvm (trest (demo_user m line))) (0x400000 + of_nat i)" if "i < 4096" for line i
      using lf [OF that] ph ro out lo [OF that] tb(2)
      by (auto simp: writable_at_def demo_user_def upd_kern_def)
    show "user_addr (kvm (trest (demo_user m line))) (0x400000 + of_nat i) = wd (0xFFFFFFC050000000 + i)" if "i < 4096" for line i
    proof -
      have "(4096 * 1024 + i) mod 4096 = i" using that by (simp only: mod_mult_self4 mod_less)
      then have "unat (IN_PAGE_OFFSET (0x400000 + of_nat i)) = i" unfolding unat_IN_PAGE_OFFSET un [OF that] by simp
      then have "IN_PAGE_OFFSET (0x400000 + of_nat i) = of_nat i" using that
        by (simp add: word_unat_eq_iff [of "IN_PAGE_OFFSET _"] unat_of_nat take_bit_nat_eq_self)
      then show ?thesis using lf [OF that] ph by (simp add: user_addr_def va_def PAGE_OFFSET_val wd_def)
    qed
  qed
qed

section \<open>Properties\<close>




text \<open>C32. \<^verbatim>\<open>read\<close> on the console when a line is waiting: if the buffer is large enough and its pages are mapped and writable, the process gets
  exactly the line, up to and including its newline, and the number of its bytes; the line is taken from the driver, and no other
  byte of memory changes. If the buffer is too small the result is -1, and the line stays for another call.\<close>

theorem read_syscall_line:
  fixes s :: ksys and regs :: u64
  defines "u \<equiv> kuart (trest s)" and "v \<equiv> kvm (trest s)" and "buf \<equiv> kreg regs 1 s" and "count \<equiv> kreg regs 2 s"
  assumes "is_svc esr" "kreg regs 8 s = 5" "kreg regs 0 s = 0" "daif_wf (tdaif s)" "uart_wf u" "line_ready u"
    "of_nat (uib_index u) \<le> count \<longrightarrow> user_tables v \<and> (\<forall>i < uib_index u. writable_at v (buf + of_nat i)) \<and>
       inj_on (\<lambda>i. user_addr v (buf + of_nat i)) {..<uib_index u}"
  shows "\<exists>s'. do_el0_sync ki env addr esr regs s = Some s' \<and> tdaif s' = tdaif s \<and>
    (if count < of_nat (uib_index u)
     then kreg regs 0 s' = -1 \<and> kuart (trest s') = u \<and> vmem (kvm (trest s')) = vmem v
     else kreg regs 0 s' = of_nat (length (typed u)) \<and> last (typed u) = 0x0A \<and>
       (\<forall>i < length (typed u). user_load (kvm (trest s')) (buf + of_nat i) = Some (typed u ! i)) \<and>
       typed (kuart (trest s')) = [] \<and>
       (\<forall>x. (\<forall>i < length (typed u). x \<noteq> user_addr v (buf + of_nat i)) \<longrightarrow> vmem (kvm (trest s')) x = vmem v x))"
proof -
  define e where "e = svc_entry regs s"
  have ef: "kuart (trest e) = u" "tdaif e = tdaif s" "user_leaf (kvm (trest e)) = user_leaf v" "user_addr (kvm (trest e)) = user_addr v"
    "user_tables (kvm (trest e)) = user_tables v" "writable_at (kvm (trest e)) = writable_at v" "vmem (kvm (trest e)) = vmem v"
    by (simp_all add: e_def svc_entry_def fun_eq_iff u_def v_def)
  have k: "kreg regs 0 e = 0" "kreg regs 1 e = buf" "kreg regs 2 e = count"
    using assms(7) by (simp_all add: e_def kreg_svc_entry buf_def count_def)
  have "do_el0_sync ki env addr esr regs s = sys_read ki env regs e"
    unfolding do_el0_sync_svc [OF assms(5)] assms(6) by (simp add: MAX_NUM_SYSCALLS_def syscall_func_def e_def)
  also have "\<dots> = do { (ret, s) \<leftarrow> read_stdin ki env buf count e; Some (set_kreg regs 0 (of_int ret) s) }"
    unfolding sys_read_def Let_def k by simp
  finally have run: "do_el0_sync ki env addr esr regs s = do { (ret, s) \<leftarrow> read_stdin ki env buf count e; Some (set_kreg regs 0 (of_int ret) s) }" .
  have ln: "length (typed u) = uib_index u" using assms(9) by (simp add: typed_def uart_wf_def)
  have lst: "last (typed u) = 0x0A"
    using assms(9,10) ln by (cases "uib_index u") (auto simp: line_ready_def typed_def uart_wf_def take_Suc_conv_app_nth)
  obtain m d where r: "read_stdin ki env buf count e =
      (if count < of_nat (uib_index u) then Some (-1, e)
       else Some (int (uib_index u), upd_kern (\<lambda>k. k\<lparr>kvm := (kvm (trest e))\<lparr>vm_sched := (vm_sched (kvm (trest e)))\<lparr>daif := d\<rparr>, vmem := m\<rparr>,
         kuart := u\<lparr>uib_index := 0\<rparr>\<rparr>) e))"
    and m: "\<not> count < of_nat (uib_index u) \<longrightarrow> (\<forall>x. user_leaf ((kvm (trest e))\<lparr>vmem := m\<rparr>) x = user_leaf v x) \<and>
      (\<forall>x. (\<forall>i < uib_index u. x \<noteq> user_addr v (buf + of_nat i)) \<longrightarrow> m x = vmem v x) \<and>
      (inj_on (\<lambda>i. user_addr v (buf + of_nat i)) {..<uib_index u} \<longrightarrow> (\<forall>i < uib_index u. m (user_addr v (buf + of_nat i)) = typed u ! i))"
    using read_stdin_run [where s = e and buf = buf and count = count and ki = ki and env = env] assms(8-11) unfolding ef by blast
  show ?thesis
  proof (cases "count < of_nat (uib_index u)")
    case True
    then have "do_el0_sync ki env addr esr regs s = Some (set_kreg regs 0 (-1) e)" unfolding run r by simp
    then show ?thesis using True ef by (auto simp: kreg_set_kreg)
  next
    case False
    define s1 where "s1 = upd_kern (\<lambda>k. k\<lparr>kvm := (kvm (trest e))\<lparr>vm_sched := (vm_sched (kvm (trest e)))\<lparr>daif := d\<rparr>, vmem := m\<rparr>,
      kuart := u\<lparr>uib_index := 0\<rparr>\<rparr>) e"
    have w: "writable_at v (buf + of_nat i)" if "i < uib_index u" for i using that assms(11) False by (auto simp: not_less)
    have f1: "kuart (trest s1) = u\<lparr>uib_index := 0\<rparr>" "tdaif s1 = tdaif s" "vmem (kvm (trest s1)) = m" using ef(2) by (simp_all add: s1_def upd_kern_def)
    have lf: "user_leaf (kvm (trest s1)) x = user_leaf v x" for x
    proof -
      have "user_leaf (kvm (trest s1)) x = user_leaf ((kvm (trest e))\<lparr>vmem := m\<rparr>) x" by (simp add: s1_def upd_kern_def user_leaf_def)
      then show ?thesis using m False by simp
    qed
    then have "user_addr (kvm (trest s1)) x = user_addr v x" for x by (simp add: user_addr_def)
    then have "user_load (kvm (trest s1)) (buf + of_nat i) = Some (typed u ! i)" if "i < uib_index u" for i
      using that w [OF that] m False assms(11) f1(3) lf by (auto simp: user_load_def writable_at_def not_less)
    moreover have "do_el0_sync ki env addr esr regs s = Some (set_kreg regs 0 (of_nat (uib_index u)) s1)"
      unfolding run r using False by (simp add: s1_def)
    ultimately show ?thesis using False f1 m lst unfolding ln by (auto simp: kreg_set_kreg typed_def)
  qed
qed


lemma demo_user_fields:
  "kuart (trest (demo_user m line)) = demo_uart\<lparr>uart_in_buf := line @ replicate (256 - length line) 0, uib_index := length line\<rparr>"
  "daif_wf (tdaif (demo_user m line))"
  by (simp_all add: demo_user_def upd_kern_def demo_kernel_def daif_wf_def)

lemma wd_add_inj:
  assumes "b + n \<le> 2 ^ 64" "i < n" "j < n" "wd (b + i) = wd (b + j)"
  shows "i = j"
proof -
  have "b + i < 2 ^ 64" by (rule less_le_trans [OF add_strict_left_mono [OF assms(2)] assms(1)])
  moreover have "b + j < 2 ^ 64" by (rule less_le_trans [OF add_strict_left_mono [OF assms(3)] assms(1)])
  ultimately have "b + i = b + j" using assms(4) by (metis unat_wd)
  then show ?thesis by (rule add_left_imp_eq)
qed

theorem read_syscall_line_witness:
  "\<exists>m s'. do_el0_sync demo_image Some 0 (0x15 * 2 ^ 26) 0x8000
      (set_kreg 0x8000 8 5 (set_kreg 0x8000 0 0 (set_kreg 0x8000 1 0x400000 (set_kreg 0x8000 2 256 (demo_user m [0x69, 0x0A]))))) = Some s' \<and>
    kreg 0x8000 0 s' = 2 \<and> user_load (kvm (trest s')) 0x400000 = Some 0x69"
proof -
  obtain m where m: "user_tables (kvm (trest (demo_user m [0x69, 0x0A])))"
    "\<And>i. i < 4096 \<Longrightarrow> writable_at (kvm (trest (demo_user m [0x69, 0x0A]))) (0x400000 + of_nat i)"
    "\<And>i. i < 4096 \<Longrightarrow> user_addr (kvm (trest (demo_user m [0x69, 0x0A]))) (0x400000 + of_nat i) = wd (0xFFFFFFC050000000 + i)"
    using demo_user_page by metis
  define s where "s = set_kreg 0x8000 8 5 (set_kreg 0x8000 0 0 (set_kreg 0x8000 1 0x400000 (set_kreg 0x8000 2 256 (demo_user m [0x69, 0x0A]))))"
  have k: "kreg 0x8000 8 s = 5" "kreg 0x8000 0 s = 0" "kreg 0x8000 1 s = 0x400000" "kreg 0x8000 2 s = 256"
    by (simp_all add: s_def kreg_set_kreg)
  have u: "kuart (trest s) = demo_uart\<lparr>uart_in_buf := [0x69, 0x0A] @ replicate 254 0, uib_index := 2\<rparr>" "daif_wf (tdaif s)"
    by (simp_all add: s_def demo_user_fields)
  have wf: "uart_wf (kuart (trest s))" "line_ready (kuart (trest s))" "typed (kuart (trest s)) = [0x69, 0x0A]"
    by (simp_all add: u uart_wf_def UART_IN_BUF_LEN_def line_ready_def typed_def demo_uart_def init_uart_def Let_def spin_lock_init_def)
  have svc: "is_svc (0x15 * 2 ^ 26)" by (simp add: is_svc_def get_ec_from_esr_def drop_bit_eq_div)
  have n: "uib_index (kuart (trest s)) = 2" by (simp add: u)
  have "inj_on (\<lambda>i. user_addr (kvm (trest s)) (0x400000 + of_nat i)) {..<2}"
  proof (rule inj_onI)
    fix i j :: nat assume "i \<in> {..<2}" "j \<in> {..<2}" "user_addr (kvm (trest s)) (0x400000 + of_nat i) = user_addr (kvm (trest s)) (0x400000 + of_nat j)"
    then have "i < 2" "j < 2" "wd (0xFFFFFFC050000000 + i) = wd (0xFFFFFFC050000000 + j)" using m(3) [of i] m(3) [of j] by (simp_all add: s_def)
    moreover have "(0xFFFFFFC050000000 :: nat) + 2 \<le> 2 ^ 64" by simp
    ultimately show "i = j" using wd_add_inj by blast
  qed
  then have ok: "of_nat (uib_index (kuart (trest s))) \<le> kreg 0x8000 2 s \<longrightarrow> user_tables (kvm (trest s)) \<and>
      (\<forall>i < uib_index (kuart (trest s)). writable_at (kvm (trest s)) (kreg 0x8000 1 s + of_nat i)) \<and>
      inj_on (\<lambda>i. user_addr (kvm (trest s)) (kreg 0x8000 1 s + of_nat i)) {..<uib_index (kuart (trest s))}"
    using m(1,2) unfolding n k by (simp add: s_def)
  obtain s' where s': "do_el0_sync demo_image Some 0 (0x15 * 2 ^ 26) 0x8000 s = Some s'" "kreg 0x8000 0 s' = of_nat (length (typed (kuart (trest s))))"
    "\<forall>i < length (typed (kuart (trest s))). user_load (kvm (trest s')) (kreg 0x8000 1 s + of_nat i) = Some (typed (kuart (trest s)) ! i)"
    using read_syscall_line [where s = s and regs = "0x8000" and ki = demo_image and env = Some and addr = 0,
        OF svc k(1,2) u(2) wf(1,2) ok] unfolding k n by auto
  have "user_load (kvm (trest s')) 0x400000 = Some 0x69" using s'(3) unfolding wf(3) k by (auto dest: spec [of _ 0])
  moreover have "kreg 0x8000 0 s' = 2" using s'(2) unfolding wf(3) by simp
  ultimately show ?thesis using s'(1) unfolding s_def by blast
qed

text \<open>C33. \<^verbatim>\<open>write\<close> on the console: the bytes of the buffer go out in order, every one, after what was already sent; the result is their
  number, and memory, interrupt mask and the typed line stay as they were. Any other descriptor gives -1 and sends nothing.\<close>

theorem write_syscall_sends:
  fixes s :: ksys and regs :: u64
  defines "buf \<equiv> kreg regs 1 s"
  assumes "is_svc esr" "kreg regs 8 s = 6" "kreg regs 2 s = of_nat (length bs)" "length bs < 2 ^ 31"
    "(ucast (kreg regs 0 s) :: u32) = 1 \<longrightarrow> (\<forall>i < length bs. user_load (kvm (trest s)) (buf + of_nat i) = Some (bs ! i))"
  shows "\<exists>s'. do_el0_sync ki env addr esr regs s = Some s' \<and> tdaif s' = tdaif s \<and> vmem (kvm (trest s')) = vmem (kvm (trest s)) \<and>
    (if (ucast (kreg regs 0 s) :: u32) = 1
     then kreg regs 0 s' = of_nat (length bs) \<and>
       kuart (trest s') = (kuart (trest s))\<lparr>uart_tx := uart_tx (kuart (trest s)) @ map ucast bs\<rparr>
     else kreg regs 0 s' = -1 \<and> kuart (trest s') = kuart (trest s))"
proof -
  define e where "e = svc_entry regs s"
  have k: "kreg regs 0 e = kreg regs 0 s" "kreg regs 1 e = buf" "kreg regs 2 e = of_nat (length bs)"
    using assms(4) by (simp_all add: e_def kreg_svc_entry buf_def)
  have ef: "kuart (trest e) = kuart (trest s)" "tdaif e = tdaif s" "vmem (kvm (trest e)) = vmem (kvm (trest s))"
    "user_load (kvm (trest e)) x = user_load (kvm (trest s)) x" for x
    by (simp_all add: e_def svc_entry_def)
  have run: "do_el0_sync ki env addr esr regs s = sys_write regs e"
    unfolding do_el0_sync_svc [OF assms(2)] assms(3) by (simp add: MAX_NUM_SYSCALLS_def syscall_func_def e_def)
  have n: "unat (of_nat (length bs) :: u64) = length bs" using assms(5) by (simp add: unat_of_nat take_bit_nat_eq_self)
  show ?thesis
  proof (cases "(ucast (kreg regs 0 s) :: u32) = 1")
    case True
    have "user_load (kvm (trest e)) (buf + of_nat (0 + j)) = Some (bs ! j)" if "j < length bs" for j
      using that assms(6) True ef by simp
    from write_stdout_loop_run [OF this] assms(5)
    have w: "write_stdout_loop buf 0 (length bs) e = Some (upd_kern (\<lambda>k. k\<lparr>kuart := (kuart k)\<lparr>uart_tx := uart_tx (kuart k) @ map ucast bs\<rparr>\<rparr>) e)"
      by simp
    have "scast (ucast (of_nat (length bs) :: u64) :: u32) = (of_nat (length bs) :: u64)"
      using assms(5) by (simp add: unsigned_of_nat take_bit_nat_eq_self signed_of_nat signed_take_bit_int_eq_self)
    then have "do_el0_sync ki env addr esr regs s = Some (set_kreg regs 0 (of_nat (length bs))
        (upd_kern (\<lambda>k. k\<lparr>kuart := (kuart k)\<lparr>uart_tx := uart_tx (kuart k) @ map ucast bs\<rparr>\<rparr>) e))"
      unfolding run sys_write_def Let_def k write_stdout_def n w using True by simp
    then show ?thesis using True ef by (auto simp: kreg_set_kreg upd_kern_def)
  next
    case False
    have "scast (ucast (-1 :: u64) :: u32) = (-1 :: u64)" by code_simp
    then have "do_el0_sync ki env addr esr regs s = Some (set_kreg regs 0 (-1) e)"
      unfolding run sys_write_def Let_def k using False by simp
    then show ?thesis using False ef by (auto simp: kreg_set_kreg)
  qed
qed


theorem write_syscall_sends_witness:
  "\<exists>m s'. do_el0_sync demo_image Some 0 (0x15 * 2 ^ 26) 0x8000
      (set_kreg 0x8000 8 6 (set_kreg 0x8000 0 1 (set_kreg 0x8000 1 0x400000 (set_kreg 0x8000 2 2 (demo_user m []))))) = Some s' \<and>
    kreg 0x8000 0 s' = 2 \<and> length (uart_tx (kuart (trest s'))) = length (uart_tx (kuart (trest (demo_user m [])))) + 2"
proof -
  obtain m where m: "\<And>i. i < 4096 \<Longrightarrow> writable_at (kvm (trest (demo_user m []))) (0x400000 + of_nat i)" using demo_user_page by metis
  define s where "s = set_kreg 0x8000 8 6 (set_kreg 0x8000 0 1 (set_kreg 0x8000 1 0x400000 (set_kreg 0x8000 2 2 (demo_user m []))))"
  have k: "kreg 0x8000 8 s = 6" "kreg 0x8000 0 s = 1" "kreg 0x8000 1 s = 0x400000" "kreg 0x8000 2 s = 2"
    by (simp_all add: s_def kreg_set_kreg)
  have svc: "is_svc (0x15 * 2 ^ 26)" by (simp add: is_svc_def get_ec_from_esr_def drop_bit_eq_div)
  define bs where "bs = map (\<lambda>i. vmem (kvm (trest s)) (user_addr (kvm (trest s)) (0x400000 + of_nat i))) [0, 1]"
  have n: "length bs = 2" by (simp add: bs_def)
  have "user_load (kvm (trest s)) (0x400000 + of_nat i) = Some (bs ! i)" if "i < 2" for i
    using m [of i] that by (auto simp: less_2_cases_iff bs_def s_def user_load_def writable_at_def)
  then have ld: "(ucast (kreg 0x8000 0 s) :: u32) = 1 \<longrightarrow>
      (\<forall>i < length bs. user_load (kvm (trest s)) (kreg 0x8000 1 s + of_nat i) = Some (bs ! i))" unfolding n k by blast
  have "kreg 0x8000 2 s = of_nat (length bs)" "length bs < 2 ^ 31" unfolding n k by simp_all
  from write_syscall_sends [where s = s and regs = "0x8000" and ki = demo_image and env = Some and addr = 0, OF svc k(1) this ld]
  show ?thesis unfolding n k s_def [symmetric] by (intro exI [of _ m]) (auto simp: s_def n)
qed

end
