(* ===== verification/Usr.thy ===== *)
theory Usr
  imports Console Printk
begin

text \<open>
  The library of user programs: the system calls as \<^verbatim>\<open>usr/unistd.c\<close> wraps them, and \<^verbatim>\<open>malloc\<close>, \<^verbatim>\<open>calloc\<close> and \<^verbatim>\<open>free\<close> of
  \<^verbatim>\<open>usr/stdlib.c\<close>. The instruction \<^verbatim>\<open>svc\<close> is an argument of the wrappers: it takes the number of the system call and the argument
  registers from \<^verbatim>\<open>X0\<close> on, and gives \<^verbatim>\<open>X0\<close> and the new state. Executed by the kernel it is \<open>svc_insn\<close>, and with that one \<^verbatim>\<open>sbrk\<close>
  interprets the locale \<open>sbrk_provider\<close>: the allocator of user programs has the contract of the kernel heap.
\<close>

section \<open>System calls\<close>

type_synonym 'p svc = "u64 \<Rightarrow> u64 list \<Rightarrow> 'p \<Rightarrow> (u64 \<times> 'p) option"

definition NR_fork :: u64 where "NR_fork = 0"
definition NR_brk :: u64 where "NR_brk = 1"
definition NR_exit :: u64 where "NR_exit = 2"
definition NR_nanosleep :: u64 where "NR_nanosleep = 3"
definition NR_pause :: u64 where "NR_pause = 4"
definition NR_read :: u64 where "NR_read = 5"
definition NR_write :: u64 where "NR_write = 6"

lemmas NR_defs = NR_fork_def NR_brk_def NR_exit_def NR_nanosleep_def NR_pause_def NR_read_def NR_write_def

definition fork :: "'p svc \<Rightarrow> 'p \<Rightarrow> (int \<times> 'p) option" where
  "fork svc s = do { (res, s) \<leftarrow> svc NR_fork [] s; Some (sint res, s) }"

definition sys_brk_u :: "'p svc \<Rightarrow> u64 \<Rightarrow> 'p \<Rightarrow> (u64 \<times> 'p) option" where
  "sys_brk_u svc addr s = svc NR_brk [addr] s"

definition brk_u :: "'p svc \<Rightarrow> u64 \<Rightarrow> 'p \<Rightarrow> (int \<times> 'p) option" where
  "brk_u svc addr s =
    (if addr = NULL then Some (-1, s)
     else do {
       (ret, s) \<leftarrow> sys_brk_u svc addr s;
       Some (if ret \<noteq> addr then -1 else 0, s) })"

definition sbrk :: "'p svc \<Rightarrow> u64 \<Rightarrow> 'p \<Rightarrow> (u64 \<times> 'p) option" where
  "sbrk svc increment s = do {
     (old_brk, s) \<leftarrow> sys_brk_u svc 0 s;
     if increment = 0 then Some (old_brk, s)
     else do {
       let new_brk = old_brk + increment;
       (ret, s) \<leftarrow> sys_brk_u svc new_brk s;
       Some (if ret \<noteq> new_brk then -1 else old_brk, s) } }"

definition exit_u :: "'p svc \<Rightarrow> int \<Rightarrow> 'p \<Rightarrow> 'p option" where
  "exit_u svc status s = do { (res, s) \<leftarrow> svc NR_exit [of_int status] s; Some s }"

text \<open>The result of \<^verbatim>\<open>nanosleep\<close> is a \<^verbatim>\<open>long\<close> cut to an \<^verbatim>\<open>int\<close>; \<open>ld\<close> reads a \<^verbatim>\<open>long\<close> from the memory of the process and \<open>st\<close>
  writes one.\<close>

definition nanosleep :: "'p svc \<Rightarrow> (u64 \<Rightarrow> 'p \<Rightarrow> int option) \<Rightarrow> u64 \<Rightarrow> u64 \<Rightarrow> 'p \<Rightarrow> (int \<times> 'p) option" where
  "nanosleep svc ld req rem s =
    (if req = NULL then Some (-1, s)
     else do {
       tv_sec \<leftarrow> ld req s;
       tv_nsec \<leftarrow> ld (req + 8) s;
       if tv_sec < 0 \<or> tv_nsec < 0 \<or> 1000000000 \<le> tv_nsec then Some (-1, s)
       else do {
         (res, s) \<leftarrow> svc NR_nanosleep [req, rem] s;
         Some (sint (ucast res :: u32), s) } })"

text \<open>The local objects of \<^verbatim>\<open>sleep\<close> lie at \<open>req\<close> and \<open>rem\<close>.\<close>

definition sleep :: "'p svc \<Rightarrow> (u64 \<Rightarrow> 'p \<Rightarrow> int option) \<Rightarrow> (u64 \<Rightarrow> int \<Rightarrow> 'p \<Rightarrow> 'p option) \<Rightarrow> u64 \<Rightarrow> u64 \<Rightarrow> u32 \<Rightarrow> 'p \<Rightarrow>
    (u32 \<times> 'p) option" where
  "sleep svc ld st req rem seconds s = do {
     s \<leftarrow> st req 0 s;
     s \<leftarrow> st (req + 8) 0 s;
     tv_sec \<leftarrow> ld req s;
     s \<leftarrow> st req (tv_sec + int (unat seconds)) s;
     (ret, s) \<leftarrow> nanosleep svc ld req rem s;
     if ret = 0 then Some (0, s)
     else do {
       tv_sec \<leftarrow> ld rem s;
       tv_nsec \<leftarrow> ld (rem + 8) s;
       Some (of_int (tv_sec + (if tv_nsec \<noteq> 0 then 1 else 0)), s) } }"

definition pause :: "'p svc \<Rightarrow> 'p \<Rightarrow> (int \<times> 'p) option" where
  "pause svc s = do { (res, s) \<leftarrow> svc NR_pause [] s; Some (sint (ucast res :: u32), s) }"

definition read_u :: "'p svc \<Rightarrow> int \<Rightarrow> u64 \<Rightarrow> u64 \<Rightarrow> 'p \<Rightarrow> (int \<times> 'p) option" where
  "read_u svc fd buf count s =
    (if fd < 0 \<or> buf = NULL then Some (-1, s)
     else do { (res, s) \<leftarrow> svc NR_read [of_int fd, buf, count] s; Some (sint res, s) })"

definition write_u :: "'p svc \<Rightarrow> int \<Rightarrow> u64 \<Rightarrow> u64 \<Rightarrow> 'p \<Rightarrow> (int \<times> 'p) option" where
  "write_u svc fd buf count s =
    (if fd < 0 \<or> buf = NULL then Some (-1, s)
     else do { (res, s) \<leftarrow> svc NR_write [of_int fd, buf, count] s; Some (sint res, s) })"

section \<open>malloc and free\<close>

text \<open>\<open>hmem\<close> is the memory of the process as it sees it, and \<open>hbrk\<close> the state its system calls work on.\<close>

type_synonym 'p uheap = "('p, unit) heap"

definition total_length_fmt :: "u8 list" where
  "total_length_fmt = map of_char ''get_pool_malloc_total_length=%d'' @ [0x0A]"

definition init_malloc_free :: "'p svc \<Rightarrow> 'p uheap \<times> console \<Rightarrow> ('p uheap \<times> console) option" where
  "init_malloc_free svc = (\<lambda>(h, con). do {
     h \<leftarrow> init_mm h (sbrk svc) () None None None;
     len \<leftarrow> get_pool_malloc_total_length h;
     (n, con) \<leftarrow> printf (Some total_length_fmt) [len] con;
     Some (h, con) })"

definition malloc :: "'p uheap \<Rightarrow> u64 \<Rightarrow> (u64 \<times> 'p uheap) option" where
  "malloc h n = alloc_mem h n"

definition free :: "'p uheap \<Rightarrow> u64 \<Rightarrow> 'p uheap option" where
  "free h p = free_mem h p"

text \<open>The counter of the loop is an \<^verbatim>\<open>int\<close>, which must not pass \<^verbatim>\<open>INT_MAX\<close>.\<close>

function calloc_loop :: "u64 \<Rightarrow> nat \<Rightarrow> nat \<Rightarrow> 'p uheap \<Rightarrow> 'p uheap option" where
  "calloc_loop p i n h =
    (if i < n then
       (if i = 2 ^ 31 then None
        else calloc_loop p (i + 1) n (poke h (p + of_nat i) 0))
     else Some h)"
  by pat_completeness auto
termination
  by (relation "measure (\<lambda>(p, i, n, h). n - i)") auto

declare calloc_loop.simps [simp del]

definition calloc :: "'p uheap \<Rightarrow> u64 \<Rightarrow> u64 \<Rightarrow> (u64 \<times> 'p uheap) option" where
  "calloc h nmemb n = do {
     let total_size = nmemb * n;
     (p, h) \<leftarrow> malloc h total_size;
     if p = NULL then Some (NULL, h)
     else do {
       h \<leftarrow> calloc_loop p 0 (unat total_size) h;
       Some (p, h) } }"

section \<open>The system call instruction\<close>

text \<open>
  The exception that \<^verbatim>\<open>svc\<close> raises: the entry code has stored the registers of the process at \<open>regs\<close>, with the number of the call
  in \<^verbatim>\<open>X8\<close>, the handler of the kernel runs, and the process finds the result in \<^verbatim>\<open>X0\<close>. The syndrome register says that
  the cause is a system call.
\<close>

definition ESR_SVC :: u64 where "ESR_SVC = 0x54000000"

definition svc_insn :: "kimage \<Rightarrow> kenv \<Rightarrow> u64 \<Rightarrow> u64 \<Rightarrow> ksys svc" where
  "svc_insn ki env addr regs n args s = do {
     let s = set_kreg regs 8 n s;
     let s = fold (\<lambda>(i, x). set_kreg regs i x) (enumerate 0 args) s;
     s \<leftarrow> do_el0_sync ki env addr ESR_SVC regs s;
     Some (kreg regs 0 s, s) }"

lemma is_svc_ESR_SVC [simp]: "is_svc ESR_SVC"
  by (simp add: is_svc_def get_ec_from_esr_def ESR_SVC_def drop_bit_eq_div)

section \<open>The break of a process\<close>

lemma setup_vma_brk:
  assumes "setup_vma t a e fl l s = Some (r, s')"
  shows "start_brk (mms s' q) = start_brk (mms s q) \<and> brk (mms s' q) = brk (mms s q)"
  using assms by (auto simp: setup_vma_def set_heap_def upd_vma_def upd_mm_def Let_def split: if_splits bind_splits)

text \<open>The end of \<^verbatim>\<open>sys_brk\<close> comes back on a well-formed address space, whether or not there is a heap area and whether or not the
  kernel has memory for a new one.\<close>

definition brk_done :: "task_ptr \<Rightarrow> u64 \<Rightarrow> u64 \<Rightarrow> vmsys \<Rightarrow> vmsys \<Rightarrow> bool" where
  "brk_done t regs b s s' \<longleftrightarrow> (\<exists>vs bl. as_inv t vs bl s') \<and> mm (vm_task s' t) = mm (vm_task s t) \<and>
    get_current_proc (vm_sched s') = get_current_proc (vm_sched s) \<and>
    brk (mms s' (mm (vm_task s t))) = b \<and>
    start_brk (mms s' (mm (vm_task s t))) = start_brk (mms s (mm (vm_task s t))) \<and> pt_reg regs 0 s' = b"

lemma brk_out_run:
  assumes "as_inv t vs bl s"
  shows "\<exists>s'. brk_out t regs s = Some s' \<and> brk_done t regs (brk (mms s (mm (vm_task s t)))) s s'"
proof -
  let ?p = "mm (vm_task s t)"
  show ?thesis
  proof (cases "List.find (vma_covers (vmas s) (start_brk (mms s ?p))) vs")
    case (Some v)
    then show ?thesis using brk_out_found [OF assms Some] as_inv_vm_end(1) [OF assms]
      by (auto simp: brk_done_def intro!: exI)
  next
    case None
    then have n: "find_vma s ?p (start_brk (mms s ?p)) = Some NULL" using find_vma_chain [OF assms] by simp
    obtain r s' where r: "setup_vma t (start_brk (mms s ?p)) (brk (mms s ?p)) (VM_READ OR VM_WRITE) (-1) s = Some (r, s')"
      "\<forall>u. vm_task s' u = vm_task s u" "\<exists>vs bl. as_inv t vs bl s'" "vm_sched s' = (vm_sched s)\<lparr>kernel_heap := vm_heap s'\<rparr>"
      using setup_vma_inv [OF assms, of "start_brk (mms s ?p)" "brk (mms s ?p)" "VM_READ OR VM_WRITE" "-1"] by blast
    have "get_current_proc (vm_sched s') = get_current_proc (vm_sched s)"
      using r(4) by (simp add: get_current_proc_def current_thread_info_def)
    then show ?thesis using n r setup_vma_brk [OF r(1)]
      by (auto simp: brk_out_def brk_done_def)
  qed
qed


lemma UPPER_PAGE_ADDR_mono:
  assumes "a \<le> b" "b \<le> MAX_BRK_ADDR"
  shows "UPPER_PAGE_ADDR a \<le> UPPER_PAGE_ADDR b"
proof -
  have "unat a \<le> unat b" "unat b \<le> 0x0C000000" using assms by (auto simp: word_le_nat_alt MAX_BRK_ADDR_def)
  then show ?thesis by (simp add: word_le_nat_alt unat_UPPER_PAGE_ADDR div_le_mono)
qed

lemma sys_brk_run:
  assumes "as_inv t vs bl s" "get_current_proc (vm_sched s) = t"
    "start_brk (mms s (mm (vm_task s t))) \<le> brk (mms s (mm (vm_task s t)))"
    "addr = pt_reg regs 0 s" "addr = 0 \<or> brk (mms s (mm (vm_task s t))) \<le> addr"
  shows "\<exists>s'. sys_brk regs s = Some s' \<and>
    brk_done t regs (if addr = 0 \<or> MAX_BRK_ADDR < addr then brk (mms s (mm (vm_task s t))) else addr) s s'"
proof -
  let ?p = "mm (vm_task s t)"
  have p: "?p \<noteq> NULL" using assms(1) by (simp add: as_inv_def)
  show ?thesis
  proof (cases "addr = 0 \<or> MAX_BRK_ADDR < addr")
    case True
    then have "sys_brk regs s = brk_out t regs s" using p assms(2,4) by (auto simp: sys_brk_def Let_def)
    then show ?thesis using True brk_out_run [OF assms(1)] by simp
  next
    case False
    let ?s = "upd_mm ?p (\<lambda>m. m\<lparr>brk := addr\<rparr>) s"
    have le: "start_brk (mms s ?p) \<le> addr" "brk (mms s ?p) \<le> addr" "addr \<le> MAX_BRK_ADDR" using False assms(3,5) by auto
    have "sys_brk regs s = brk_out t regs ?s"
      using False le UPPER_PAGE_ADDR_mono [OF le(2,3)] p assms(2) brk_ucast [OF le(3)]
      by (auto simp: sys_brk_def Let_def assms(4) [symmetric])
    moreover have "as_inv t vs bl ?s" by (rule as_inv_brk [OF assms(1)]) simp
    ultimately show ?thesis using False brk_out_run [of t vs bl ?s regs] by (auto simp: brk_done_def)
  qed
qed

text \<open>A process whose break the kernel manages: its address space is well formed, and the break is above its start and within the
  limit.\<close>

abbreviation umm :: "ksys \<Rightarrow> mm_struct" where
  "umm s \<equiv> mms (kvm (trest s)) (mm (vm_task (kvm (trest s)) (current s)))"

definition ubrk_ok :: "ksys \<Rightarrow> bool" where
  "ubrk_ok s \<longleftrightarrow> (\<exists>vs bl. as_inv (current s) vs bl (kvm (trest s))) \<and> start_brk (umm s) \<le> brk (umm s) \<and> brk (umm s) \<le> MAX_BRK_ADDR"

definition ubrk_of :: "ksys \<Rightarrow> nat" where
  "ubrk_of s = unat (brk (umm s))"

lemma as_inv_daif [simp]:
  "as_inv t vs bl (s\<lparr>vm_sched := (vm_sched s)\<lparr>daif := d\<rparr>\<rparr>) = as_inv t vs bl s"
  "vm_task (s\<lparr>vm_sched := (vm_sched s)\<lparr>daif := d\<rparr>\<rparr>) t = vm_task s t"
  "get_current_proc ((vm_sched s)\<lparr>daif := d\<rparr>) = get_current_proc (vm_sched s)"
  "pt_reg r i (s\<lparr>vm_sched := (vm_sched s)\<lparr>daif := d\<rparr>\<rparr>) = pt_reg r i s"
  by (simp_all add: as_inv_def as_pages_def vma_lists_def vm_heap_def vm_task_def task_of_def get_current_proc_def
      current_thread_info_def pt_reg_def split: task_ptr.splits)

lemma kvm_set_kreg [simp]: "kvm (trest (set_kreg regs i x s)) = set_pt_reg regs i x (kvm (trest s))"
  by (simp add: set_kreg_def upd_kern_def)

lemma current_set_kreg [simp]: "current (set_kreg regs i x s) = current s"
  by (simp add: current_def ksched_def)

lemma svc_brk:
  assumes "ubrk_ok s" "addr = 0 \<or> brk (umm s) \<le> addr"
  shows "\<exists>s'. svc_insn ki env a regs NR_brk [addr] s = Some (brk (umm s'), s') \<and> ubrk_ok s' \<and>
    brk (umm s') = (if addr = 0 \<or> MAX_BRK_ADDR < addr then brk (umm s) else addr)"
proof -
  define s0 where "s0 = svc_entry regs (set_kreg regs 0 addr (set_kreg regs 8 NR_brk s))"
  define v where "v = (kvm (trest s0))\<lparr>vm_sched := (vm_sched (kvm (trest s0)))\<lparr>daif := tdaif s0\<rparr>\<rparr>"
  obtain vs bl where i: "as_inv (current s) vs bl (kvm (trest s))" using assms(1) by (auto simp: ubrk_ok_def)
  have v: "as_inv (current s) vs bl v" "get_current_proc (vm_sched v) = current s" "vm_task v u = vm_task (kvm (trest s)) u"
    "mms v = mms (kvm (trest s))" for u
    using i by (simp_all add: v_def s0_def svc_entry_def current_def ksched_def)
  have "pt_reg regs 0 (kvm (trest s0)) = addr"
    using kreg_svc_entry(1) [of 0 regs "set_kreg regs 0 addr (set_kreg regs 8 NR_brk s)"]
    by (simp add: s0_def kreg_set_kreg kreg_def [symmetric])
  then have "addr = pt_reg regs 0 v" by (simp add: v_def)
  moreover have e: "mms v (mm (vm_task v (current s))) = umm s" by (simp add: v(3,4))
  ultimately obtain v' where
    v': "sys_brk regs v = Some v'" "brk_done (current s) regs (if addr = 0 \<or> MAX_BRK_ADDR < addr then brk (umm s) else addr) v v'"
    using sys_brk_run [OF v(1,2), of addr regs] assms unfolding e ubrk_ok_def by blast
  define s' where "s' = upd_kern (\<lambda>k. k\<lparr>kvm := v'\<rparr>) (s0\<lparr>tdaif := daif (vm_sched v')\<rparr>)"
  have k: "kvm (trest s') = v'" by (simp add: s'_def upd_kern_def)
  have c: "current s' = current s" using v'(2) v(2) by (simp add: current_def ksched_def k brk_done_def)
  have m: "umm s' = mms v' (mm (vm_task v (current s)))" using v'(2) unfolding c k by (simp add: brk_done_def)
  have "do_el0_sync ki env a ESR_SVC regs (set_kreg regs 0 addr (set_kreg regs 8 NR_brk s)) = do_vm (sys_brk regs) s0"
    by (simp add: do_el0_sync_svc kreg_set_kreg NR_brk_def MAX_NUM_SYSCALLS_def syscall_func_def s0_def word_le_nat_alt)
  also have "\<dots> = Some s'" using v'(1) by (simp add: do_vm_def with_vm_def v_def s'_def)
  finally have "svc_insn ki env a regs NR_brk [addr] s = Some (kreg regs 0 s', s')"
    by (simp add: svc_insn_def enumerate_eq_zip)
  moreover have "kreg regs 0 s' = brk (umm s')" using v'(2) unfolding m unfolding kreg_def k by (simp add: brk_done_def)
  moreover have b: "brk (umm s') = (if addr = 0 \<or> MAX_BRK_ADDR < addr then brk (umm s) else addr)"
    using v'(2) unfolding m by (simp add: brk_done_def)
  moreover have "start_brk (umm s') = start_brk (umm s)" using v'(2) unfolding m by (simp add: brk_done_def e)
  then have "ubrk_ok s'" using v'(2) assms unfolding ubrk_ok_def b c k by (auto simp: brk_done_def)
  ultimately show ?thesis by auto
qed


lemma ubrk_bound: "ubrk_ok s \<Longrightarrow> ubrk_of s \<le> unat MAX_BRK_ADDR"
  by (auto simp: ubrk_ok_def ubrk_of_def word_le_nat_alt)

lemma sbrk_run:
  assumes "ubrk_ok s" "0 < n" "n \<le> int_max"
  shows "\<exists>s'. ubrk_ok s' \<and>
    (if ubrk_of s + n \<le> unat MAX_BRK_ADDR
     then sbrk (svc_insn ki env a regs) (wd n) s = Some (wd (ubrk_of s), s') \<and> ubrk_of s' = ubrk_of s + n
     else sbrk (svc_insn ki env a regs) (wd n) s = Some (-1, s') \<and> ubrk_of s' = ubrk_of s)"
proof -
  obtain s1 where s1: "svc_insn ki env a regs NR_brk [0] s = Some (brk (umm s1), s1)" "ubrk_ok s1" "brk (umm s1) = brk (umm s)"
  proof -
    from svc_brk [OF assms(1), of 0 ki env a regs] obtain s1 where "svc_insn ki env a regs NR_brk [0] s = Some (brk (umm s1), s1)"
      "ubrk_ok s1" "brk (umm s1) = brk (umm s)" by auto
    then show thesis by (rule that)
  qed
  define new where "new = brk (umm s) + wd n"
  have b: "ubrk_of s \<le> 0x0C000000" using ubrk_bound [OF assms(1)] by (simp add: MAX_BRK_ADDR_def)
  have n: "wd n \<noteq> 0" "n < 2 ^ 31" using assms(2,3) unat_wd [of n] by auto
  have u: "unat new = ubrk_of s + n"
    using b n(2) unat_wd [of n] by (simp add: new_def ubrk_of_def unat_word_ariths)
  have le: "brk (umm s1) \<le> new" using u s1(3) by (simp add: word_le_nat_alt ubrk_of_def)
  have nz: "new \<noteq> 0" "new \<noteq> brk (umm s)" using u assms(2) by (auto simp: ubrk_of_def)
  obtain s2 where s2: "svc_insn ki env a regs NR_brk [new] s1 = Some (brk (umm s2), s2)" "ubrk_ok s2"
    "brk (umm s2) = (if MAX_BRK_ADDR < new then brk (umm s) else new)"
  proof -
    from svc_brk [OF s1(2), of new ki env a regs] le nz(1) obtain s2 where
      "svc_insn ki env a regs NR_brk [new] s1 = Some (brk (umm s2), s2)" "ubrk_ok s2"
      "brk (umm s2) = (if MAX_BRK_ADDR < new then brk (umm s) else new)" unfolding s1(3) by auto
    then show thesis by (rule that)
  qed
  have "sbrk (svc_insn ki env a regs) (wd n) s = Some (if brk (umm s2) \<noteq> new then -1 else brk (umm s), s2)"
    using s1(1,3) s2(1) n(1) by (simp add: sbrk_def sys_brk_u_def new_def)
  moreover have "MAX_BRK_ADDR < new \<longleftrightarrow> \<not> ubrk_of s + n \<le> unat MAX_BRK_ADDR" using u by (simp add: word_less_nat_alt not_le)
  ultimately show ?thesis
    using s2(2,3) nz(2) u by (intro exI [of _ s2]) (simp add: ubrk_of_def wd_unat)
qed

interpretation userheap: sbrk_provider "sbrk (svc_insn ki env a regs)" ubrk_of ubrk_ok "unat MAX_BRK_ADDR" for ki env a regs
proof unfold_locales
  fix s n
  assume "ubrk_ok s" "0 < n" "n \<le> int_max"
  from sbrk_run [OF this, of ki env a regs] show "\<exists>s'. ubrk_ok s' \<and>
      (sbrk (svc_insn ki env a regs) (wd n) s = Some (-1, s') \<and> ubrk_of s' = ubrk_of s \<or>
       sbrk (svc_insn ki env a regs) (wd n) s = Some (wd (ubrk_of s), s') \<and> ubrk_of s' = ubrk_of s + n)"
    by (auto split: if_splits)
qed (erule ubrk_bound, simp add: MAX_BRK_ADDR_def)


section \<open>The heap of a process\<close>

definition uheap_inv :: "kimage \<Rightarrow> kenv \<Rightarrow> u64 \<Rightarrow> u64 \<Rightarrow> ksys uheap \<Rightarrow> bool" where
  "uheap_inv ki env a regs h \<longleftrightarrow> heap_inv (sbrk (svc_insn ki env a regs)) ubrk_of ubrk_ok (unat MAX_BRK_ADDR) h"

lemma uheap_brk:
  assumes "uheap_inv ki env a regs h"
  shows "unat (pool_end (hpool h)) = ubrk_of (hbrk h)" "unat (pool_start (hpool h)) + blens (heap_blks h) = ubrk_of (hbrk h)"
    "0 < blens (heap_blks h)" "blens (heap_blks h) \<le> int_max"
proof -
  from assms have ok: "heap_ok (sbrk (svc_insn ki env a regs)) ubrk_of ubrk_ok (unat MAX_BRK_ADDR) h (heap_blks h)"
    by (simp add: uheap_inv_def heap_inv_def)
  note f = userheap.ok_facts [OF ok refl refl]
  show "unat (pool_end (hpool h)) = ubrk_of (hbrk h)" using ok by (simp add: heap_ok_def)
  show "unat (pool_start (hpool h)) + blens (heap_blks h) = ubrk_of (hbrk h)" "0 < blens (heap_blks h)" "blens (heap_blks h) \<le> int_max"
    using f(3,7,11) by simp_all
qed

lemma user_exhausted:
  assumes "uheap_inv ki env a regs h" "exhausted (sbrk (svc_insn ki env a regs)) ubrk_of ubrk_ok h"
  shows "unat MAX_BRK_ADDR < ubrk_of (hbrk h) + blens (heap_blks h)"
proof (rule ccontr)
  let ?n = "blens (heap_blks h)"
  note u = uheap_brk [OF assms(1)]
  assume "\<not> ?thesis"
  then have le: "ubrk_of (hbrk h) + ?n \<le> unat MAX_BRK_ADDR" by simp
  obtain k where k: "ubrk_ok k" "ubrk_of k = ubrk_of (hbrk h)"
    "sbrk (svc_insn ki env a regs) (pool_end (hpool h) - pool_start (hpool h)) k = Some (-1, hbrk h)"
    using assms(2) u(1) by (auto simp: exhausted_def)
  have "pool_end (hpool h) - pool_start (hpool h) = wd ?n"
    using userheap.ok_facts(14) [OF _ refl refl, of ki env a regs h "heap_blks h"] assms(1)
    by (simp add: uheap_inv_def heap_inv_def)
  then show False using sbrk_run [OF k(1) u(3,4), of ki env a regs] k(2,3) le userheap.brk_not_minus_one [OF k(1)] by auto
qed

lemma malloc_run:
  assumes "uheap_inv ki env a regs h" "unat n + 7 < 2 ^ 64"
  shows "\<exists>p h'. malloc h n = Some (p, h') \<and> uheap_inv ki env a regs h' \<and>
    live_kept (allocs h) (hmem h) (hmem h') \<and>
    (if p = NULL then allocs h' = allocs h \<and>
       (n \<noteq> 0 \<longrightarrow> unat MAX_BRK_ADDR < ubrk_of (hbrk h') + blens (heap_blks h') \<and>
          (\<forall>b \<in> set (heap_blks h'). \<not> fits (unat (ALIGNED_TO_8BYTES n)) b))
     else allocs h' = insert (unat p, unat n) (allocs h) \<and> unat p \<notin> fst ` allocs h \<and>
       8 dvd unat p \<and> 0 < unat n \<and> unat p + unat n < ubrk_of (hbrk h') \<and> mem_zero_on (unat p) (unat p + unat n) (hmem h'))"
proof -
  obtain p h' where r: "malloc h n = Some (p, h')" "uheap_inv ki env a regs h'" "live_kept (allocs h) (hmem h) (hmem h')"
    "if p = NULL then allocs h' = allocs h \<and>
       (n \<noteq> 0 \<longrightarrow> (\<forall>b \<in> set (heap_blks h'). \<not> fits (unat (ALIGNED_TO_8BYTES n)) b) \<and>
          exhausted (sbrk (svc_insn ki env a regs)) ubrk_of ubrk_ok h')
     else allocs h' = insert (unat p, unat n) (allocs h) \<and> unat p \<notin> fst ` allocs h \<and>
       8 dvd unat p \<and> 0 < unat n \<and> mem_zero_on (unat p) (unat p + unat n) (hmem h')"
    using userheap.heap_alloc [OF assms [unfolded uheap_inv_def]] unfolding malloc_def uheap_inv_def by blast
  have "unat p + unat n < ubrk_of (hbrk h')" if "p \<noteq> NULL"
    using area_bounds(2) [OF r(2) [unfolded uheap_inv_def], of "unat p" "unat n"] r(4) that uheap_brk(1) [OF r(2)] by simp
  then show ?thesis using r user_exhausted [OF r(2)] by (auto split: if_splits)
qed

lemma calloc_loop_zero:
  assumes "mem_zero_on (unat p) (unat p + n) (hmem h)" "n \<le> int_max" "i \<le> n"
  shows "calloc_loop p i n h = Some h"
  using assms(3)
proof (induction "n - i" arbitrary: i)
  case 0
  then show ?case by (simp add: calloc_loop.simps)
next
  case (Suc k)
  then have "hmem h (p + of_nat i) = 0"
    using assms(1) by (auto simp: mem_zero_on_def wd_def dest!: spec [of _ "unat p + i"])
  then have "poke h (p + of_nat i) 0 = h" by (simp add: poke_def fun_upd_idem)
  then show ?case using Suc assms(2) by (subst calloc_loop.simps) simp
qed


lemma total_length_text:
  "fmt_text (\<lambda>_. None) total_length_fmt [0] = Some (map of_char ''get_pool_malloc_total_length=0'' @ [0x0A])"
proof -
  have "digits_of 10 0 = [0x30]" by (simp add: digits_of.simps digits_def)
  then show ?thesis
    by (simp add: total_length_fmt_def spec_pad_def spec_width_def arg_text_def num_text_def)
qed

lemma printf_run:
  assumes "fmt_text (\<lambda>_. None) fmt ap = Some t"
  shows "printf (Some fmt) ap s = Some (length t, s\<lparr>con_tx := con_tx s @ map ucast t\<rparr>)"
  using uart.PRINT_text [OF assms _ TrueI, of s 0] by (simp add: printf_def fold_uart strings_ok_def)

lemma init_malloc_free_run:
  assumes "ubrk_ok (hbrk h)" "8 \<le> ubrk_of (hbrk h)" "8 dvd ubrk_of (hbrk h)" "ubrk_of (hbrk h) + 40 \<le> unat MAX_BRK_ADDR"
  shows "\<exists>h'. init_malloc_free (svc_insn ki env a regs) (h, con) =
      Some (h', con\<lparr>con_tx := con_tx con @ map ucast (map of_char ''get_pool_malloc_total_length=0'' @ [0x0A] :: u8 list)\<rparr>) \<and>
    uheap_inv ki env a regs h' \<and> allocs h' = {} \<and> unat (pool_start (hpool h')) = ubrk_of (hbrk h) \<and> ubrk_of (hbrk h') = ubrk_of (hbrk h) + 40"
proof -
  let ?svc = "svc_insn ki env a regs"
  have w: "wd 40 = 40" by (simp add: wd_def)
  have lim: "unat MAX_BRK_ADDR \<le> ubrk_of (hbrk h) + int_max" by (simp add: MAX_BRK_ADDR_def)
  have g: "sbrk ?svc 40 (hbrk h) \<noteq> Some (-1, k')" for k'
    using sbrk_run [OF assms(1), of 40 ki env a regs] assms(4) userheap.brk_not_minus_one [OF assms(1)] by (auto simp: w)
  obtain h' where h': "init_mm h (sbrk ?svc) () None None None = Some h'" "lock_func (hpool h') = None" "unlock_func (hpool h') = None"
    and ok: "heap_ok (sbrk ?svc) ubrk_of ubrk_ok (unat MAX_BRK_ADDR) h' [free_blk 40]"
    and st: "pool_start (hpool h') = wd (ubrk_of (hbrk h))"
    using userheap.init_mm_spec [OF assms(1-3) lim g, of "()" None None None] by auto
  have i: "uheap_inv ki env a regs h'" "heap_blks h' = [free_blk 40]"
    using heap_invI [OF ok] h' by (auto simp: uheap_inv_def lock_ready_def)
  have "get_pool_malloc_total_length h' = Some 0"
    using total_length_spec [of h' "[free_blk 40]"] ok by (simp add: heap_ok_def wd_def)
  moreover obtain n where "printf (Some total_length_fmt) [0] con =
      Some (n, con\<lparr>con_tx := con_tx con @ map ucast (map of_char ''get_pool_malloc_total_length=0'' @ [0x0A] :: u8 list)\<rparr>)"
    using that printf_run [OF total_length_text] by blast
  ultimately show ?thesis using h'(1) i uheap_brk(2) [OF i(1)] st assms(4)
    by (auto simp: init_malloc_free_def allocs_def MAX_BRK_ADDR_def unat_wd)
qed


section \<open>A process with a break\<close>

definition demo_proc :: "vmsys \<Rightarrow> ksys" where
  "demo_proc v = upd_kern (\<lambda>k. k\<lparr>kvm := v\<rparr>) demo_kernel"

definition demo_heap :: "vmsys \<Rightarrow> ksys uheap" where
  "demo_heap v = \<lparr>hmem = \<lambda>_. 255, hpool = \<lparr>pool_start = 0, pool_end = 0, sbrk_func = \<lambda>_ _. None, total_length = 0, pool_lock = (),
     lock_init_func = None, lock_func = None, unlock_func = None\<rparr>, hbrk = demo_proc v\<rparr>"

lemma demo_proc_brk:
  obtains v where "ubrk_ok (demo_proc v)" "ubrk_of (demo_proc v) = 0x402000"
proof -
  obtain h p v where a: "as_inv (Task 0) [v] (\<lambda>_. []) (as_area h p v)" by (rule as_area_started)
  have c: "current (demo_proc (as_area h p v)) = Task 0" "kvm (trest (demo_proc (as_area h p v))) = as_area h p v"
    by (simp_all add: demo_proc_def current_def ksched_def upd_kern_def)
  have "ubrk_ok (demo_proc (as_area h p v))" using a unfolding ubrk_ok_def c by (auto simp: MAX_BRK_ADDR_def)
  moreover have "ubrk_of (demo_proc (as_area h p v)) = 0x402000" unfolding ubrk_of_def c by simp
  ultimately show thesis by (rule that)
qed

lemma demo_heap_started:
  obtains v h where "init_malloc_free (svc_insn demo_image Some 0 0x8000) (demo_heap v, \<lparr>con_mem = \<lambda>_. 0, con_tx = []\<rparr>) \<noteq> None"
    "fst (the (init_malloc_free (svc_insn demo_image Some 0 0x8000) (demo_heap v, \<lparr>con_mem = \<lambda>_. 0, con_tx = []\<rparr>))) = h"
    "uheap_inv demo_image Some 0 0x8000 h" "allocs h = {}"
proof -
  obtain v where v: "ubrk_ok (demo_proc v)" "ubrk_of (demo_proc v) = 0x402000" by (rule demo_proc_brk)
  have b: "hbrk (demo_heap v) = demo_proc v" by (simp add: demo_heap_def)
  have n: "8 dvd (0x402000 :: nat)" "0x402000 + 40 \<le> unat MAX_BRK_ADDR" by (simp_all add: MAX_BRK_ADDR_def)
  from init_malloc_free_run [of "demo_heap v" demo_image Some 0 "0x8000" "\<lparr>con_mem = \<lambda>_. 0, con_tx = []\<rparr>", unfolded b v(2), OF v(1) _ n]
  show thesis using that by fastforce
qed

section \<open>Properties\<close>

text \<open>The heap of a user process starts on the real kernel: from any process whose break is aligned and leaves room, \<^verbatim>\<open>init_malloc_free\<close>
  comes back with an empty well-formed heap that begins at the old break, has moved the break by the 40 bytes of the first
  block through \<^verbatim>\<open>sys_brk\<close>, and reports a length of 0 on the console.\<close>

theorem user_heap_boot:
  assumes "ubrk_ok (hbrk h)" "8 \<le> ubrk_of (hbrk h)" "8 dvd ubrk_of (hbrk h)" "ubrk_of (hbrk h) + 40 \<le> unat MAX_BRK_ADDR"
  shows "\<exists>h'. init_malloc_free (svc_insn ki env a regs) (h, con) =
      Some (h', con\<lparr>con_tx := con_tx con @ map ucast (map of_char ''get_pool_malloc_total_length=0'' @ [0x0A] :: u8 list)\<rparr>) \<and>
    uheap_inv ki env a regs h' \<and> allocs h' = {} \<and> unat (pool_start (hpool h')) = ubrk_of (hbrk h) \<and> ubrk_of (hbrk h') = ubrk_of (hbrk h) + 40"
  using assms by (rule init_malloc_free_run)

theorem user_heap_boot_witness:
  "\<exists>v h' con'. init_malloc_free (svc_insn demo_image Some 0 0x8000) (demo_heap v, \<lparr>con_mem = \<lambda>_. 0, con_tx = []\<rparr>) = Some (h', con') \<and>
    allocs h' = {} \<and> ubrk_of (hbrk h') = 0x402028 \<and> length (con_tx con') = 31"
proof -
  obtain v where v: "ubrk_ok (demo_proc v)" "ubrk_of (demo_proc v) = 0x402000" by (rule demo_proc_brk)
  have b: "hbrk (demo_heap v) = demo_proc v" by (simp add: demo_heap_def)
  have n: "8 dvd (0x402000 :: nat)" "0x402000 + 40 \<le> unat MAX_BRK_ADDR" by (simp_all add: MAX_BRK_ADDR_def)
  from user_heap_boot [of "demo_heap v" demo_image Some 0 "0x8000" "\<lparr>con_mem = \<lambda>_. 0, con_tx = []\<rparr>", unfolded b v(2), OF v(1) _ n]
  show ?thesis by fastforce
qed

text \<open>C37. \<^verbatim>\<open>malloc\<close> of a user process, with every growth of its pool going through the system call \<^verbatim>\<open>brk\<close> of the kernel: it comes back,
  keeps the heap and the address space well formed and the bytes of every area in use, and either hands out an area that is new,
  aligned, zeroed, not empty and below the break the kernel has granted, or returns null with the areas unchanged. Null for a positive size
  means that no free block is big enough and that doubling the pool would pass \<^verbatim>\<open>MAX_BRK_ADDR\<close>.\<close>

theorem malloc_contract:
  assumes "uheap_inv ki env a regs h" "unat n + 7 < 2 ^ 64"
  shows "\<exists>p h'. malloc h n = Some (p, h') \<and> uheap_inv ki env a regs h' \<and>
    live_kept (allocs h) (hmem h) (hmem h') \<and>
    (if p = NULL then allocs h' = allocs h \<and>
       (n \<noteq> 0 \<longrightarrow> unat MAX_BRK_ADDR < ubrk_of (hbrk h') + blens (heap_blks h') \<and>
          (\<forall>b \<in> set (heap_blks h'). \<not> fits (unat (ALIGNED_TO_8BYTES n)) b))
     else allocs h' = insert (unat p, unat n) (allocs h) \<and> unat p \<notin> fst ` allocs h \<and>
       8 dvd unat p \<and> 0 < unat n \<and> unat p + unat n < ubrk_of (hbrk h') \<and> mem_zero_on (unat p) (unat p + unat n) (hmem h'))"
  using assms by (rule malloc_run)

theorem malloc_contract_witness:
  "\<exists>v p h'. malloc (fst (the (init_malloc_free (svc_insn demo_image Some 0 0x8000) (demo_heap v, \<lparr>con_mem = \<lambda>_. 0, con_tx = []\<rparr>)))) 100 =
      Some (p, h') \<and> uheap_inv demo_image Some 0 0x8000 h' \<and> (p \<noteq> NULL \<longrightarrow> allocs h' = {(unat p, 100)} \<and> unat p + 100 < ubrk_of (hbrk h'))"
proof -
  obtain v h where h: "fst (the (init_malloc_free (svc_insn demo_image Some 0 0x8000) (demo_heap v, \<lparr>con_mem = \<lambda>_. 0, con_tx = []\<rparr>))) = h"
    "uheap_inv demo_image Some 0 0x8000 h" "allocs h = {}" by (rule demo_heap_started)
  have "unat (100 :: u64) + 7 < 2 ^ 64" by simp
  from malloc_contract [OF h(2) this] h(3) show ?thesis unfolding h(1) [symmetric] by (force split: if_splits)
qed

text \<open>C38. \<^verbatim>\<open>calloc\<close> is \<^verbatim>\<open>malloc\<close> of the product: the areas that \<^verbatim>\<open>malloc\<close> hands out are zero already, and its loop, whose counter never
  overflows, changes nothing. The product is taken modulo 2 to the 64.\<close>

theorem calloc_is_malloc:
  assumes "uheap_inv ki env a regs h" "unat (nmemb * n) + 7 < 2 ^ 64"
  shows "calloc h nmemb n = malloc h (nmemb * n)"
proof -
  obtain p h' where r: "malloc h (nmemb * n) = Some (p, h')" "uheap_inv ki env a regs h'"
    "p \<noteq> NULL \<longrightarrow> unat p + unat (nmemb * n) < ubrk_of (hbrk h') \<and> mem_zero_on (unat p) (unat p + unat (nmemb * n)) (hmem h')"
    using malloc_run [OF assms] by (auto split: if_splits)
  have "ubrk_of (hbrk h') \<le> unat MAX_BRK_ADDR"
    using userheap.ok_brk [of ki env a regs h'] r(2) unfolding uheap_inv_def heap_inv_def by blast
  then have "ubrk_of (hbrk h') \<le> int_max" by (simp add: MAX_BRK_ADDR_def)
  then have "p \<noteq> NULL \<Longrightarrow> calloc_loop p 0 (unat (nmemb * n)) h' = Some h'"
    using r(3) by (intro calloc_loop_zero) auto
  then show ?thesis using r(1) by (simp add: calloc_def)
qed

theorem calloc_is_malloc_witness:
  "\<exists>v h. uheap_inv demo_image Some 0 0x8000 h \<and>
    h = fst (the (init_malloc_free (svc_insn demo_image Some 0 0x8000) (demo_heap v, \<lparr>con_mem = \<lambda>_. 0, con_tx = []\<rparr>))) \<and>
    calloc h 25 4 = malloc h 100 \<and> calloc h 0x2000000000000001 8 = malloc h 8"
proof -
  obtain v h where h: "fst (the (init_malloc_free (svc_insn demo_image Some 0 0x8000) (demo_heap v, \<lparr>con_mem = \<lambda>_. 0, con_tx = []\<rparr>))) = h"
    "uheap_inv demo_image Some 0 0x8000 h" by (rule demo_heap_started)
  have m: "0x2000000000000001 * 8 = (8 :: u64)" "25 * 4 = (100 :: u64)" "unat (8 :: u64) + 7 < 2 ^ 64" "unat (100 :: u64) + 7 < 2 ^ 64"
    by (simp_all add: word_unat_eq_iff)
  from calloc_is_malloc [OF h(2), of 25 4, unfolded m] calloc_is_malloc [OF h(2), of "0x2000000000000001" 8, unfolded m] h m
  show ?thesis by blast
qed

end
