(* ===== verification/Shell.thy ===== *)
theory Shell
  imports Usr
begin

text \<open>
  The shell of \<^verbatim>\<open>usr/user_init.c\<close>: one round prints the prompt, reads a line and answers it. It is stated over the system call
  instruction, the output of a character and the memory of the process as it sees it, and verified on the kernel model, from the line in
  the buffer of the UART driver to the characters sent.
\<close>

section \<open>The shell\<close>

text \<open>Where the compiler and the stack put the strings and the line buffer.\<close>

record shell_image =
  sh_prompt :: u64
  sh_help_cmd :: u64
  sh_man_cmd :: u64
  sh_help :: u64
  sh_unknown_cmd :: u64
  sh_buf :: u64

definition LINE_BUF_SIZE :: u64 where "LINE_BUF_SIZE = 256"

definition prompt_text :: "u8 list" where
  "prompt_text = map of_char ''# ''"

definition help_text :: "u8 list" where
  "help_text = map of_char ''Built-in commands: help, man'' @ [0x0A]"

definition unknown_cmd_text :: "u8 list" where
  "unknown_cmd_text = map of_char '': command not found'' @ [0x0A]"

definition shell_answer :: "'p svc \<Rightarrow> ('p \<Rightarrow> mem) \<Rightarrow> shell_image \<Rightarrow> u64 \<Rightarrow> 'p \<Rightarrow> 'p option" where
  "shell_answer svc bytes si count s =
    (if strncmp (bytes s) (sh_buf si) (sh_help_cmd si) 4 = 0 \<or> strncmp (bytes s) (sh_buf si) (sh_man_cmd si) 3 = 0 then do {
       len \<leftarrow> strlen (bytes s) (sh_help si);
       (ret, s) \<leftarrow> write_u svc 1 (sh_help si) len s;
       Some s }
     else if bytes s (sh_buf si) \<noteq> 0x0A then do {
       (ret, s) \<leftarrow> write_u svc 1 (sh_buf si) (count - 1) s;
       len \<leftarrow> strlen (bytes s) (sh_unknown_cmd si);
       (ret, s) \<leftarrow> write_u svc 1 (sh_unknown_cmd si) len s;
       Some s }
     else Some s)"

text \<open>The body of the loop; \<^verbatim>\<open>ret\<close> is an \<^verbatim>\<open>int\<close>, \<^verbatim>\<open>read\<close> returns a \<^verbatim>\<open>long\<close>.\<close>

definition shell_round :: "'p svc \<Rightarrow> (u8 \<Rightarrow> 'p \<Rightarrow> 'p) \<Rightarrow> ('p \<Rightarrow> mem) \<Rightarrow> shell_image \<Rightarrow> 'p \<Rightarrow> 'p option" where
  "shell_round svc pchar bytes si s = do {
     let count = LINE_BUF_SIZE;
     (n, s) \<leftarrow> PRINT pchar bytes [0x25, 0x73] [sh_prompt si] 0 s;
     (r, s) \<leftarrow> read_u svc 0 (sh_buf si) count s;
     let ret = sint (word_of_int r :: u32);
     if 0 < ret then shell_answer svc bytes si (word_of_int ret) s else Some s }"

section \<open>The process on the kernel\<close>

text \<open>
  The process sees its memory through its page tables, and prints by writing to the data register of the UART, which is mapped into
  it. An address without a page would be given one by the page fault handler; the view has 0 there, and the properties only use mapped
  addresses.
\<close>

definition ubytes :: "ksys \<Rightarrow> mem" where
  "ubytes s a = (case user_load (kvm (trest s)) a of Some b \<Rightarrow> b | None \<Rightarrow> 0)"

definition uprint_char :: "u8 \<Rightarrow> ksys \<Rightarrow> ksys" where
  "uprint_char c = upd_kern (\<lambda>k. k\<lparr>kuart := write_char_uart c (kuart k)\<rparr>)"

interpretation ucon: printer uprint_char ubytes UNIV "\<lambda>_. True"
  by unfold_locales (simp_all add: uprint_char_def ubytes_def upd_kern_def)

definition send :: "u8 list \<Rightarrow> ksys \<Rightarrow> ksys" where
  "send bs = upd_kern (\<lambda>k. k\<lparr>kuart := (kuart k)\<lparr>uart_tx := uart_tx (kuart k) @ map ucast bs\<rparr>\<rparr>)"

lemma fold_uprint_char: "fold uprint_char bs s = send bs s"
  by (induction bs arbitrary: s) (simp_all add: uprint_char_def send_def upd_kern_def write_char_uart_def)

lemma send_fields [simp]:
  "kvm (trest (send bs s)) = kvm (trest s)" "tdaif (send bs s) = tdaif s"
  "kuart (trest (send bs s)) = (kuart (trest s))\<lparr>uart_tx := uart_tx (kuart (trest s)) @ map ucast bs\<rparr>"
  by (simp_all add: send_def upd_kern_def)

text \<open>What the process sees does not depend on its saved registers.\<close>

definition same_view :: "ksys \<Rightarrow> ksys \<Rightarrow> bool" where
  "same_view s s' \<longleftrightarrow> tdaif s' = tdaif s \<and> user_leaf (kvm (trest s')) = user_leaf (kvm (trest s)) \<and>
    (user_tables (kvm (trest s')) \<longleftrightarrow> user_tables (kvm (trest s))) \<and>
    writable_at (kvm (trest s')) = writable_at (kvm (trest s))"

lemma user_set_pt_reg [simp]:
  "user_leaf (set_pt_reg regs i x v) = user_leaf v" "user_tables (set_pt_reg regs i x v) = user_tables v"
  "writable_at (set_pt_reg regs i x v) = writable_at v"
  by (simp_all add: set_pt_reg_def user_leaf_def user_tables_def writable_at_def fun_eq_iff)

lemma same_view_user_addr: "same_view s s' \<Longrightarrow> user_addr (kvm (trest s')) a = user_addr (kvm (trest s)) a"
  by (simp add: same_view_def user_addr_def)

lemma same_view_trans: "same_view s s' \<Longrightarrow> same_view s' s'' \<Longrightarrow> same_view s s''"
  by (simp add: same_view_def)

lemma same_view_set_kreg [simp]: "same_view s (set_kreg regs i x s)" "vmem (kvm (trest (set_kreg regs i x s))) = vmem (kvm (trest s))"
  by (simp_all add: same_view_def)

lemma same_view_send [simp]: "same_view s (send bs s)"
  by (simp add: same_view_def)

lemma user_load_same:
  assumes "same_view s s'" "vmem (kvm (trest s')) (user_addr (kvm (trest s)) a) = vmem (kvm (trest s)) (user_addr (kvm (trest s)) a)"
  shows "user_load (kvm (trest s')) a = user_load (kvm (trest s)) a"
  using assms same_view_user_addr [OF assms(1)] by (simp add: user_load_def same_view_def)

text \<open>Writing to pages of the process other than its tables changes no translation.\<close>

lemma writable_frame:
  assumes "user_tables v" "\<forall>i < n. writable_at v (a + of_nat i)"
    "\<forall>x. (\<forall>i < n. x \<noteq> user_addr v (a + of_nat i)) \<longrightarrow> m x = vmem v x"
  shows "user_tables (v\<lparr>vmem := m\<rparr>)" "writable_at (v\<lparr>vmem := m\<rparr>) = writable_at v" "user_leaf (v\<lparr>vmem := m\<rparr>) = user_leaf v"
proof -
  have e: "page_eq t (vmem v) m" if t: "t \<in> tables True 2 (vmem v) (va (fst (ttbr0 (vm_sched v))))" for t
    unfolding page_eq_def mem_eq_on_def
  proof (intro allI impI)
    fix k assume k: "unat t \<le> k \<and> k < unat t + 4096"
    have "wd k \<noteq> user_addr v (a + of_nat i)" if i: "i < n" for i
    proof
      let ?x = "user_addr v (a + of_nat i)"
      assume w: "wd k = ?x"
      have "page_eq t (vmem v) ((vmem v)(?x := vmem v ?x + 1))" using user_addr_page_eq [OF assms(1) _ t] assms(2) i by blast
      then have "((vmem v)(?x := vmem v ?x + 1)) (wd k) = vmem v (wd k)" using k by (auto simp: page_eq_def mem_eq_on_def)
      then show False by (simp add: w)
    qed
    then have "m (wd k) = vmem v (wd k)" using assms(3) by blast
    then show "vmem v (wd k) = m (wd k)" by simp
  qed
  show "user_tables (v\<lparr>vmem := m\<rparr>)" using assms(1) pt_wf_cong [OF e] by (simp add: user_tables_def)
  show l: "user_leaf (v\<lparr>vmem := m\<rparr>) = user_leaf v" using lookup_cong [OF e path_ok_va_path] by (simp add: fun_eq_iff user_leaf_def)
  show "writable_at (v\<lparr>vmem := m\<rparr>) = writable_at v" using tables_cong [OF e] by (simp add: fun_eq_iff writable_at_def l)
qed


section \<open>The system calls of the shell\<close>

lemma svc_three:
  "svc_insn ki env a regs n [x0, x1, x2] s = map_option (\<lambda>s. (kreg regs 0 s, s))
     (do_el0_sync ki env a ESR_SVC regs (set_kreg regs 2 x2 (set_kreg regs 1 x1 (set_kreg regs 0 x0 (set_kreg regs 8 n s)))))"
  by (simp add: svc_insn_def enumerate_eq_zip upt_rec numeral_2_eq_2 map_option_case split: option.split bind_splits)

definition svc_state :: "u64 \<Rightarrow> u64 \<Rightarrow> u64 \<Rightarrow> u64 \<Rightarrow> u64 \<Rightarrow> ksys \<Rightarrow> ksys" where
  "svc_state regs n x0 x1 x2 s =
    svc_entry regs (set_kreg regs 2 x2 (set_kreg regs 1 x1 (set_kreg regs 0 x0 (set_kreg regs 8 n s))))"

lemma svc_state_fields:
  "same_view s (svc_state regs n x0 x1 x2 s)" "vmem (kvm (trest (svc_state regs n x0 x1 x2 s))) = vmem (kvm (trest s))"
  "kuart (trest (svc_state regs n x0 x1 x2 s)) = kuart (trest s)"
  "kreg regs 0 (svc_state regs n x0 x1 x2 s) = x0" "kreg regs 1 (svc_state regs n x0 x1 x2 s) = x1"
  "kreg regs 2 (svc_state regs n x0 x1 x2 s) = x2"
  by (simp_all add: svc_state_def svc_entry_def same_view_def kreg_set_kreg PT_SYSCALLNO_def PT_ORIG_X0_def fun_eq_iff del: kvm_set_kreg)

lemma svc_write:
  assumes "length bs < 2 ^ 31" "\<And>i. i < length bs \<Longrightarrow> user_load (kvm (trest s)) (buf + of_nat i) = Some (bs ! i)"
  shows "\<exists>s'. svc_insn ki env a regs NR_write [1, buf, of_nat (length bs)] s = Some (of_nat (length bs), s') \<and>
    same_view s s' \<and> vmem (kvm (trest s')) = vmem (kvm (trest s)) \<and>
    kuart (trest s') = (kuart (trest s))\<lparr>uart_tx := uart_tx (kuart (trest s)) @ map ucast bs\<rparr>"
proof -
  define e where "e = svc_state regs NR_write 1 buf (of_nat (length bs)) s"
  note f = svc_state_fields [where s = s and regs = regs and n = NR_write and ?x0.0 = 1 and ?x1.0 = buf and ?x2.0 = "of_nat (length bs)", folded e_def]
  have ld: "user_load (kvm (trest e)) (buf + of_nat (0 + j)) = Some (bs ! j)" if "j < length bs" for j
    using user_load_same [OF f(1)] assms(2) [OF that] f(2) by simp
  have n: "unat (of_nat (length bs) :: u64) = length bs" using assms(1) by (simp add: unat_of_nat take_bit_nat_eq_self)
  have c: "scast (ucast (of_nat (length bs) :: u64) :: u32) = (of_nat (length bs) :: u64)"
    using assms(1) by (simp add: unsigned_of_nat take_bit_nat_eq_self signed_of_nat signed_take_bit_int_eq_self)
  have w: "write_stdout_loop buf 0 (length bs) e = Some (send bs e)"
    using write_stdout_loop_run [OF ld] assms(1) by (simp add: send_def)
  have "do_el0_sync ki env a ESR_SVC regs (set_kreg regs 2 (of_nat (length bs)) (set_kreg regs 1 buf (set_kreg regs 0 1 (set_kreg regs 8 NR_write s)))) =
      sys_write regs e"
    by (simp add: do_el0_sync_svc kreg_set_kreg NR_write_def MAX_NUM_SYSCALLS_def syscall_func_def e_def svc_state_def word_le_nat_alt)
  also have "\<dots> = Some (set_kreg regs 0 (of_nat (length bs)) (send bs e))"
    unfolding sys_write_def Let_def f(4-6) write_stdout_def n w by (simp add: c)
  finally show ?thesis unfolding svc_three using f(1-3)
    by (auto simp: kreg_set_kreg same_view_def)
qed

lemma svc_read:
  fixes s :: ksys and buf count :: u64
  defines "u \<equiv> kuart (trest s)" and "v \<equiv> kvm (trest s)"
  assumes "daif_wf (tdaif s)" "uart_wf u" "line_ready u" "of_nat (uib_index u) \<le> count" "user_tables v"
    "\<forall>i < uib_index u. writable_at v (buf + of_nat i)" "inj_on (\<lambda>i. user_addr v (buf + of_nat i)) {..<uib_index u}"
  shows "\<exists>s'. svc_insn ki env a regs NR_read [0, buf, count] s = Some (of_nat (uib_index u), s') \<and> same_view s s' \<and>
    kuart (trest s') = u\<lparr>uib_index := 0\<rparr> \<and>
    (\<forall>x. (\<forall>i < uib_index u. x \<noteq> user_addr v (buf + of_nat i)) \<longrightarrow> vmem (kvm (trest s')) x = vmem v x) \<and>
    (\<forall>i < uib_index u. user_load (kvm (trest s')) (buf + of_nat i) = Some (typed u ! i))"
proof -
  define e where "e = svc_state regs NR_read 0 buf count s"
  note f = svc_state_fields [where s = s and regs = regs and n = NR_read and ?x0.0 = 0 and ?x1.0 = buf and ?x2.0 = count, folded e_def]
  have ad: "user_addr (kvm (trest e)) x = user_addr v x" for x using same_view_user_addr [OF f(1)] by (simp add: v_def)
  have e: "tdaif e = tdaif s" "user_leaf (kvm (trest e)) = user_leaf v" "user_tables (kvm (trest e)) = user_tables v"
    "writable_at (kvm (trest e)) = writable_at v" "vmem (kvm (trest e)) = vmem v" "kuart (trest e) = u"
    using f(1-3) by (simp_all add: same_view_def v_def u_def)
  have nc: "\<not> count < of_nat (uib_index u)" using assms(6) by simp
  let ?v = "kvm (trest e)"
  obtain m d where r: "read_stdin ki env buf count e = Some (int (uib_index u),
      upd_kern (\<lambda>k. k\<lparr>kvm := ?v\<lparr>vm_sched := (vm_sched ?v)\<lparr>daif := d\<rparr>, vmem := m\<rparr>, kuart := u\<lparr>uib_index := 0\<rparr>\<rparr>) e)"
    and m: "\<forall>x. (\<forall>i < uib_index u. x \<noteq> user_addr v (buf + of_nat i)) \<longrightarrow> m x = vmem v x"
      "\<forall>i < uib_index u. m (user_addr v (buf + of_nat i)) = typed u ! i"
    using read_stdin_run [where s = e and buf = buf and count = count and ki = ki and env = env] assms(3-9) nc unfolding e ad by auto
  have fr: "\<forall>x. (\<forall>i < uib_index u. x \<noteq> user_addr ?v (buf + of_nat i)) \<longrightarrow> m x = vmem ?v x" using m(1) unfolding ad e by simp
  note wf = writable_frame [OF _ _ fr, unfolded e, OF assms(7,8)]
  define s1 where "s1 = upd_kern (\<lambda>k. k\<lparr>kvm := ?v\<lparr>vm_sched := (vm_sched ?v)\<lparr>daif := d\<rparr>, vmem := m\<rparr>, kuart := u\<lparr>uib_index := 0\<rparr>\<rparr>) e"
  have s1: "kvm (trest s1) = ?v\<lparr>vm_sched := (vm_sched ?v)\<lparr>daif := d\<rparr>, vmem := m\<rparr>" "kuart (trest s1) = u\<lparr>uib_index := 0\<rparr>" "tdaif s1 = tdaif s"
    using e(1) by (simp_all add: s1_def upd_kern_def)
  have sv: "same_view s s1"
    using wf assms(7) unfolding same_view_def s1 v_def [symmetric]
    by (simp add: user_leaf_def user_tables_def writable_at_def fun_eq_iff)
  have "do_el0_sync ki env a ESR_SVC regs (set_kreg regs 2 count (set_kreg regs 1 buf (set_kreg regs 0 0 (set_kreg regs 8 NR_read s)))) =
      sys_read ki env regs e"
    by (simp add: do_el0_sync_svc kreg_set_kreg NR_read_def MAX_NUM_SYSCALLS_def syscall_func_def e_def svc_state_def word_le_nat_alt)
  also have "\<dots> = Some (set_kreg regs 0 (of_nat (uib_index u)) s1)"
    unfolding sys_read_def Let_def f(4-6) r by (simp add: s1_def)
  finally have run: "svc_insn ki env a regs NR_read [0, buf, count] s =
      Some (of_nat (uib_index u), set_kreg regs 0 (of_nat (uib_index u)) s1)" unfolding svc_three by (simp add: kreg_set_kreg)
  have sv': "same_view s (set_kreg regs 0 (of_nat (uib_index u)) s1)" by (rule same_view_trans [OF sv]) simp
  have vm: "vmem (kvm (trest (set_kreg regs 0 (of_nat (uib_index u)) s1))) = m" by (simp add: s1)
  have ld: "user_load (kvm (trest (set_kreg regs 0 (of_nat (uib_index u)) s1))) (buf + of_nat i) = Some (typed u ! i)" if "i < uib_index u" for i
  proof -
    have "writable_at v (buf + of_nat i)" using that assms(8) by simp
    then show ?thesis using m(2) that same_view_user_addr [OF sv'] sv' vm
      by (simp add: user_load_def writable_at_def same_view_def v_def [symmetric] del: kvm_set_kreg)
  qed
  show ?thesis using run sv' m(1) ld vm s1(2) by (intro exI [of _ "set_kreg regs 0 (of_nat (uib_index u)) s1"] conjI) (auto simp del: kvm_set_kreg)
qed


section \<open>What the shell relies on\<close>

definition ustring :: "ksys \<Rightarrow> u64 \<Rightarrow> u8 list \<Rightarrow> bool" where
  "ustring s a t \<longleftrightarrow> a \<noteq> NULL \<and> (\<forall>j \<le> length t. user_load (kvm (trest s)) (a + of_nat j) = Some ((t @ [0]) ! j))"

text \<open>The strings of the program are mapped and do not share bytes with the line buffer, which is mapped and writable; the driver is in order.\<close>

definition shell_strings :: "shell_image \<Rightarrow> (u64 \<times> u8 list) list" where
  "shell_strings si = [(sh_prompt si, prompt_text), (sh_help_cmd si, map of_char ''help''), (sh_man_cmd si, map of_char ''man''),
     (sh_help si, help_text), (sh_unknown_cmd si, unknown_cmd_text)]"

definition shell_ready :: "shell_image \<Rightarrow> ksys \<Rightarrow> bool" where
  "shell_ready si s \<longleftrightarrow>
    (let v = kvm (trest s); cell = (\<lambda>i. user_addr v (sh_buf si + of_nat i))
     in daif_wf (tdaif s) \<and> uart_wf (kuart (trest s)) \<and> sh_buf si \<noteq> NULL \<and> user_tables v \<and>
       (\<forall>i < 256. writable_at v (sh_buf si + of_nat i)) \<and> inj_on cell {..<256} \<and>
       (\<forall>(a, t) \<in> set (shell_strings si). ustring s a t \<and> (\<forall>j \<le> length t. \<forall>i < 256. user_addr v (a + of_nat j) \<noteq> cell i)))"

lemma shell_text_facts:
  "(a, t) \<in> set (shell_strings si) \<Longrightarrow> 0 \<notin> set t \<and> length t < 2 ^ 31"
  by (auto simp: shell_strings_def prompt_text_def help_text_def unknown_cmd_text_def)

lemma string_at_nth:
  "0 \<notin> set t \<Longrightarrow> (\<And>j. j \<le> length t \<Longrightarrow> m (a + of_nat j) = (t @ [0]) ! j) \<Longrightarrow> string_at m a t"
proof (induction t arbitrary: a)
  case Nil
  then show ?case using Nil.prems(2) [of 0] by simp
next
  case (Cons x t)
  have "m (a + 1 + of_nat j) = (t @ [0]) ! j" if "j \<le> length t" for j
    using Cons.prems(2) [of "Suc j"] that by (simp add: add_ac)
  then show ?case using Cons.IH [of "a + 1"] Cons.prems(1) Cons.prems(2) [of 0] by auto
qed

lemma ustring_at: "ustring s a t \<Longrightarrow> 0 \<notin> set t \<Longrightarrow> string_at (ubytes s) a t"
  by (rule string_at_nth) (auto simp: ustring_def ubytes_def)

lemma strncmp_prefix:
  assumes "\<And>i. i < length xs \<Longrightarrow> m (a + of_nat i) = xs ! i" "\<And>i. i < length ys \<Longrightarrow> m (b + of_nat i) = ys ! i"
    "0 \<notin> set ys" "xs \<noteq> []" "last xs \<notin> set ys"
  shows "strncmp_loop m a b (length ys) = 0 \<longleftrightarrow> take (length ys) xs = ys"
  using assms
proof (induction ys arbitrary: xs a b)
  case (Cons y ys)
  obtain x xs' where xs: "xs = x # xs'" using Cons.prems(4) by (cases xs) auto
  have h: "m a = x" "m b = y" "y \<noteq> 0" using Cons.prems(1) [of 0] Cons.prems(2) [of 0] Cons.prems(3) xs by auto
  show ?case
  proof (cases "x = y")
    case True
    have ne: "xs' \<noteq> []" using Cons.prems(5) True xs by auto
    have "strncmp_loop m (a + 1) (b + 1) (length ys) = 0 \<longleftrightarrow> take (length ys) xs' = ys"
    proof (rule Cons.IH)
      show "m (a + 1 + of_nat i) = xs' ! i" if "i < length xs'" for i using Cons.prems(1) [of "Suc i"] that xs by (simp add: add_ac)
      show "m (b + 1 + of_nat i) = ys ! i" if "i < length ys" for i using Cons.prems(2) [of "Suc i"] that by (simp add: add_ac)
    qed (use Cons.prems ne xs in auto)
    then show ?thesis using True h xs by simp
  next
    case False
    then show ?thesis using h xs by auto
  qed
qed simp

lemma shell_ready_keep:
  assumes "shell_ready si s" "same_view s s'" "uart_wf (kuart (trest s'))"
    "\<And>x. (\<forall>i < 256. x \<noteq> user_addr (kvm (trest s)) (sh_buf si + of_nat i)) \<Longrightarrow> vmem (kvm (trest s')) x = vmem (kvm (trest s)) x"
  shows "shell_ready si s'"
proof -
  have ld: "user_load (kvm (trest s')) (a + of_nat j) = user_load (kvm (trest s)) (a + of_nat j)"
    if "(a, t) \<in> set (shell_strings si)" "j \<le> length t" for a t j
    using assms(1) that by (intro user_load_same [OF assms(2)] assms(4)) (fastforce simp: shell_ready_def Let_def)
  have "ustring s' a t" if "(a, t) \<in> set (shell_strings si)" for a t
    using assms(1) that ld [OF that] by (fastforce simp: shell_ready_def Let_def ustring_def)
  then show ?thesis
    using assms(1-3) same_view_user_addr [OF assms(2)] unfolding shell_ready_def Let_def
    by (fastforce simp: same_view_def)
qed


section \<open>The answer to a line\<close>

definition shell_reply :: "u8 list \<Rightarrow> u8 list" where
  "shell_reply l =
    (if take 4 l = map of_char ''help'' \<or> take 3 l = map of_char ''man'' then help_text
     else if hd l = 0x0A then [] else butlast l @ unknown_cmd_text)"

definition sent :: "u8 list \<Rightarrow> ksys \<Rightarrow> ksys \<Rightarrow> bool" where
  "sent bs s s' \<longleftrightarrow> same_view s s' \<and> vmem (kvm (trest s')) = vmem (kvm (trest s)) \<and>
    kuart (trest s') = (kuart (trest s))\<lparr>uart_tx := uart_tx (kuart (trest s)) @ map ucast bs\<rparr>"

lemma sent_trans: "sent xs s s' \<Longrightarrow> sent ys s' s'' \<Longrightarrow> sent (xs @ ys) s s''"
  using same_view_trans by (auto simp: sent_def)

lemma sent_load: "sent bs s s' \<Longrightarrow> user_load (kvm (trest s')) a = user_load (kvm (trest s)) a"
  by (auto simp: sent_def intro!: user_load_same)

lemma sent_ready: "shell_ready si s \<Longrightarrow> sent bs s s' \<Longrightarrow> shell_ready si s'"
  by (rule shell_ready_keep) (auto simp: sent_def shell_ready_def Let_def uart_wf_def)

lemma write_sends:
  assumes "length bs < 2 ^ 31" "\<And>i. i < length bs \<Longrightarrow> user_load (kvm (trest s)) (a + of_nat i) = Some (bs ! i)" "a \<noteq> NULL"
  shows "\<exists>r s'. write_u (svc_insn ki env ad regs) 1 a (of_nat (length bs)) s = Some (r, s') \<and> sent bs s s'"
  using svc_write [OF assms(1,2), of ki env ad regs] assms(3) by (auto simp: write_u_def sent_def)

lemma ready_string:
  assumes "shell_ready si s" "(a, t) \<in> set (shell_strings si)"
  shows "strlen (ubytes s) a = Some (of_nat (length t))"
    "\<exists>r s'. write_u (svc_insn ki env ad regs) 1 a (of_nat (length t)) s = Some (r, s') \<and> sent t s s'"
    "j < length t \<Longrightarrow> ubytes s (a + of_nat j) = t ! j"
proof -
  have u: "ustring s a t" using assms by (auto simp: shell_ready_def Let_def)
  note t = shell_text_facts [OF assms(2)]
  show "strlen (ubytes s) a = Some (of_nat (length t))"
    using strlen_loop_spec [of "ubytes s" a 0 t] ustring_at [OF u] t by (simp add: strlen_def)
  show "\<exists>r s'. write_u (svc_insn ki env ad regs) 1 a (of_nat (length t)) s = Some (r, s') \<and> sent t s s'"
    using u t by (intro write_sends) (auto simp: ustring_def nth_append)
  show "ubytes s (a + of_nat j) = t ! j" if "j < length t"
    using u that by (auto simp: ustring_def ubytes_def nth_append)
qed

lemma shell_strings_set:
  "(sh_prompt si, prompt_text) \<in> set (shell_strings si)" "(sh_help_cmd si, map of_char ''help'') \<in> set (shell_strings si)"
  "(sh_man_cmd si, map of_char ''man'') \<in> set (shell_strings si)" "(sh_help si, help_text) \<in> set (shell_strings si)"
  "(sh_unknown_cmd si, unknown_cmd_text) \<in> set (shell_strings si)"
  by (simp_all add: shell_strings_def)

lemma shell_answer_run:
  assumes "shell_ready si s" "l \<noteq> []" "length l < 256" "last l = 0x0A"
    "\<And>i. i < length l \<Longrightarrow> user_load (kvm (trest s)) (sh_buf si + of_nat i) = Some (l ! i)"
  shows "\<exists>s'. shell_answer (svc_insn ki env ad regs) ubytes si (of_nat (length l)) s = Some s' \<and> sent (shell_reply l) s s'"
proof -
  note st = shell_strings_set [of si]
  have b: "ubytes s (sh_buf si + of_nat i) = l ! i" if "i < length l" for i using assms(5) [OF that] by (simp add: ubytes_def)
  have ln: "length (map of_char ''help'' :: u8 list) = 4" "length (map of_char ''man'' :: u8 list) = 3" "unat (4 :: u64) = 4" "unat (3 :: u64) = 3"
    by simp_all
  have "strncmp_loop (ubytes s) (sh_buf si) (sh_help_cmd si) (length (map of_char ''help'' :: u8 list)) = 0 \<longleftrightarrow>
      take (length (map of_char ''help'' :: u8 list)) l = map of_char ''help''"
    using ready_string(3) [OF assms(1) st(2)] assms(2,4) by (intro strncmp_prefix b) auto
  then have h: "strncmp (ubytes s) (sh_buf si) (sh_help_cmd si) 4 = 0 \<longleftrightarrow> take 4 l = map of_char ''help''"
    unfolding ln strncmp_def .
  have "strncmp_loop (ubytes s) (sh_buf si) (sh_man_cmd si) (length (map of_char ''man'' :: u8 list)) = 0 \<longleftrightarrow>
      take (length (map of_char ''man'' :: u8 list)) l = map of_char ''man''"
    using ready_string(3) [OF assms(1) st(3)] assms(2,4) by (intro strncmp_prefix b) auto
  then have m: "strncmp (ubytes s) (sh_buf si) (sh_man_cmd si) 3 = 0 \<longleftrightarrow> take 3 l = map of_char ''man''"
    unfolding ln strncmp_def .
  have h0: "ubytes s (sh_buf si) = hd l" using b [of 0] assms(2) by (simp add: hd_conv_nth)
  consider "take 4 l = map of_char ''help'' \<or> take 3 l = map of_char ''man''"
    | "\<not> (take 4 l = map of_char ''help'' \<or> take 3 l = map of_char ''man'')" "hd l = 0x0A"
    | "\<not> (take 4 l = map of_char ''help'' \<or> take 3 l = map of_char ''man'')" "hd l \<noteq> 0x0A" by blast
  then show ?thesis
  proof cases
    case 1
    then have r: "shell_reply l = help_text" by (simp only: shell_reply_def if_True)
    obtain x s' where "write_u (svc_insn ki env ad regs) 1 (sh_help si) (of_nat (length help_text)) s = Some (x, s')" "sent help_text s s'"
      using ready_string(2) [OF assms(1) st(4)] by blast
    then show ?thesis unfolding shell_answer_def h m r using 1 ready_string(1) [OF assms(1) st(4)] by simp
  next
    case 2
    then have r: "shell_reply l = []" unfolding shell_reply_def by (simp only: if_False simp_thms if_True)
    have "sent [] s s" by (simp add: sent_def same_view_def)
    then show ?thesis unfolding shell_answer_def h m h0 r using 2 by simp
  next
    case 3
    then have r: "shell_reply l = butlast l @ unknown_cmd_text" by (simp only: shell_reply_def if_False)
    have bn: "sh_buf si \<noteq> NULL" using assms(1) by (simp add: shell_ready_def Let_def)
    have "user_load (kvm (trest s)) (sh_buf si + of_nat i) = Some (butlast l ! i)" if "i < length (butlast l)" for i
      using that assms(5) by (simp add: nth_butlast)
    from write_sends [OF _ this bn] assms(3) obtain x1 s1 where
      s1: "write_u (svc_insn ki env ad regs) 1 (sh_buf si) (of_nat (length (butlast l))) s = Some (x1, s1)" "sent (butlast l) s s1" by fastforce
    have c: "of_nat (length l) - 1 = (of_nat (length (butlast l)) :: u64)" using assms(2) by (cases l) auto
    note r1 = sent_ready [OF assms(1) s1(2)]
    obtain x2 s2 where s2: "write_u (svc_insn ki env ad regs) 1 (sh_unknown_cmd si) (of_nat (length unknown_cmd_text)) s1 = Some (x2, s2)"
      "sent unknown_cmd_text s1 s2" using ready_string(2) [OF r1 st(5)] by blast
    show ?thesis unfolding shell_answer_def h m h0 r c using 3 s1(1) s2(1) ready_string(1) [OF r1 st(5)] sent_trans [OF s1(2) s2(2)] by simp
  qed
qed

section \<open>A process with the strings of the shell\<close>

definition demo_shell :: shell_image where
  "demo_shell = \<lparr>sh_prompt = 0x400100, sh_help_cmd = 0x400103, sh_man_cmd = 0x400108, sh_help = 0x40010C, sh_unknown_cmd = 0x40012A, sh_buf = 0x400000\<rparr>"

definition demo_rodata :: "u8 list" where
  "demo_rodata = prompt_text @ [0] @ map of_char ''help'' @ [0] @ map of_char ''man'' @ [0] @ help_text @ [0] @ unknown_cmd_text @ [0]"

lemmas demo_text_defs = prompt_text_def help_text_def unknown_cmd_text_def

lemma demo_strings:
  "(a, t) \<in> set (shell_strings demo_shell) \<Longrightarrow>
    \<exists>k pre post. a = 0x400000 + of_nat (256 + k) \<and> demo_rodata = pre @ (t @ [0]) @ post \<and> length pre = k \<and> k + length t < 63"
proof -
  assume "(a, t) \<in> set (shell_strings demo_shell)"
  then consider "a = 0x400100" "t = prompt_text" | "a = 0x400103" "t = map of_char ''help''" | "a = 0x400108" "t = map of_char ''man''"
    | "a = 0x40010C" "t = help_text" | "a = 0x40012A" "t = unknown_cmd_text" by (auto simp: shell_strings_def demo_shell_def)
  then show ?thesis
  proof cases
    case 1
    show ?thesis unfolding 1 demo_rodata_def
      by (rule exI [of _ 0], rule exI [of _ "[]"], rule exI [of _ "map of_char ''help'' @ [0] @ map of_char ''man'' @ [0] @ help_text @ [0] @ unknown_cmd_text @ [0]"]) (simp add: demo_text_defs)
  next
    case 2
    show ?thesis unfolding 2 demo_rodata_def
      by (rule exI [of _ 3], rule exI [of _ "prompt_text @ [0]"], rule exI [of _ "map of_char ''man'' @ [0] @ help_text @ [0] @ unknown_cmd_text @ [0]"]) (simp add: demo_text_defs)
  next
    case 3
    show ?thesis unfolding 3 demo_rodata_def
      by (rule exI [of _ 8], rule exI [of _ "prompt_text @ [0] @ map of_char ''help'' @ [0]"], rule exI [of _ "help_text @ [0] @ unknown_cmd_text @ [0]"]) (simp add: demo_text_defs)
  next
    case 4
    show ?thesis unfolding 4 demo_rodata_def
      by (rule exI [of _ 12], rule exI [of _ "prompt_text @ [0] @ map of_char ''help'' @ [0] @ map of_char ''man'' @ [0]"], rule exI [of _ "unknown_cmd_text @ [0]"]) (simp add: demo_text_defs)
  next
    case 5
    show ?thesis unfolding 5 demo_rodata_def
      by (rule exI [of _ 42], rule exI [of _ "prompt_text @ [0] @ map of_char ''help'' @ [0] @ map of_char ''man'' @ [0] @ help_text @ [0]"], rule exI [of _ "[]"]) (simp add: demo_text_defs)
  qed
qed

lemma demo_shell_ready:
  assumes "length line < 256"
  obtains m where "shell_ready demo_shell (demo_user m line)"
proof -
  obtain B m0 where B: "B + 4096 \<le> 2 ^ 64" and m0: "user_tables (kvm (trest (demo_user m0 line)))"
    "\<And>i. i < 4096 \<Longrightarrow> writable_at (kvm (trest (demo_user m0 line))) (0x400000 + of_nat i)"
    "\<And>i. i < 4096 \<Longrightarrow> user_addr (kvm (trest (demo_user m0 line))) (0x400000 + of_nat i) = wd (B + i)"
  proof -
    obtain m where "\<And>line. user_tables (kvm (trest (demo_user m line)))"
      "\<And>line i. i < 4096 \<Longrightarrow> writable_at (kvm (trest (demo_user m line))) (0x400000 + of_nat i)"
      "\<And>line i. i < 4096 \<Longrightarrow> user_addr (kvm (trest (demo_user m line))) (0x400000 + of_nat i) = wd (0xFFFFFFC050000000 + i)"
      by (rule demo_user_page; rule that; assumption)
    then show thesis by (intro that [of "0xFFFFFFC050000000"]) simp_all
  qed
  define m where "m = (\<lambda>x. if B + 256 \<le> unat x \<and> unat x < B + 319 then demo_rodata ! (unat x - (B + 256)) else m0 x)"
  have un: "unat (wd (B + i)) = B + i" if "i < 4096" for i using B that by (intro unat_wd) (rule less_le_trans [of _ "B + 4096"], auto)
  let ?v0 = "kvm (trest (demo_user m0 line))" and ?s = "demo_user m line"
  have v: "kvm (trest ?s) = ?v0\<lparr>vmem := m\<rparr>" "vmem ?v0 = m0" by (simp_all add: demo_user_def upd_kern_def)
  have "\<forall>x. (\<forall>i < 4096. x \<noteq> user_addr ?v0 (0x400000 + of_nat i)) \<longrightarrow> m x = vmem ?v0 x"
  proof (intro allI impI)
    fix x assume a: "\<forall>i < 4096. x \<noteq> user_addr ?v0 (0x400000 + of_nat i)"
    have "\<not> (B + 256 \<le> unat x \<and> unat x < B + 319)"
    proof
      assume "B + 256 \<le> unat x \<and> unat x < B + 319"
      then have "unat x - B < 4096" "wd (B + (unat x - B)) = x" by auto
      then show False using a m0(3) by auto
    qed
    then show "m x = vmem ?v0 x" unfolding v(2) m_def by (rule if_not_P)
  qed
  note fr = writable_frame [OF m0(1) _ this, folded v(1)]
  have w: "user_tables (kvm (trest ?s))" "\<And>i. i < 4096 \<Longrightarrow> writable_at (kvm (trest ?s)) (0x400000 + of_nat i)"
    "\<And>i. i < 4096 \<Longrightarrow> user_addr (kvm (trest ?s)) (0x400000 + of_nat i) = wd (B + i)"
    using fr m0(2,3) by (simp_all add: user_addr_def)
  have ld: "user_load (kvm (trest ?s)) (0x400000 + of_nat i) = Some (m (wd (B + i)))" if "i < 4096" for i
    using w(2,3) [OF that] v(1) by (simp add: user_load_def writable_at_def)
  have neq: "wd (B + i) \<noteq> wd (B + j)" if "i < 4096" "j < 4096" "i \<noteq> j" for i j using un that by (metis add_left_cancel)
  have str: "ustring ?s a t \<and> (\<forall>j \<le> length t. \<forall>i < 256. user_addr (kvm (trest ?s)) (a + of_nat j) \<noteq> user_addr (kvm (trest ?s)) (0x400000 + of_nat i))"
    if at: "(a, t) \<in> set (shell_strings demo_shell)" for a t
  proof -
    obtain k pre post where k: "a = 0x400000 + of_nat (256 + k)" "demo_rodata = pre @ (t @ [0]) @ post" "length pre = k" "k + length t < 63"
      using demo_strings [OF at] by blast
    have aj: "a + of_nat j = 0x400000 + of_nat (256 + k + j)" for j unfolding k(1) by simp
    have "user_load (kvm (trest ?s)) (a + of_nat j) = Some ((t @ [0]) ! j)" if j: "j \<le> length t" for j
    proof -
      have i: "256 + k + j < 4096" "256 + k + j < 319" using k(4) j by auto
      have "m (wd (B + (256 + k + j))) = demo_rodata ! (k + j)" using i(2) unfolding m_def un [OF i(1)] by simp
      also have "\<dots> = (t @ [0]) ! j" using j k(3) unfolding k(2) by (simp add: nth_append)
      finally show ?thesis unfolding aj ld [OF i(1)] by simp
    qed
    moreover have "user_addr (kvm (trest ?s)) (a + of_nat j) \<noteq> user_addr (kvm (trest ?s)) (0x400000 + of_nat i)" if "j \<le> length t" "i < 256" for i j
      using that k(4) w(3) [of i] w(3) [of "256 + k + j"] neq [of "256 + k + j" i] unfolding aj by auto
    moreover have "a \<noteq> NULL" using at by (auto simp: shell_strings_def demo_shell_def)
    ultimately show ?thesis by (auto simp: ustring_def)
  qed
  have "inj_on (\<lambda>i. user_addr (kvm (trest ?s)) (0x400000 + of_nat i)) {..<256}"
  proof (rule inj_onI)
    fix i j :: nat
    assume a: "i \<in> {..<256}" "j \<in> {..<256}" "user_addr (kvm (trest ?s)) (0x400000 + of_nat i) = user_addr (kvm (trest ?s)) (0x400000 + of_nat j)"
    have l: "i < 4096" "j < 4096" using a(1,2) by auto
    show "i = j" using neq [OF l] a(3) unfolding w(3) [OF l(1)] w(3) [OF l(2)] by blast
  qed
  moreover have "daif_wf (tdaif ?s)" "uart_wf (kuart (trest ?s))"
    using assms by (simp_all add: demo_user_fields uart_wf_def UART_IN_BUF_LEN_def demo_uart_def init_uart_def Let_def spin_lock_init_def)
  moreover have "sh_buf demo_shell = 0x400000" by (simp add: demo_shell_def)
  ultimately have "shell_ready demo_shell ?s" using w(1,2) str unfolding shell_ready_def Let_def by auto
  then show thesis by (rule that)
qed

section \<open>Properties\<close>

text \<open>C39. One round of the shell on the kernel, with a line waiting in the UART driver: the characters sent are the prompt and then the answer to exactly
  that line. A line that starts with \<^verbatim>\<open>help\<close> or \<^verbatim>\<open>man\<close> is answered with the list of commands, an empty line with nothing, any other with
  the line itself and \<^verbatim>\<open>: command not found\<close>. The line is consumed and the shell is ready for the next round.\<close>

theorem shell_round_answers:
  assumes "shell_ready si s" "line_ready (kuart (trest s))"
  shows "\<exists>s'. shell_round (svc_insn ki env ad regs) uprint_char ubytes si s = Some s' \<and> shell_ready si s' \<and>
    uart_tx (kuart (trest s')) = uart_tx (kuart (trest s)) @ map ucast (prompt_text @ shell_reply (typed (kuart (trest s)))) \<and>
    typed (kuart (trest s')) = []"
proof -
  let ?u = "kuart (trest s)" and ?buf = "sh_buf si" and ?n = "uib_index (kuart (trest s))" and ?svc = "svc_insn ki env ad regs"
  note st = shell_strings_set [of si]
  have us: "ustring s (sh_prompt si) prompt_text" and wf: "uart_wf ?u" and bn: "?buf \<noteq> NULL"
    using assms(1) st(1) by (auto simp: shell_ready_def Let_def)
  have "PRINT uprint_char ubytes [0x25, 0x73] [sh_prompt si] 0 s = Some (0 + length prompt_text, fold uprint_char prompt_text s)"
  proof (rule ucon.PRINT_text)
    show "fmt_text [sh_prompt si \<mapsto> prompt_text] [0x25, 0x73] [sh_prompt si] = Some prompt_text"
      using us by (simp add: spec_pad_def spec_width_def arg_text_def ustring_def)
    show "strings_ok UNIV [sh_prompt si \<mapsto> prompt_text] (ubytes s)"
      using ustring_at [OF us] shell_text_facts [OF st(1)] by (simp add: strings_ok_def)
  qed simp
  then have p: "PRINT uprint_char ubytes [0x25, 0x73] [sh_prompt si] 0 s = Some (length prompt_text, send prompt_text s)"
    by (simp add: fold_uprint_char)
  define s1 where "s1 = send prompt_text s"
  have "sent prompt_text s s1" by (simp add: sent_def s1_def)
  note r1 = sent_ready [OF assms(1) this]
  have u1: "kuart (trest s1) = ?u\<lparr>uart_tx := uart_tx ?u @ map ucast prompt_text\<rparr>" "uib_index (kuart (trest s1)) = ?n"
    "line_ready (kuart (trest s1))" "typed (kuart (trest s1)) = typed ?u"
    using assms(2) by (simp_all add: s1_def line_ready_def typed_def)
  have n: "?n < 256" "0 < ?n" "length (typed ?u) = ?n" using wf assms(2) by (auto simp: uart_wf_def UART_IN_BUF_LEN_def line_ready_def typed_def)
  have c: "of_nat ?n \<le> LINE_BUF_SIZE" using n(1) by (simp add: LINE_BUF_SIZE_def word_le_nat_alt unat_of_nat take_bit_nat_eq_self)
  have rd: "daif_wf (tdaif s1)" "uart_wf (kuart (trest s1))" "user_tables (kvm (trest s1))" "\<forall>i < 256. writable_at (kvm (trest s1)) (?buf + of_nat i)"
    "inj_on (\<lambda>i. user_addr (kvm (trest s1)) (?buf + of_nat i)) {..<256}"
    using r1 by (auto simp: shell_ready_def Let_def)
  have inj: "inj_on (\<lambda>i. user_addr (kvm (trest s1)) (?buf + of_nat i)) {..<?n}" by (rule inj_on_subset [OF rd(5)]) (use n(1) in auto)
  have wr: "\<forall>i < ?n. writable_at (kvm (trest s1)) (?buf + of_nat i)" using rd(4) n(1) by auto
  obtain s2 where s2: "?svc NR_read [0, ?buf, LINE_BUF_SIZE] s1 = Some (of_nat ?n, s2)" "same_view s1 s2"
    "kuart (trest s2) = (kuart (trest s1))\<lparr>uib_index := 0\<rparr>"
    "\<forall>x. (\<forall>i < ?n. x \<noteq> user_addr (kvm (trest s1)) (?buf + of_nat i)) \<longrightarrow> vmem (kvm (trest s2)) x = vmem (kvm (trest s1)) x"
    "\<forall>i < ?n. user_load (kvm (trest s2)) (?buf + of_nat i) = Some (typed ?u ! i)"
    using svc_read [where s = s1 and buf = ?buf and count = LINE_BUF_SIZE and ki = ki and env = env and a = ad and regs = regs,
        unfolded u1(2,4), OF rd(1,2) u1(3) c rd(3) wr inj] by blast
  have r2: "shell_ready si s2"
    using rd(2) s2(3,4) n(1) by (intro shell_ready_keep [OF r1 s2(2)]) (auto simp: uart_wf_def UART_IN_BUF_LEN_def)
  have lst: "last (typed ?u) = 0x0A" "typed ?u \<noteq> []"
    using wf assms(2) n by (cases ?n; auto simp: line_ready_def typed_def uart_wf_def take_Suc_conv_app_nth)+
  obtain s3 where s3: "shell_answer ?svc ubytes si (of_nat (length (typed ?u))) s2 = Some s3" "sent (shell_reply (typed ?u)) s2 s3"
    using shell_answer_run [OF r2 lst(2) _ lst(1), of ki env ad regs] s2(5) n by auto
  have i: "sint (of_nat ?n :: u64) = int ?n" "sint (word_of_int (int ?n) :: u32) = int ?n"
    using n(1) by (simp_all add: signed_of_nat signed_take_bit_int_eq_self signed_of_int)
  have "shell_round ?svc uprint_char ubytes si s = Some s3"
    unfolding shell_round_def Let_def p using s2(1) s3(1) bn n i by (simp add: read_u_def s1_def [symmetric])
  moreover have "shell_ready si s3" by (rule sent_ready [OF r2 s3(2)])
  moreover have "typed (kuart (trest s3)) = []" using s3(2) s2(3) by (simp add: sent_def typed_def)
  moreover have "uart_tx (kuart (trest s3)) = uart_tx ?u @ map ucast (prompt_text @ shell_reply (typed ?u))"
    using s3(2) s2(3) u1(1) by (simp add: sent_def)
  ultimately show ?thesis by blast
qed


theorem shell_round_answers_witness:
  "\<exists>m s'. shell_round (svc_insn demo_image Some 0 0x8000) uprint_char ubytes demo_shell (demo_user m (map of_char ''ls'' @ [0x0A])) = Some s' \<and>
    uart_tx (kuart (trest s')) = uart_tx demo_uart @ map ucast (map of_char ''# ls: command not found'' @ [0x0A] :: u8 list)"
proof -
  have "length (map of_char ''ls'' @ [0x0A] :: u8 list) < 256" by simp
  then obtain m where m: "shell_ready demo_shell (demo_user m (map of_char ''ls'' @ [0x0A]))" by (rule demo_shell_ready)
  let ?u = "kuart (trest (demo_user m (map of_char ''ls'' @ [0x0A])))"
  have u: "line_ready ?u" "typed ?u = map of_char ''ls'' @ [0x0A]" "uart_tx ?u = uart_tx demo_uart"
    by (simp_all add: demo_user_fields line_ready_def typed_def)
  have r: "prompt_text @ shell_reply (map of_char ''ls'' @ [0x0A]) = map of_char ''# ls: command not found'' @ [0x0A]"
    by (simp add: shell_reply_def prompt_text_def unknown_cmd_text_def)
  from shell_round_answers [OF m u(1), of demo_image Some 0 "0x8000"] show ?thesis unfolding u(2,3) r by blast
qed

end
