(* ===== verification/Misc.thy ===== *)
theory Misc
  imports Klist Spinlock
begin

text \<open>
  The delays and dumps of \<^verbatim>\<open>kernel/misc.c\<close>. \<^verbatim>\<open>printk\<close> is an argument, a function of the format and its arguments. The counter register
  is the sequence of the values read from it.
\<close>

unbundle bit_operations_syntax

section \<open>Delays\<close>

partial_function (option) udelay_loop :: "(nat \<Rightarrow> u64) \<Rightarrow> nat \<Rightarrow> u64 \<Rightarrow> u64 \<Rightarrow> nat option" where
  "udelay_loop cnt i timer_count timer_count_end =
    (if timer_count < timer_count_end then udelay_loop cnt (i + 1) (cnt i) timer_count_end else Some i)"

text \<open>The result is the number of times the counter is read.\<close>

definition udelay :: "(nat \<Rightarrow> u64) \<Rightarrow> u64 \<Rightarrow> nat option" where
  "udelay cnt delay =
    (let timer_count = cnt 0;
         timer_count_delta = CNTFRQ_EL0_VALUE * delay div (1000 * 1000);
         timer_count_end = timer_count + timer_count_delta
     in udelay_loop cnt 1 timer_count timer_count_end)"

definition mdelay :: "(nat \<Rightarrow> u64) \<Rightarrow> u64 \<Rightarrow> nat option" where
  "mdelay cnt delay = udelay cnt (1000 * delay)"

section \<open>Dumping the stack\<close>

type_synonym 's pk = "u8 list \<Rightarrow> u64 list \<Rightarrow> 's \<Rightarrow> 's option"

definition within_stack :: "u64 \<Rightarrow> u64 \<Rightarrow> bool" where
  "within_stack sp fp \<longleftrightarrow>
    (let stack_min = sp AND NOT (PAGE_SIZE - 1); stack_max = stack_min + PAGE_SIZE
     in stack_min \<le> fp \<and> fp < stack_max)"

definition frame_fmt :: "u8 list" where "frame_fmt = map of_char ''%p'' @ [0x0A]"
definition begin_fmt :: "u8 list" where "begin_fmt = map of_char ''core %d: dump_stack() begin'' @ [0x0A]"
definition elr_fmt :: "u8 list" where "elr_fmt = map of_char ''core %d: elr_el1=%p'' @ [0x0A]"
definition end_fmt :: "u8 list" where "end_fmt = map of_char ''core %d: dump_stack() end'' @ [0x0A]"

text \<open>\<^verbatim>\<open>lr\<close> points to 32-bit instructions, so the address before it is 4 bytes lower. Printing does not write to the frames.\<close>

partial_function (option) dump_stack_loop :: "'s pk \<Rightarrow> mem \<Rightarrow> u64 \<Rightarrow> u64 \<Rightarrow> u64 \<Rightarrow> 's \<Rightarrow> 's option" where
  "dump_stack_loop pk m sp linear_start fp s =
    (if within_stack sp fp then
       (let branch_addr = load64 m (fp + 8) - 4
        in if branch_addr < linear_start then Some s
           else do {
             s \<leftarrow> pk frame_fmt [branch_addr] s;
             dump_stack_loop pk m sp linear_start (load64 m fp) s })
     else Some s)"

definition dump_stack :: "'s pk \<Rightarrow> mem \<Rightarrow> u64 \<Rightarrow> u64 \<Rightarrow> u64 \<Rightarrow> u64 \<Rightarrow> u64 \<Rightarrow> u64 \<times> 's \<Rightarrow> (u64 \<times> 's) option" where
  "dump_stack pk m linear_start core_id elr_el1 sp fp = (\<lambda>(d, s). do {
     let (flags, d) = local_irq_save d;
     s \<leftarrow> pk begin_fmt [core_id] s;
     s \<leftarrow> pk elr_fmt [core_id, elr_el1] s;
     s \<leftarrow> dump_stack_loop pk m sp linear_start fp s;
     s \<leftarrow> pk end_fmt [core_id] s;
     Some (local_irq_restore flags d, s) })"

section \<open>Dumping memory\<close>

text \<open>The formats of a line: \<open>n\<close> conversions, with spaces between them.\<close>

definition line_fmt :: "u8 \<Rightarrow> nat \<Rightarrow> u8 list" where
  "line_fmt conv n = tl (concat (replicate n [0x20, 0x25, conv])) @ [0x0A]"

definition null_fmt :: "u8 list" where "null_fmt = map of_char ''%s: start_addr is null'' @ [0x0A]"

function hex_byte_loop :: "'s pk \<Rightarrow> mem \<Rightarrow> nat \<Rightarrow> nat \<Rightarrow> u64 \<Rightarrow> 's \<Rightarrow> (u64 \<times> 's) option" where
  "hex_byte_loop pk m i ls addr s =
    (if i < ls then do {
       s \<leftarrow> pk (line_fmt 0x78 4) [ucast (m addr), ucast (m (addr + 1)), ucast (m (addr + 2)), ucast (m (addr + 3))] s;
       hex_byte_loop pk m (i + 1) ls (addr + 4) s }
     else Some (addr, s))"
  by pat_completeness auto
termination
  by (relation "measure (\<lambda>(pk, m, i, ls, addr, s). ls - i)") auto

definition dump_mem_in_hex_byte :: "'s pk \<Rightarrow> u64 \<Rightarrow> mem \<Rightarrow> u64 \<Rightarrow> u64 \<Rightarrow> 's \<Rightarrow> 's option" where
  "dump_mem_in_hex_byte pk fname m start_addr len s =
    (if start_addr = NULL then pk null_fmt [fname] s
     else do {
       let ls = unat len div 4;
       let remains = unat len mod 4;
       (addr, s) \<leftarrow> hex_byte_loop pk m 0 ls start_addr s;
       if remains = 1 then pk (line_fmt 0x78 1) [ucast (m addr)] s
       else if remains = 2 then pk (line_fmt 0x78 2) [ucast (m addr), ucast (m (addr + 1))] s
       else if remains = 3 then pk (line_fmt 0x78 3) [ucast (m addr), ucast (m (addr + 1)), ucast (m (addr + 2))] s
       else Some s })"

function u64_loop :: "'s pk \<Rightarrow> mem \<Rightarrow> nat \<Rightarrow> nat \<Rightarrow> u64 \<Rightarrow> 's \<Rightarrow> (u64 \<times> 's) option" where
  "u64_loop pk m i ls addr s =
    (if i < ls then do {
       s \<leftarrow> pk (line_fmt 0x70 4) [load64 m addr, load64 m (addr + 8), load64 m (addr + 16), load64 m (addr + 24)] s;
       u64_loop pk m (i + 1) ls (addr + 32) s }
     else Some (addr, s))"
  by pat_completeness auto
termination
  by (relation "measure (\<lambda>(pk, m, i, ls, addr, s). ls - i)") auto

definition dump_mem_in_u64 :: "'s pk \<Rightarrow> u64 \<Rightarrow> mem \<Rightarrow> u64 \<Rightarrow> u64 \<Rightarrow> 's \<Rightarrow> 's option" where
  "dump_mem_in_u64 pk fname m start_addr len s =
    (if start_addr = NULL then pk null_fmt [fname] s
     else do {
       let num_u64 = unat len div 8;
       let ls = num_u64 div 4;
       let remains = num_u64 mod 4;
       (addr, s) \<leftarrow> u64_loop pk m 0 ls start_addr s;
       if remains = 1 then pk (line_fmt 0x70 1) [load64 m addr] s
       else if remains = 2 then pk (line_fmt 0x70 2) [load64 m addr, load64 m (addr + 8)] s
       else if remains = 3 then pk (line_fmt 0x70 3) [load64 m addr, load64 m (addr + 8), load64 m (addr + 16)] s
       else Some s })"

declare hex_byte_loop.simps [simp del] u64_loop.simps [simp del]

section \<open>What a dump prints\<close>

text \<open>The reference: the sequence of items, cut into lines of four.\<close>

fun chunks4 :: "'a list \<Rightarrow> 'a list list" where
  "chunks4 [] = []"
| "chunks4 (x # xs) = take 4 (x # xs) # chunks4 (drop 3 xs)"

definition print_items :: "'s pk \<Rightarrow> u8 \<Rightarrow> u64 list \<Rightarrow> 's \<Rightarrow> 's option" where
  "print_items pk conv xs = fold_opt (\<lambda>c. pk (line_fmt conv (length c)) c) (chunks4 xs)"

lemma print_items_four:
  "print_items pk conv (a # b # c # d # xs) s = Option.bind (pk (line_fmt conv 4) [a, b, c, d] s) (print_items pk conv xs)"
  by (simp add: print_items_def numeral_3_eq_3 numeral_eq_Suc cong: Option.bind_cong)


text \<open>The \<open>n\<close> items from an address on, \<open>d\<close> bytes apart.\<close>

fun items :: "(u64 \<Rightarrow> u64) \<Rightarrow> u64 \<Rightarrow> u64 \<Rightarrow> nat \<Rightarrow> u64 list" where
  "items g d a 0 = []"
| "items g d a (Suc n) = g a # items g d (a + d) n"

abbreviation bytes_at :: "mem \<Rightarrow> u64 \<Rightarrow> nat \<Rightarrow> u64 list" where
  "bytes_at m \<equiv> items (\<lambda>a. ucast (m a)) 1"

abbreviation words_at :: "mem \<Rightarrow> u64 \<Rightarrow> nat \<Rightarrow> u64 list" where
  "words_at m \<equiv> items (load64 m) 8"

lemma hex_byte_loop_items:
  "i \<le> ls \<Longrightarrow> print_items pk 0x78 (bytes_at m addr (4 * (ls - i) + r)) s =
    Option.bind (hex_byte_loop pk m i ls addr s) (\<lambda>(a, s). print_items pk 0x78 (bytes_at m a r) s)"
proof (induction "ls - i" arbitrary: i addr s)
  case 0
  then show ?case by (simp add: hex_byte_loop.simps)
next
  case (Suc n)
  have n: "4 * (ls - i) + r = Suc (Suc (Suc (Suc (4 * (ls - (i + 1)) + r))))" "i < ls" using Suc(2) by auto
  have ih: "print_items pk 0x78 (bytes_at m (addr + 4) (4 * (ls - (i + 1)) + r)) s =
      Option.bind (hex_byte_loop pk m (i + 1) ls (addr + 4) s) (\<lambda>(a, s). print_items pk 0x78 (bytes_at m a r) s)" for s
    using Suc by (intro Suc.hyps(1)) auto
  have a: "addr + 1 + 1 = addr + 2" "addr + 2 + 1 = addr + 3" "addr + 3 + 1 = addr + 4" by simp_all
  show ?case unfolding n(1) hex_byte_loop.simps [of pk m i] items.simps print_items_four a fun_eq_iff [THEN iffD2, OF allI, OF ih]
    using n(2) by simp
qed

lemma u64_loop_items:
  "i \<le> ls \<Longrightarrow> print_items pk 0x70 (words_at m addr (4 * (ls - i) + r)) s =
    Option.bind (u64_loop pk m i ls addr s) (\<lambda>(a, s). print_items pk 0x70 (words_at m a r) s)"
proof (induction "ls - i" arbitrary: i addr s)
  case 0
  then show ?case by (simp add: u64_loop.simps)
next
  case (Suc n)
  have n: "4 * (ls - i) + r = Suc (Suc (Suc (Suc (4 * (ls - (i + 1)) + r))))" "i < ls" using Suc(2) by auto
  have ih: "print_items pk 0x70 (words_at m (addr + 32) (4 * (ls - (i + 1)) + r)) s =
      Option.bind (u64_loop pk m (i + 1) ls (addr + 32) s) (\<lambda>(a, s). print_items pk 0x70 (words_at m a r) s)" for s
    using Suc by (intro Suc.hyps(1)) auto
  have a: "addr + 8 + 8 = addr + 16" "addr + 16 + 8 = addr + 24" "addr + 24 + 8 = addr + 32" by simp_all
  show ?case unfolding n(1) u64_loop.simps [of pk m i] items.simps print_items_four a fun_eq_iff [THEN iffD2, OF allI, OF ih]
    using n(2) by simp
qed

text \<open>The last line, of fewer than four items.\<close>

lemma print_items_rest:
  "r < 4 \<Longrightarrow> print_items pk conv (items g d a r) s =
    (if r = 1 then pk (line_fmt conv 1) [g a] s
     else if r = 2 then pk (line_fmt conv 2) [g a, g (a + d)] s
     else if r = 3 then pk (line_fmt conv 3) [g a, g (a + d), g (a + 2 * d)] s
     else Some s)"
proof -
  have "fold_opt f [] = Some" for f :: "u64 list \<Rightarrow> 'a \<Rightarrow> 'a option" by (simp add: fun_eq_iff)
  then show "r < 4 \<Longrightarrow> ?thesis" by (auto simp: print_items_def numeral_eq_Suc less_Suc_eq mult_2 [symmetric] add.commute)
qed

lemmas bytes_rest = print_items_rest [where d = 1, unfolded mult_1_right]

lemma words_rest_step: "a + 2 * 8 = a + (16 :: u64)"
  by simp

lemmas words_rest = print_items_rest [where d = 8, unfolded words_rest_step]

section \<open>Properties\<close>

text \<open>The memory dumps print exactly the bytes, or the 64-bit words, of the range, in order, four to a line with the rest on a
  last shorter line; a trailing part of a word is left out, and the null pointer gives a message.\<close>

theorem dump_mem_lists:
  "dump_mem_in_hex_byte pk fname m start_addr len s =
     (if start_addr = NULL then pk null_fmt [fname] s else print_items pk 0x78 (bytes_at m start_addr (unat len)) s) \<and>
   dump_mem_in_u64 pk fname m start_addr len s =
     (if start_addr = NULL then pk null_fmt [fname] s else print_items pk 0x70 (words_at m start_addr (unat len div 8)) s)"
proof -
  have h: "dump_mem_in_hex_byte pk fname m start_addr len s = print_items pk 0x78 (bytes_at m start_addr (unat len)) s" if "start_addr \<noteq> NULL"
    using hex_byte_loop_items [of 0 "unat len div 4" pk m start_addr "unat len mod 4" s] that
    by (simp add: dump_mem_in_hex_byte_def bytes_rest Let_def)
  have "dump_mem_in_u64 pk fname m start_addr len s = print_items pk 0x70 (words_at m start_addr (unat len div 8)) s" if "start_addr \<noteq> NULL"
    using u64_loop_items [of 0 "unat len div 8 div 4" pk m start_addr "unat len div 8 mod 4" s] that
    by (simp add: dump_mem_in_u64_def words_rest Let_def)
  with h show ?thesis by (simp add: dump_mem_in_hex_byte_def dump_mem_in_u64_def)
qed


lemma udelay_loop_first:
  assumes "\<And>j. i \<le> j \<Longrightarrow> j < k \<Longrightarrow> cnt j < e" "e \<le> cnt k" "i \<le> k" "c < e"
  shows "udelay_loop cnt i c e = Some (Suc k)"
  using assms(1,3,4)
proof (induction "k - i" arbitrary: i c)
  case 0
  then have "i = k" by simp
  then show ?case using 0 assms(2) by (subst udelay_loop.simps, subst udelay_loop.simps) (auto simp: not_less [symmetric])
next
  case (Suc n)
  then have "udelay_loop cnt (i + 1) (cnt i) e = Some (Suc k)" by (intro Suc.hyps(1)) auto
  then show ?case using Suc.prems(3) by (subst udelay_loop.simps) simp
qed

text \<open>\<^verbatim>\<open>udelay\<close> comes back, at the first reading of the counter that shows the requested number of ticks, and not before; the
  bounds say that neither the product nor the sum passes 64 bits, and that the counter gets there.\<close>

theorem udelay_waits:
  fixes cnt :: "nat \<Rightarrow> u64" and delay :: u64
  defines "ticks \<equiv> 62500000 * unat delay div 1000000"
  assumes "62500000 * unat delay < 2 ^ 64" "unat (cnt 0) + ticks < 2 ^ 64" "\<exists>i. unat (cnt 0) + ticks \<le> unat (cnt i)"
  shows "\<exists>k. udelay cnt delay = Some (Suc k) \<and> unat (cnt 0) + ticks \<le> unat (cnt k) \<and>
    (\<forall>j < k. unat (cnt j) < unat (cnt 0) + ticks)"
proof -
  define k where "k = (LEAST i. unat (cnt 0) + ticks \<le> unat (cnt i))"
  have k: "unat (cnt 0) + ticks \<le> unat (cnt k)" "\<forall>j < k. unat (cnt j) < unat (cnt 0) + ticks"
    using LeastI_ex [OF assms(4)] not_less_Least [of _ "\<lambda>i. unat (cnt 0) + ticks \<le> unat (cnt i)"] by (auto simp: k_def not_le)
  define e where "e = cnt 0 + CNTFRQ_EL0_VALUE * delay div (1000 * 1000)"
  have "unat (CNTFRQ_EL0_VALUE * delay div (1000 * 1000)) = ticks"
    using assms(2) by (simp add: CNTFRQ_EL0_VALUE_def unat_div_distrib unat_word_ariths ticks_def)
  then have e: "unat e = unat (cnt 0) + ticks" using assms(3) by (simp add: e_def unat_word_ariths)
  have "udelay_loop cnt 1 (cnt 0) e = Some (Suc k)"
  proof (cases "k = 0")
    case True
    then have "\<not> cnt 0 < e" using k(1) e by (simp add: word_less_nat_alt)
    then show ?thesis using True by (subst udelay_loop.simps) simp
  next
    case False
    then show ?thesis using k e by (intro udelay_loop_first) (auto simp: word_less_nat_alt word_le_nat_alt)
  qed
  then show ?thesis using k by (auto simp: udelay_def e_def Let_def)
qed

theorem udelay_waits_witness:
  "\<exists>k. udelay (\<lambda>i. 100 + 10 * of_nat i) 2 = Some (Suc k) \<and> 225 \<le> unat (100 + 10 * of_nat k :: u64)"
proof -
  have "225 \<le> unat (100 + 10 * of_nat 20 :: u64)" by simp
  then have "\<exists>i. unat (100 + 10 * of_nat 0 :: u64) + 62500000 * unat (2 :: u64) div 1000000 \<le> unat (100 + 10 * of_nat i :: u64)"
    by (intro exI [of _ 20]) simp
  from udelay_waits [where cnt = "\<lambda>i. 100 + 10 * of_nat i" and delay = 2, OF _ _ this] show ?thesis by auto
qed

section \<open>The walk over the frames\<close>

text \<open>The return addresses that the chain of frame records from \<open>fp\<close> on holds.\<close>

fun frame_chain :: "mem \<Rightarrow> u64 \<Rightarrow> u64 \<Rightarrow> u64 \<Rightarrow> u64 list \<Rightarrow> bool" where
  "frame_chain m sp linear_start fp [] \<longleftrightarrow> \<not> (within_stack sp fp \<and> linear_start \<le> load64 m (fp + 8) - 4)"
| "frame_chain m sp linear_start fp (r # rs) \<longleftrightarrow> within_stack sp fp \<and> r = load64 m (fp + 8) - 4 \<and> linear_start \<le> r \<and>
     frame_chain m sp linear_start (load64 m fp) rs"

lemma dump_stack_loop_chain:
  "frame_chain m sp ls fp rs \<Longrightarrow> dump_stack_loop pk m sp ls fp s = fold_opt (\<lambda>r. pk frame_fmt [r]) rs s"
proof (induction rs arbitrary: fp s)
  case Nil
  then show ?case by (subst dump_stack_loop.simps) (auto simp: Let_def not_le)
next
  case (Cons r rs)
  then have "\<not> load64 m (fp + 8) - 4 < ls" "within_stack sp fp" "r = load64 m (fp + 8) - 4"
    "dump_stack_loop pk m sp ls (load64 m fp) = fold_opt (\<lambda>r. pk frame_fmt [r]) rs" by (auto simp: not_less)
  then show ?case by (subst dump_stack_loop.simps) (simp add: Let_def)
qed

lemma frame_chain_ex:
  assumes "\<And>fp. within_stack sp fp \<Longrightarrow> ls \<le> load64 m (fp + 8) - 4 \<Longrightarrow> fp < load64 m fp"
  shows "\<exists>rs. frame_chain m sp ls fp rs"
proof (induction "2 ^ 64 - unat fp" arbitrary: fp rule: less_induct)
  case less
  show ?case
  proof (cases "within_stack sp fp \<and> ls \<le> load64 m (fp + 8) - 4")
    case True
    have "2 ^ 64 - unat (load64 m fp) < 2 ^ 64 - unat fp"
      using assms [of fp] True unat_lt_64 [of fp] by (intro diff_less_mono2) (auto simp: word_less_nat_alt simp del: unat_lt_64)
    then obtain rs where "frame_chain m sp ls (load64 m fp) rs" using less by blast
    then show ?thesis using True by (intro exI [of _ "(load64 m (fp + 8) - 4) # rs"]) simp
  next
    case False
    then show ?thesis by (intro exI [of _ "[]"]) simp
  qed
qed


lemma dump_stack_restores: "daif_wf d \<Longrightarrow> local_irq_restore (fst (local_irq_save d)) (snd (local_irq_save d)) = d"
  by (rule local_irq_restore_save)

text \<open>\<^verbatim>\<open>dump_stack\<close> on a stack whose frame records point upwards, as the callers of a function do, comes back, prints the address of
  every call on the chain in order between its two messages, and gives the interrupt mask back. A record that points to itself is not noticed: the
  dump never ends (\<open>dump_stack_stuck\<close>).\<close>

theorem dump_stack_prints:
  assumes "daif_wf d" "\<And>fp. within_stack sp fp \<Longrightarrow> linear_start \<le> load64 m (fp + 8) - 4 \<Longrightarrow> fp < load64 m fp"
  shows "\<exists>rs. frame_chain m sp linear_start fp rs \<and>
    dump_stack (\<lambda>fmt ap out. Some (out @ [(fmt, ap)])) m linear_start core elr sp fp (d, out) =
      Some (d, out @ [(begin_fmt, [core]), (elr_fmt, [core, elr])] @ map (\<lambda>r. (frame_fmt, [r])) rs @ [(end_fmt, [core])])"
proof -
  obtain rs where rs: "frame_chain m sp linear_start fp rs" using frame_chain_ex [of sp linear_start m] assms(2) by blast
  have "fold_opt (\<lambda>r out. Some (out @ [(frame_fmt, [r])])) rs o' = Some (o' @ map (\<lambda>r. (frame_fmt, [r])) rs)" for o' :: "(u8 list \<times> u64 list) list"
    by (induction rs arbitrary: o') simp_all
  then have "dump_stack_loop (\<lambda>fmt ap out. Some (out @ [(fmt, ap)])) m sp linear_start fp o' = Some (o' @ map (\<lambda>r. (frame_fmt, [r])) rs)" for o'
    unfolding dump_stack_loop_chain [OF rs] .
  then show ?thesis using rs dump_stack_restores [OF assms(1)] by (auto simp: dump_stack_def case_prod_beta Let_def)
qed

theorem dump_stack_prints_witness:
  "\<exists>rs. frame_chain (\<lambda>_. 255) 0x80001000 0x1000 0x80001010 rs \<and>
    dump_stack (\<lambda>fmt ap out. Some (out @ [(fmt, ap)])) (\<lambda>_. 255) 0x1000 0 0x4000 0x80001000 0x80001010 (0, []) =
      Some (0, [(begin_fmt, [0]), (elr_fmt, [0, 0x4000])] @ map (\<lambda>r. (frame_fmt, [r])) rs @ [(end_fmt, [0])])"
proof -
  have "of_le (replicate 8 255) = (-1 :: u64)" by code_simp
  then have "load64 (\<lambda>_. 255) a = -1" for a by (simp add: load64_def load_bytes_def map_replicate_const)
  moreover have "fp < -1" if "within_stack 0x80001000 fp" for fp
  proof -
    have "unat fp < 0x80002000" using that by (simp add: within_stack_def PAGE_SIZE_def word_less_nat_alt Let_def)
    then show ?thesis by (simp add: word_less_nat_alt unsigned_minus_1_eq_mask mask_eq_exp_minus_1)
  qed
  moreover have "daif_wf 0" by (simp add: daif_wf_def)
  ultimately show ?thesis using dump_stack_prints [of 0 "0x80001000" "0x1000" "\<lambda>_. 255" "0x80001010" 0 "0x4000" "[]"] by simp
qed

lemma dump_stack_stuck:
  assumes "within_stack sp fp" "linear_start \<le> load64 m (fp + 8) - 4" "load64 m fp = fp"
  shows "dump_stack_loop pk m sp linear_start fp s = None"
proof -
  have "\<not> (within_stack sp fp \<and> linear_start \<le> load64 m (fp + 8) - 4 \<and> load64 m fp = fp)"
    if "dump_stack_loop pk m sp linear_start fp s = Some r" for r
  proof (rule dump_stack_loop.raw_induct [where P = "\<lambda>pk m sp ls fp s r. \<not> (within_stack sp fp \<and> ls \<le> load64 m (fp + 8) - 4 \<and> load64 m fp = fp)", OF _ that])
    fix loop :: "'a pk \<Rightarrow> mem \<Rightarrow> u64 \<Rightarrow> u64 \<Rightarrow> u64 \<Rightarrow> 'a \<Rightarrow> 'a option" and pk m sp ls fp s r
    assume ih: "\<And>pk m sp ls fp s r. loop pk m sp ls fp s = Some r \<Longrightarrow> \<not> (within_stack sp fp \<and> ls \<le> load64 m (fp + 8) - 4 \<and> load64 m fp = fp)"
      and run: "(if within_stack sp fp then let branch_addr = load64 m (fp + 8) - 4 in if branch_addr < ls then Some s
        else Option.bind (pk frame_fmt [branch_addr] s) (loop pk m sp ls (load64 m fp)) else Some s) = Some r"
    show "\<not> (within_stack sp fp \<and> ls \<le> load64 m (fp + 8) - 4 \<and> load64 m fp = fp)"
    proof
      assume a: "within_stack sp fp \<and> ls \<le> load64 m (fp + 8) - 4 \<and> load64 m fp = fp"
      with run obtain s1 where "loop pk m sp ls fp s1 = Some r" by (auto simp: Let_def not_less [symmetric] split: bind_splits)
      then show False using ih a by blast
    qed
  qed
  then have "dump_stack_loop pk m sp linear_start fp s \<noteq> Some r" for r using assms by blast
  then show ?thesis by (cases "dump_stack_loop pk m sp linear_start fp s") auto
qed

end
