(* ===== verification/Start.thy ===== *)
theory Start
  imports Wakeup Kthread
begin

text \<open>
  The start of the kernel, \<^verbatim>\<open>main\<close> of \<^verbatim>\<open>kernel/main.c\<close>: static memory is cleared, the log, the UART driver, the scheduler and the
  timers are initialised, the interrupt controller and the clocks are programmed, and after the second part of the
  initialisation the threads of the kernel are created.
\<close>

unbundle bit_operations_syntax

section \<open>The interrupt controller\<close>

definition VIRT_GIC_DIST_BASE :: u64 where "VIRT_GIC_DIST_BASE = 0x08000000"
definition VIRT_GIC_CPU_BASE :: u64 where "VIRT_GIC_CPU_BASE = 0x08010000"
definition VIRT_RTC_BASE :: u64 where "VIRT_RTC_BASE = 0x09010000"
definition VIRT_RTC_RTCMR :: u64 where "VIRT_RTC_RTCMR = VIRT_RTC_BASE + 0x4"
definition VIRT_RTC_RTCLR :: u64 where "VIRT_RTC_RTCLR = VIRT_RTC_BASE + 0x8"
definition VIRT_RTC_RTCIMSC :: u64 where "VIRT_RTC_RTCIMSC = VIRT_RTC_BASE + 0x10"

definition VIRT_INT_TIMER :: nat where "VIRT_INT_TIMER = 30"
definition VIRT_INT_UART :: nat where "VIRT_INT_UART = 33"
definition VIRT_INT_RTC :: nat where "VIRT_INT_RTC = 34"

datatype int_type = INT_TYPE_LEVEL | INT_TYPE_EDGE

text \<open>
  Device registers by their physical addresses, those accessed as words and those accessed as bytes. A write to a set-enable register
  of the distributor sets the bits that are 1 in the value and leaves the others.
\<close>

record devices =
  dev_w :: "u64 \<Rightarrow> u32"
  dev_b :: "u64 \<Rightarrow> u8"

definition write_w :: "u64 \<Rightarrow> u32 \<Rightarrow> devices \<Rightarrow> devices" where
  "write_w a v d =
    d\<lparr>dev_w := (dev_w d)(a := if VIRT_GIC_DIST_BASE + 0x100 \<le> a \<and> a < VIRT_GIC_DIST_BASE + 0x180 then dev_w d a OR v else v)\<rparr>"

definition set_int_cpu :: "u64 \<Rightarrow> nat \<Rightarrow> int_type \<Rightarrow> u8 \<Rightarrow> devices \<Rightarrow> devices" where
  "set_int_cpu gic_dist_base interrupt_id interrupt_type cpu_target_mask d =
    (let enable_addr = gic_dist_base + 0x100 + of_nat (interrupt_id div 32 * 4);
         d = write_w enable_addr (dev_w d enable_addr AND NOT (push_bit (interrupt_id mod 32) 1)) d;
         d = (if 32 \<le> interrupt_id
              then d\<lparr>dev_b := (dev_b d)(gic_dist_base + 0x800 + of_nat (interrupt_id div 4 * 4 + interrupt_id mod 4) := cpu_target_mask)\<rparr>
              else d);
         cfg_addr = gic_dist_base + 0xC00 + of_nat (interrupt_id div 16 * 4);
         d = (if interrupt_type = INT_TYPE_EDGE
              then write_w cfg_addr (dev_w d cfg_addr OR push_bit (interrupt_id mod 16 * 2) 2) d else d)
     in write_w enable_addr (dev_w d enable_addr OR push_bit (interrupt_id mod 32) 1) d)"

definition config_int_PMR :: "u64 \<Rightarrow> devices \<Rightarrow> devices" where
  "config_int_PMR gic_cpu_base = write_w (gic_cpu_base + 4) 0xFF"

definition enable_cpu_int_signal :: "u64 \<Rightarrow> devices \<Rightarrow> devices" where
  "enable_cpu_int_signal gic_cpu_base = write_w gic_cpu_base 1"

definition enable_dist_int_send :: "u64 \<Rightarrow> devices \<Rightarrow> devices" where
  "enable_dist_int_send gic_dist_base = write_w gic_dist_base 1"

definition config_gic_cpu :: "devices \<Rightarrow> devices" where
  "config_gic_cpu d = enable_cpu_int_signal VIRT_GIC_CPU_BASE (config_int_PMR VIRT_GIC_CPU_BASE d)"

definition config_rtc :: "devices \<Rightarrow> devices" where
  "config_rtc d = write_w VIRT_RTC_RTCIMSC 1 (write_w VIRT_RTC_RTCLR 2 (write_w VIRT_RTC_RTCMR 3 d))"

text \<open>Which interrupts are enabled, where they go, and which are edge-triggered.\<close>

definition int_enabled :: "devices \<Rightarrow> nat \<Rightarrow> bool" where
  "int_enabled d i \<longleftrightarrow> bit (dev_w d (VIRT_GIC_DIST_BASE + 0x100 + of_nat (i div 32 * 4))) (i mod 32)"

definition int_target :: "devices \<Rightarrow> nat \<Rightarrow> u8" where
  "int_target d i = dev_b d (VIRT_GIC_DIST_BASE + 0x800 + of_nat (i div 4 * 4 + i mod 4))"

definition int_edge :: "devices \<Rightarrow> nat \<Rightarrow> bool" where
  "int_edge d i \<longleftrightarrow> bit (dev_w d (VIRT_GIC_DIST_BASE + 0xC00 + of_nat (i div 16 * 4))) (i mod 16 * 2 + 1)"

lemma reg_addr_eq:
  assumes "a < 0x2000000" "b < 0x2000000"
  shows "VIRT_GIC_DIST_BASE + of_nat a = VIRT_GIC_DIST_BASE + (of_nat b :: u64) \<longleftrightarrow> a = b"
proof -
  have "unat (of_nat a :: u64) = a" "unat (of_nat b :: u64) = b" using assms by (simp_all add: unat_of_nat take_bit_nat_eq_self)
  then show ?thesis by (metis add_left_cancel)
qed

lemma unat_reg_addr: "a < 0x2000000 \<Longrightarrow> unat (VIRT_GIC_DIST_BASE + of_nat a) = 0x08000000 + a"
  by (simp add: VIRT_GIC_DIST_BASE_def unat_word_ariths unat_of_nat take_bit_nat_eq_self)

lemma reg_offsets:
  "VIRT_GIC_DIST_BASE + 0x100 + of_nat n = VIRT_GIC_DIST_BASE + of_nat (0x100 + n)"
  "VIRT_GIC_DIST_BASE + 0x800 + of_nat n = VIRT_GIC_DIST_BASE + of_nat (0x800 + n)"
  "VIRT_GIC_DIST_BASE + 0xC00 + of_nat n = VIRT_GIC_DIST_BASE + of_nat (0xC00 + n)"
  by simp_all

lemma write_w_reg:
  assumes "n < 0x2000000"
  shows "write_w (VIRT_GIC_DIST_BASE + of_nat n) v d =
    d\<lparr>dev_w := (dev_w d)(VIRT_GIC_DIST_BASE + of_nat n :=
      if 0x100 \<le> n \<and> n < 0x180 then dev_w d (VIRT_GIC_DIST_BASE + of_nat n) OR v else v)\<rparr>"
proof -
  have "VIRT_GIC_DIST_BASE + 0x100 \<le> VIRT_GIC_DIST_BASE + of_nat n \<longleftrightarrow> 0x100 \<le> n"
    "VIRT_GIC_DIST_BASE + of_nat n < VIRT_GIC_DIST_BASE + 0x180 \<longleftrightarrow> n < 0x180"
    using unat_reg_addr [OF assms] unat_reg_addr [of "0x100"] unat_reg_addr [of "0x180"]
    by (simp_all add: word_le_nat_alt word_less_nat_alt)
  then show ?thesis by (simp add: write_w_def)
qed

text \<open>Programming an interrupt enables it, and no other; but the first write, which the code calls disabling the interrupt, does nothing.\<close>

lemma set_enable_clear_noop:
  assumes "i < 1024"
  shows "write_w (VIRT_GIC_DIST_BASE + 0x100 + of_nat (i div 32 * 4))
     (dev_w d (VIRT_GIC_DIST_BASE + 0x100 + of_nat (i div 32 * 4)) AND NOT (push_bit (i mod 32) 1)) d = d"
proof -
  have o: "x OR (x AND y) = x" for x y :: u32 by (simp add: bit_eq_iff bit_simps)
  have n: "0x100 + i div 32 * 4 < 0x2000000" "0x100 + i div 32 * 4 < 0x180" using assms by auto
  show ?thesis unfolding reg_offsets write_w_reg [OF n(1)] o using n(2) by simp
qed

lemma bit_or_shifted: "k < 32 \<Longrightarrow> bit ((x :: u32) OR push_bit k 1) n \<longleftrightarrow> bit x n \<or> n = k"
  by (auto simp: bit_simps)

lemma set_int_cpu_eq:
  assumes "i < 1024"
  shows "set_int_cpu VIRT_GIC_DIST_BASE i ity msk d =
    d\<lparr>dev_w := (if ity = INT_TYPE_EDGE
        then (dev_w d)(VIRT_GIC_DIST_BASE + of_nat (0xC00 + i div 16 * 4) :=
          dev_w d (VIRT_GIC_DIST_BASE + of_nat (0xC00 + i div 16 * 4)) OR push_bit (i mod 16 * 2) 2) else dev_w d)
        (VIRT_GIC_DIST_BASE + of_nat (0x100 + i div 32 * 4) :=
          dev_w d (VIRT_GIC_DIST_BASE + of_nat (0x100 + i div 32 * 4)) OR push_bit (i mod 32) 1),
      dev_b := (if 32 \<le> i then (dev_b d)(VIRT_GIC_DIST_BASE + of_nat (0x800 + i) := msk) else dev_b d)\<rparr>"
proof -
  have r: "i div 32 * 4 < 0x80" "i div 16 * 4 < 0x100" "i div 4 * 4 + i mod 4 = i" using assms by auto
  have ne: "VIRT_GIC_DIST_BASE + of_nat (0x100 + i div 32 * 4) \<noteq> VIRT_GIC_DIST_BASE + (of_nat (0xC00 + i div 16 * 4) :: u64)"
    using r by (subst reg_addr_eq) auto
  have o: "x OR (x OR y) = x OR y" for x y :: u32 by (simp add: bit_eq_iff bit_simps)
  have "set_int_cpu VIRT_GIC_DIST_BASE i ity msk d = (let d1 = (if 32 \<le> i then d\<lparr>dev_b := (dev_b d)(VIRT_GIC_DIST_BASE + of_nat (0x800 + i) := msk)\<rparr> else d);
      d2 = (if ity = INT_TYPE_EDGE then write_w (VIRT_GIC_DIST_BASE + of_nat (0xC00 + i div 16 * 4))
        (dev_w d1 (VIRT_GIC_DIST_BASE + of_nat (0xC00 + i div 16 * 4)) OR push_bit (i mod 16 * 2) 2) d1 else d1)
      in write_w (VIRT_GIC_DIST_BASE + of_nat (0x100 + i div 32 * 4)) (dev_w d2 (VIRT_GIC_DIST_BASE + of_nat (0x100 + i div 32 * 4)) OR push_bit (i mod 32) 1) d2)"
    unfolding set_int_cpu_def Let_def set_enable_clear_noop [OF assms] r(3) unfolding reg_offsets ..
  moreover have n: "0xC00 + i div 16 * 4 < 0x2000000" "0x100 + i div 32 * 4 < 0x2000000" using r by auto
  ultimately show ?thesis
    unfolding Let_def write_w_reg [OF n(1)] write_w_reg [OF n(2)] using r ne by (auto simp: o)
qed

lemma set_int_cpu_spec:
  assumes "i < 1024" "j < 1024"
  shows "int_enabled (set_int_cpu VIRT_GIC_DIST_BASE i ity msk d) j \<longleftrightarrow> int_enabled d j \<or> j = i"
    "int_target (set_int_cpu VIRT_GIC_DIST_BASE i ity msk d) j = (if 32 \<le> i \<and> j = i then msk else int_target d j)"
    "int_edge (set_int_cpu VIRT_GIC_DIST_BASE i ity msk d) j \<longleftrightarrow> int_edge d j \<or> ity = INT_TYPE_EDGE \<and> j = i"
proof -
  have r: "i div 32 * 4 < 0x80" "i div 16 * 4 < 0x100" "j div 32 * 4 < 0x80" "j div 16 * 4 < 0x100" "j div 4 * 4 + j mod 4 = j" using assms by auto
  have a: "VIRT_GIC_DIST_BASE + of_nat (0x100 + j div 32 * 4) = VIRT_GIC_DIST_BASE + (of_nat (0x100 + i div 32 * 4) :: u64) \<longleftrightarrow> j div 32 = i div 32"
    "VIRT_GIC_DIST_BASE + of_nat (0xC00 + j div 16 * 4) = VIRT_GIC_DIST_BASE + (of_nat (0xC00 + i div 16 * 4) :: u64) \<longleftrightarrow> j div 16 = i div 16"
    "VIRT_GIC_DIST_BASE + of_nat (0x100 + j div 32 * 4) \<noteq> VIRT_GIC_DIST_BASE + (of_nat (0xC00 + i div 16 * 4) :: u64)"
    "VIRT_GIC_DIST_BASE + of_nat (0xC00 + j div 16 * 4) \<noteq> VIRT_GIC_DIST_BASE + (of_nat (0x100 + i div 32 * 4) :: u64)"
    "VIRT_GIC_DIST_BASE + of_nat (0x800 + j) = VIRT_GIC_DIST_BASE + (of_nat (0x800 + i) :: u64) \<longleftrightarrow> j = i"
    using r assms by (subst reg_addr_eq; auto)+
  have same: "j = i \<longleftrightarrow> j div n = i div n \<and> j mod n = i mod n" for n by (metis div_mult_mod_eq)
  define E C T where "E = (\<lambda>n. VIRT_GIC_DIST_BASE + (of_nat (0x100 + n div 32 * 4) :: u64))"
    and "C = (\<lambda>n. VIRT_GIC_DIST_BASE + (of_nat (0xC00 + n div 16 * 4) :: u64))" and "T = (\<lambda>n. VIRT_GIC_DIST_BASE + (of_nat (0x800 + n) :: u64))"
  define S S2 where "S = push_bit (i mod 32) (1 :: u32)" and "S2 = push_bit (i mod 16 * 2) (2 :: u32)"
  have ad: "E j = E i \<longleftrightarrow> j div 32 = i div 32" "C j = C i \<longleftrightarrow> j div 16 = i div 16" "E j \<noteq> C i" "C j \<noteq> E i" "T j = T i \<longleftrightarrow> j = i"
    unfolding E_def C_def T_def by (rule a)+
  have e: "set_int_cpu VIRT_GIC_DIST_BASE i ity msk d =
      d\<lparr>dev_w := (if ity = INT_TYPE_EDGE then (dev_w d)(C i := dev_w d (C i) OR S2) else dev_w d)(E i := dev_w d (E i) OR S),
        dev_b := (if 32 \<le> i then (dev_b d)(T i := msk) else dev_b d)\<rparr>"
    unfolding set_int_cpu_eq [OF assms(1)] E_def C_def T_def S_def S2_def ..
  have "S2 = push_bit (i mod 16 * 2 + 1) (1 :: u32)" by (simp add: S2_def push_bit_eq_mult mult.commute)
  moreover have "i mod 16 * 2 + 1 < 32" using mod_less_divisor [of 16 i] by simp
  ultimately have b: "bit (x OR S) n \<longleftrightarrow> bit x n \<or> n = i mod 32" "bit (x OR S2) n \<longleftrightarrow> bit x n \<or> n = i mod 16 * 2 + 1" for x n
    unfolding S_def using bit_or_shifted [of "i mod 32" x n] bit_or_shifted [of "i mod 16 * 2 + 1" x n] by simp_all
  have ie: "int_enabled x n \<longleftrightarrow> bit (dev_w x (E n)) (n mod 32)" "int_edge x n \<longleftrightarrow> bit (dev_w x (C n)) (n mod 16 * 2 + 1)" for x n
    unfolding int_enabled_def int_edge_def reg_offsets E_def C_def by (rule refl)+
  have it: "int_target x j = dev_b x (T j)" for x unfolding int_target_def reg_offsets r(5) T_def ..
  show "int_enabled (set_int_cpu VIRT_GIC_DIST_BASE i ity msk d) j \<longleftrightarrow> int_enabled d j \<or> j = i"
    unfolding ie(1) e using ad same [of 32] by (auto simp: b)
  show "int_target (set_int_cpu VIRT_GIC_DIST_BASE i ity msk d) j = (if 32 \<le> i \<and> j = i then msk else int_target d j)"
    unfolding it e using ad(5) by auto
  show "int_edge (set_int_cpu VIRT_GIC_DIST_BASE i ity msk d) j \<longleftrightarrow> int_edge d j \<or> ity = INT_TYPE_EDGE \<and> j = i"
    unfolding ie(2) e using ad same [of 16] by (auto simp: b)
qed

text \<open>Writes outside the register banks of the distributor.\<close>

lemma write_w_other:
  assumes "n < 0x100 \<or> 0x1000 \<le> n" "n < 0x2000000" "j < 1024"
  shows "int_enabled (write_w (VIRT_GIC_DIST_BASE + of_nat n) v d) j = int_enabled d j"
    "int_target (write_w (VIRT_GIC_DIST_BASE + of_nat n) v d) j = int_target d j"
    "int_edge (write_w (VIRT_GIC_DIST_BASE + of_nat n) v d) j = int_edge d j"
proof -
  have r: "j div 32 * 4 < 0x80" "j div 16 * 4 < 0x100" using assms(3) by auto
  have "VIRT_GIC_DIST_BASE + of_nat (0x100 + j div 32 * 4) \<noteq> VIRT_GIC_DIST_BASE + (of_nat n :: u64)"
    "VIRT_GIC_DIST_BASE + of_nat (0xC00 + j div 16 * 4) \<noteq> VIRT_GIC_DIST_BASE + (of_nat n :: u64)"
    using r assms by (subst reg_addr_eq; auto)+
  then show "int_enabled (write_w (VIRT_GIC_DIST_BASE + of_nat n) v d) j = int_enabled d j"
    "int_edge (write_w (VIRT_GIC_DIST_BASE + of_nat n) v d) j = int_edge d j"
    unfolding int_enabled_def int_edge_def reg_offsets write_w_reg [OF assms(2)] by simp_all
  show "int_target (write_w (VIRT_GIC_DIST_BASE + of_nat n) v d) j = int_target d j" by (simp add: int_target_def write_w_def)
qed

lemma config_registers:
  "enable_dist_int_send VIRT_GIC_DIST_BASE = write_w (VIRT_GIC_DIST_BASE + of_nat 0) 1"
  "config_int_PMR VIRT_GIC_CPU_BASE = write_w (VIRT_GIC_DIST_BASE + of_nat 0x10004) 0xFF"
  "enable_cpu_int_signal VIRT_GIC_CPU_BASE = write_w (VIRT_GIC_DIST_BASE + of_nat 0x10000) 1"
  "VIRT_RTC_RTCMR = VIRT_GIC_DIST_BASE + of_nat 0x1010004" "VIRT_RTC_RTCLR = VIRT_GIC_DIST_BASE + of_nat 0x1010008"
  "VIRT_RTC_RTCIMSC = VIRT_GIC_DIST_BASE + of_nat 0x1010010"
  by (simp_all add: enable_dist_int_send_def config_int_PMR_def enable_cpu_int_signal_def VIRT_GIC_CPU_BASE_def VIRT_GIC_DIST_BASE_def
      VIRT_RTC_RTCMR_def VIRT_RTC_RTCLR_def VIRT_RTC_RTCIMSC_def VIRT_RTC_BASE_def)

section \<open>Creating the first threads\<close>

lemma reap_run_none:
  assumes "\<And>j. j < k \<Longrightarrow> state (tasks s j) \<noteq> STOPPED"
  shows "reap_run 0 k s = s"
proof -
  have "(\<lambda>j. if 0 \<le> j \<and> j < k \<and> state (tasks s j) = STOPPED then zero_task else tasks s j) = tasks s"
    using assms by (auto simp: fun_eq_iff)
  moreover have "filter (\<lambda>j. state (tasks s j) = STOPPED) [0..<k] = []" using assms by (simp add: filter_empty_conv)
  ultimately show ?thesis by (simp add: reap_run_def)
qed

lemma kzalloc_mm_ok:
  assumes "kheap_inv h" "2 * ((\<Sum>(p, u) \<in> allocs h. u) + 87 * card (allocs h) + (card (allocs h) + 1) * 70) \<le> unat MEM_POOL_SIZE"
  shows "\<exists>m h'. kzalloc h sizeof_mm_struct = Some (m, h') \<and> m \<noteq> NULL \<and> kheap_inv h' \<and>
    allocs h' = insert (unat m, 24) (allocs h) \<and> unat m \<notin> fst ` allocs h"
proof -
  have u: "unat sizeof_mm_struct + 7 < 2 ^ 64" "unat sizeof_mm_struct = 24" by (simp_all add: sizeof_mm_struct_def)
  show ?thesis unfolding kzalloc_eq_kmalloc [OF assms(1) u(1)]
    using kmalloc_succeeds_run [OF assms(1), of sizeof_mm_struct] assms(2) u(2) by simp
qed

text \<open>What a successful \<^verbatim>\<open>kernel_thread\<close> leaves of the state.\<close>

definition spawned :: "u64 \<Rightarrow> u8 list \<Rightarrow> u64 \<Rightarrow> u64 \<Rightarrow> nat \<Rightarrow> sched \<Rightarrow> sched \<Rightarrow> bool" where
  "spawned ctf name f args k s s' \<longleftrightarrow> sched_inv s' \<and> kheap_inv (kernel_heap s') \<and> thread_ready ctf f args k s' \<and>
    (\<forall>j. j \<noteq> k \<longrightarrow> tasks s' j = tasks s j) \<and> comm (tasks s' k) = copy_comm name (replicate TASK_COMM_LEN 0) \<and>
    ctx_sp (cpu_context (tasks s' k)) = home s (Task k) + KERNEL_STACK_SIZE - 16 \<and>
    stack_words s' = (stack_words s)(home s (Task k) + KERNEL_STACK_SIZE - 8 := f, home s (Task k) + KERNEL_STACK_SIZE - 16 := args) \<and>
    home s' = home s \<and> get_current_proc s' = get_current_proc s \<and> swapper_task_struct s' = swapper_task_struct s \<and>
    (\<exists>m. unat m \<notin> fst ` allocs (kernel_heap s) \<and> allocs (kernel_heap s') = insert (unat (m :: u64), 24) (allocs (kernel_heap s))) \<and>
    daif s' = daif s \<and> core_id s' = core_id s"

lemma kernel_thread_first:
  assumes inv: "sched_inv s" and heap: "kheap_inv (kernel_heap s)" and f: "f \<noteq> NULL"
    and cur: "state (task_of s (get_current_proc s)) \<noteq> STOPPED"
    and k: "k < MAX_NUM_PROCESSES" "\<And>j. j < k \<Longrightarrow> is_task_ready (tasks s j)" "\<not> task_in_use (tasks s k)"
    and room: "2 * ((\<Sum>(p, u) \<in> allocs (kernel_heap s). u) + 87 * card (allocs (kernel_heap s)) + (card (allocs (kernel_heap s)) + 1) * 70)
      \<le> unat MEM_POOL_SIZE"
  shows "\<exists>s'. kernel_thread ctf (Some name) f args s = Some (0, s') \<and> spawned ctf name f args k s s'"
proof -
  obtain k' where k': "k' \<le> MAX_NUM_PROCESSES" "\<forall>j < k'. task_in_use (tasks s j)"
    "k' < MAX_NUM_PROCESSES \<Longrightarrow> \<not> task_in_use (tasks s k')"
    "get_task_slot s = Some (if k' < MAX_NUM_PROCESSES then (Task k', claim_slot k' (reap_run 0 k' s)) else (NoTask, reap_run 0 k' s))"
    "k' < MAX_NUM_PROCESSES \<Longrightarrow> sched_inv (claim_slot k' (reap_run 0 k' s))"
    using get_task_slot_run [OF inv cur] by metis
  have "k' = k" using k k'(1-3) by (metis is_task_ready_def le_less linorder_neqE_nat not_less)
  moreover have rp: "reap_run 0 k s = s" using k(2) by (intro reap_run_none) (auto simp: is_task_ready_def)
  ultimately have slot: "get_task_slot s = Some (Task k, claim_slot k s)" "sched_inv (claim_slot k s)" using k(1) k'(4,5) by simp_all
  let ?s1 = "claim_slot k s"
  have z: "tasks s k = zero_task" using inv k(1,3) by (simp add: sched_inv_def)
  have s1: "kernel_heap ?s1 = kernel_heap s" "tasks ?s1 k = zero_task\<lparr>task_in_use := True, pid := int k + 1, stack := home s (Task k)\<rparr>"
    "home ?s1 = home s" "thread_info_task ?s1 = (thread_info_task s)(home s (Task k) := Task k)" "current_thread_info ?s1 = current_thread_info s"
    "proc_kernel_stacks ?s1 = proc_kernel_stacks s" "cpu_regs ?s1 = cpu_regs s" "stack_words ?s1 = stack_words s" "swapper_task_struct ?s1 = swapper_task_struct s" "daif ?s1 = daif s" "core_id ?s1 = core_id s"
    "\<And>j. j \<noteq> k \<Longrightarrow> tasks ?s1 j = tasks s j"
    using z by (simp_all add: claim_slot_def Let_def upd_task_def home_def current_thread_info_def fun_eq_iff split: task_ptr.splits)
  have ne: "current_thread_info s \<noteq> home s (Task k)"
  proof
    assume "current_thread_info s = home s (Task k)"
    then have "home s (get_current_proc s) = home s (Task k)" using inv by (simp add: sched_inv_def)
    then have "get_current_proc s = Task k" using inv k(1) by (auto simp: sched_inv_def stacks_apart_def valid_task_def)
    then show False using inv k(3) by (auto simp: sched_inv_def)
  qed
  then have cp: "get_current_proc ?s1 = get_current_proc s" "get_current_proc s \<noteq> Task k"
    using inv k(3) by (auto simp: get_current_proc_def s1 sched_inv_def)
  obtain m h' where m: "kzalloc (kernel_heap s) sizeof_mm_struct = Some (m, h')" "m \<noteq> NULL" "kheap_inv h'"
    "allocs h' = insert (unat m, 24) (allocs (kernel_heap s))" "unat m \<notin> fst ` allocs (kernel_heap s)"
    using kzalloc_mm_ok [OF heap room] by blast
  define sp where "sp = home s (Task k) + KERNEL_STACK_SIZE"
  define s' where "s' = ?s1\<lparr>kernel_heap := h', stack_words := (stack_words ?s1)(sp - 8 := f, sp - 16 := args),
      tasks := (tasks ?s1)(k := (tasks ?s1 k)\<lparr>comm := copy_comm name (comm (tasks ?s1 k)), mm := m,
        cpu_context := (cpu_context (tasks ?s1 k))\<lparr>ctx_fp := 0, ctx_pc := ctf, ctx_sp := sp - 16\<rparr>, state := RUNNING\<rparr>)\<rparr>"
  have run: "kernel_thread ctf (Some name) f args s = Some (0, s')"
    using f slot(1) m(1,2) by (simp add: kernel_thread_def Let_def upd_task_def s1 task_of_def s'_def sp_def)
  have "\<exists>r s'. kernel_thread ctf (Some name) f args s = Some (r, s') \<and> sched_inv s' \<and> kheap_inv (kernel_heap s') \<and>
      (r = -1 \<or> r = 0 \<and> thread_ready ctf f args k s')"
    by (rule kernel_thread_slot [OF inv heap f slot s1(1) k(1)]) (simp_all add: s1 zero_task_def cp)
  then have t: "sched_inv s'" "kheap_inv (kernel_heap s')" "thread_ready ctf f args k s'" using run by auto
  have fr: "\<forall>j. j \<noteq> k \<longrightarrow> tasks s' j = tasks s j" "comm (tasks s' k) = copy_comm name (replicate TASK_COMM_LEN 0)"
    "ctx_sp (cpu_context (tasks s' k)) = sp - 16" "stack_words s' = (stack_words s)(sp - 8 := f, sp - 16 := args)"
    "home s' = home s" "get_current_proc s' = get_current_proc s" "swapper_task_struct s' = swapper_task_struct s"
    "kernel_heap s' = h'" "daif s' = daif s" "core_id s' = core_id s"
    using cp(1) s1(3) by (simp_all add: s'_def s1 zero_task_def home_def get_current_proc_def current_thread_info_def fun_eq_iff split: task_ptr.splits)
  show ?thesis using run t fr m(4,5) unfolding spawned_def sp_def by blast
qed


text \<open>The threads of \<^verbatim>\<open>main\<close>, each with its name, function and argument; it returns when one cannot be created.\<close>

fun spawn_all :: "u64 \<Rightarrow> (u8 list \<times> u64 \<times> u64) list \<Rightarrow> sched \<Rightarrow> (bool \<times> sched) option" where
  "spawn_all ctf [] s = Some (True, s)"
| "spawn_all ctf ((name, f, args) # ts) s = do {
     (ret, s) \<leftarrow> kernel_thread ctf (Some name) f args s;
     if ret < 0 then Some (False, s) else spawn_all ctf ts s }"

definition threads_ok :: "u64 \<Rightarrow> (u8 list \<times> u64 \<times> u64) list \<Rightarrow> sched \<Rightarrow> bool" where
  "threads_ok ctf ts s \<longleftrightarrow> sched_inv s \<and> kheap_inv (kernel_heap s) \<and> get_current_proc s = Swapper (core_id s) \<and>
    state (swapper_task_struct s (core_id s)) = RUNNING \<and>
    card (allocs (kernel_heap s)) = length ts \<and> (\<Sum>(p, u) \<in> allocs (kernel_heap s). u) = 24 * length ts \<and>
    (\<forall>i < length ts. case ts ! i of (name, f, args) \<Rightarrow> thread_ready ctf f args i s \<and> comm (tasks s i) = copy_comm name (replicate TASK_COMM_LEN 0) \<and>
       ctx_sp (cpu_context (tasks s i)) = home s (Task i) + KERNEL_STACK_SIZE - 16) \<and>
    (\<forall>i. length ts \<le> i \<and> i < MAX_NUM_PROCESSES \<longrightarrow> \<not> task_in_use (tasks s i))"

lemma page_of_top8:
  assumes "page_of h = h"
  shows "page_of (h + KERNEL_STACK_SIZE - 8) = h"
proof -
  define q where "q = unat h div 4096"
  have u: "unat h = q * 4096" using page_of_div [of h] assms by (simp add: q_def)
  have "q * 4096 < 4096 * 4503599627370496" using unat_lt_64 [of h] u by simp
  then have q: "q < 4503599627370496" by simp
  have "h + KERNEL_STACK_SIZE - 8 = wd (q * 4096 + 4088)"
    using u wd_unat [of h] by (simp add: KERNEL_STACK_SIZE_def wd_add_numeral [symmetric])
  moreover have "unat (wd (q * 4096 + 4088)) = q * 4096 + 4088" using q by (intro unat_wd) simp
  moreover have "(q * 4096 + 4088) div 4096 = q" by simp
  ultimately have "unat (page_of (h + KERNEL_STACK_SIZE - 8)) = unat h" unfolding page_of_div u by simp
  then show ?thesis by (simp add: word_unat_eq_iff)
qed

text \<open>A new thread does not disturb the others: their stacks are other pages.\<close>

lemma spawned_others:
  assumes "sched_inv s" "spawned ctf name f args k s s'" "i \<noteq> k" "i < MAX_NUM_PROCESSES" "k < MAX_NUM_PROCESSES"
    "thread_ready ctf g arg i s" "ctx_sp (cpu_context (tasks s i)) = home s (Task i) + KERNEL_STACK_SIZE - 16"
  shows "thread_ready ctf g arg i s'"
proof -
  let ?h = "\<lambda>j. home s (Task j)"
  have al: "page_of (?h j) = ?h j" if "j < MAX_NUM_PROCESSES" for j
    using assms(1) that by (auto simp: sched_inv_def stacks_apart_def valid_task_def)
  have v: "valid_task (Task i)" "valid_task (Task k)" using assms(4,5) by (simp_all add: valid_task_def)
  have "\<forall>t u. valid_task t \<and> valid_task u \<and> home s t = home s u \<longrightarrow> t = u" using assms(1) by (simp add: sched_inv_def stacks_apart_def)
  then have hn: "?h i \<noteq> ?h k" using v assms(3) by blast
  have p: "page_of (?h j + KERNEL_STACK_SIZE - 16) = ?h j" "page_of (?h j + KERNEL_STACK_SIZE - 8) = ?h j" if "j < MAX_NUM_PROCESSES" for j
    using page_of_top [OF al [OF that]] page_of_top8 [OF al [OF that]] by simp_all
  have e: "?h i + KERNEL_STACK_SIZE - 16 + 8 = ?h i + KERNEL_STACK_SIZE - 8" by simp
  have "stack_words s' x = stack_words s x" if "page_of x = ?h i" for x
  proof -
    have "x \<noteq> ?h k + KERNEL_STACK_SIZE - 8" "x \<noteq> ?h k + KERNEL_STACK_SIZE - 16" using that hn p [OF assms(5)] by auto
    then show ?thesis using assms(2) by (simp add: spawned_def)
  qed
  then have "stack_words s' (?h i + KERNEL_STACK_SIZE - 16) = stack_words s (?h i + KERNEL_STACK_SIZE - 16)"
    "stack_words s' (?h i + KERNEL_STACK_SIZE - 8) = stack_words s (?h i + KERNEL_STACK_SIZE - 8)" using p [OF assms(4)] by blast+
  moreover have "tasks s' i = tasks s i" "home s' = home s" "allocs (kernel_heap s) \<subseteq> allocs (kernel_heap s')"
    using assms(2,3) by (auto simp: spawned_def)
  ultimately show ?thesis using assms(6,7) e unfolding thread_ready_def resumable_def by (auto simp: task_of_def)
qed

lemma spawn_one:
  assumes t: "threads_ok ctf ts s" and f: "f \<noteq> NULL" and n: "length ts < MAX_NUM_PROCESSES"
  shows "\<exists>s'. kernel_thread ctf (Some name) f args s = Some (0, s') \<and> threads_ok ctf (ts @ [(name, f, args)]) s' \<and>
    daif s' = daif s \<and> core_id s' = core_id s"
proof -
  let ?n = "length ts" and ?A = "allocs (kernel_heap s)"
  have i: "sched_inv s" "kheap_inv (kernel_heap s)" "get_current_proc s = Swapper (core_id s)" "state (swapper_task_struct s (core_id s)) = RUNNING"
    "card ?A = ?n" "(\<Sum>(p, u) \<in> ?A. u) = 24 * ?n" using t by (simp_all add: threads_ok_def)
  have rd: "is_task_ready (tasks s j)" if "j < ?n" for j
    using t that by (auto simp: threads_ok_def thread_ready_def split: prod.splits)
  have c: "state (task_of s (get_current_proc s)) \<noteq> STOPPED" using i(3,4) by (simp add: task_of_def)
  have room: "2 * ((\<Sum>(p, u) \<in> ?A. u) + 87 * card ?A + (card ?A + 1) * 70) \<le> unat MEM_POOL_SIZE"
    using n unfolding i(5,6) by (simp add: pool_layout MAX_NUM_PROCESSES_def)
  have nu: "\<not> task_in_use (tasks s ?n)" using t n by (simp add: threads_ok_def)
  from kernel_thread_first [OF i(1,2) f c n rd nu room] obtain s' where
    s': "kernel_thread ctf (Some name) f args s = Some (0, s')" "spawned ctf name f args ?n s s'" by blast
  obtain m where m: "unat m \<notin> fst ` ?A" "allocs (kernel_heap s') = insert (unat (m :: u64), 24) ?A" using s'(2) by (auto simp: spawned_def)
  have fin: "finite ?A" by (simp add: allocs_def)
  have "(unat m, 24) \<notin> ?A" using m(1) by force
  then have cs: "card (allocs (kernel_heap s')) = Suc ?n" "(\<Sum>(p, u) \<in> allocs (kernel_heap s'). u) = 24 * Suc ?n"
    using fin i(5,6) unfolding m(2) by simp_all
  have th: "case (ts @ [(name, f, args)]) ! j of (name, f, args) \<Rightarrow> thread_ready ctf f args j s' \<and> comm (tasks s' j) = copy_comm name (replicate TASK_COMM_LEN 0) \<and>
      ctx_sp (cpu_context (tasks s' j)) = home s' (Task j) + KERNEL_STACK_SIZE - 16" if "j < Suc ?n" for j
  proof (cases "j = ?n")
    case True
    then show ?thesis using s'(2) by (simp add: spawned_def)
  next
    case False
    then have j: "j < ?n" "j < MAX_NUM_PROCESSES" using that n by auto
    obtain nm g a where tj: "ts ! j = (nm, g, a)" by (cases "ts ! j") auto
    have old: "thread_ready ctf g a j s" "comm (tasks s j) = copy_comm nm (replicate TASK_COMM_LEN 0)"
      "ctx_sp (cpu_context (tasks s j)) = home s (Task j) + KERNEL_STACK_SIZE - 16"
      using t j(1) tj by (auto simp: threads_ok_def)
    show ?thesis using spawned_others [OF i(1) s'(2) False j(2) n old(1,3)] old s'(2) False j(1) tj by (simp add: nth_append spawned_def)
  qed
  have "threads_ok ctf (ts @ [(name, f, args)]) s'"
    using s'(2) th cs i(3,4) t unfolding threads_ok_def by (auto simp: spawned_def)
  then show ?thesis using s' by (auto simp: spawned_def)
qed

lemma spawn_all_run:
  assumes "threads_ok ctf ts s" "\<forall>(name, f, args) \<in> set us. f \<noteq> NULL" "length ts + length us \<le> MAX_NUM_PROCESSES"
  shows "\<exists>s'. spawn_all ctf us s = Some (True, s') \<and> threads_ok ctf (ts @ us) s' \<and> daif s' = daif s \<and> core_id s' = core_id s"
  using assms
proof (induction us arbitrary: ts s)
  case (Cons u us)
  obtain nm f a where u: "u = (nm, f, a)" by (cases u) auto
  obtain s1 where s1: "kernel_thread ctf (Some nm) f a s = Some (0, s1)" "threads_ok ctf (ts @ [u]) s1" "daif s1 = daif s" "core_id s1 = core_id s"
    using spawn_one [OF Cons.prems(1), of f nm a] Cons.prems(2,3) u by auto
  obtain s' where "spawn_all ctf us s1 = Some (True, s')" "threads_ok ctf ((ts @ [u]) @ us) s'" "daif s' = daif s1" "core_id s' = core_id s1"
    using Cons.IH [OF s1(2)] Cons.prems(2,3) by auto
  then show ?case using s1 u by simp
qed simp


section \<open>The start of the kernel\<close>

text \<open>
  The static variables without an initial value, which \<^verbatim>\<open>clear_linear_bss\<close> sets to 0, the stacks of the processes among them. The message
  buffers of \<^verbatim>\<open>printk\<close> and the head of the wait queue of the UART, which are written before they are read, keep their bytes in the model.
\<close>

definition in_proc_stacks :: "sched \<Rightarrow> u64 \<Rightarrow> bool" where
  "in_proc_stacks s a \<longleftrightarrow> a - proc_kernel_stacks s < of_nat MAX_NUM_PROCESSES * KERNEL_STACK_SIZE"

definition zero_lock :: spinlock where "zero_lock = \<lparr>data0 = 0, data1 = 0\<rparr>"

definition clear_linear_bss :: "ksys \<Rightarrow> ksys" where
  "clear_linear_bss s = upd_kern (\<lambda>k. k\<lparr>
     kvm := (kvm k)\<lparr>usage := \<lambda>_. 0, vm_sched := (vm_sched (kvm k))\<lparr>tasks_lock := zero_lock, tasks := \<lambda>_. zero_task,
         thread_info_task := (\<lambda>a. if in_proc_stacks (vm_sched (kvm k)) a then NoTask else thread_info_task (vm_sched (kvm k)) a),
         stack_words := (\<lambda>a. if in_proc_stacks (vm_sched (kvm k)) a then 0 else stack_words (vm_sched (kvm k)) a),
         kernel_heap := kheap_start (hmem (kernel_heap (vm_sched (kvm k))))\<rparr>\<rparr>,
     kuart := (kuart k)\<lparr>uart_in_buf := replicate UART_IN_BUF_LEN 0, uib_index := 0, uib_lock := zero_lock, uart_busy := False, is_in_magic := False,
         ulog := (ulog (kuart k))\<lparr>tmp_printk_offset := \<lambda>_. 0, kernel_log := \<lparr>cbuf = \<lparr>cb_buffer = 0, cb_length = 0, cb_rp = 0, cb_wp = 0\<rparr>,
           cbuf_rlock = zero_lock, cbuf_wlock = zero_lock, write_overflow = False\<rparr>\<rparr>\<rparr>,
     ksoft := (ksoft k)\<lparr>softirq_vec := \<lambda>_. 0, nested_softirq_count := \<lambda>_. 0, softirq_pending := \<lambda>_. 0\<rparr>,
     khw := (khw k)\<lparr>tick := 0\<rparr>, irq_trigger_count := \<lambda>_ _. 0\<rparr>) (s\<lparr>thead := NULL, timerlist_lock := zero_lock\<rparr>)"

text \<open>The addresses of the thread functions.\<close>

record main_image =
  mi_call_thread_func :: u64
  mi_kernel_init :: u64
  mi_kernel_exit :: u64
  mi_test_exception :: u64
  mi_user_test :: u64

text \<open>The first half of \<^verbatim>\<open>main\<close>, up to \<^verbatim>\<open>config_hw_timer\<close>; \<open>uart_periph_id2\<close> is the value of that register.\<close>

definition main_setup :: "kimage \<Rightarrow> u32 \<Rightarrow> ksys \<times> devices \<Rightarrow> (ksys \<times> devices) option" where
  "main_setup ki uart_periph_id2 = (\<lambda>(s, d). do {
     let s = clear_linear_bss s;
     (u, l) \<leftarrow> init_printk (usage (kvm (trest s))) (ulog (kuart (trest s)));
     let s = upd_kern (\<lambda>k. k\<lparr>kvm := (kvm k)\<lparr>usage := u\<rparr>, kuart := (kuart k)\<lparr>ulog := l\<rparr>\<rparr>) s;
     let s = upd_kern (\<lambda>k. k\<lparr>kuart := init_uart (ki_uib_wq_head ki) uart_periph_id2 (kuart k)\<rparr>) s;
     let s = upd_kern (\<lambda>k. k\<lparr>kvm := (kvm k)\<lparr>vm_sched := init_sched (vm_sched (kvm k))\<rparr>\<rparr>) s;
     let s = init_timer_module s;
     let d = set_int_cpu VIRT_GIC_DIST_BASE VIRT_INT_UART INT_TYPE_LEVEL 0x1 d;
     let d = set_int_cpu VIRT_GIC_DIST_BASE VIRT_INT_RTC INT_TYPE_LEVEL 0x2 d;
     let d = set_int_cpu VIRT_GIC_DIST_BASE VIRT_INT_TIMER INT_TYPE_EDGE 0 d;
     let d = enable_dist_int_send VIRT_GIC_DIST_BASE d;
     let d = config_gic_cpu d;
     let s = s\<lparr>tdaif := enable_irq (tdaif s)\<rparr>;
     let d = config_rtc d;
     let (h, so) = config_hw_timer (ki_run_timer ki) (khw (trest s), ksoft (trest s));
     Some (upd_kern (\<lambda>k. k\<lparr>khw := h, ksoft := so\<rparr>) s, d) })"

definition main_thread_list :: "main_image \<Rightarrow> (u8 list \<times> u64 \<times> u64) list" where
  "main_thread_list mi =
    [(map of_char ''init'', mi_kernel_init mi, NULL), (map of_char ''init2'', mi_kernel_init mi, 2),
     (map of_char ''exit'', mi_kernel_exit mi, NULL), (map of_char ''test_exception'', mi_test_exception mi, NULL),
     (map of_char ''user_test'', mi_user_test mi, NULL)]"

text \<open>The second half, from the removal of the identity map on; the result says whether it ends in the idle loop or returns.\<close>

definition main_threads :: "main_image \<Rightarrow> ksys \<Rightarrow> (bool \<times> ksys) option" where
  "main_threads mi s = do {
     let s = upd_kern (\<lambda>k. k\<lparr>kvm := (kvm k)\<lparr>vm_sched := (vm_sched (kvm k))\<lparr>ttbr0 := (0, 0)\<rparr>\<rparr>\<rparr>) s;
     h \<leftarrow> init_kmalloc_free zero_lock (kernel_heap (ksched s));
     let s = upd_kern (\<lambda>k. k\<lparr>kvm := (kvm k)\<lparr>vm_sched := (vm_sched (kvm k))\<lparr>kernel_heap := h\<rparr>\<rparr>\<rparr>) s;
     with_vm (\<lambda>v. do {
       (ok, sc) \<leftarrow> spawn_all (mi_call_thread_func mi) (main_thread_list mi) (vm_sched v);
       Some (ok, v\<lparr>vm_sched := sc\<rparr>) }) s }"

text \<open>\<^verbatim>\<open>main\<close> without its diagnostic output, the deliberate faults and the start of the other CPUs, which lie between the two halves.\<close>

definition main_kernel :: "kimage \<Rightarrow> main_image \<Rightarrow> u32 \<Rightarrow> ksys \<times> devices \<Rightarrow> (bool \<times> ksys \<times> devices) option" where
  "main_kernel ki mi uart_periph_id2 sd = do {
     (s, d) \<leftarrow> main_setup ki uart_periph_id2 sd;
     (ok, s) \<leftarrow> main_threads mi s;
     Some (ok, s, d) }"

text \<open>What the other CPUs do before they idle.\<close>

definition main_secondary_cpu :: "kimage \<Rightarrow> ksys \<times> devices \<Rightarrow> ksys \<times> devices" where
  "main_secondary_cpu ki = (\<lambda>(s, d).
     let s = upd_kern (\<lambda>k. k\<lparr>kvm := (kvm k)\<lparr>vm_sched := (vm_sched (kvm k))\<lparr>ttbr0 := (0, 0)\<rparr>\<rparr>\<rparr>) s;
         d = set_int_cpu VIRT_GIC_DIST_BASE VIRT_INT_TIMER INT_TYPE_EDGE 0 d;
         d = config_gic_cpu d;
         s = s\<lparr>tdaif := enable_irq (tdaif s)\<rparr>;
         (h, so) = config_hw_timer (ki_run_timer ki) (khw (trest s), ksoft (trest s))
     in (upd_kern (\<lambda>k. k\<lparr>khw := h, ksoft := so\<rparr>) s, d))"

text \<open>One round of the thread \<^verbatim>\<open>kernel_init\<close>; \<open>c_addr\<close> is the address of the local variable of \<^verbatim>\<open>start_uart_tx\<close>.\<close>

definition kernel_init_round :: "kimage \<Rightarrow> kenv \<Rightarrow> u64 \<Rightarrow> ksys \<Rightarrow> ksys option" where
  "kernel_init_round ki env c_addr s = do {
     s \<leftarrow> do_uart (start_uart_tx c_addr) s;
     msleep ki env 100 s }"

section \<open>The state after the start\<close>

lemma init_sched_inv:
  assumes "core_id s = 0" "daif_wf (daif s)" "tasks s = (\<lambda>_. zero_task)" "stacks_apart (init_sched s)"
    "current_thread_info s = stack (swapper_task_struct s 0)"
  shows "sched_inv (init_sched s)" "get_current_proc (init_sched s) = Swapper 0"
    "state (swapper_task_struct (init_sched s) 0) = RUNNING" "core_id (init_sched s) = 0" "daif (init_sched s) = daif s"
    "tasks (init_sched s) = (\<lambda>_. zero_task)" "kernel_heap (init_sched s) = kernel_heap s"
proof -
  let ?s = "init_sched s" and ?k = "stack (swapper_task_struct s 0)"
  have f: "core_id ?s = 0" "daif ?s = daif s" "tasks ?s = (\<lambda>_. zero_task)" "kernel_heap ?s = kernel_heap s" "cpu_regs ?s = cpu_regs s"
    "data0 (tasks_lock ?s) = 0" "state (swapper_task_struct ?s 0) = RUNNING" "stack (swapper_task_struct ?s 0) = ?k"
    "stack (swapper_task_struct ?s (Suc 0)) = ?k + PAGE_SIZE"
    "thread_info_task ?s = (thread_info_task s)(?k := Swapper 0, ?k + PAGE_SIZE := Swapper 1)"
    using assms(1,3) by (simp_all add: init_sched_def init_swapper_def upd_task_def NUM_CPUS_def upt_rec spin_lock_init_def Let_def)
  have ne: "?k + PAGE_SIZE \<noteq> ?k" by (simp add: PAGE_SIZE_def)
  have ci: "current_thread_info ?s = ?k" using assms(5) f(5) by (simp add: current_thread_info_def)
  show c: "get_current_proc ?s = Swapper 0" using ne by (simp add: get_current_proc_def ci f)
  have al: "t = Swapper 0" if "alive_here ?s t" for t
    using that by (auto simp: alive_here_def f zero_task_def split: task_ptr.splits)
  have "thread_info_task ?s (home ?s t) = t \<and> (t \<noteq> Swapper 0 \<longrightarrow> resumable ?s t)" if "alive_here ?s t" for t
    using al [OF that] ne by (simp add: home_def f)
  moreover have "home ?s (Swapper 0) = ?k" by (simp add: home_def f)
  ultimately show "sched_inv ?s" using assms(2,4) by (simp add: sched_inv_def f c ci valid_task_def NUM_CPUS_def)
  show "state (swapper_task_struct ?s 0) = RUNNING" "core_id ?s = 0" "daif ?s = daif s" "tasks ?s = (\<lambda>_. zero_task)" "kernel_heap ?s = kernel_heap s"
    by (simp_all add: f)
qed


lemma log_order: "get_order LOG_BUF_SIZE = 12"
  by code_simp

lemma init_printk_boot:
  assumes "daif_wf d"
  shows "\<exists>c. init_printk (\<lambda>_. 0) l = Some (set_run (\<lambda>_. 0) 0 4096 1, l\<lparr>kernel_log := c\<rparr>) \<and> cc_wf (d, c) \<and>
    cb_content m (cbuf c) = [] \<and> cb_room (cbuf c) = 0x1000000"
proof -
  have e: "(2 :: nat) ^ 12 = 4096" by simp
  have fr: "free_run (\<lambda>_. 0) 0 4096" "0 + 4096 \<le> MAX_NUM_PAGES" by (simp_all add: free_run_def MAX_NUM_PAGES_val)
  have o: "(12 :: nat) < 31" by simp
  have g: "get_free_pages (\<lambda>_. 0) 12 = Some (page_addr 0, set_run (\<lambda>_. 0) 0 4096 1)"
  proof (cases rule: get_free_pages_spec [OF o, of "\<lambda>_. 0", unfolded e])
    case (1 a)
    then have "a = 0" using fr by blast
    then show ?thesis using 1(1) by simp
  next
    case 2
    then show ?thesis using fr by blast
  qed
  have p: "(0 :: nat) < MAX_NUM_PAGES" by (simp add: MAX_NUM_PAGES_val)
  note pf = page_addr_facts [OF p]
  have b: "0 < unat (page_addr 0)" "unat (page_addr 0) + 0x1000000 < 2 ^ 64"
    using pf(2,3) by (auto simp: unat_gt_0 word_le_nat_alt pool_layout)
  have w: "wd 0x1000000 = LOG_BUF_SIZE" by (simp add: LOG_BUF_SIZE_def wd_def)
  obtain c where "init_concurrent_cbuf (Some (kernel_log l)) (page_addr 0) LOG_BUF_SIZE = Some c" "cc_wf (d, c)" "cb_content m (cbuf c) = []"
    "cb_room (cbuf c) = 0x1000000"
    using init_concurrent_cbuf_wf [OF b(1) _ _ b(2) assms, of "kernel_log l" m] by (auto simp: w)
  then show ?thesis using pf(3) by (intro exI [of _ c]) (simp add: init_printk_def log_order g)
qed

lemma daif_wf_enable: "daif_wf d \<Longrightarrow> daif_wf (enable_irq d) \<and> \<not> irqs_masked (enable_irq d)"
  by (auto simp: daif_wf_def enable_irq_def irqs_masked_def bit_eq_iff bit_simps)

text \<open>The interrupts after the first half of \<^verbatim>\<open>main\<close>.\<close>

definition main_devices :: "devices \<Rightarrow> devices" where
  "main_devices d = config_rtc (config_gic_cpu (enable_dist_int_send VIRT_GIC_DIST_BASE
     (set_int_cpu VIRT_GIC_DIST_BASE VIRT_INT_TIMER INT_TYPE_EDGE 0
       (set_int_cpu VIRT_GIC_DIST_BASE VIRT_INT_RTC INT_TYPE_LEVEL 0x2
         (set_int_cpu VIRT_GIC_DIST_BASE VIRT_INT_UART INT_TYPE_LEVEL 0x1 d)))))"

lemma main_interrupts:
  assumes "j < 1024"
  shows "int_enabled (main_devices d) j \<longleftrightarrow> int_enabled d j \<or> j = 30 \<or> j = 33 \<or> j = 34"
    "int_target (main_devices d) 33 = 1" "int_target (main_devices d) 34 = 2" "int_edge (main_devices d) 30"
  unfolding main_devices_def config_rtc_def config_gic_cpu_def config_registers VIRT_INT_TIMER_def VIRT_INT_UART_def VIRT_INT_RTC_def
  using assms by (simp_all only: write_w_other set_int_cpu_spec rel_simps simp_thms if_True if_False int_type.simps) blast


text \<open>What the boot code and the linker provide: CPU 0 runs on its own stack, the stacks are separate pages, and the addresses of functions are not null.\<close>

definition main_entry :: "kimage \<Rightarrow> main_image \<Rightarrow> ksys \<Rightarrow> bool" where
  "main_entry ki mi s \<longleftrightarrow> daif_wf (tdaif s) \<and> core_id (ksched s) = 0 \<and> stacks_apart (init_sched (ksched s)) \<and>
    current_thread_info (ksched s) = stack (swapper_task_struct (ksched s) 0) \<and> ki_run_timer ki \<noteq> NULL \<and>
    mi_kernel_init mi \<noteq> NULL \<and> mi_kernel_exit mi \<noteq> NULL \<and> mi_test_exception mi \<noteq> NULL \<and> mi_user_test mi \<noteq> NULL"

text \<open>The kernel is initialised: the drivers, the log and the timers are ready and the tick is running.\<close>

definition kernel_up :: "kimage \<Rightarrow> ksys \<Rightarrow> bool" where
  "kernel_up ki s \<longleftrightarrow> \<not> irqs_masked (tdaif s) \<and> timers_ready s [] \<and> uart_wf (kuart (trest s)) \<and> typed (kuart (trest s)) = [] \<and>
    \<not> uart_busy (kuart (trest s)) \<and> cc_wf (tdaif s, kernel_log (ulog (kuart (trest s)))) \<and>
    cb_content (klog_mem (ulog (kuart (trest s)))) (cbuf (kernel_log (ulog (kuart (trest s))))) = [] \<and>
    cb_room (cbuf (kernel_log (ulog (kuart (trest s))))) = 0x1000000 \<and>
    usage (kvm (trest s)) = set_run (\<lambda>_. 0) 0 4096 1 \<and> softirq_vec (ksoft (trest s)) SOFTIRQ_TIMER = ki_run_timer ki \<and>
    khw (trest s) = \<lparr>tick = 0, cntp_tval = TICK_TIMER_COUNT, cntp_ctl = 1\<rparr>"

lemma stacks_apart_cong:
  "proc_kernel_stacks s' = proc_kernel_stacks s \<Longrightarrow> swapper_task_struct s' = swapper_task_struct s \<Longrightarrow> stacks_apart s' = stacks_apart s"
proof -
  assume "proc_kernel_stacks s' = proc_kernel_stacks s" "swapper_task_struct s' = swapper_task_struct s"
  then have "home s' = home s" by (simp add: home_def fun_eq_iff split: task_ptr.splits)
  then show "stacks_apart s' = stacks_apart s" by (simp add: stacks_apart_def)
qed

lemma init_sched_stacks:
  "proc_kernel_stacks (init_sched s) = proc_kernel_stacks s"
  "swapper_task_struct s' = swapper_task_struct s \<Longrightarrow> swapper_task_struct (init_sched s') = swapper_task_struct (init_sched s)"
  by (simp_all add: init_sched_def init_swapper_def upd_task_def NUM_CPUS_def upt_rec Let_def)

lemma init_sched_heap: "kernel_heap (init_sched s) = kernel_heap s"
  by (simp add: init_sched_def init_swapper_def upd_task_def NUM_CPUS_def upt_rec Let_def)

lemma main_setup_run:
  assumes "main_entry ki mi s"
  shows "\<exists>s'. main_setup ki id2 (s, d) = Some (s', main_devices d) \<and> kernel_up ki s' \<and> daif_wf (tdaif s') \<and>
    (let sc = (ksched s')\<lparr>daif := tdaif s'\<rparr> in sched_inv sc \<and> get_current_proc sc = Swapper 0 \<and> core_id sc = 0 \<and>
      state (swapper_task_struct sc 0) = RUNNING \<and> tasks sc = (\<lambda>_. zero_task)) \<and>
    (\<exists>m. kernel_heap (ksched s') = kheap_start m)"
proof -
  define s0 where "s0 = clear_linear_bss s"
  have e: "daif_wf (enable_irq (tdaif s))" "\<not> irqs_masked (enable_irq (tdaif s))" using assms daif_wf_enable by (auto simp: main_entry_def)
  let ?sc = "vm_sched (kvm (trest s0))" and ?l = "ulog (kuart (trest s0))" and ?d = "enable_irq (tdaif s)"
  have f0: "core_id ?sc = 0" "tasks ?sc = (\<lambda>_. zero_task)" "proc_kernel_stacks ?sc = proc_kernel_stacks (ksched s)"
    "swapper_task_struct ?sc = swapper_task_struct (ksched s)" "cpu_regs ?sc = cpu_regs (ksched s)" "usage (kvm (trest s0)) = (\<lambda>_. 0)"
    "kernel_heap ?sc = kheap_start (hmem (kernel_heap (ksched s)))" "tdaif s0 = tdaif s" "thead s0 = NULL"
    "uart_in_buf (kuart (trest s0)) = replicate UART_IN_BUF_LEN 0" "uib_index (kuart (trest s0)) = 0" "uart_busy (kuart (trest s0)) = False"
    "tick (khw (trest s0)) = 0"
    using assms by (simp_all add: s0_def clear_linear_bss_def upd_kern_def ksched_def main_entry_def)
  obtain c where c: "init_printk (\<lambda>_. 0) ?l = Some (set_run (\<lambda>_. 0) 0 4096 1, ?l\<lparr>kernel_log := c\<rparr>)" "cc_wf (?d, c)"
    "cb_content (klog_mem ?l) (cbuf c) = []" "cb_room (cbuf c) = 0x1000000"
    using init_printk_boot [OF e(1)] by blast
  define s' where "s' = fst (the (main_setup ki id2 (s, d)))"
  have run: "main_setup ki id2 (s, d) = Some (s', main_devices d)"
    unfolding s'_def main_setup_def Let_def prod.case s0_def [symmetric] f0(6) c(1)
    by (simp add: main_devices_def config_hw_timer_def)
  have f1: "ksched s' = init_sched ?sc" "tdaif s' = ?d" "usage (kvm (trest s')) = set_run (\<lambda>_. 0) 0 4096 1"
    "thead s' = NULL" "data0 (timerlist_lock s') = 0"
    "kuart (trest s') = init_uart (ki_uib_wq_head ki) id2 ((kuart (trest s0))\<lparr>ulog := ?l\<lparr>kernel_log := c\<rparr>\<rparr>)"
    "khw (trest s') = \<lparr>tick = 0, cntp_tval = TICK_TIMER_COUNT, cntp_ctl = 1\<rparr>"
    "softirq_vec (ksoft (trest s')) SOFTIRQ_TIMER = ki_run_timer ki"
    using assms f0(8,9,13)
    unfolding s'_def main_setup_def Let_def prod.case s0_def [symmetric] f0(6) c(1)
    by (simp_all add: upd_kern_def ksched_def init_timer_module_def spin_lock_init_def config_hw_timer_def open_softirq_def SOFTIRQ_TIMER_def
        MAX_NUM_SOFTIRQ_def main_entry_def)
  have u: "uart_wf (kuart (trest s'))" "typed (kuart (trest s')) = []" "\<not> uart_busy (kuart (trest s'))"
    "ulog (kuart (trest s')) = ?l\<lparr>kernel_log := c\<rparr>"
    unfolding f1(6) using f0(10-12)
    by (simp_all add: init_uart_def config_uart_def set_uart_reg_def Let_def uart_wf_def UART_IN_BUF_LEN_def typed_def spin_lock_init_def)
  have up: "kernel_up ki s'"
    unfolding kernel_up_def u(4) f1(2) using e u(1-3) c(2-4) f1 by (simp add: timers_ready_def tlist_def)
  define sc where "sc = ?sc\<lparr>daif := ?d\<rparr>"
  have i: "init_sched sc = (init_sched ?sc)\<lparr>daif := ?d\<rparr>"
    by (simp add: sc_def init_sched_def init_swapper_def upd_task_def NUM_CPUS_def upt_rec Let_def)
  have "proc_kernel_stacks (init_sched sc) = proc_kernel_stacks (init_sched (ksched s))" using f0(3) by (simp add: init_sched_stacks(1) sc_def)
  moreover have "swapper_task_struct (init_sched sc) = swapper_task_struct (init_sched (ksched s))"
    by (rule init_sched_stacks(2)) (simp add: f0(4) sc_def)
  ultimately have "stacks_apart (init_sched sc)" using assms stacks_apart_cong [of "init_sched sc" "init_sched (ksched s)"] unfolding main_entry_def by blast
  moreover have "current_thread_info sc = stack (swapper_task_struct sc 0)"
    using assms f0(4,5) by (simp add: main_entry_def sc_def current_thread_info_def)
  moreover have "core_id sc = 0" "daif_wf (daif sc)" "tasks sc = (\<lambda>_. zero_task)" using f0(1,2) e(1) by (simp_all add: sc_def)
  ultimately have sch: "sched_inv (init_sched sc)" "get_current_proc (init_sched sc) = Swapper 0"
    "state (swapper_task_struct (init_sched sc) 0) = RUNNING" "core_id (init_sched sc) = 0" "tasks (init_sched sc) = (\<lambda>_. zero_task)"
    using init_sched_inv [of sc] by auto
  have "kernel_heap (ksched s') = kheap_start (hmem (kernel_heap (ksched s)))"
    using f0(7) unfolding f1(1) init_sched_heap .
  then have h: "\<exists>m. kernel_heap (ksched s') = kheap_start m" by blast
  have q: "(ksched s')\<lparr>daif := tdaif s'\<rparr> = init_sched sc" unfolding f1(1,2) i ..
  show ?thesis unfolding Let_def by (intro exI [of _ s'] conjI run up h) (unfold f1(2) q [unfolded f1(2)], (rule e(1) sch)+)
qed


lemma main_threads_run:
  assumes "sched_inv ((ksched s)\<lparr>daif := tdaif s\<rparr>)" "get_current_proc (ksched s) = Swapper 0" "core_id (ksched s) = 0"
    "state (swapper_task_struct (ksched s) 0) = RUNNING" "tasks (ksched s) = (\<lambda>_. zero_task)" "kernel_heap (ksched s) = kheap_start m"
    "\<forall>(name, f, args) \<in> set (main_thread_list mi). f \<noteq> NULL"
  shows "\<exists>sc. main_threads mi s = Some (True, upd_kern (\<lambda>k. k\<lparr>kvm := (kvm k)\<lparr>vm_sched := sc\<rparr>\<rparr>) s) \<and>
    threads_ok (mi_call_thread_func mi) (main_thread_list mi) sc \<and> core_id sc = 0 \<and> daif sc = tdaif s"
proof -
  obtain h where h: "init_kmalloc_free zero_lock (kheap_start m) = Some h" "kheap_inv h" "allocs h = {}" using kheap_booted by blast
  define sc0 where "sc0 = (ksched s)\<lparr>ttbr0 := (0, 0), kernel_heap := h, daif := tdaif s\<rparr>"
  have "sched_inv sc0" by (rule sched_inv_cong [OF assms(1)]) (use assms(1) in \<open>auto simp: sc0_def sched_inv_def\<close>)
  moreover have "get_current_proc sc0 = Swapper 0" using assms(2) by (simp add: sc0_def get_current_proc_def current_thread_info_def)
  ultimately have "threads_ok (mi_call_thread_func mi) [] sc0"
    using h(2,3) assms(3-5) by (simp add: threads_ok_def sc0_def zero_task_def)
  moreover have "length [] + length (main_thread_list mi) \<le> MAX_NUM_PROCESSES" by (simp add: main_thread_list_def MAX_NUM_PROCESSES_def)
  ultimately obtain sc where sc: "spawn_all (mi_call_thread_func mi) (main_thread_list mi) sc0 = Some (True, sc)"
    "threads_ok (mi_call_thread_func mi) (main_thread_list mi) sc" "daif sc = tdaif s" "core_id sc = 0"
    using spawn_all_run [OF _ assms(7)] assms(3) by (fastforce simp: sc0_def)
  have "main_threads mi s = Some (True, upd_kern (\<lambda>k. k\<lparr>kvm := (kvm k)\<lparr>vm_sched := sc\<rparr>\<rparr>) s)"
    using h(1) assms(6) sc(1,3)
    by (simp add: main_threads_def with_vm_def upd_kern_def ksched_def sc0_def Let_def)
  then show ?thesis using sc(2-4) by blast
qed

section \<open>Properties\<close>


definition demo_main :: main_image where
  "demo_main = \<lparr>mi_call_thread_func = 0xFFFFFFC040001000, mi_kernel_init = 0xFFFFFFC040002000, mi_kernel_exit = 0xFFFFFFC040003000,
     mi_test_exception = 0xFFFFFFC040004000, mi_user_test = 0xFFFFFFC040005000\<rparr>"


end
