(* ===== verification/Spec2Isabelle.thy ===== *)
theory Spec2Isabelle
  imports Pages Circular_Buffer Klist Kthread Mutex As_Inv Boot_Map Loader Sleep Shell Misc Start
begin

text \<open>
  A verification library for toutOS, a small operating system for 64-bit ARM (QEMU \<^verbatim>\<open>virt\<close> board).

  \<^bold>\<open>The program and its parts.\<close> The boot code turns on the MMU and jumps to \<^verbatim>\<open>main\<close>. The kernel has a page allocator and a heap, both on
  fixed parts of memory; a table of tasks with a scheduler per CPU; spin locks, mutexes and wait queues; a periodic
  timer interrupt that drives soft interrupts and software timers; a UART driver with a line discipline and a kernel
  log; and user processes with page tables of their own, which enter the kernel through system calls and page faults.
  The first process is loaded by a kernel thread, and its program uses a small C library.

  \<^bold>\<open>Theories and sources\<close> (paths under \<^verbatim>\<open>src/\<close>), from the bottom up:
  \<^item> \<open>Prelude\<close>, \<open>Memory\<close>: lists, options and words; the byte memory with little-endian words, and what a store leaves alone.
  \<^item> \<open>Arch\<close> (\<^verbatim>\<open>include/hardware.h\<close>, \<^verbatim>\<open>include/mmu.h\<close>, \<^verbatim>\<open>include/misc.h\<close>, \<^verbatim>\<open>include/stddef.h\<close>): constants and address arithmetic.
  \<^item> \<open>Cstring\<close> (\<^verbatim>\<open>include/string.h\<close>), \<open>Klist\<close> (\<^verbatim>\<open>include/list.h\<close>), \<open>Circular_Buffer\<close> (\<^verbatim>\<open>lib/circular_buffer.c\<close>): the library code; lists refine
    sequences, the ring buffer refines a bounded queue (locale \<open>fifo\<close>, interpreted for the plain and the locked buffer).
  \<^item> \<open>Spinlock\<close> (\<^verbatim>\<open>kernel/spinlock.c\<close>), \<open>Mutex\<close> (\<^verbatim>\<open>kernel/mutex.c\<close>), \<open>Wait\<close> (\<^verbatim>\<open>kernel/wait.c\<close>): locks as functions for one CPU and as step relations
    for several, with mutual exclusion by rule induction; sleeping and waking.
  \<^item> \<open>Mem_Alloc\<close>, \<open>Mem_Pool\<close>, \<open>Mem_Blocks\<close>, \<open>Mem_Walk\<close>, \<open>Mem_Contract\<close>, \<open>Mem_Service\<close> (\<^verbatim>\<open>mm/mm.c\<close>): the boundary-tag allocator on the bytes of
    its pool. The locale \<open>sbrk_provider\<close> is what it asks of the break, the locale \<open>allocator\<close> what it gives to its callers.
    \<open>Kmalloc\<close> (\<^verbatim>\<open>mm/memory.c\<close>) interprets both for the kernel and \<open>Usr\<close> (\<^verbatim>\<open>usr/unistd.c\<close>, \<^verbatim>\<open>usr/stdlib.c\<close>) for user programs, whose break is moved by the system call of the kernel model.
  \<^item> \<open>Pages\<close> (\<^verbatim>\<open>mm/memory.c\<close>), \<open>Page_Table\<close> (\<^verbatim>\<open>mm/page_table.c\<close>), \<open>Boot_Map\<close> (\<^verbatim>\<open>mm/mmu.c\<close>): the page allocator; three-level tables as pages of the byte memory, abstracted
    to a map from index paths to leaves; the locale \<open>page_source\<close> for the supplier of table pages, interpreted for the page
    allocator and for the boot allocator; the maps the boot code builds.
  \<^item> \<open>Sched\<close>, \<open>Sched_Inv\<close>, \<open>Kthread\<close> (\<^verbatim>\<open>kernel/sched.c\<close>): the task table, the choice of the next task, the context switch, new kernel threads.
  \<^item> \<open>Vm\<close>, \<open>As_Inv\<close> (\<^verbatim>\<open>kernel/sched.c\<close>, \<^verbatim>\<open>include/mm_types.h\<close>), \<open>User_Mem\<close>, \<open>Syscall\<close>, \<open>Fault\<close>, \<open>Brk\<close> (\<^verbatim>\<open>kernel/isr.c\<close>), \<open>Loader\<close> (\<^verbatim>\<open>kernel/main.c\<close>): address spaces, their
    invariant \<open>as_inv\<close>, the access to user memory through the tables, page faults, \<^verbatim>\<open>fork\<close>, \<^verbatim>\<open>brk\<close>, \<^verbatim>\<open>exit\<close>, and the loading of the first process.
  \<^item> \<open>Print\<close> (\<^verbatim>\<open>include/print.h\<close>), \<open>Printk\<close> (\<^verbatim>\<open>kernel/printk.c\<close>), \<open>Uart\<close> (\<^verbatim>\<open>kernel/uart.c\<close>): formatting (locale \<open>printer\<close>, interpreted for the console and the log), the kernel
    log, the driver with its line discipline.
  \<^item> \<open>Softirq\<close> (\<^verbatim>\<open>kernel/softirq.c\<close>, \<^verbatim>\<open>kernel/hw_timer.c\<close>), \<open>Timer\<close> (\<^verbatim>\<open>kernel/timer.c\<close>): soft interrupts, the tick, software timers.
  \<^item> \<open>Kernel\<close> (\<^verbatim>\<open>kernel/isr.c\<close>, \<^verbatim>\<open>kernel/sched.c\<close>) puts the parts together: one state, the interrupt handler, the dispatch of exceptions and system calls, and the calls
    that block. \<open>Wakeup\<close>, \<open>Sleep\<close> and \<open>Console\<close> hold the properties that cross components.
  \<^item> \<open>Usr\<close>, \<open>Shell\<close> (\<^verbatim>\<open>usr/unistd.c\<close>, \<^verbatim>\<open>usr/stdlib.c\<close>, \<^verbatim>\<open>usr/user_init.c\<close>): the C library and the shell of user programs, run on the kernel model through the system call
    instruction \<open>svc_insn\<close>.
  \<^item> \<open>Misc\<close> (\<^verbatim>\<open>kernel/misc.c\<close>): delays by the counter register, the dump of the call chain and of memory.
  \<^item> \<open>Start\<close> (\<^verbatim>\<open>kernel/main.c\<close>): the interrupt controller and \<^verbatim>\<open>main\<close>, from the clearing of static memory to the idle loop.
  \<^bold>\<open>Conventions of the models.\<close> A structure is a record with the members of the source, an address a 64-bit word; objects whose
  bytes matter (heap blocks, page tables, buffers, user memory) live in the byte memory, others in a store per type. A C function is a function
  of the state to an option: \<open>None\<close> is a failed assertion, \<^verbatim>\<open>panic\<close>, undefined behaviour (an access through a null pointer, a signed
  overflow) or, for a loop written with \<open>partial_function\<close>, not coming back. Unsigned arithmetic wraps at its width; signed arithmetic is on integers with the
  range written out. Error codes are values. Functions that C passes as pointers (the break, the page supplier, the output of a character, timer and soft-interrupt
  actions) are arguments. Where a task sleeps, the rest of the system is the argument \<open>env\<close>, a function on the whole state; the properties
  of \<open>Sleep\<close> say what they require of it. Device registers are lists of the values written, or fields that hold what was
  written last; values read from a device are arguments. Messages printed for information are left out.

  \<^bold>\<open>What the properties show.\<close> The heap: integrity under any sequence of calls and stores of its clients, disjoint areas, the count of bytes in use, when a request succeeds, the
  wrap-around of a huge one. Pages and tables: first fit, round trip of freeing, what mapping and unmapping do to every translation, the boot maps. The
  scheduler: the chosen task, the switch, its invariant, new threads. Address spaces: every operation keeps them well formed and apart from each
  other, and exit gives everything back but the block descriptors. Locks and queues: exclusion, no lost waiter below process 32, order of the ring buffer. Time: exactly the due timers fire,
  once; sleepers wake, and sleeping ends. Console: what is typed is the edited line, what is printed is the formatted text, what is logged is transmitted completely and in
  order; the system calls hand lines and bytes over exactly. User programs: the contract of \<^verbatim>\<open>malloc\<close> on the system call \<^verbatim>\<open>brk\<close>, \<^verbatim>\<open>calloc\<close> as \<^verbatim>\<open>malloc\<close>, and a round of the shell from the typed line to the characters sent. The start: \<^verbatim>\<open>main\<close> reaches its idle loop with every subsystem initialised and its threads ready. Properties about behaviour that is a defect are stated as such, and the
  manifest lists the findings.

  \<^bold>\<open>Bounds and fuel.\<close> No definition uses fuel. Loops over counters have termination proofs; loops that follow pointers, poll or sleep
  are partial functions, and the properties prove that they return. Where a property bounds an input (fewer than \<open>2 ^ 31\<close> bytes written, a
  tick count below \<open>2 ^ 30\<close>), the bound is the range in which the \<^verbatim>\<open>int\<close> arithmetic of the source is defined.

  \<^bold>\<open>Not modelled.\<close> The assembly files (\<^verbatim>\<open>boot/boot.S\<close>, \<^verbatim>\<open>kernel/irq.S\<close>) except for the order of their calls and the effect of
  the context switch; the functions that only print (\<^verbatim>\<open>dump_tasks\<close>, \<^verbatim>\<open>dump_vma\<close>, \<^verbatim>\<open>show_pt_regs\<close>, \<^verbatim>\<open>show_esr\<close>, \<^verbatim>\<open>dump_mem_blk\<close>, \<^verbatim>\<open>print_spin_lock\<close>); the
  register print-outs, the deliberate faults and the firmware calls of \<^verbatim>\<open>main\<close>; test code (\<^verbatim>\<open>include/test_mem_alloc.h\<close>, \<^verbatim>\<open>tests/\<close>, the
  test processes of \<^verbatim>\<open>usr/user_init.c\<close>, \<^verbatim>\<open>boot/pre_mmu.c\<close>, \<^verbatim>\<open>test_printk\<close>); builds the makefile does not select (\<^verbatim>\<open>MMU_BY_BLOCK\<close>, polled output).
  Caches, the TLB beyond a log of its invalidations, weak memory ordering and the timing of interrupts inside a function are outside the
  models; concurrency is treated in the step relations of \<open>Spinlock\<close> and \<open>Mutex\<close>.
\<close>

end
